(* ===== verification/Tier_Prelude.thy ===== *)
theory Tier_Prelude
  imports Main "HOL-Library.Word" "HOL-Library.Finite_Map"
begin

text \<open>
  Shared vocabulary of the development: Rust's \<open>Result\<close> as a sum, the widths of the machine
  integers the code uses (\<open>u64\<close> counters and stamps are 64-bit words that wrap, \<open>usize\<close> weights
  are naturals with the saturating operations written out), hash maps as finite maps, and the
  algebra of the lists of displaced entries and of layered maps on which the router's proofs rest.
\<close>

section \<open>Results\<close>

text \<open>\<open>Result<T, E>\<close>: the error is the left summand.\<close>

type_synonym ('a, 'e) result = "'e + 'a"

abbreviation Ok :: "'a \<Rightarrow> ('a, 'e) result" where
  "Ok \<equiv> Inr"

abbreviation Err :: "'e \<Rightarrow> ('a, 'e) result" where
  "Err \<equiv> Inl"

fun is_ok :: "('a, 'e) result \<Rightarrow> bool" where
  "is_ok (Ok _) = True"
| "is_ok (Err _) = False"

text \<open>\<open>Result::map_err\<close>.\<close>

definition map_err :: "('e \<Rightarrow> 'f) \<Rightarrow> ('a, 'e) result \<Rightarrow> ('a, 'f) result" where
  "map_err f r = map_sum f id r"

lemma map_err_simps [simp]:
  "map_err f (Ok a) = Ok a"
  "map_err f (Err e) = Err (f e)"
  by (simp_all add: map_err_def)

lemma map_err_eq_Ok [simp]: "map_err f r = Ok a \<longleftrightarrow> r = Ok a"
  by (cases r) simp_all

lemma is_ok_map_err [simp]: "is_ok (map_err f r) = is_ok r"
  by (cases r) simp_all

lemma is_ok_map_sum [simp]: "is_ok (map_sum f g r) = is_ok r"
  by (cases r) simp_all

lemma is_okE: "is_ok r \<Longrightarrow> (\<And>a. r = Ok a \<Longrightarrow> P) \<Longrightarrow> P"
  by (cases r) auto

lemma is_ok_iff: "is_ok r \<longleftrightarrow> (\<exists>a. r = Ok a)"
  by (cases r) auto

section \<open>Machine integers\<close>

type_synonym u64 = "64 word"

text \<open>\<open>usize\<close> on the 64-bit targets the code is written for.\<close>

definition usize_max :: nat where
  "usize_max = 2 ^ 64 - 1"

definition saturating_add :: "nat \<Rightarrow> nat \<Rightarrow> nat" where
  "saturating_add a b = min (a + b) usize_max"

definition saturating_sub :: "nat \<Rightarrow> nat \<Rightarrow> nat" where
  "saturating_sub a b = a - b"

definition saturating_mul :: "nat \<Rightarrow> nat \<Rightarrow> nat" where
  "saturating_mul a b = min (a * b) usize_max"

text \<open>The plain subtraction, which wraps in a release build.\<close>

definition usize_sub :: "nat \<Rightarrow> nat \<Rightarrow> nat" where
  "usize_sub a b = (if b \<le> a then a - b else a + (usize_max + 1) - b)"

lemma saturating_add_exact: "a + b \<le> usize_max \<Longrightarrow> saturating_add a b = a + b"
  by (simp add: saturating_add_def)

lemma saturating_add_le: "saturating_add a b \<le> a + b"
  by (simp add: saturating_add_def)

lemma saturating_sub_mono: "a \<le> b \<Longrightarrow> saturating_sub a c \<le> b - c"
  by (simp add: saturating_sub_def)

lemma saturating_mul_le: "saturating_mul a b \<le> a * b"
  by (simp add: saturating_mul_def)

section \<open>Hash maps\<close>

text \<open>
  A \<open>HashMap\<close> is a finite map; \<open>len\<close>, \<open>contains_key\<close>, \<open>insert\<close> and \<open>remove\<close> are the library's
  operations. The code never observes the iteration order of a hash map.
\<close>

definition hm_len :: "('k, 'v) fmap \<Rightarrow> nat" where
  "hm_len m = fcard (fmdom m)"

definition hm_contains :: "('k, 'v) fmap \<Rightarrow> 'k \<Rightarrow> bool" where
  "hm_contains m k = (fmlookup m k \<noteq> None)"

lemma hm_len_empty [simp]: "hm_len fmempty = 0"
  by (simp add: hm_len_def)

lemma hm_len_upd: "hm_len (fmupd k v m) = (if hm_contains m k then hm_len m else Suc (hm_len m))"
  by (auto simp: hm_len_def hm_contains_def fcard_finsert_if fmlookup_dom_iff)

lemma hm_len_drop: "hm_len (fmdrop k m) = (if hm_contains m k then hm_len m - 1 else hm_len m)"
  by (auto simp: hm_len_def hm_contains_def fmlookup_dom_iff intro!: arg_cong [where f = fcard])

lemma hm_contains_iff: "hm_contains m k \<longleftrightarrow> k |\<in>| fmdom m"
  by (auto simp: hm_contains_def fmlookup_dom_iff)

lemma hm_len_pos: "hm_contains m k \<Longrightarrow> 0 < hm_len m"
  by (auto simp: hm_len_def hm_contains_iff card_gt_0_iff fcard.rep_eq)

lemma hm_len_0_iff: "hm_len m = 0 \<longleftrightarrow> (\<forall>k. fmlookup m k = None)"
  by (metis fcard_0_eq fempty_iff fmdom_notD fmdom_notI fset_eqI hm_len_def)

section \<open>Displaced entries and layered maps\<close>

text \<open>
  \<open>Displaced<K, V>\<close>: entries an insert evicted, in eviction order. Read as a map, the last
  occurrence of a key is the most recent value and wins.
\<close>

type_synonym ('k, 'v) displaced = "('k \<times> 'v) list"

definition pend :: "('k, 'v) displaced \<Rightarrow> ('k \<rightharpoonup> 'v)" where
  "pend d = map_of (rev d)"

lemma pend_Nil [simp]: "pend [] = Map.empty"
  by (simp add: pend_def)

lemma pend_append [simp]: "pend (a @ b) = pend a ++ pend b"
  by (simp add: pend_def)

lemma pend_single [simp]: "pend [(k, v)] = [k \<mapsto> v]"
  by (simp add: pend_def)

lemma pend_Cons: "pend ((k, v) # d) = [k \<mapsto> v] ++ pend d"
  by (simp add: pend_def)

lemma pend_None_iff: "pend d k = None \<longleftrightarrow> k \<notin> fst ` set d"
  by (auto simp: pend_def map_of_eq_None_iff)

text \<open>
  What a stack of layers serves, topmost first: the first layer that holds the key answers.
  \<open>m ++ n\<close> prefers \<open>n\<close>, so the topmost layer is added last.
\<close>

fun layers :: "('k \<rightharpoonup> 'v) list \<Rightarrow> ('k \<rightharpoonup> 'v)" where
  "layers [] = Map.empty"
| "layers (m # ms) = layers ms ++ m"

lemma layers_append [simp]: "layers (ms @ ns) = layers ns ++ layers ms"
  by (induction ms) simp_all

lemma layers_None_iff: "layers ms k = None \<longleftrightarrow> (\<forall>m \<in> set ms. m k = None)"
  by (induction ms) (auto simp: map_add_None)

lemma map_add_upd_absorb: "m ++ [k \<mapsto> v] ++ n ++ [k \<mapsto> v] = m ++ n ++ [k \<mapsto> v]"
  by (rule ext) (simp add: map_add_def split: option.splits)

lemma map_add_chain: "a ++ d = f \<Longrightarrow> b ++ c = d ++ e \<Longrightarrow> a ++ b ++ c = f ++ e"
  by (metis map_add_assoc)

lemma map_add_upd_same: "m k = Some v \<Longrightarrow> m ++ [k \<mapsto> v] = m"
  by (rule ext) (simp add: map_add_def)

lemma map_add_upd_under: "n k = None \<or> n k = Some v \<Longrightarrow> m ++ [k \<mapsto> v] ++ n = m ++ n ++ [k \<mapsto> v]"
  by (rule ext) (auto simp: map_add_def split: option.splits)

lemma map_add_absorb: "m ++ d ++ n ++ d = m ++ n ++ (d :: 'k \<rightharpoonup> 'v)"
  by (rule ext) (simp add: map_add_def split: option.splits)

lemma map_add_swap_eq: "a ++ b = c ++ d \<Longrightarrow> a ++ (b ++ e) = c ++ (d ++ e)"
  by simp

lemma layers_Some_in: "layers ms k = Some v \<Longrightarrow> \<exists>m \<in> set ms. m k = Some v"
  by (induction ms) (auto simp: map_add_Some_iff)

end
