(* ===== verification/Policy.thy ===== *)
theory Policy
  imports Tier_Prelude
begin

text \<open>
  \<open>tierstore-core/src/policy.rs\<close>: the enums and structs that select a hierarchy's behaviour, with
  the \<open>#[default]\<close> variants as definitions. \<open>FailFast\<close> is a variant of two enums of the source;
  the write one is called \<open>FailFastWrite\<close> here.
\<close>

datatype eviction = Fifo | Lru

datatype promote = Never | TopOnly | AllAbove

datatype on_read_error = FallThrough | FailFast

datatype on_write_error = FailFastWrite | BestEffort

datatype write_mode = WriteThrough | WriteAround

record read_policy =
  rp_promote :: promote
  rp_on_error :: on_read_error

record policy =
  pol_read :: read_policy
  pol_write :: write_mode
  pol_on_write_error :: on_write_error
  pol_demote_displaced :: bool

definition read_policy_default :: read_policy where
  "read_policy_default = \<lparr>rp_promote = Never, rp_on_error = FallThrough\<rparr>"

definition policy_default :: policy where
  "policy_default =
     \<lparr>pol_read = read_policy_default, pol_write = WriteThrough,
      pol_on_write_error = FailFastWrite, pol_demote_displaced = False\<rparr>"

end
