(* ===== verification/Tier_Traits.thy ===== *)
theory Tier_Traits
  imports Tier_Prelude
begin

text \<open>
  \<open>tierstore-core/src/tier.rs\<close>: the capability traits. A tier is a table of operations over a state
  \<open>'s\<close> (the \<open>&self\<close> with its interior mutability): every operation takes the state and returns its
  result together with the next state. A trait implementation is a value of these records; a
  trait object is such a table paired with a state. The default bodies of the batch methods are
  functions here, and the documented contract of the traits is a chain of locales:
  \<open>single_laws\<close> (the one-key operations), \<open>tier_laws\<close> (batches too), \<open>default_batch\<close> (batches are
  the default loops, which gives \<open>tier_laws\<close>) and \<open>reliable_tiers\<close> (no operation fails).
\<close>

section \<open>The traits as operation tables\<close>

record ('s, 'k, 'v, 'e) tier_read =
  t_name :: "'s \<Rightarrow> string"
  t_get :: "'s \<Rightarrow> 'k \<Rightarrow> ('v option, 'e) result \<times> 's"
  t_exists :: "'s \<Rightarrow> 'k \<Rightarrow> (bool, 'e) result \<times> 's"
  t_get_many :: "'s \<Rightarrow> 'k list \<Rightarrow> ('v option list, 'e) result \<times> 's"

record ('s, 'k, 'v, 'e) tier_ops = "('s, 'k, 'v, 'e) tier_read" +
  t_put :: "'s \<Rightarrow> 'k \<Rightarrow> 'v \<Rightarrow> (('k, 'v) displaced, 'e) result \<times> 's"
  t_delete :: "'s \<Rightarrow> 'k \<Rightarrow> (bool, 'e) result \<times> 's"
  t_put_many :: "'s \<Rightarrow> ('k \<times> 'v) list \<Rightarrow> (('k, 'v) displaced, 'e) result \<times> 's"
  t_delete_many :: "'s \<Rightarrow> 'k list \<Rightarrow> (bool list, 'e) result \<times> 's"

text \<open>
  The default batch methods: a loop over the one-key operation that stops at the first error and
  keeps what was done before it.
\<close>

fun get_many_default ::
  "('s \<Rightarrow> 'k \<Rightarrow> ('v option, 'e) result \<times> 's) \<Rightarrow> 's \<Rightarrow> 'k list \<Rightarrow> ('v option list, 'e) result \<times> 's"
where
  "get_many_default get s [] = (Ok [], s)"
| "get_many_default get s (k # ks) =
     (case get s k of
        (Err e, s1) \<Rightarrow> (Err e, s1)
      | (Ok v, s1) \<Rightarrow>
          (case get_many_default get s1 ks of
             (Err e, s2) \<Rightarrow> (Err e, s2)
           | (Ok vs, s2) \<Rightarrow> (Ok (v # vs), s2)))"

fun put_many_default ::
  "('s \<Rightarrow> 'k \<Rightarrow> 'v \<Rightarrow> (('k, 'v) displaced, 'e) result \<times> 's) \<Rightarrow> 's \<Rightarrow> ('k \<times> 'v) list \<Rightarrow>
   (('k, 'v) displaced, 'e) result \<times> 's"
where
  "put_many_default put s [] = (Ok [], s)"
| "put_many_default put s ((k, v) # es) =
     (case put s k v of
        (Err e, s1) \<Rightarrow> (Err e, s1)
      | (Ok d, s1) \<Rightarrow>
          (case put_many_default put s1 es of
             (Err e, s2) \<Rightarrow> (Err e, s2)
           | (Ok ds, s2) \<Rightarrow> (Ok (d @ ds), s2)))"

fun delete_many_default ::
  "('s \<Rightarrow> 'k \<Rightarrow> (bool, 'e) result \<times> 's) \<Rightarrow> 's \<Rightarrow> 'k list \<Rightarrow> (bool list, 'e) result \<times> 's"
where
  "delete_many_default del s [] = (Ok [], s)"
| "delete_many_default del s (k # ks) =
     (case del s k of
        (Err e, s1) \<Rightarrow> (Err e, s1)
      | (Ok b, s1) \<Rightarrow>
          (case delete_many_default del s1 ks of
             (Err e, s2) \<Rightarrow> (Err e, s2)
           | (Ok bs, s2) \<Rightarrow> (Ok (b # bs), s2)))"

section \<open>Listing pages\<close>

record ('k, 'c) page =
  page_keys :: "'k list"
  page_next :: "'c option"

text \<open>
  The page every listing tier of the source cuts out of its key sequence: skip to the cursor, take
  \<open>limit\<close> keys, and give the end offset as the next cursor while keys remain.
\<close>

definition page_of :: "'k list \<Rightarrow> nat option \<Rightarrow> nat \<Rightarrow> ('k, nat) page" where
  "page_of all cursor limit =
     (let offset = (case cursor of None \<Rightarrow> 0 | Some c \<Rightarrow> c);
          ks = take limit (drop offset all);
          fin = saturating_add offset (length ks)
      in \<lparr>page_keys = ks, page_next = (if 0 < limit \<and> fin < length all then Some fin else None)\<rparr>)"

text \<open>A caller that follows the cursors, for at most \<open>fuel\<close> pages.\<close>

fun follow_pages :: "nat \<Rightarrow> 'k list \<Rightarrow> nat option \<Rightarrow> nat \<Rightarrow> 'k list" where
  "follow_pages 0 all cursor limit = []"
| "follow_pages (Suc fuel) all cursor limit =
     (let p = page_of all cursor limit in
      page_keys p @
      (case page_next p of None \<Rightarrow> [] | Some c \<Rightarrow> follow_pages fuel all (Some c) limit))"

lemma follow_pages_from:
  assumes "0 < limit" "length all \<le> usize_max" "length all - c < fuel"
  shows "follow_pages fuel all (Some c) limit = drop c all"
  using assms
proof (induction fuel arbitrary: c)
  case 0
  then show ?case by simp
next
  case (Suc fuel)
  let ?ks = "take limit (drop c all)"
  show ?case
  proof (cases "c + length ?ks < length all")
    case True
    then have len: "length ?ks = limit" by auto
    have "follow_pages fuel all (Some (c + limit)) limit = drop (c + limit) all"
      using Suc.prems True len by (intro Suc.IH) auto
    moreover have "saturating_add c (length ?ks) = c + limit"
      using True Suc.prems len by (simp add: saturating_add_exact)
    moreover have "take limit (drop c all) @ drop (c + limit) all = drop c all"
      by (metis add.commute append_take_drop_id drop_drop)
    ultimately show ?thesis
      using True Suc.prems len by (simp add: page_of_def Let_def)
  next
    case False
    then have ks: "?ks = drop c all" by (cases "c \<le> length all") auto
    have "\<not> saturating_add c (length ?ks) < length all"
      using False Suc.prems by (simp add: saturating_add_def min_def not_less)
    with ks show ?thesis by (simp add: page_of_def Let_def)
  qed
qed

section \<open>The contract\<close>

text \<open>Deleting a sequence of keys: the flags of the sequential removals.\<close>

fun delete_flags :: "('k \<rightharpoonup> 'v) \<Rightarrow> 'k list \<Rightarrow> bool list" where
  "delete_flags m [] = []"
| "delete_flags m (k # ks) = (m k \<noteq> None) # delete_flags (m(k := None)) ks"

lemma delete_flags_restrict: "(m(k := None)) |` (- set ks) = m |` (- set (k # ks))"
  by (rule ext) (simp add: restrict_map_def)

lemma length_delete_flags [simp]: "length (delete_flags m ks) = length ks"
  by (induction ks arbitrary: m) simp_all

text \<open>
  \<open>con t s\<close> is what the tier with operations \<open>t\<close> and state \<open>s\<close> holds, \<open>inv t s\<close> the states it can
  be in. Reads do not change the contents and answer exactly or fail; a successful put holds the
  new entry and every old one, but for the displaced entries it returns; a successful delete
  removes exactly the key. A failing write keeps the invariant and nothing else.
\<close>

locale single_laws =
  fixes inv :: "('s, 'k, 'v, 'e) tier_ops \<Rightarrow> 's \<Rightarrow> bool"
    and con :: "('s, 'k, 'v, 'e) tier_ops \<Rightarrow> 's \<Rightarrow> ('k \<rightharpoonup> 'v)"
  assumes get_inv: "inv t s \<Longrightarrow> inv t (snd (t_get t s k))"
    and get_con: "inv t s \<Longrightarrow> con t (snd (t_get t s k)) = con t s"
    and get_res: "inv t s \<Longrightarrow> fst (t_get t s k) = Ok x \<Longrightarrow> x = con t s k"
    and exists_inv: "inv t s \<Longrightarrow> inv t (snd (t_exists t s k))"
    and exists_con: "inv t s \<Longrightarrow> con t (snd (t_exists t s k)) = con t s"
    and exists_res: "inv t s \<Longrightarrow> fst (t_exists t s k) = Ok b \<Longrightarrow> b \<longleftrightarrow> con t s k \<noteq> None"
    and put_inv: "inv t s \<Longrightarrow> inv t (snd (t_put t s k v))"
    and put_con: "inv t s \<Longrightarrow> fst (t_put t s k v) = Ok d \<Longrightarrow>
          pend d ++ con t (snd (t_put t s k v)) = con t s ++ [k \<mapsto> v]"
    and delete_inv: "inv t s \<Longrightarrow> inv t (snd (t_delete t s k))"
    and delete_con: "inv t s \<Longrightarrow> fst (t_delete t s k) = Ok b \<Longrightarrow>
          con t (snd (t_delete t s k)) = (con t s)(k := None)"
    and delete_res: "inv t s \<Longrightarrow> fst (t_delete t s k) = Ok b \<Longrightarrow> b \<longleftrightarrow> con t s k \<noteq> None"

locale tier_laws = single_laws +
  assumes get_many_inv: "inv t s \<Longrightarrow> inv t (snd (t_get_many t s ks))"
    and get_many_con: "inv t s \<Longrightarrow> con t (snd (t_get_many t s ks)) = con t s"
    and get_many_res: "inv t s \<Longrightarrow> fst (t_get_many t s ks) = Ok vs \<Longrightarrow> vs = map (con t s) ks"
    and put_many_inv: "inv t s \<Longrightarrow> inv t (snd (t_put_many t s es))"
    and put_many_con: "inv t s \<Longrightarrow> fst (t_put_many t s es) = Ok d \<Longrightarrow>
          pend d ++ con t (snd (t_put_many t s es)) = con t s ++ pend es"
    and delete_many_inv: "inv t s \<Longrightarrow> inv t (snd (t_delete_many t s ks))"
    and delete_many_con: "inv t s \<Longrightarrow> fst (t_delete_many t s ks) = Ok bs \<Longrightarrow>
          con t (snd (t_delete_many t s ks)) = con t s |` (- set ks)"
    and delete_many_res: "inv t s \<Longrightarrow> fst (t_delete_many t s ks) = Ok bs \<Longrightarrow>
          bs = delete_flags (con t s) ks"

text \<open>The default loops keep the contract.\<close>

context single_laws begin

lemma get_many_default_laws:
  assumes "inv t s"
  shows "inv t (snd (get_many_default (t_get t) s ks)) \<and>
         con t (snd (get_many_default (t_get t) s ks)) = con t s \<and>
         (\<forall>vs. fst (get_many_default (t_get t) s ks) = Ok vs \<longrightarrow> vs = map (con t s) ks)"
  using assms
proof (induction ks arbitrary: s)
  case Nil
  then show ?case by simp
next
  case (Cons k ks)
  note get = get_inv [OF Cons.prems, of k] get_con [OF Cons.prems, of k]
    get_res [OF Cons.prems, of k]
  show ?case
    using get Cons.IH [OF get(1)]
    by (auto split: prod.splits sum.splits)
qed

lemma put_many_default_laws:
  assumes "inv t s"
  shows "inv t (snd (put_many_default (t_put t) s es)) \<and>
         (\<forall>d. fst (put_many_default (t_put t) s es) = Ok d \<longrightarrow>
              pend d ++ con t (snd (put_many_default (t_put t) s es)) = con t s ++ pend es)"
  using assms
proof (induction es arbitrary: s)
  case Nil
  then show ?case by simp
next
  case (Cons e es)
  obtain k v where e: "e = (k, v)" by (cases e)
  note put = put_inv [OF Cons.prems, of k v] put_con [OF Cons.prems, of k v]
  show ?case
    using put Cons.IH [OF put(1)]
    by (auto simp: e pend_Cons split: prod.splits sum.splits intro: map_add_chain)
qed

lemma delete_many_default_laws:
  assumes "inv t s"
  shows "inv t (snd (delete_many_default (t_delete t) s ks)) \<and>
         (\<forall>bs. fst (delete_many_default (t_delete t) s ks) = Ok bs \<longrightarrow>
              con t (snd (delete_many_default (t_delete t) s ks)) = con t s |` (- set ks) \<and>
              bs = delete_flags (con t s) ks)"
  using assms
proof (induction ks arbitrary: s)
  case Nil
  then show ?case by simp
next
  case (Cons k ks)
  note del = delete_inv [OF Cons.prems, of k] delete_con [OF Cons.prems, of k]
    delete_res [OF Cons.prems, of k]
  obtain r1 s1 where d1: "t_delete t s k = (r1, s1)" by fastforce
  obtain r2 s2 where d2: "delete_many_default (t_delete t) s1 ks = (r2, s2)" by fastforce
  have IH: "inv t s2 \<and> (\<forall>bs. r2 = Ok bs \<longrightarrow> con t s2 = con t s1 |` (- set ks) \<and>
              bs = delete_flags (con t s1) ks)"
    using Cons.IH [of s1] del(1) by (simp add: d1 d2)
  show ?case
  proof (cases r1)
    case (Inl e)
    with del(1) show ?thesis by (simp add: d1)
  next
    case (Inr b)
    with del(2,3) have b: "con t s1 = (con t s)(k := None)" "b \<longleftrightarrow> con t s k \<noteq> None"
      by (simp_all add: d1)
    show ?thesis
    proof (cases r2)
      case (Inl e)
      with IH show ?thesis by (simp add: d1 d2 Inr)
    next
      case [simp]: (Inr bs)
      from IH b have "con t s2 = con t s |` (- set (k # ks))"
        by (simp only: delete_flags_restrict) simp
      with IH b show ?thesis by (simp add: d1 d2 \<open>r1 = Inr b\<close>)
    qed
  qed
qed

end

text \<open>A tier that does not override the batch methods.\<close>

locale default_batch = single_laws +
  assumes get_many_loop: "inv t s \<Longrightarrow> t_get_many t s ks = get_many_default (t_get t) s ks"
    and put_many_loop: "inv t s \<Longrightarrow> t_put_many t s es = put_many_default (t_put t) s es"
    and delete_many_loop: "inv t s \<Longrightarrow> t_delete_many t s ks = delete_many_default (t_delete t) s ks"

sublocale default_batch \<subseteq> tier_laws inv con
  by unfold_locales
     (auto simp: get_many_loop put_many_loop delete_many_loop
           dest: get_many_default_laws put_many_default_laws delete_many_default_laws)

text \<open>A tier whose operations cannot fail, such as one with \<open>Infallible\<close> as its error type.\<close>

locale reliable_tiers = tier_laws +
  assumes get_ok: "inv t s \<Longrightarrow> is_ok (fst (t_get t s k))"
    and exists_ok: "inv t s \<Longrightarrow> is_ok (fst (t_exists t s k))"
    and get_many_ok: "inv t s \<Longrightarrow> is_ok (fst (t_get_many t s ks))"
    and put_ok: "inv t s \<Longrightarrow> is_ok (fst (t_put t s k v))"
    and put_many_ok: "inv t s \<Longrightarrow> is_ok (fst (t_put_many t s es))"
    and delete_ok: "inv t s \<Longrightarrow> is_ok (fst (t_delete t s k))"
    and delete_many_ok: "inv t s \<Longrightarrow> is_ok (fst (t_delete_many t s ks))"

text \<open>For a tier with the default batches it is enough that the one-key operations cannot fail.\<close>

locale reliable_default = default_batch +
  assumes get_fine: "inv t s \<Longrightarrow> is_ok (fst (t_get t s k))"
    and exists_fine: "inv t s \<Longrightarrow> is_ok (fst (t_exists t s k))"
    and put_fine: "inv t s \<Longrightarrow> is_ok (fst (t_put t s k v))"
    and delete_fine: "inv t s \<Longrightarrow> is_ok (fst (t_delete t s k))"
begin

lemma get_many_fine: "inv t s \<Longrightarrow> is_ok (fst (get_many_default (t_get t) s ks))"
proof (induction ks arbitrary: s)
  case (Cons k ks)
  then show ?case
    using get_fine [OF Cons.prems, of k] Cons.IH [OF get_inv [OF Cons.prems, of k]]
    by (auto split: prod.splits sum.splits)
qed simp

lemma put_many_fine: "inv t s \<Longrightarrow> is_ok (fst (put_many_default (t_put t) s es))"
proof (induction es arbitrary: s)
  case (Cons e es)
  obtain k v where e: "e = (k, v)" by (cases e)
  show ?case
    using put_fine [OF Cons.prems, of k v] Cons.IH [OF put_inv [OF Cons.prems, of k v]]
    by (auto simp: e split: prod.splits sum.splits)
qed simp

lemma delete_many_fine: "inv t s \<Longrightarrow> is_ok (fst (delete_many_default (t_delete t) s ks))"
proof (induction ks arbitrary: s)
  case (Cons k ks)
  then show ?case
    using delete_fine [OF Cons.prems, of k] Cons.IH [OF delete_inv [OF Cons.prems, of k]]
    by (auto split: prod.splits sum.splits)
qed simp

end

sublocale reliable_default \<subseteq> reliable_tiers inv con
  by unfold_locales
     (simp_all add: get_fine exists_fine put_fine delete_fine get_many_loop put_many_loop delete_many_loop
       get_many_fine put_many_fine delete_many_fine)

text \<open>
  Paging: following the cursors of \<open>list\<close> with any positive limit returns every key exactly
  once and in the listing order, within one page more than there are keys.
\<close>

theorem pages_cover_listing:
  assumes "0 < limit" "length all \<le> usize_max"
  shows "follow_pages (Suc (length all)) all None limit = all"
proof -
  have "follow_pages (Suc (length all)) all None limit =
        follow_pages (Suc (length all)) all (Some 0) limit"
    by (simp add: page_of_def Let_def)
  also have "\<dots> = all" using assms by (simp only: follow_pages_from) simp
  finally show ?thesis .
qed

theorem pages_cover_listing_witness:
  "follow_pages 4 [''a'', ''b'', ''c''] None 2 = [''a'', ''b'', ''c'']"
proof -
  have "length [''a'', ''b'', ''c''] \<le> usize_max" by (simp add: usize_max_def)
  from pages_cover_listing [OF _ this, of 2] show ?thesis by (simp add: eval_nat_numeral(2,3))
qed

end
