(* ===== verification/Memory_Core.thy ===== *)
theory Memory_Core
  imports Policy Tier_Traits
begin

text \<open>
  \<open>tierstore/src/memory.rs\<close>, the locked core \<open>Inner\<close>: a map of entries, an eviction queue of
  \<open>(key, stamp)\<close> tickets with lazy deletion, and the weight total. A ticket is live while its stamp
  is the stamp of the key's entry. Stamps are \<open>u64\<close> and wrap as in a release build (a build with
  overflow checks panics there instead).

  Lemmas: the eviction loop empties the queue only when the map is empty, so the bounds hold after
  every insert whatever the stamps are (\<open>mem_inv\<close>); nothing leaves the map without being returned.
\<close>

section \<open>State and operations\<close>

record 'v entry =
  e_value :: 'v
  e_weight :: nat
  e_stamp :: u64

record limits =
  lim_entries :: "nat option"
  lim_bytes :: "nat option"

record ('k, 'v) inner =
  i_map :: "('k, 'v entry) fmap"
  i_order :: "('k \<times> u64) list"
  i_total :: nat
  i_next :: u64

definition mem_empty :: "('k, 'v) inner" where
  "mem_empty = \<lparr>i_map = fmempty, i_order = [], i_total = 0, i_next = 0\<rparr>"

definition fresh_stamp :: "('k, 'v) inner \<Rightarrow> u64 \<times> ('k, 'v) inner" where
  "fresh_stamp s = (let n = i_next s + 1 in (n, s\<lparr>i_next := n\<rparr>))"

definition entry_live :: "('k, 'v entry) fmap \<Rightarrow> 'k \<times> u64 \<Rightarrow> bool" where
  "entry_live m t = (case fmlookup m (fst t) of None \<Rightarrow> False | Some e \<Rightarrow> e_stamp e = snd t)"

abbreviation ticket_live :: "('k, 'v) inner \<Rightarrow> 'k \<times> u64 \<Rightarrow> bool" where
  "ticket_live s \<equiv> entry_live (i_map s)"

definition mem_compact :: "('k, 'v) inner \<Rightarrow> ('k, 'v) inner" where
  "mem_compact s =
     (if max (saturating_mul (hm_len (i_map s)) 2) 16 < length (i_order s)
      then s\<lparr>i_order := filter (ticket_live s) (i_order s)\<rparr> else s)"

definition mem_over :: "('k, 'v) inner \<Rightarrow> limits \<Rightarrow> bool" where
  "mem_over s lim \<longleftrightarrow>
     (case lim_entries lim of None \<Rightarrow> False | Some mx \<Rightarrow> mx < hm_len (i_map s)) \<or>
     (case lim_bytes lim of None \<Rightarrow> False | Some mx \<Rightarrow> mx < i_total s)"

function evict_over :: "('k, 'v) inner \<Rightarrow> limits \<Rightarrow> ('k, 'v) displaced \<times> ('k, 'v) inner" where
  "evict_over s lim =
     (if mem_over s lim then
        (case i_order s of
           [] \<Rightarrow> ([], s)
         | (oldest, stamp) # rest \<Rightarrow>
             (let s1 = s\<lparr>i_order := rest\<rparr> in
              if \<not> ticket_live s1 (oldest, stamp) then evict_over s1 lim
              else
                (case fmlookup (i_map s1) oldest of
                   None \<Rightarrow> evict_over s1 lim
                 | Some e \<Rightarrow>
                     (let s2 = s1\<lparr>i_map := fmdrop oldest (i_map s1),
                                  i_total := saturating_sub (i_total s1) (e_weight e)\<rparr>;
                          (d, s3) = evict_over s2 lim
                      in ((oldest, e_value e) # d, s3)))))
      else ([], s))"
  by pat_completeness auto
termination
  by (relation "measure (\<lambda>(s, lim). length (i_order s))") auto

declare evict_over.simps [simp del]

definition mem_insert ::
  "('k, 'v) inner \<Rightarrow> 'k \<Rightarrow> 'v \<Rightarrow> nat \<Rightarrow> limits \<Rightarrow> eviction \<Rightarrow> ('k, 'v) displaced \<times> ('k, 'v) inner"
where
  "mem_insert s k v w lim ev =
     (let (stamp, s1) = fresh_stamp s;
          s2 = (case fmlookup (i_map s1) k of
                  Some e \<Rightarrow>
                    (let old = e_weight e;
                         e1 = e\<lparr>e_value := v, e_weight := w\<rparr>;
                         s' = (if ev = Lru
                               then s1\<lparr>i_map := fmupd k (e1\<lparr>e_stamp := stamp\<rparr>) (i_map s1),
                                       i_order := i_order s1 @ [(k, stamp)]\<rparr>
                               else s1\<lparr>i_map := fmupd k e1 (i_map s1)\<rparr>)
                     in s'\<lparr>i_total := saturating_sub (saturating_add (i_total s1) w) old\<rparr>)
                | None \<Rightarrow>
                    s1\<lparr>i_map := fmupd k \<lparr>e_value = v, e_weight = w, e_stamp = stamp\<rparr> (i_map s1),
                       i_order := i_order s1 @ [(k, stamp)],
                       i_total := saturating_add (i_total s1) w\<rparr>)
      in evict_over (mem_compact s2) lim)"

fun mem_insert_batch ::
  "('k, 'v) inner \<Rightarrow> ('k \<times> 'v \<times> nat) list \<Rightarrow> limits \<Rightarrow> eviction \<Rightarrow>
   ('k, 'v) displaced \<times> ('k, 'v) inner"
where
  "mem_insert_batch s [] lim ev = ([], s)"
| "mem_insert_batch s ((k, v, w) # es) lim ev =
     (let (d, s1) = mem_insert s k v w lim ev;
          (ds, s2) = mem_insert_batch s1 es lim ev
      in (d @ ds, s2))"

definition mem_touch :: "('k, 'v) inner \<Rightarrow> 'k \<Rightarrow> ('k, 'v) inner" where
  "mem_touch s k =
     (let (stamp, s1) = fresh_stamp s in
      mem_compact
        (case fmlookup (i_map s1) k of
           Some e \<Rightarrow> s1\<lparr>i_map := fmupd k (e\<lparr>e_stamp := stamp\<rparr>) (i_map s1),
                        i_order := i_order s1 @ [(k, stamp)]\<rparr>
         | None \<Rightarrow> s1))"

definition mem_fetch :: "('k, 'v) inner \<Rightarrow> 'k \<Rightarrow> eviction \<Rightarrow> 'v option \<times> ('k, 'v) inner" where
  "mem_fetch s k ev =
     (let s1 = (if ev = Lru \<and> hm_contains (i_map s) k then mem_touch s k else s)
      in (map_option e_value (fmlookup (i_map s1) k), s1))"

fun mem_fetch_batch ::
  "('k, 'v) inner \<Rightarrow> 'k list \<Rightarrow> eviction \<Rightarrow> 'v option list \<times> ('k, 'v) inner" where
  "mem_fetch_batch s [] ev = ([], s)"
| "mem_fetch_batch s (k # ks) ev =
     (let (v, s1) = mem_fetch s k ev; (vs, s2) = mem_fetch_batch s1 ks ev in (v # vs, s2))"

definition mem_remove :: "('k, 'v) inner \<Rightarrow> 'k \<Rightarrow> bool \<times> ('k, 'v) inner" where
  "mem_remove s k =
     (case fmlookup (i_map s) k of
        None \<Rightarrow> (False, s)
      | Some e \<Rightarrow> (True, s\<lparr>i_map := fmdrop k (i_map s),
                            i_total := saturating_sub (i_total s) (e_weight e)\<rparr>))"

fun mem_remove_batch :: "('k, 'v) inner \<Rightarrow> 'k list \<Rightarrow> bool list \<times> ('k, 'v) inner" where
  "mem_remove_batch s [] = ([], s)"
| "mem_remove_batch s (k # ks) =
     (let (b, s1) = mem_remove s k; (bs, s2) = mem_remove_batch s1 ks in (b # bs, s2))"

definition mem_page :: "('k, 'v) inner \<Rightarrow> nat option \<Rightarrow> nat \<Rightarrow> ('k, nat) page" where
  "mem_page s cursor limit = page_of (map fst (filter (ticket_live s) (i_order s))) cursor limit"

section \<open>Contents\<close>

text \<open>The values the map holds.\<close>

definition mem_con :: "('k, 'v) inner \<Rightarrow> ('k \<rightharpoonup> 'v)" where
  "mem_con s = (\<lambda>k. map_option e_value (fmlookup (i_map s) k))"

text \<open>The sum of the weights of the entries in the map, as opposed to the tracked total.\<close>

definition map_weight :: "('k, 'v entry) fmap \<Rightarrow> nat" where
  "map_weight m = (\<Sum>k \<in> fset (fmdom m). e_weight (the (fmlookup m k)))"

lemma map_weight_empty [simp]: "map_weight fmempty = 0"
  by (simp add: map_weight_def)

lemma map_weight_upd_new:
  "fmlookup m k = None \<Longrightarrow> map_weight (fmupd k e m) = map_weight m + e_weight e"
  unfolding map_weight_def
  by (auto simp: fmlookup_dom_iff intro!: sum.cong)

lemma map_weight_drop:
  assumes "fmlookup m k = Some e"
  shows "map_weight (fmdrop k m) + e_weight e = map_weight m"
proof -
  have "k \<in> fset (fmdom m)" using assms by (simp add: fmlookup_dom_iff)
  then have "map_weight m = e_weight (the (fmlookup m k)) +
      (\<Sum>k' \<in> fset (fmdom m) - {k}. e_weight (the (fmlookup m k')))"
    unfolding map_weight_def by (intro sum.remove) simp_all
  moreover have "map_weight (fmdrop k m) =
      (\<Sum>k' \<in> fset (fmdom m) - {k}. e_weight (the (fmlookup m k')))"
    unfolding map_weight_def by (intro sum.cong) auto
  ultimately show ?thesis using assms by simp
qed

lemma map_weight_upd_old:
  assumes "fmlookup m k = Some e0"
  shows "map_weight (fmupd k e m) + e_weight e0 = map_weight m + e_weight e"
proof -
  have "fmupd k e m = fmupd k e (fmdrop k m)" by (rule fmap_ext) simp
  then have "map_weight (fmupd k e m) = map_weight (fmdrop k m) + e_weight e"
    using map_weight_upd_new [of "fmdrop k m" k e] by simp
  with map_weight_drop [OF assms] show ?thesis by simp
qed

lemma mem_con_compact [simp]: "mem_con (mem_compact s) = mem_con s"
  by (simp add: mem_con_def mem_compact_def)

lemma mem_con_fields [simp]:
  "mem_con (s\<lparr>i_order := q\<rparr>) = mem_con s"
  "mem_con (s\<lparr>i_total := n\<rparr>) = mem_con s"
  "mem_con (s\<lparr>i_next := x\<rparr>) = mem_con s"
  by (simp_all add: mem_con_def)

lemma mem_con_map:
  "mem_con (s\<lparr>i_map := fmupd k e (i_map s)\<rparr>) = (mem_con s)(k \<mapsto> e_value e)"
  "mem_con (s\<lparr>i_map := fmdrop k (i_map s)\<rparr>) = (mem_con s)(k := None)"
  by (auto simp: mem_con_def)

text \<open>Nothing leaves the map silently: evicted entries and what is left make up the old contents.\<close>

lemma evict_over_con: "pend (fst (evict_over s lim)) ++ mem_con (snd (evict_over s lim)) = mem_con s"
proof (induction s lim rule: evict_over.induct)
  case (1 s lim)
  show ?case
  proof (cases "mem_over s lim")
    case False
    then show ?thesis by (subst (1 2) evict_over.simps) simp
  next
    case over: True
    show ?thesis
    proof (cases "i_order s")
      case Nil
      with over show ?thesis by (subst (1 2) evict_over.simps) simp
    next
      case (Cons t rest)
      obtain k st where t: "t = (k, st)" by (cases t)
      let ?s1 = "s\<lparr>i_order := rest\<rparr>"
      show ?thesis
      proof (cases "ticket_live ?s1 (k, st)")
        case False
        with "1.IH"(1) over Cons t have "pend (fst (evict_over ?s1 lim)) ++
            mem_con (snd (evict_over ?s1 lim)) = mem_con s" by simp
        with False over Cons t show ?thesis
          by (subst (1 2) evict_over.simps) simp
      next
        case live: True
        then obtain e where e: "fmlookup (i_map s) k = Some e"
          by (auto simp: entry_live_def split: option.splits)
        let ?s2 = "?s1\<lparr>i_map := fmdrop k (i_map ?s1),
                       i_total := saturating_sub (i_total ?s1) (e_weight e)\<rparr>"
        have IH: "pend (fst (evict_over ?s2 lim)) ++ mem_con (snd (evict_over ?s2 lim)) = mem_con ?s2"
          using "1.IH"(3) over Cons t live e by simp
        have ev: "evict_over s lim = ((k, e_value e) # fst (evict_over ?s2 lim), snd (evict_over ?s2 lim))"
          using live over Cons t e by (subst evict_over.simps) (simp add: Let_def split_def)
        have "mem_con ?s2 = (mem_con s)(k := None)" using e by (auto simp: mem_con_def)
        moreover have "[k \<mapsto> e_value e] ++ (mem_con s)(k := None) = mem_con s"
          using e by (auto simp: mem_con_def map_add_def fun_eq_iff split: option.splits)
        ultimately show ?thesis
          using IH by (simp add: ev pend_Cons) (metis map_add_assoc)
      qed
    qed
  qed
qed

lemma mem_insert_con:
  "pend (fst (mem_insert s k v w lim ev)) ++ mem_con (snd (mem_insert s k v w lim ev)) =
   (mem_con s)(k \<mapsto> v)"
  unfolding mem_insert_def fresh_stamp_def Let_def prod.case evict_over_con mem_con_compact
  by (auto simp: mem_con_def split: option.splits)

lemma mem_touch_con [simp]: "mem_con (mem_touch s k) = mem_con s"
  unfolding mem_touch_def fresh_stamp_def Let_def prod.case mem_con_compact
  by (auto simp: mem_con_def fun_eq_iff split: option.splits)

lemma mem_fetch_con [simp]: "mem_con (snd (mem_fetch s k ev)) = mem_con s"
  by (simp add: mem_fetch_def Let_def)

lemma mem_fetch_res: "fst (mem_fetch s k ev) = mem_con s k"
  using mem_touch_con [of s k] by (auto simp: mem_fetch_def Let_def mem_con_def fun_eq_iff)

lemma mem_remove_con: "mem_con (snd (mem_remove s k)) = (mem_con s)(k := None)"
  by (auto simp: mem_remove_def mem_con_def split: option.splits)

lemma mem_remove_res: "fst (mem_remove s k) \<longleftrightarrow> mem_con s k \<noteq> None"
  by (auto simp: mem_remove_def mem_con_def split: option.splits)

section \<open>The bounds, whatever the stamps\<close>

text \<open>
  Every entry has its live ticket in the queue, and the tracked total never exceeds the real one
  (the saturating addition can only lose weight). Neither part depends on stamps being unique, so
  the invariant survives a wrap of the stamp counter.
\<close>

definition mem_inv :: "('k, 'v) inner \<Rightarrow> bool" where
  "mem_inv s \<longleftrightarrow>
     (\<forall>k e. fmlookup (i_map s) k = Some e \<longrightarrow> (k, e_stamp e) \<in> set (i_order s)) \<and>
     i_total s \<le> map_weight (i_map s)"

lemma mem_inv_empty: "mem_inv mem_empty"
  by (simp add: mem_inv_def mem_empty_def)

lemma mem_inv_compact: "mem_inv s \<Longrightarrow> mem_inv (mem_compact s)"
  by (auto simp: mem_inv_def mem_compact_def entry_live_def)

lemma mem_inv_skip:
  assumes "mem_inv s" "i_order s = t # rest" "\<not> ticket_live s t"
  shows "mem_inv (s\<lparr>i_order := rest\<rparr>)"
  using assms by (cases t) (fastforce simp: mem_inv_def entry_live_def)

lemma mem_inv_evict:
  assumes "mem_inv s" "i_order s = (k, st) # rest" "fmlookup (i_map s) k = Some e"
  shows "mem_inv (s\<lparr>i_order := rest, i_map := fmdrop k (i_map s),
                    i_total := saturating_sub (i_total s) (e_weight e)\<rparr>)"
  using assms map_weight_drop [OF assms(3)]
  by (auto simp: mem_inv_def saturating_sub_def split: if_splits)

text \<open>One turn of the eviction loop, for inductions over it.\<close>

lemma evict_over_stop:
  "\<not> mem_over s lim \<Longrightarrow> evict_over s lim = ([], s)"
  "i_order s = [] \<Longrightarrow> evict_over s lim = ([], s)"
  by (subst evict_over.simps, simp)+

lemma evict_over_skip:
  "mem_over s lim \<Longrightarrow> i_order s = t # rest \<Longrightarrow> \<not> ticket_live s t \<Longrightarrow>
   evict_over s lim = evict_over (s\<lparr>i_order := rest\<rparr>) lim"
  by (subst evict_over.simps) (simp add: split_def)

lemma evict_over_pop:
  "mem_over s lim \<Longrightarrow> i_order s = (k, st) # rest \<Longrightarrow> fmlookup (i_map s) k = Some e \<Longrightarrow>
   e_stamp e = st \<Longrightarrow>
   evict_over s lim =
     (let r = evict_over (s\<lparr>i_order := rest, i_map := fmdrop k (i_map s),
                           i_total := saturating_sub (i_total s) (e_weight e)\<rparr>) lim
      in ((k, e_value e) # fst r, snd r))"
  by (subst evict_over.simps) (simp add: entry_live_def Let_def split_def)

lemma evict_over_induct [case_names stop skip pop]:
  assumes stop: "\<And>s. \<not> mem_over s lim \<or> i_order s = [] \<Longrightarrow> P s"
    and skip: "\<And>s t rest. mem_over s lim \<Longrightarrow> i_order s = t # rest \<Longrightarrow> \<not> ticket_live s t \<Longrightarrow>
          P (s\<lparr>i_order := rest\<rparr>) \<Longrightarrow> P s"
    and pop: "\<And>s k e rest. mem_over s lim \<Longrightarrow> i_order s = (k, e_stamp e) # rest \<Longrightarrow>
          fmlookup (i_map s) k = Some e \<Longrightarrow>
          P (s\<lparr>i_order := rest, i_map := fmdrop k (i_map s),
               i_total := saturating_sub (i_total s) (e_weight e)\<rparr>) \<Longrightarrow> P s"
  shows "P (s :: ('k, 'v) inner)"
proof (induction "length (i_order s)" arbitrary: s)
  case 0
  then show ?case by (intro stop) simp
next
  case (Suc n)
  then obtain t rest where o: "i_order s = t # rest" by (cases "i_order s") auto
  show ?case
  proof (cases "mem_over s lim")
    case False
    then show ?thesis by (intro stop) simp
  next
    case over: True
    show ?thesis
    proof (cases "ticket_live s t")
      case False
      show ?thesis by (rule skip [OF over o False]) (use Suc o in simp)
    next
      case True
      then obtain e where e: "fmlookup (i_map s) (fst t) = Some e" "e_stamp e = snd t"
        by (auto simp: entry_live_def split: option.splits)
      have o': "i_order s = (fst t, e_stamp e) # rest" using o e(2) by simp
      show ?thesis by (rule pop [OF over o' e(1)]) (use Suc o in simp)
    qed
  qed
qed

lemma evict_over_inv: "mem_inv s \<Longrightarrow> mem_inv (snd (evict_over s lim))"
proof (induction s rule: evict_over_induct [where lim = lim])
  case (stop s)
  then show ?case by (auto simp: evict_over_stop)
next
  case (skip s t rest)
  then show ?case by (simp add: evict_over_skip mem_inv_skip)
next
  case (pop s k e rest)
  then show ?case by (simp add: evict_over_pop Let_def mem_inv_evict)
qed

lemma mem_inv_no_tickets:
  assumes "mem_inv s" "i_order s = []"
  shows "\<not> mem_over s lim"
proof -
  have "i_map s = fmempty"
    using assms by (intro fmap_ext) (auto simp: mem_inv_def intro: option.exhaust)
  with assms show ?thesis by (auto simp: mem_inv_def mem_over_def split: option.splits)
qed

lemma evict_over_not_over: "mem_inv s \<Longrightarrow> \<not> mem_over (snd (evict_over s lim)) lim"
proof (induction s rule: evict_over_induct [where lim = lim])
  case (stop s)
  then show ?case by (auto simp: evict_over_stop mem_inv_no_tickets)
next
  case (skip s t rest)
  then show ?case by (simp add: evict_over_skip mem_inv_skip)
next
  case (pop s k e rest)
  then show ?case by (simp add: evict_over_pop Let_def mem_inv_evict)
qed

text \<open>The state in which an insert leaves the map, before compaction and eviction.\<close>

definition mem_store ::
  "('k, 'v) inner \<Rightarrow> 'k \<Rightarrow> 'v \<Rightarrow> nat \<Rightarrow> eviction \<Rightarrow> ('k, 'v) inner" where
  "mem_store s k v w ev =
     (let stamp = i_next s + 1;
          keep = (ev = Fifo \<and> hm_contains (i_map s) k);
          old = (case fmlookup (i_map s) k of None \<Rightarrow> 0 | Some e \<Rightarrow> e_weight e)
      in \<lparr>i_map = fmupd k \<lparr>e_value = v, e_weight = w,
                            e_stamp = (if keep then e_stamp (the (fmlookup (i_map s) k)) else stamp)\<rparr>
                   (i_map s),
          i_order = (if keep then i_order s else i_order s @ [(k, stamp)]),
          i_total = saturating_sub (saturating_add (i_total s) w) old,
          i_next = stamp\<rparr>)"

lemma entry_update_eqs:
  "e\<lparr>e_value := v, e_weight := w\<rparr> = \<lparr>e_value = v, e_weight = w, e_stamp = e_stamp e\<rparr>"
  "e\<lparr>e_value := v, e_weight := w, e_stamp := st\<rparr> = \<lparr>e_value = v, e_weight = w, e_stamp = st\<rparr>"
  by (cases e; simp)+

lemma mem_insert_store: "mem_insert s k v w lim ev = evict_over (mem_compact (mem_store s k v w ev)) lim"
  by (cases s; cases ev)
     (auto simp: mem_insert_def mem_store_def fresh_stamp_def Let_def hm_contains_def
                 saturating_sub_def entry_update_eqs split: option.splits)

lemma mem_inv_store:
  assumes "mem_inv s"
  shows "mem_inv (mem_store s k v w ev)"
proof -
  let ?m = "i_map s" and ?m' = "i_map (mem_store s k v w ev)"
  have tot: "i_total s \<le> map_weight ?m" using assms by (simp add: mem_inv_def)
  have "i_total (mem_store s k v w ev) \<le> map_weight ?m'"
  proof (cases "fmlookup ?m k")
    case None
    have "saturating_add (i_total s) w \<le> map_weight ?m + w"
      using tot saturating_add_le [of "i_total s" w] by linarith
    with None show ?thesis
      by (simp add: mem_store_def Let_def map_weight_upd_new saturating_sub_def)
  next
    case (Some e)
    have "saturating_add (i_total s) w - e_weight e \<le> map_weight ?m + w - e_weight e"
      using tot saturating_add_le [of "i_total s" w] by linarith
    moreover have "map_weight ?m' + e_weight e = map_weight ?m + w"
      using map_weight_upd_old [OF Some] by (simp add: mem_store_def Let_def)
    ultimately show ?thesis using Some by (simp add: mem_store_def Let_def saturating_sub_def)
  qed
  with assms show ?thesis
    by (auto simp: mem_inv_def mem_store_def Let_def hm_contains_def split: if_splits)
qed

lemma mem_inv_insert: "mem_inv s \<Longrightarrow> mem_inv (snd (mem_insert s k v w lim ev))"
  unfolding mem_insert_store by (intro evict_over_inv mem_inv_compact mem_inv_store)

lemma mem_insert_not_over: "mem_inv s \<Longrightarrow> \<not> mem_over (snd (mem_insert s k v w lim ev)) lim"
  unfolding mem_insert_store by (intro evict_over_not_over mem_inv_compact mem_inv_store)

lemma mem_touch_weight: "fmlookup m k = Some e \<Longrightarrow> map_weight (fmupd k (e\<lparr>e_stamp := st\<rparr>) m) = map_weight m"
  using map_weight_upd_old [of m k e "e\<lparr>e_stamp := st\<rparr>"] by simp

lemma mem_inv_touch: "mem_inv s \<Longrightarrow> mem_inv (mem_touch s k)"
  unfolding mem_touch_def fresh_stamp_def Let_def prod.case
  by (intro mem_inv_compact) (auto simp: mem_inv_def mem_touch_weight split: option.splits)

lemma mem_inv_fetch: "mem_inv s \<Longrightarrow> mem_inv (snd (mem_fetch s k ev))"
  by (simp add: mem_fetch_def Let_def mem_inv_touch)

lemma mem_inv_remove: "mem_inv s \<Longrightarrow> mem_inv (snd (mem_remove s k))"
  using map_weight_drop [of "i_map s" k]
  by (force simp: mem_inv_def mem_remove_def saturating_sub_def split: option.splits)

end
