(* ===== verification/Memory_Order.thy ===== *)
theory Memory_Order
  imports Memory_Core
begin

text \<open>
  The abstract specification of the memory tier's core: a list of entries in eviction order, from
  which inserts drop the shortest prefix that makes the rest fit. The ticket queue with its stale
  tickets, its lazy deletion and its compaction implements it, as long as the stamp counter does
  not wrap and the weights do not saturate.
\<close>

section \<open>The specification: a list in eviction order\<close>

type_synonym ('k, 'v) entry_queue = "('k \<times> 'v \<times> nat) list"

definition q_weight :: "('k, 'v) entry_queue \<Rightarrow> nat" where
  "q_weight q = sum_list (map (snd \<circ> snd) q)"

definition q_over :: "limits \<Rightarrow> ('k, 'v) entry_queue \<Rightarrow> bool" where
  "q_over lim q \<longleftrightarrow>
     (case lim_entries lim of None \<Rightarrow> False | Some mx \<Rightarrow> mx < length q) \<or>
     (case lim_bytes lim of None \<Rightarrow> False | Some mx \<Rightarrow> mx < q_weight q)"

fun q_evict :: "limits \<Rightarrow> ('k, 'v) entry_queue \<Rightarrow> ('k, 'v) entry_queue \<times> ('k, 'v) entry_queue" where
  "q_evict lim [] = ([], [])"
| "q_evict lim (e # q) =
     (if q_over lim (e # q) then (e # fst (q_evict lim q), snd (q_evict lim q)) else ([], e # q))"

definition q_drop :: "'k \<Rightarrow> ('k, 'v) entry_queue \<Rightarrow> ('k, 'v) entry_queue" where
  "q_drop k q = filter (\<lambda>e. fst e \<noteq> k) q"

definition q_put :: "eviction \<Rightarrow> ('k, 'v) entry_queue \<Rightarrow> 'k \<Rightarrow> 'v \<Rightarrow> nat \<Rightarrow> ('k, 'v) entry_queue" where
  "q_put ev q k v w =
     (if ev = Fifo \<and> k \<in> fst ` set q then map (\<lambda>e. if fst e = k then (k, v, w) else e) q
      else q_drop k q @ [(k, v, w)])"

definition q_touch :: "('k, 'v) entry_queue \<Rightarrow> 'k \<Rightarrow> ('k, 'v) entry_queue" where
  "q_touch q k = q_drop k q @ filter (\<lambda>e. fst e = k) q"

text \<open>Eviction takes the shortest prefix whose removal leaves a rest within the limits.\<close>

lemma q_evict_split: "fst (q_evict lim q) @ snd (q_evict lim q) = q"
  by (induction q) simp_all

lemma q_evict_fits: "snd (q_evict lim q) = [] \<or> \<not> q_over lim (snd (q_evict lim q))"
  by (induction q) simp_all

lemma q_evict_shortest:
  "n < length (fst (q_evict lim q)) \<Longrightarrow> q_over lim (drop n q)"
proof (induction q arbitrary: n)
  case Nil
  then show ?case by simp
next
  case (Cons e q)
  then show ?case by (cases n) (auto split: if_splits)
qed

section \<open>The representation\<close>

definition live_order :: "('k, 'v) inner \<Rightarrow> ('k \<times> u64) list" where
  "live_order s = filter (ticket_live s) (i_order s)"

definition queue_entry :: "('k, 'v entry) fmap \<Rightarrow> 'k \<times> u64 \<Rightarrow> 'k \<times> 'v \<times> nat" where
  "queue_entry m t = (fst t, e_value (the (fmlookup m (fst t))), e_weight (the (fmlookup m (fst t))))"

definition live_queue :: "('k, 'v) inner \<Rightarrow> ('k, 'v) entry_queue" where
  "live_queue s = map (queue_entry (i_map s)) (live_order s)"

definition mem_wf :: "('k, 'v) inner \<Rightarrow> bool" where
  "mem_wf s \<longleftrightarrow>
     distinct (live_order s) \<and>
     (\<forall>k e. fmlookup (i_map s) k = Some e \<longrightarrow> (k, e_stamp e) \<in> set (i_order s)) \<and>
     (\<forall>t \<in> set (i_order s). snd t \<le> i_next s) \<and>
     i_total s = map_weight (i_map s)"

lemma mem_wf_inv: "mem_wf s \<Longrightarrow> mem_inv s"
  by (simp add: mem_wf_def mem_inv_def)

lemma mem_wf_empty: "mem_wf mem_empty"
  by (simp add: mem_wf_def mem_empty_def live_order_def)

lemma live_queue_empty [simp]: "live_queue mem_empty = []"
  by (simp add: live_queue_def live_order_def mem_empty_def)

lemma entry_live_iff: "entry_live m t \<longleftrightarrow> (\<exists>e. fmlookup m (fst t) = Some e \<and> e_stamp e = snd t)"
  by (auto simp: entry_live_def split: option.splits)

lemma set_live_order: "set (live_order s) = {t \<in> set (i_order s). ticket_live s t}"
  by (auto simp: live_order_def)

lemma live_keys_distinct: "distinct (live_order s) \<Longrightarrow> distinct (map fst (live_order s))"
  by (auto simp: distinct_map set_live_order entry_live_iff inj_on_def prod_eq_iff)

lemma live_keys: "mem_wf s \<Longrightarrow> fst ` set (live_order s) = fset (fmdom (i_map s))"
  by (force simp: mem_wf_def set_live_order entry_live_iff fmlookup_dom_iff image_iff)

lemma fst_queue_entry [simp]: "fst (queue_entry m t) = fst t"
  by (simp add: queue_entry_def)

lemma live_queue_keys: "mem_wf s \<Longrightarrow> fst ` set (live_queue s) = fset (fmdom (i_map s))"
  using live_keys [of s] by (simp add: live_queue_def image_image)

lemma live_queue_length: "mem_wf s \<Longrightarrow> length (live_queue s) = hm_len (i_map s)"
  using live_keys_distinct [of s] live_keys [of s]
  by (metis distinct_card fcard.rep_eq hm_len_def length_map list.set_map live_queue_def mem_wf_def)

lemma live_queue_weight: "mem_wf s \<Longrightarrow> q_weight (live_queue s) = map_weight (i_map s)"
proof -
  assume wf: "mem_wf s"
  have d: "distinct (map fst (live_order s))" using wf by (intro live_keys_distinct) (simp add: mem_wf_def)
  have "q_weight (live_queue s) =
      sum_list (map (\<lambda>k. e_weight (the (fmlookup (i_map s) k))) (map fst (live_order s)))"
    by (simp add: q_weight_def live_queue_def queue_entry_def comp_def)
  also have "\<dots> = (\<Sum>k \<in> set (map fst (live_order s)). e_weight (the (fmlookup (i_map s) k)))"
    using d by (rule sum_list_distinct_conv_sum_set)
  also have "\<dots> = map_weight (i_map s)"
    using live_keys [OF wf] by (simp add: map_weight_def)
  finally show ?thesis .
qed

lemma mem_over_queue:
  assumes "mem_wf s"
  shows "mem_over s lim \<longleftrightarrow> q_over lim (live_queue s)"
proof -
  have "i_total s = map_weight (i_map s)" using assms by (simp add: mem_wf_def)
  then show ?thesis
    using live_queue_length [OF assms] live_queue_weight [OF assms]
    by (auto simp: mem_over_def q_over_def split: option.splits)
qed

section \<open>Each operation refines its list counterpart\<close>

text \<open>Dropping a key from the map hides exactly its tickets.\<close>

lemma entry_live_drop: "entry_live (fmdrop k m) t \<longleftrightarrow> entry_live m t \<and> fst t \<noteq> k"
  by (auto simp: entry_live_iff)

lemma entry_live_upd:
  "entry_live (fmupd k e m) t \<longleftrightarrow> (if fst t = k then e_stamp e = snd t else entry_live m t)"
  by (auto simp: entry_live_iff)

lemma filter_live_drop:
  "filter (entry_live (fmdrop k m)) ts = filter (\<lambda>t. fst t \<noteq> k) (filter (entry_live m) ts)"
  by (auto simp: entry_live_drop intro!: filter_cong)

lemma queue_entry_drop:
  "map (queue_entry (fmdrop k m)) (filter (\<lambda>t. fst t \<noteq> k) ts) =
   q_drop k (map (queue_entry m) ts)"
  by (induction ts) (simp_all add: q_drop_def queue_entry_def)

lemma queue_entry_upd_other:
  "map (queue_entry (fmupd k e m)) (filter (\<lambda>t. fst t \<noteq> k) ts) =
   q_drop k (map (queue_entry m) ts)"
  by (induction ts) (simp_all add: q_drop_def queue_entry_def)

lemma q_drop_absent: "k \<notin> fst ` set q \<Longrightarrow> q_drop k q = q"
  by (force simp: q_drop_def filter_id_conv)

lemma mem_wf_skip:
  assumes "mem_wf s" "i_order s = t # rest" "\<not> ticket_live s t"
  shows "mem_wf (s\<lparr>i_order := rest\<rparr>) \<and> live_queue (s\<lparr>i_order := rest\<rparr>) = live_queue s"
  using assms mem_inv_skip [OF mem_wf_inv, of s t rest]
  by (auto simp: mem_wf_def mem_inv_def live_order_def live_queue_def)

lemma mem_wf_pop:
  assumes wf: "mem_wf s" and o: "i_order s = (k, e_stamp e) # rest" and e: "fmlookup (i_map s) k = Some e"
  defines "s' \<equiv> s\<lparr>i_order := rest, i_map := fmdrop k (i_map s),
                  i_total := saturating_sub (i_total s) (e_weight e)\<rparr>"
  shows "mem_wf s'" and "live_queue s = (k, e_value e, e_weight e) # live_queue s'"
proof -
  have ord: "live_order s = (k, e_stamp e) # filter (ticket_live s) rest"
    using e by (simp add: live_order_def o entry_live_iff)
  have keys: "k \<notin> fst ` set (filter (ticket_live s) rest)"
    using live_keys_distinct [of s] wf ord by (auto simp: mem_wf_def)
  have ord': "live_order s' = filter (ticket_live s) rest"
    using keys unfolding live_order_def s'_def
    by (force simp: entry_live_drop image_iff intro!: filter_cong)
  have "mem_inv s'" unfolding s'_def using mem_wf_inv [OF wf] o e by (rule mem_inv_evict)
  moreover have "i_total s' = map_weight (i_map s')"
    using wf map_weight_drop [OF e] by (simp add: s'_def mem_wf_def saturating_sub_def)
  moreover have "distinct (live_order s')" "\<forall>t \<in> set (i_order s'). snd t \<le> i_next s'"
    using wf ord ord' by (auto simp: mem_wf_def o s'_def)
  ultimately show "mem_wf s'" by (simp add: mem_wf_def mem_inv_def)
  have "map (queue_entry (i_map s)) (filter (ticket_live s) rest) =
        map (queue_entry (i_map s')) (filter (ticket_live s) rest)"
    using keys by (force simp: s'_def queue_entry_def image_iff)
  then show "live_queue s = (k, e_value e, e_weight e) # live_queue s'"
    by (simp add: live_queue_def ord ord' queue_entry_def [of _ "(k, e_stamp e)"] e)
qed

definition q_displaced :: "('k, 'v) entry_queue \<Rightarrow> ('k, 'v) displaced" where
  "q_displaced q = map (\<lambda>(k, v, w). (k, v)) q"

lemma evict_over_refines:
  "mem_wf s \<Longrightarrow>
   mem_wf (snd (evict_over s lim)) \<and>
   live_queue (snd (evict_over s lim)) = snd (q_evict lim (live_queue s)) \<and>
   fst (evict_over s lim) = q_displaced (fst (q_evict lim (live_queue s)))"
proof (induction s rule: evict_over_induct [where lim = lim])
  case (stop s)
  have "q_evict lim (live_queue s) = ([], live_queue s)"
  proof (cases "live_queue s")
    case (Cons e q)
    then have "i_order s \<noteq> []" by (auto simp: live_queue_def live_order_def)
    with stop Cons show ?thesis by (auto simp: mem_over_queue)
  qed simp
  with stop show ?case by (auto simp: evict_over_stop q_displaced_def)
next
  case (skip s t rest)
  with mem_wf_skip [of s t rest] show ?case by (simp add: evict_over_skip)
next
  case (pop s k e rest)
  note wf = mem_wf_pop [OF pop.prems pop.hyps(2,3)]
  have "q_over lim (live_queue s)" using pop.hyps(1) pop.prems by (simp add: mem_over_queue)
  with pop wf show ?case by (simp add: evict_over_pop Let_def q_displaced_def)
qed

lemma live_order_compact [simp]: "live_order (mem_compact s) = live_order s"
  by (auto simp: live_order_def mem_compact_def)

lemma i_map_compact [simp]: "i_map (mem_compact s) = i_map s"
  by (simp add: mem_compact_def)

lemma mem_compact_refines: "mem_wf s \<Longrightarrow> mem_wf (mem_compact s) \<and> live_queue (mem_compact s) = live_queue s"
  using mem_inv_compact [OF mem_wf_inv, of s]
  by (auto simp: mem_wf_def mem_inv_def live_queue_def) (auto simp: mem_compact_def split: if_splits)

text \<open>A stamp taken before the counter reaches its maximum is newer than every ticket.\<close>

lemma stamp_newer:
  assumes "y \<le> x" "x \<noteq> - 1"
  shows "y < x + (1 :: u64)"
proof -
  have "1 + x \<noteq> 0" using assms(2) by (metis add.commute add_eq_0_iff2 minus_equation_iff)
  then have "unat (x + 1) = Suc (unat x)" by (simp add: unatSuc add.commute)
  with assms(1) show ?thesis by (simp add: word_less_nat_alt word_le_nat_alt)
qed

text \<open>Storing an entry, or refreshing its stamp.\<close>

lemma mem_store_fields:
  "i_map (mem_store s k v w ev) =
     fmupd k \<lparr>e_value = v, e_weight = w,
              e_stamp = (if ev = Fifo \<and> hm_contains (i_map s) k
                         then e_stamp (the (fmlookup (i_map s) k)) else i_next s + 1)\<rparr> (i_map s)"
  "i_order (mem_store s k v w ev) =
     (if ev = Fifo \<and> hm_contains (i_map s) k then i_order s else i_order s @ [(k, i_next s + 1)])"
  "i_next (mem_store s k v w ev) = i_next s + 1"
  by (simp_all add: mem_store_def Let_def)

lemma live_order_store:
  assumes "mem_wf s" "i_next s \<noteq> - 1"
  shows "live_order (mem_store s k v w ev) =
    (if ev = Fifo \<and> hm_contains (i_map s) k then live_order s
     else filter (\<lambda>t. fst t \<noteq> k) (live_order s) @ [(k, i_next s + 1)])"
proof -
  have old: "snd t < i_next s + 1" if "t \<in> set (i_order s)" for t
    using assms that by (intro stamp_newer) (auto simp: mem_wf_def)
  have stale: "filter (entry_live (fmupd k e (i_map s))) (i_order s) =
               filter (\<lambda>t. fst t \<noteq> k) (live_order s)" if "e_stamp e = i_next s + 1" for e
    using old that unfolding live_order_def filter_filter
    by (intro filter_cong) (force simp: entry_live_upd)+
  have keep: "filter (entry_live (fmupd k e (i_map s))) (i_order s) = live_order s"
    if "fmlookup (i_map s) k = Some e0" "e_stamp e = e_stamp e0" for e e0
    using that unfolding live_order_def
    by (intro filter_cong) (auto simp: entry_live_upd entry_live_iff)
  show ?thesis
  proof (cases "ev = Fifo \<and> hm_contains (i_map s) k")
    case True
    then obtain e0 where "fmlookup (i_map s) k = Some e0" by (auto simp: hm_contains_def)
    with True show ?thesis
      unfolding live_order_def [of "mem_store s k v w ev"] mem_store_fields
      by (simp add: keep)
  next
    case False
    then show ?thesis
      unfolding live_order_def [of "mem_store s k v w ev"] mem_store_fields
      by (auto simp: entry_live_upd stale)
  qed
qed

lemma mem_store_weight:
  assumes wf: "mem_wf s" and fits: "map_weight (i_map s) + w \<le> usize_max"
  shows "i_total (mem_store s k v w ev) = map_weight (i_map (mem_store s k v w ev))"
proof -
  have t: "i_total s = map_weight (i_map s)" using wf by (simp add: mem_wf_def)
  show ?thesis
  proof (cases "fmlookup (i_map s) k")
    case None
    then show ?thesis
      using t fits by (simp add: mem_store_def Let_def map_weight_upd_new saturating_sub_def saturating_add_exact)
  next
    case (Some e)
    have "map_weight (i_map (mem_store s k v w ev)) + e_weight e = map_weight (i_map s) + w"
      using map_weight_upd_old [OF Some] by (simp add: mem_store_def Let_def)
    with Some t fits show ?thesis
      by (simp add: mem_store_def Let_def saturating_sub_def saturating_add_exact)
  qed
qed

lemma distinct_filter_snoc: "distinct xs \<Longrightarrow> distinct (filter (\<lambda>t. fst t \<noteq> k) xs @ [(k, st)])"
  by auto

lemma mem_wf_store_total:
  assumes wf: "mem_wf s" and nx: "i_next s \<noteq> - 1"
    and n: "n = map_weight (i_map (mem_store s k v w ev))"
  shows "mem_wf ((mem_store s k v w ev)\<lparr>i_total := n\<rparr>)"
proof -
  have "distinct (live_order (mem_store s k v w ev))"
    using wf distinct_filter_snoc [of "live_order s"]
    by (simp add: live_order_store [OF wf nx] mem_wf_def)
  then have "distinct (live_order ((mem_store s k v w ev)\<lparr>i_total := n\<rparr>))"
    by (simp add: live_order_def)
  moreover have "snd t \<le> i_next s + 1" if "t \<in> set (i_order s)" for t
    using wf that nx stamp_newer [of "snd t" "i_next s"] by (simp add: mem_wf_def less_imp_le)
  ultimately show ?thesis
    using mem_inv_store [OF mem_wf_inv [OF wf], of k v w ev] n
    by (force simp: mem_wf_def mem_inv_def mem_store_fields split: if_splits)
qed

lemma mem_wf_store:
  assumes wf: "mem_wf s" and nx: "i_next s \<noteq> - 1" and fits: "map_weight (i_map s) + w \<le> usize_max"
  shows "mem_wf (mem_store s k v w ev)"
  using mem_wf_store_total [OF wf nx mem_store_weight [OF wf fits], of k v ev] by simp

lemma live_queue_store:
  assumes wf: "mem_wf s" and nx: "i_next s \<noteq> - 1"
  shows "live_queue (mem_store s k v w ev) = q_put ev (live_queue s) k v w"
proof -
  let ?m' = "i_map (mem_store s k v w ev)"
  have m': "e_value (the (fmlookup ?m' k)) = v" "e_weight (the (fmlookup ?m' k)) = w"
      "\<And>j. j \<noteq> k \<Longrightarrow> fmlookup ?m' j = fmlookup (i_map s) j"
    by (simp_all add: mem_store_def Let_def)
  have mem: "hm_contains (i_map s) k \<longleftrightarrow> k \<in> fst ` set (live_queue s)"
    using live_queue_keys [OF wf] by (simp add: hm_contains_iff)
  have same: "map (queue_entry ?m') ts =
      map (\<lambda>e. if fst e = k then (k, v, w) else e) (map (queue_entry (i_map s)) ts)" for ts
    by (auto simp: queue_entry_def m')
  have other: "map (queue_entry ?m') (filter (\<lambda>t. fst t \<noteq> k) ts) =
      q_drop k (map (queue_entry (i_map s)) ts)" for ts
    by (induction ts) (simp_all add: q_drop_def queue_entry_def m')
  show ?thesis
  proof (cases "ev = Fifo \<and> hm_contains (i_map s) k")
    case True
    then show ?thesis
      using same [of "live_order s"] mem
      by (simp add: live_queue_def [of "mem_store _ _ _ _ _"] live_order_store [OF wf nx] q_put_def
                    live_queue_def [of s])
  next
    case False
    moreover have "queue_entry ?m' (k, i_next s + 1) = (k, v, w)" by (simp add: queue_entry_def m')
    ultimately show ?thesis
      using other [of "live_order s"] mem
      by (auto simp: live_queue_def [of "mem_store _ _ _ _ _"] live_order_store [OF wf nx] q_put_def
                     live_queue_def [of s, symmetric])
  qed
qed

text \<open>An insert is: put, then evict the shortest prefix.\<close>

lemma mem_insert_refines:
  assumes wf: "mem_wf s" and nx: "i_next s \<noteq> - 1" and fits: "map_weight (i_map s) + w \<le> usize_max"
  shows "mem_wf (snd (mem_insert s k v w lim ev)) \<and>
    live_queue (snd (mem_insert s k v w lim ev)) = snd (q_evict lim (q_put ev (live_queue s) k v w)) \<and>
    fst (mem_insert s k v w lim ev) = q_displaced (fst (q_evict lim (q_put ev (live_queue s) k v w)))"
  using evict_over_refines [of "mem_compact (mem_store s k v w ev)" lim]
    mem_compact_refines [OF mem_wf_store [OF wf nx fits]] live_queue_store [OF wf nx]
  by (simp add: mem_insert_store)

text \<open>A touch moves the key to the back; it is a put of the entry that is there.\<close>

lemma mem_touch_store:
  assumes "fmlookup (i_map s) k = Some e"
  shows "mem_touch s k =
    mem_compact ((mem_store s k (e_value e) (e_weight e) Lru)\<lparr>i_total := i_total s\<rparr>)"
  using assms
  by (cases s; cases e) (simp add: mem_touch_def mem_store_def fresh_stamp_def Let_def)

lemma live_queue_lookup:
  assumes "mem_wf s" "fmlookup (i_map s) k = Some e"
  shows "filter (\<lambda>t. fst t = k) (live_queue s) = [(k, e_value e, e_weight e)]"
proof -
  have d: "distinct (map fst (live_order s))"
    using assms(1) by (intro live_keys_distinct) (simp add: mem_wf_def)
  have m: "k \<in> fst ` set (live_order s)" using live_keys [OF assms(1)] assms(2) by (simp add: fmlookup_dom_iff)
  have "map fst (filter (\<lambda>t. fst t = k) ts) = (if k \<in> fst ` set ts then [k] else [])"
    if "distinct (map fst ts)" for ts :: "('a \<times> u64) list"
    using that by (induction ts) (auto simp: image_iff)
  with d m have "map fst (filter (\<lambda>t. fst t = k) (live_order s)) = [k]" by simp
  then obtain st where "filter (\<lambda>t. fst t = k) (live_order s) = [(k, st)]" by force
  then show ?thesis
    using assms(2) by (simp add: live_queue_def filter_map comp_def queue_entry_def)
qed

lemma mem_touch_refines:
  assumes wf: "mem_wf s" and nx: "i_next s \<noteq> - 1" and k: "fmlookup (i_map s) k = Some e"
  shows "mem_wf (mem_touch s k) \<and> live_queue (mem_touch s k) = q_touch (live_queue s) k"
proof -
  let ?st = "(mem_store s k (e_value e) (e_weight e) Lru)\<lparr>i_total := i_total s\<rparr>"
  have "map_weight (i_map (mem_store s k (e_value e) (e_weight e) Lru)) + e_weight e =
        map_weight (i_map s) + e_weight e"
    using map_weight_upd_old [OF k] by (simp add: mem_store_fields)
  then have "mem_wf ?st"
    using wf by (intro mem_wf_store_total [OF wf nx]) (simp add: mem_wf_def)
  moreover have "live_queue ?st = q_touch (live_queue s) k"
    using live_queue_store [OF wf nx, of k "e_value e" "e_weight e" Lru] live_queue_lookup [OF wf k]
    by (simp add: live_queue_def live_order_def q_touch_def q_put_def)
  ultimately show ?thesis
    using mem_compact_refines [of ?st] by (simp add: mem_touch_store [OF k])
qed

lemma mem_fetch_refines:
  assumes wf: "mem_wf s" and nx: "i_next s \<noteq> - 1"
  shows "mem_wf (snd (mem_fetch s k ev)) \<and>
    live_queue (snd (mem_fetch s k ev)) =
      (if ev = Lru \<and> k \<in> fst ` set (live_queue s) then q_touch (live_queue s) k else live_queue s)"
proof -
  have "k \<in> fst ` set (live_queue s) \<longleftrightarrow> hm_contains (i_map s) k"
    using live_queue_keys [OF wf] by (simp add: hm_contains_iff)
  then show ?thesis
    using wf mem_touch_refines [OF wf nx, of k]
    by (auto simp: mem_fetch_def Let_def hm_contains_def)
qed

lemma mem_remove_refines:
  assumes wf: "mem_wf s"
  shows "mem_wf (snd (mem_remove s k)) \<and> live_queue (snd (mem_remove s k)) = q_drop k (live_queue s)"
proof (cases "fmlookup (i_map s) k")
  case None
  then have "k \<notin> fst ` set (live_queue s)"
    using live_queue_keys [OF wf] by (simp add: fmlookup_dom_iff)
  with None wf show ?thesis by (simp add: mem_remove_def q_drop_absent)
next
  case (Some e)
  let ?s' = "snd (mem_remove s k)"
  have ord: "live_order ?s' = filter (\<lambda>t. fst t \<noteq> k) (live_order s)"
    using Some by (simp add: mem_remove_def live_order_def filter_live_drop)
  have "i_total ?s' = map_weight (i_map ?s')"
    using wf Some map_weight_drop [OF Some] by (simp add: mem_remove_def mem_wf_def saturating_sub_def)
  moreover have "\<forall>t \<in> set (i_order ?s'). snd t \<le> i_next ?s'"
    using wf Some by (simp add: mem_remove_def mem_wf_def)
  moreover have "distinct (live_order ?s')" using wf by (simp add: ord mem_wf_def)
  ultimately have "mem_wf ?s'"
    using mem_inv_remove [OF mem_wf_inv [OF wf], of k] by (simp add: mem_wf_def mem_inv_def)
  moreover have "live_queue ?s' = q_drop k (live_queue s)"
    using queue_entry_drop [of k "i_map s" "live_order s"] Some
    unfolding live_queue_def ord by (simp add: mem_remove_def)
  ultimately show ?thesis by simp
qed

lemma mem_page_refines: "mem_page s c l = page_of (map fst (live_queue s)) c l"
  by (simp add: mem_page_def live_queue_def live_order_def comp_def)

text \<open>Compaction bounds the queue by the entries it has to track.\<close>

lemma mem_compact_bound:
  assumes "mem_wf s"
  shows "length (i_order (mem_compact s)) \<le> max (2 * hm_len (i_map s)) 16"
proof (cases "max (saturating_mul (hm_len (i_map s)) 2) 16 < length (i_order s)")
  case True
  then have "length (i_order (mem_compact s)) = length (live_queue s)"
    by (simp add: mem_compact_def live_queue_def live_order_def)
  also have "\<dots> = hm_len (i_map s)" by (rule live_queue_length [OF assms])
  finally show ?thesis by simp
next
  case False
  then show ?thesis
    using saturating_mul_le [of "hm_len (i_map s)" 2] by (auto simp: mem_compact_def)
qed

end
