(* ===== verification/Memory_Tier.thy ===== *)
theory Memory_Tier
  imports Memory_Order
begin

text \<open>
  \<open>tierstore/src/memory.rs\<close>, the tier: its configuration, constructors and trait implementations.
  The mutex makes every operation one step on \<open>Inner\<close>; a poisoned lock is recovered, so no
  operation fails (\<open>Infallible\<close>: the error type stays a parameter and never occurs).

  The tier is interpreted as a \<open>default_batch\<close> and as \<open>reliable_tiers\<close>. Over whole histories of
  commands: the bounds always hold, and the answers are those of the list in eviction order.
\<close>

section \<open>State and operations\<close>

record ('k, 'v) byte_budget =
  bb_budget :: nat
  bb_weigh :: "'k \<Rightarrow> 'v \<Rightarrow> nat"

record ('k, 'v) memory_tier =
  mt_max_entries :: "nat option"
  mt_bytes :: "('k, 'v) byte_budget option"
  mt_eviction :: eviction
  mt_inner :: "('k, 'v) inner"

definition memory_unbounded :: "('k, 'v) memory_tier" where
  "memory_unbounded =
     \<lparr>mt_max_entries = None, mt_bytes = None, mt_eviction = Fifo, mt_inner = mem_empty\<rparr>"

definition memory_bounded :: "nat \<Rightarrow> ('k, 'v) memory_tier" where
  "memory_bounded capacity = memory_unbounded\<lparr>mt_max_entries := Some capacity\<rparr>"

definition memory_bounded_bytes :: "nat \<Rightarrow> ('k \<Rightarrow> 'v \<Rightarrow> nat) \<Rightarrow> ('k, 'v) memory_tier" where
  "memory_bounded_bytes budget weigh =
     memory_unbounded\<lparr>mt_bytes := Some \<lparr>bb_budget = budget, bb_weigh = weigh\<rparr>\<rparr>"

definition with_eviction :: "('k, 'v) memory_tier \<Rightarrow> eviction \<Rightarrow> ('k, 'v) memory_tier" where
  "with_eviction t ev = t\<lparr>mt_eviction := ev\<rparr>"

definition memory_len :: "('k, 'v) memory_tier \<Rightarrow> nat" where
  "memory_len t = hm_len (i_map (mt_inner t))"

definition memory_is_empty :: "('k, 'v) memory_tier \<Rightarrow> bool" where
  "memory_is_empty t = (memory_len t = 0)"

definition memory_weight :: "('k, 'v) memory_tier \<Rightarrow> nat" where
  "memory_weight t = i_total (mt_inner t)"

definition weight_of :: "('k, 'v) memory_tier \<Rightarrow> 'k \<Rightarrow> 'v \<Rightarrow> nat" where
  "weight_of t k v = (case mt_bytes t of None \<Rightarrow> 0 | Some b \<Rightarrow> bb_weigh b k v)"

definition tier_limits :: "('k, 'v) memory_tier \<Rightarrow> limits" where
  "tier_limits t = \<lparr>lim_entries = mt_max_entries t, lim_bytes = map_option bb_budget (mt_bytes t)\<rparr>"

definition set_inner :: "('k, 'v) memory_tier \<Rightarrow> ('k, 'v) inner \<Rightarrow> ('k, 'v) memory_tier" where
  "set_inner t i = t\<lparr>mt_inner := i\<rparr>"

definition memory_get ::
  "('k, 'v) memory_tier \<Rightarrow> 'k \<Rightarrow> ('v option, 'e) result \<times> ('k, 'v) memory_tier" where
  "memory_get t k =
     (let (v, i) = mem_fetch (mt_inner t) k (mt_eviction t) in (Ok v, set_inner t i))"

definition memory_exists ::
  "('k, 'v) memory_tier \<Rightarrow> 'k \<Rightarrow> (bool, 'e) result \<times> ('k, 'v) memory_tier" where
  "memory_exists t k = (Ok (hm_contains (i_map (mt_inner t)) k), t)"

definition memory_get_many ::
  "('k, 'v) memory_tier \<Rightarrow> 'k list \<Rightarrow> ('v option list, 'e) result \<times> ('k, 'v) memory_tier" where
  "memory_get_many t ks =
     (let (vs, i) = mem_fetch_batch (mt_inner t) ks (mt_eviction t) in (Ok vs, set_inner t i))"

definition memory_put ::
  "('k, 'v) memory_tier \<Rightarrow> 'k \<Rightarrow> 'v \<Rightarrow> (('k, 'v) displaced, 'e) result \<times> ('k, 'v) memory_tier" where
  "memory_put t k v =
     (let (d, i) = mem_insert (mt_inner t) k v (weight_of t k v) (tier_limits t) (mt_eviction t)
      in (Ok d, set_inner t i))"

definition memory_delete ::
  "('k, 'v) memory_tier \<Rightarrow> 'k \<Rightarrow> (bool, 'e) result \<times> ('k, 'v) memory_tier" where
  "memory_delete t k = (let (b, i) = mem_remove (mt_inner t) k in (Ok b, set_inner t i))"

definition memory_put_many ::
  "('k, 'v) memory_tier \<Rightarrow> ('k \<times> 'v) list \<Rightarrow> (('k, 'v) displaced, 'e) result \<times> ('k, 'v) memory_tier"
where
  "memory_put_many t es =
     (let weighted = map (\<lambda>(k, v). (k, v, weight_of t k v)) es;
          (d, i) = mem_insert_batch (mt_inner t) weighted (tier_limits t) (mt_eviction t)
      in (Ok d, set_inner t i))"

definition memory_delete_many ::
  "('k, 'v) memory_tier \<Rightarrow> 'k list \<Rightarrow> (bool list, 'e) result \<times> ('k, 'v) memory_tier" where
  "memory_delete_many t ks =
     (let (bs, i) = mem_remove_batch (mt_inner t) ks in (Ok bs, set_inner t i))"

definition memory_list ::
  "('k, 'v) memory_tier \<Rightarrow> nat option \<Rightarrow> nat \<Rightarrow> (('k, nat) page, 'e) result" where
  "memory_list t cursor limit = Ok (mem_page (mt_inner t) cursor limit)"

text \<open>
  \<open>get_ref\<close> returns the guard and the key; dereferencing the view looks the key up again and
  panics (\<open>None\<close>) when it is absent.
\<close>

definition memory_get_ref ::
  "('k, 'v) memory_tier \<Rightarrow> 'k \<Rightarrow> ('k option, 'e) result \<times> ('k, 'v) memory_tier" where
  "memory_get_ref t k =
     (if hm_contains (i_map (mt_inner t)) k then
        (Ok (Some k), if mt_eviction t = Lru then set_inner t (mem_touch (mt_inner t) k) else t)
      else (Ok None, t))"

definition memory_deref :: "('k, 'v) memory_tier \<Rightarrow> 'k \<Rightarrow> 'v option" where
  "memory_deref t k = map_option e_value (fmlookup (i_map (mt_inner t)) k)"

definition memory_ops :: "(('k, 'v) memory_tier, 'k, 'v, 'e) tier_ops" where
  "memory_ops =
     \<lparr>t_name = (\<lambda>t. ''memory''), t_get = memory_get, t_exists = memory_exists,
      t_get_many = memory_get_many, t_put = memory_put, t_delete = memory_delete,
      t_put_many = memory_put_many, t_delete_many = memory_delete_many\<rparr>"

lemma memory_ops_simps [simp]:
  "t_name memory_ops t = ''memory''"
  "t_get memory_ops = memory_get"
  "t_exists memory_ops = memory_exists"
  "t_get_many memory_ops = memory_get_many"
  "t_put memory_ops = memory_put"
  "t_delete memory_ops = memory_delete"
  "t_put_many memory_ops = memory_put_many"
  "t_delete_many memory_ops = memory_delete_many"
  by (simp_all add: memory_ops_def)

lemma set_inner_simps [simp]:
  "mt_inner (set_inner t i) = i"
  "mt_eviction (set_inner t i) = mt_eviction t"
  "mt_max_entries (set_inner t i) = mt_max_entries t"
  "mt_bytes (set_inner t i) = mt_bytes t"
  "weight_of (set_inner t i) = weight_of t"
  "tier_limits (set_inner t i) = tier_limits t"
  "set_inner (set_inner t i) j = set_inner t j"
  "set_inner t (mt_inner t) = t"
  by (simp_all add: set_inner_def weight_of_def tier_limits_def fun_eq_iff)

section \<open>The tier keeps the contract\<close>

text \<open>What the tier holds.\<close>

definition memory_con :: "('k, 'v) memory_tier \<Rightarrow> ('k \<rightharpoonup> 'v)" where
  "memory_con t = mem_con (mt_inner t)"

definition memory_inv :: "(('k, 'v) memory_tier, 'k, 'v, 'e) tier_ops \<Rightarrow> ('k, 'v) memory_tier \<Rightarrow> bool" where
  "memory_inv ops t \<longleftrightarrow> ops = memory_ops \<and> mem_inv (mt_inner t)"

lemma memory_get_many_loop: "get_many_default memory_get t ks = memory_get_many t ks"
  by (induction ks arbitrary: t) (simp_all add: memory_get_many_def memory_get_def split_def Let_def)

lemma memory_put_many_loop: "put_many_default memory_put t es = memory_put_many t es"
  by (induction es arbitrary: t) (auto simp: memory_put_many_def memory_put_def split_def Let_def)

lemma memory_delete_many_loop: "delete_many_default memory_delete t ks = memory_delete_many t ks"
  by (induction ks arbitrary: t) (simp_all add: memory_delete_many_def memory_delete_def split_def Let_def)

lemma hm_contains_con: "hm_contains (i_map s) k \<longleftrightarrow> mem_con s k \<noteq> None"
  by (simp add: hm_contains_def mem_con_def)

interpretation memory: default_batch memory_inv "\<lambda>_. memory_con"
  by unfold_locales
     (auto simp: memory_inv_def memory_con_def memory_get_def memory_exists_def memory_put_def
        memory_delete_def split_def Let_def mem_inv_fetch mem_fetch_res mem_inv_insert mem_insert_con
        mem_inv_remove mem_remove_con mem_remove_res hm_contains_con
        memory_get_many_loop memory_put_many_loop memory_delete_many_loop)

interpretation memory: reliable_tiers memory_inv "\<lambda>_. memory_con"
  by unfold_locales
     (auto simp: memory_inv_def memory_get_def memory_exists_def memory_put_def memory_delete_def
        memory_get_many_def memory_put_many_def memory_delete_many_def split_def Let_def)

end
