(* ===== verification/Memory_History.thy ===== *)
theory Memory_History
  imports Memory_Tier
begin

text \<open>
  Histories of the memory tier: what it answers to a whole sequence of commands from a fresh
  start, against the list in eviction order. Batches are loops of the single operations
  (\<open>memory_batches_are_loops\<close>), so the commands are the single ones.
\<close>

section \<open>Commands\<close>

datatype ('k, 'v) mem_cmd =
    Cmd_Get 'k
  | Cmd_Exists 'k
  | Cmd_Get_Ref 'k
  | Cmd_Put 'k 'v
  | Cmd_Delete 'k
  | Cmd_List "nat option" nat

datatype ('k, 'v) mem_answer =
    Ans_Value "('v option, unit) result"
  | Ans_Flag "(bool, unit) result"
  | Ans_Ref "('k option, unit) result"
  | Ans_Displaced "(('k, 'v) displaced, unit) result"
  | Ans_Page "(('k, nat) page, unit) result"

fun memory_step ::
  "('k, 'v) memory_tier \<Rightarrow> ('k, 'v) mem_cmd \<Rightarrow> ('k, 'v) mem_answer \<times> ('k, 'v) memory_tier" where
  "memory_step t (Cmd_Get k) = map_prod Ans_Value id (memory_get t k)"
| "memory_step t (Cmd_Exists k) = map_prod Ans_Flag id (memory_exists t k)"
| "memory_step t (Cmd_Get_Ref k) = map_prod Ans_Ref id (memory_get_ref t k)"
| "memory_step t (Cmd_Put k v) = map_prod Ans_Displaced id (memory_put t k v)"
| "memory_step t (Cmd_Delete k) = map_prod Ans_Flag id (memory_delete t k)"
| "memory_step t (Cmd_List c l) = (Ans_Page (memory_list t c l), t)"

fun memory_run ::
  "('k, 'v) memory_tier \<Rightarrow> ('k, 'v) mem_cmd list \<Rightarrow> ('k, 'v) mem_answer list \<times> ('k, 'v) memory_tier"
where
  "memory_run t [] = ([], t)"
| "memory_run t (c # cs) =
     (let (a, t1) = memory_step t c; (as, t2) = memory_run t1 cs in (a # as, t2))"

section \<open>The same commands on the list in eviction order\<close>

definition q_value :: "('k, 'v) entry_queue \<Rightarrow> 'k \<Rightarrow> 'v option" where
  "q_value q k = map_option fst (map_of q k)"

fun q_step ::
  "eviction \<Rightarrow> limits \<Rightarrow> ('k \<Rightarrow> 'v \<Rightarrow> nat) \<Rightarrow> ('k, 'v) entry_queue \<Rightarrow> ('k, 'v) mem_cmd \<Rightarrow>
   ('k, 'v) mem_answer \<times> ('k, 'v) entry_queue"
where
  "q_step ev lim wt q (Cmd_Get k) =
     (Ans_Value (Ok (q_value q k)), if ev = Lru \<and> k \<in> fst ` set q then q_touch q k else q)"
| "q_step ev lim wt q (Cmd_Exists k) = (Ans_Flag (Ok (k \<in> fst ` set q)), q)"
| "q_step ev lim wt q (Cmd_Get_Ref k) =
     (Ans_Ref (Ok (if k \<in> fst ` set q then Some k else None)),
      if ev = Lru \<and> k \<in> fst ` set q then q_touch q k else q)"
| "q_step ev lim wt q (Cmd_Put k v) =
     (let (out, rest) = q_evict lim (q_put ev q k v (wt k v))
      in (Ans_Displaced (Ok (q_displaced out)), rest))"
| "q_step ev lim wt q (Cmd_Delete k) = (Ans_Flag (Ok (k \<in> fst ` set q)), q_drop k q)"
| "q_step ev lim wt q (Cmd_List c l) = (Ans_Page (Ok (page_of (map fst q) c l)), q)"

fun q_run ::
  "eviction \<Rightarrow> limits \<Rightarrow> ('k \<Rightarrow> 'v \<Rightarrow> nat) \<Rightarrow> ('k, 'v) entry_queue \<Rightarrow> ('k, 'v) mem_cmd list \<Rightarrow>
   ('k, 'v) mem_answer list"
where
  "q_run ev lim wt q [] = []"
| "q_run ev lim wt q (c # cs) =
     (let (a, q1) = q_step ev lim wt q c in a # q_run ev lim wt q1 cs)"

section \<open>The bounds hold after every history\<close>

text \<open>The configuration never changes; the state keeps \<open>mem_inv\<close> and stays within the limits.\<close>

definition same_config :: "('k, 'v) memory_tier \<Rightarrow> ('k, 'v) memory_tier \<Rightarrow> bool" where
  "same_config t0 t \<longleftrightarrow> t = set_inner t0 (mt_inner t)"

lemma same_config_simps:
  "same_config t0 t \<Longrightarrow> mt_eviction t = mt_eviction t0"
  "same_config t0 t \<Longrightarrow> mt_bytes t = mt_bytes t0"
  "same_config t0 t \<Longrightarrow> tier_limits t = tier_limits t0"
  "same_config t0 t \<Longrightarrow> weight_of t = weight_of t0"
  "same_config t0 t \<Longrightarrow> same_config t0 (set_inner t i)"
  unfolding same_config_def by (metis set_inner_simps)+

lemma memory_step_inner:
  "snd (memory_step t (Cmd_Get k)) = set_inner t (snd (mem_fetch (mt_inner t) k (mt_eviction t)))"
  "snd (memory_step t (Cmd_Exists k)) = t"
  "snd (memory_step t (Cmd_Get_Ref k)) = set_inner t (snd (mem_fetch (mt_inner t) k (mt_eviction t)))"
  "snd (memory_step t (Cmd_Put k v)) =
     set_inner t (snd (mem_insert (mt_inner t) k v (weight_of t k v) (tier_limits t) (mt_eviction t)))"
  "snd (memory_step t (Cmd_Delete k)) = set_inner t (snd (mem_remove (mt_inner t) k))"
  "snd (memory_step t (Cmd_List c l)) = t"
  by (simp_all add: memory_get_def memory_exists_def memory_get_ref_def memory_put_def
        memory_delete_def mem_fetch_def split_def Let_def)

lemma step_same_config: "same_config t0 t \<Longrightarrow> same_config t0 (snd (memory_step t c))"
  by (cases c) (simp_all only: memory_step_inner same_config_simps)

lemma mem_over_mono:
  "hm_len (i_map s') \<le> hm_len (i_map s) \<Longrightarrow> i_total s' \<le> i_total s \<Longrightarrow> mem_over s' lim \<Longrightarrow>
   mem_over s lim"
  by (auto simp: mem_over_def split: option.splits)

lemma mem_touch_size:
  "hm_len (i_map (mem_touch s k)) = hm_len (i_map s) \<and> i_total (mem_touch s k) = i_total s"
  by (auto simp: mem_touch_def fresh_stamp_def Let_def mem_compact_def hm_len_upd hm_contains_def
           split: option.splits)

lemma mem_fetch_size:
  "hm_len (i_map (snd (mem_fetch s k ev))) = hm_len (i_map s) \<and>
   i_total (snd (mem_fetch s k ev)) = i_total s"
  by (simp add: mem_fetch_def Let_def mem_touch_size)

lemma mem_fetch_over [simp]: "mem_over (snd (mem_fetch s k ev)) lim = mem_over s lim"
  by (auto simp: mem_over_def mem_fetch_size split: option.splits)

lemma mem_remove_size:
  "hm_len (i_map (snd (mem_remove s k))) \<le> hm_len (i_map s) \<and>
   i_total (snd (mem_remove s k)) \<le> i_total s"
  by (auto simp: mem_remove_def hm_len_drop saturating_sub_def split: option.splits)

lemma mem_remove_over: "mem_over (snd (mem_remove s k)) lim \<Longrightarrow> mem_over s lim"
  using mem_remove_size [of s k] by (auto intro: mem_over_mono)

lemma step_within:
  assumes "mem_inv (mt_inner t)" "\<not> mem_over (mt_inner t) (tier_limits t)"
  shows "mem_inv (mt_inner (snd (memory_step t c))) \<and>
         \<not> mem_over (mt_inner (snd (memory_step t c))) (tier_limits t)"
  using assms
  by (cases c)
     (auto simp only: memory_step_inner set_inner_simps mem_inv_fetch mem_inv_insert mem_inv_remove
        mem_insert_not_over mem_fetch_over dest: mem_remove_over)

lemma run_within:
  "mem_inv (mt_inner t) \<Longrightarrow> \<not> mem_over (mt_inner t) (tier_limits t) \<Longrightarrow> same_config t0 t \<Longrightarrow>
   \<not> mem_over (mt_inner (snd (memory_run t cs))) (tier_limits t0)"
proof (induction cs arbitrary: t)
  case Nil
  then show ?case by (simp add: same_config_simps)
next
  case (Cons c cs)
  note st = step_within [OF Cons.prems(1,2), of c] step_same_config [OF Cons.prems(3), of c]
  have "tier_limits (snd (memory_step t c)) = tier_limits t"
    using same_config_simps(3) [OF st(2)] same_config_simps(3) [OF Cons.prems(3)] by simp
  with Cons.IH [of "snd (memory_step t c)"] st show ?case by (simp add: Let_def split_def)
qed

lemma fresh_within: "\<not> mem_over mem_empty lim"
  by (simp add: mem_over_def mem_empty_def split: option.splits)

text \<open>
  C10. After every history on a fresh tier, whatever its eviction order, the tier holds at most
  \<open>max_entries\<close> entries and the weight it tracks is within the byte budget. Nothing is assumed of
  the stamps (which may wrap) or the weigher (whose sums may saturate).
\<close>

theorem memory_bounds:
  "(\<forall>mx. mt_max_entries cfg = Some mx \<longrightarrow>
      memory_len (snd (memory_run (set_inner cfg mem_empty) cs)) \<le> mx) \<and>
   (\<forall>b. mt_bytes cfg = Some b \<longrightarrow>
      memory_weight (snd (memory_run (set_inner cfg mem_empty) cs)) \<le> bb_budget b)"
proof -
  have "\<not> mem_over (mt_inner (snd (memory_run (set_inner cfg mem_empty) cs)))
            (tier_limits (set_inner cfg mem_empty))"
    by (rule run_within) (simp_all add: mem_inv_empty fresh_within same_config_def)
  then show ?thesis
    by (simp add: mem_over_def tier_limits_def memory_len_def memory_weight_def not_less
             split: option.splits)
qed

theorem memory_bounds_witness:
  "memory_len (snd (memory_run (memory_bounded 1) [Cmd_Put ''a'' (1::int), Cmd_Put ''b'' 2])) \<le> 1"
  using memory_bounds [of "memory_bounded 1" "[Cmd_Put ''a'' (1::int), Cmd_Put ''b'' 2]"]
  by (simp add: memory_bounded_def memory_unbounded_def set_inner_def)

section \<open>The answers are those of the list\<close>

text \<open>The weight a tier can hold between two commands.\<close>

definition weight_cap :: "('k, 'v) memory_tier \<Rightarrow> nat" where
  "weight_cap t = (case mt_bytes t of None \<Rightarrow> 0 | Some b \<Rightarrow> bb_budget b)"

text \<open>States in which the next command can neither wrap a stamp nor saturate a weight.\<close>

definition roomy :: "nat \<Rightarrow> ('k, 'v) memory_tier \<Rightarrow> bool" where
  "roomy n t \<longleftrightarrow>
     mem_wf (mt_inner t) \<and> map_weight (i_map (mt_inner t)) \<le> weight_cap t \<and>
     unat (i_next (mt_inner t)) + n < 2 ^ 64"

lemma roomy_stamp: "roomy (Suc n) t \<Longrightarrow> i_next (mt_inner t) \<noteq> - 1"
proof
  assume r: "roomy (Suc n) t" and m: "i_next (mt_inner t) = - 1"
  have "unat (i_next (mt_inner t)) = 2 ^ 64 - 1" unfolding m by (simp add: unsigned_minus_1_eq_mask mask_eq_exp_minus_1)
  with r show False by (simp add: roomy_def)
qed

lemma unat_next: "unat (x + 1) \<le> Suc (unat (x :: u64))"
  by (metis One_nat_def add.right_neutral add_Suc_right unat_1 unat_add_lem unat_plus_if' le_add1
      diff_le_self)

lemma evict_over_next: "i_next (snd (evict_over s lim)) = i_next s"
proof (induction s rule: evict_over_induct [where lim = lim])
  case (stop s)
  then show ?case by (auto simp: evict_over_stop)
next
  case (skip s t rest)
  then show ?case by (simp add: evict_over_skip)
next
  case (pop s k e rest)
  then show ?case by (simp add: evict_over_pop Let_def)
qed

lemma mem_compact_next [simp]: "i_next (mem_compact s) = i_next s"
  by (simp add: mem_compact_def)

lemma insert_next: "unat (i_next (snd (mem_insert s k v w lim ev))) \<le> Suc (unat (i_next s))"
  by (simp add: mem_insert_store evict_over_next mem_store_fields unat_next)

lemma fetch_next: "unat (i_next (snd (mem_fetch s k ev))) \<le> Suc (unat (i_next s))"
  by (simp add: mem_fetch_def mem_touch_def fresh_stamp_def Let_def unat_next split: option.splits)

lemma remove_next: "i_next (snd (mem_remove s k)) = i_next s"
  by (simp add: mem_remove_def split: option.splits)

text \<open>Evicting from the list only loses weight.\<close>

lemma q_evict_weight: "q_weight (snd (q_evict lim q)) \<le> q_weight q"
  by (induction q) (auto simp: q_weight_def)

lemma q_put_weight_0: "q_weight q = 0 \<Longrightarrow> q_weight (q_put ev q k v 0) = 0"
  by (auto simp: q_put_def q_weight_def q_drop_def)

lemma roomy_put:
  assumes r: "roomy (Suc n) t" and fits: "weight_cap t + weight_of t k v \<le> usize_max"
    and within: "\<not> mem_over (mt_inner (snd (memory_step t (Cmd_Put k v)))) (tier_limits t)"
  shows "roomy n (snd (memory_step t (Cmd_Put k v)))"
proof -
  let ?s = "mt_inner t" and ?w = "weight_of t k v"
  let ?s' = "snd (mem_insert ?s k v ?w (tier_limits t) (mt_eviction t))"
  have wf: "mem_wf ?s" and nx: "i_next ?s \<noteq> - 1" and le: "map_weight (i_map ?s) \<le> weight_cap t"
    using r roomy_stamp [OF r] by (simp_all add: roomy_def)
  have "map_weight (i_map ?s) + ?w \<le> usize_max" using le fits by linarith
  note ref = mem_insert_refines [OF wf nx this, where lim = "tier_limits t" and ev = "mt_eviction t"]
  have tot: "i_total ?s' = map_weight (i_map ?s')" using ref by (simp add: mem_wf_def)
  have "map_weight (i_map ?s') \<le> weight_cap t"
  proof (cases "mt_bytes t")
    case None
    then have "q_weight (live_queue ?s) = 0" "?w = 0"
      using le live_queue_weight [OF wf] by (simp_all add: weight_cap_def weight_of_def)
    then have "q_weight (live_queue ?s') = 0"
      using ref q_evict_weight [of "tier_limits t" "q_put (mt_eviction t) (live_queue ?s) k v ?w"]
        q_put_weight_0 [of "live_queue ?s" "mt_eviction t" k v] by simp
    then show ?thesis using live_queue_weight [of ?s'] ref by simp
  next
    case (Some b)
    then show ?thesis
      using within tot unfolding memory_step_inner set_inner_simps
      by (simp add: mem_over_def tier_limits_def weight_cap_def)
  qed
  then show ?thesis
    using ref r insert_next [of ?s k v ?w "tier_limits t" "mt_eviction t"]
    unfolding memory_step_inner by (simp add: roomy_def weight_cap_def)
qed

lemma map_weight_fetch: "map_weight (i_map (snd (mem_fetch s k ev))) = map_weight (i_map s)"
  by (auto simp: mem_fetch_def mem_touch_def fresh_stamp_def Let_def mem_touch_weight
           split: option.splits)

lemma map_weight_remove: "map_weight (i_map (snd (mem_remove s k))) \<le> map_weight (i_map s)"
  using map_weight_drop [of "i_map s" k] by (auto simp: mem_remove_def split: option.splits)

lemma roomy_fetch:
  assumes r: "roomy (Suc n) t"
  shows "roomy n (set_inner t (snd (mem_fetch (mt_inner t) k (mt_eviction t))))"
  using assms mem_fetch_refines [of "mt_inner t" k "mt_eviction t"] roomy_stamp [OF r]
    fetch_next [of "mt_inner t" k "mt_eviction t"]
  by (simp add: roomy_def map_weight_fetch weight_cap_def)

lemma roomy_remove:
  assumes r: "roomy (Suc n) t"
  shows "roomy n (set_inner t (snd (mem_remove (mt_inner t) k)))"
  using assms mem_remove_refines [of "mt_inner t" k] map_weight_remove [of "mt_inner t" k]
  by (simp add: roomy_def remove_next weight_cap_def)

lemma roomy_step:
  assumes r: "roomy (Suc n) t" and fits: "\<And>k v. weight_cap t + weight_of t k v \<le> usize_max"
    and "mem_inv (mt_inner t)" "\<not> mem_over (mt_inner t) (tier_limits t)"
  shows "roomy n (snd (memory_step t c))"
  using r roomy_put [OF r fits] roomy_fetch [OF r] roomy_remove [OF r]
    step_within [OF assms(3,4), of c]
  by (cases c) (auto simp only: memory_step_inner, auto simp: roomy_def)

lemma map_of_live_queue:
  assumes "mem_wf s"
  shows "map_of (live_queue s) k = map_option (\<lambda>e. (e_value e, e_weight e)) (fmlookup (i_map s) k)"
proof (cases "fmlookup (i_map s) k")
  case None
  then show ?thesis
    using live_queue_keys [OF assms] by (auto simp: map_of_eq_None_iff fmlookup_dom_iff)
next
  case (Some e)
  have "map_of q k = Some x" if "filter (\<lambda>t. fst t = k) q = [(k, x)]" for q x
    using that by (induction q) (auto split: if_splits)
  with live_queue_lookup [OF assms Some] Some show ?thesis by simp
qed

lemma q_value_live: "mem_wf s \<Longrightarrow> q_value (live_queue s) k = mem_con s k"
  by (simp add: q_value_def map_of_live_queue mem_con_def option.map_comp comp_def)

lemma contains_live: "mem_wf s \<Longrightarrow> hm_contains (i_map s) k \<longleftrightarrow> k \<in> fst ` set (live_queue s)"
  by (simp add: live_queue_keys hm_contains_iff)

lemma mem_remove_flag: "fst (mem_remove s k) = hm_contains (i_map s) k"
  by (simp add: mem_remove_def hm_contains_def split: option.splits)

text \<open>One command.\<close>

lemma step_refines:
  assumes r: "roomy (Suc n) t" and fits: "\<And>k v. weight_cap t + weight_of t k v \<le> usize_max"
  shows "q_step (mt_eviction t) (tier_limits t) (weight_of t) (live_queue (mt_inner t)) c =
    (fst (memory_step t c), live_queue (mt_inner (snd (memory_step t c))))"
proof -
  let ?s = "mt_inner t"
  have wf: "mem_wf ?s" and nx: "i_next ?s \<noteq> - 1" and le: "map_weight (i_map ?s) \<le> weight_cap t"
    using r roomy_stamp [OF r] by (simp_all add: roomy_def)
  note fetch = mem_fetch_refines [OF wf nx] and rem = mem_remove_refines [OF wf]
  have room: "map_weight (i_map ?s) + weight_of t k v \<le> usize_max" for k v
    using le fits [of k v] by linarith
  note ins = mem_insert_refines [OF wf nx room]
  show ?thesis
  proof (cases c)
    case (Cmd_Put k v)
    with ins [of k v] show ?thesis by (simp add: memory_put_def split_def Let_def)
  next
    case (Cmd_Get_Ref k)
    with fetch [of k "mt_eviction t"] wf show ?thesis
      by (cases "k \<in> fst ` set (live_queue ?s)"; cases "mt_eviction t")
         (simp_all add: memory_get_ref_def contains_live mem_fetch_def Let_def)
  qed (use fetch rem wf in \<open>auto simp: memory_get_def memory_exists_def memory_delete_def
         memory_list_def mem_page_refines q_value_live mem_fetch_res mem_remove_flag contains_live
         split_def Let_def\<close>)
qed

lemma run_refines:
  assumes "roomy (length cs) t" "\<And>k v. weight_cap t + weight_of t k v \<le> usize_max"
    "mem_inv (mt_inner t)" "\<not> mem_over (mt_inner t) (tier_limits t)"
  shows "fst (memory_run t cs) =
    q_run (mt_eviction t) (tier_limits t) (weight_of t) (live_queue (mt_inner t)) cs"
  using assms
proof (induction cs arbitrary: t)
  case Nil
  then show ?case by simp
next
  case (Cons c cs)
  let ?t = "snd (memory_step t c)"
  have r: "roomy (Suc (length cs)) t" using Cons.prems(1) by simp
  have cfg: "same_config t ?t" by (rule step_same_config) (simp add: same_config_def)
  have eqs: "mt_eviction ?t = mt_eviction t" "tier_limits ?t = tier_limits t"
      "weight_of ?t = weight_of t" "weight_cap ?t = weight_cap t"
    using same_config_simps [OF cfg] by (simp_all add: weight_cap_def)
  have "fst (memory_run ?t cs) =
      q_run (mt_eviction ?t) (tier_limits ?t) (weight_of ?t) (live_queue (mt_inner ?t)) cs"
    using Cons.prems step_within [OF Cons.prems(3,4), of c]
      roomy_step [OF r Cons.prems(2-4), of c]
    by (intro Cons.IH) (simp_all add: eqs)
  then show ?case
    using step_refines [OF r Cons.prems(2), of c] by (simp add: eqs Let_def split_def)
qed

text \<open>
  C9. Functional correctness of the memory tier over whole histories: as long as fewer than
  \<open>2 ^ 64\<close> commands are issued (one stamp each) and a weight on top of the full budget does not
  overflow \<open>usize\<close>, every answer (values, flags, displaced entries in order, listing pages) is
  that of the list in eviction order, with FIFO or LRU and either bound. Stale tickets, lazy
  deletion and compaction are invisible.
\<close>

theorem memory_refines_queue:
  assumes "length cs < 2 ^ 64" "\<forall>k v. weight_cap t + weight_of t k v \<le> usize_max"
    and "mt_inner t = mem_empty"
  shows "fst (memory_run t cs) = q_run (mt_eviction t) (tier_limits t) (weight_of t) [] cs"
proof -
  have "roomy (length cs) t"
    using assms(1,3) mem_wf_empty by (simp add: roomy_def) (simp add: mem_empty_def)
  from run_refines [OF this] assms show ?thesis
    by (simp add: mem_inv_empty fresh_within)
qed

theorem memory_refines_queue_witness:
  "fst (memory_run (with_eviction (memory_bounded 1) Lru) [Cmd_Put ''a'' (1::int), Cmd_Put ''b'' 2]) =
   [Ans_Displaced (Ok []), Ans_Displaced (Ok [(''a'', 1)])]"
proof -
  let ?t = "with_eviction (memory_bounded 1) Lru :: (string, int) memory_tier"
  have "mt_inner ?t = mem_empty" "\<forall>k v. weight_cap ?t + weight_of ?t k v \<le> usize_max"
      "tier_limits ?t = \<lparr>lim_entries = Some 1, lim_bytes = None\<rparr>" "weight_of ?t = (\<lambda>k v. 0)"
      "mt_eviction ?t = Lru"
    by (simp_all add: with_eviction_def memory_bounded_def memory_unbounded_def weight_cap_def
          weight_of_def tier_limits_def fun_eq_iff)
  then show ?thesis
    using memory_refines_queue [of "[Cmd_Put ''a'' (1::int), Cmd_Put ''b'' 2]" ?t]
    by (simp add: q_put_def q_drop_def q_over_def q_displaced_def Let_def split_def)
qed

section \<open>Single operations\<close>

text \<open>
  Eviction is never silent: in any state whatsoever, what a put (or a batch) leaves in the tier
  together with the displaced entries it returns, latest last, is exactly what the tier held with
  the new entries on top.
\<close>

theorem memory_put_lossless:
  "(let r = memory_put t k v in
    \<exists>d. fst r = Ok d \<and> pend d ++ memory_con (snd r) = memory_con t ++ [k \<mapsto> v]) \<and>
   (let r = memory_put_many t es in
    \<exists>d. fst r = Ok d \<and> pend d ++ memory_con (snd r) = memory_con t ++ pend es)"
proof -
  have single: "pend (fst (mem_insert s k v w lim ev)) ++ mem_con (snd (mem_insert s k v w lim ev)) =
      mem_con s ++ [k \<mapsto> v]" for s k v w lim ev
    using mem_insert_con [of s k v w lim ev] by simp
  have batch: "pend (fst (mem_insert_batch s (map (\<lambda>(k, v). (k, v, wt k v)) es) lim ev)) ++
      mem_con (snd (mem_insert_batch s (map (\<lambda>(k, v). (k, v, wt k v)) es) lim ev)) =
      mem_con s ++ pend es" for s wt lim ev
  proof (induction es arbitrary: s)
    case (Cons e es)
    show ?case
      using map_add_chain [OF single Cons.IH]
      by (cases e) (simp add: pend_Cons Let_def split_def)
  qed simp
  show ?thesis
    using single batch by (simp add: memory_put_def memory_put_many_def memory_con_def Let_def split_def)
qed

text \<open>
  The batch operations, which take the lock once, do what the trait's default loops over the
  single operations do: same results, same displaced entries in the same order, same state.
\<close>

theorem memory_batches_are_loops:
  "memory_get_many t ks = get_many_default memory_get t ks \<and>
   memory_put_many t es = put_many_default memory_put t es \<and>
   memory_delete_many t ks = delete_many_default memory_delete t ks"
  by (simp add: memory_get_many_loop memory_put_many_loop memory_delete_many_loop)

lemma mem_touch_keeps: "fmlookup (i_map (mem_touch s k)) k = None \<longleftrightarrow> fmlookup (i_map s) k = None"
  using fun_cong [OF mem_touch_con [of s k], of k]
  by (metis mem_con_def option.map_disc_iff)

text \<open>
  Dereferencing a borrowed view never panics, and it shows what \<open>get\<close> would have returned,
  with the same effect on recency: \<open>get_ref\<close> answers \<open>None\<close> exactly when the key is absent, and
  a view of the key it was asked for otherwise.
\<close>

theorem memory_get_ref_pinned:
  "case memory_get_ref t k of
     (Ok (Some k'), t') \<Rightarrow>
       k' = k \<and> memory_deref t' k' \<noteq> None \<and> memory_get t k = (Ok (memory_deref t' k'), t')
   | (Ok None, t') \<Rightarrow> memory_con t k = None \<and> memory_get t k = (Ok None, t')
   | (Err e, t') \<Rightarrow> False"
  using mem_touch_keeps [of "mt_inner t" k]
  by (auto simp: memory_get_ref_def memory_get_def memory_deref_def memory_con_def mem_fetch_def
        hm_contains_def mem_con_def split: option.splits)

text \<open>
  An entry heavier than the whole byte budget is displaced by its own insert, so a router
  rolls it straight to the next tier: after the put the tier does not hold the key and the
  displaced entries end with its new value.
\<close>

theorem memory_oversized_rolls_through:
  assumes "roomy (Suc n) t" "mt_bytes t = Some b" "bb_budget b < bb_weigh b k v"
    and "weight_cap t + bb_weigh b k v \<le> usize_max"
  shows "let r = memory_put t k v in
         memory_con (snd r) k = None \<and> (\<exists>d. fst r = Ok d \<and> pend d k = Some v)"
proof -
  let ?s = "mt_inner t" and ?w = "bb_weigh b k v"
  let ?q = "q_put (mt_eviction t) (live_queue ?s) k v ?w"
  let ?r = "mem_insert ?s k v ?w (tier_limits t) (mt_eviction t)"
  have wf: "mem_wf ?s" and nx: "i_next ?s \<noteq> - 1" and fits: "map_weight (i_map ?s) + ?w \<le> usize_max"
    using assms roomy_stamp [OF assms(1)] by (simp_all add: roomy_def)
  note ref = mem_insert_refines [OF wf nx fits, where lim = "tier_limits t" and ev = "mt_eviction t"]
  have w: "snd (snd e) = ?w" if "e \<in> set ?q" "fst e = k" for e
    using that by (auto simp: q_put_def q_drop_def split: if_splits)
  have gone: "k \<notin> fst ` set (live_queue (snd ?r))"
  proof
    assume "k \<in> fst ` set (live_queue (snd ?r))"
    then obtain e where e: "e \<in> set (live_queue (snd ?r))" "fst e = k" by auto
    have "set (live_queue (snd ?r)) \<subseteq> set ?q"
      using ref q_evict_split [of "tier_limits t" ?q] by (metis set_append sup_ge2)
    with e w [of e] have "snd (snd e) = ?w" by auto
    then have "?w \<in> (snd \<circ> snd) ` set (live_queue (snd ?r))"
      using imageI [OF e(1), of "snd \<circ> snd"] unfolding comp_def by (elim subst)
    then have "?w \<in> set (map (snd \<circ> snd) (live_queue (snd ?r)))" by (simp only: set_map)
    then have "?w \<le> q_weight (live_queue (snd ?r))"
      unfolding q_weight_def by (intro member_le_sum_list) simp_all
    moreover have "\<not> q_over (tier_limits t) (live_queue (snd ?r))"
      using ref mem_insert_not_over [OF mem_wf_inv [OF wf], of k v ?w "tier_limits t" "mt_eviction t"]
        mem_over_queue [of "snd ?r" "tier_limits t"] by blast
    ultimately show False using assms(2,3) by (simp add: q_over_def tier_limits_def)
  qed
  then have none: "mem_con (snd ?r) k = None"
    using ref live_queue_keys [of "snd ?r"] by (simp add: mem_con_def fmlookup_dom_iff)
  moreover have "pend (fst ?r) k = Some v"
    using fun_cong [OF mem_insert_con [of ?s k v ?w "tier_limits t" "mt_eviction t"], of k] none
    by (simp add: map_add_def)
  ultimately show ?thesis
    using assms(2) by (simp add: memory_put_def memory_con_def weight_of_def Let_def split_def)
qed

theorem memory_oversized_witness:
  "let t = memory_bounded_bytes 8 (\<lambda>k v. v) :: (string, nat) memory_tier; r = memory_put t ''a'' 9 in
   memory_con (snd r) ''a'' = None \<and> (\<exists>d. fst r = (Ok d :: (_, unit) result) \<and> pend d ''a'' = Some 9)"
proof -
  let ?t = "memory_bounded_bytes 8 (\<lambda>k v. v) :: (string, nat) memory_tier"
  let ?b = "\<lparr>bb_budget = 8, bb_weigh = \<lambda>k v. v\<rparr> :: (string, nat) byte_budget"
  have r: "roomy (Suc 0) ?t"
    using mem_wf_empty
    by (simp add: roomy_def memory_bounded_bytes_def memory_unbounded_def weight_cap_def)
       (simp add: mem_empty_def)
  have b: "mt_bytes ?t = Some ?b" by (simp add: memory_bounded_bytes_def memory_unbounded_def)
  show ?thesis
    unfolding Let_def using memory_oversized_rolls_through [OF r b, of "''a''" 9]
    by (simp add: weight_cap_def b usize_max_def Let_def)
qed

end
