(* ===== verification/Tier_Wrapping.thy ===== *)
theory Tier_Wrapping
  imports Tier_Traits
begin

text \<open>
  Middleware tiers: a wrapper around an inner tier that forwards every operation and may turn an
  answer into an error. Such a wrapper keeps the tier contract, with the contents of its inner
  tier; one that never adds an error keeps reliability too. The wrapper may rely on a property \<open>P\<close>
  of its own state which every operation keeps.
\<close>

text \<open>An operation on the wrapper does what the inner one does, and only answers what that answered.\<close>

definition forwards ::
  "('w \<Rightarrow> bool) \<Rightarrow> ('w \<Rightarrow> 's) \<Rightarrow> ('w \<Rightarrow> ('a, 'f) result \<times> 'w) \<Rightarrow> ('s \<Rightarrow> ('a, 'e) result \<times> 's) \<Rightarrow> bool"
where
  "forwards P inn g f \<longleftrightarrow>
     (\<forall>w. P w \<longrightarrow> P (snd (g w)) \<and> inn (snd (g w)) = snd (f (inn w)) \<and>
        (\<forall>a. fst (g w) = Ok a \<longrightarrow> fst (f (inn w)) = Ok a))"

definition wraps ::
  "('w \<Rightarrow> bool) \<Rightarrow> ('w \<Rightarrow> 's) \<Rightarrow> ('w, 'k, 'v, 'f) tier_ops \<Rightarrow> ('s, 'k, 'v, 'e) tier_ops \<Rightarrow> bool" where
  "wraps P inn ops t \<longleftrightarrow>
     (\<forall>k. forwards P inn (\<lambda>w. t_get ops w k) (\<lambda>s. t_get t s k)) \<and>
     (\<forall>k. forwards P inn (\<lambda>w. t_exists ops w k) (\<lambda>s. t_exists t s k)) \<and>
     (\<forall>ks. forwards P inn (\<lambda>w. t_get_many ops w ks) (\<lambda>s. t_get_many t s ks)) \<and>
     (\<forall>k v. forwards P inn (\<lambda>w. t_put ops w k v) (\<lambda>s. t_put t s k v)) \<and>
     (\<forall>k. forwards P inn (\<lambda>w. t_delete ops w k) (\<lambda>s. t_delete t s k)) \<and>
     (\<forall>es. forwards P inn (\<lambda>w. t_put_many ops w es) (\<lambda>s. t_put_many t s es)) \<and>
     (\<forall>ks. forwards P inn (\<lambda>w. t_delete_many ops w ks) (\<lambda>s. t_delete_many t s ks))"

lemma forwards_keeps: "forwards P inn g f \<Longrightarrow> P w \<Longrightarrow> P (snd (g w))"
  by (simp add: forwards_def)

lemma forwards_snd: "forwards P inn g f \<Longrightarrow> P w \<Longrightarrow> inn (snd (g w)) = snd (f (inn w))"
  by (simp add: forwards_def)

lemma forwards_fst: "forwards P inn g f \<Longrightarrow> fst (g w) = Ok a \<Longrightarrow> P w \<Longrightarrow> fst (f (inn w)) = Ok a"
  by (simp add: forwards_def)

lemma wrapsD:
  assumes "wraps P inn ops t"
  shows "forwards P inn (\<lambda>w. t_get ops w k) (\<lambda>s. t_get t s k)"
    "forwards P inn (\<lambda>w. t_exists ops w k) (\<lambda>s. t_exists t s k)"
    "forwards P inn (\<lambda>w. t_get_many ops w ks) (\<lambda>s. t_get_many t s ks)"
    "forwards P inn (\<lambda>w. t_put ops w k v) (\<lambda>s. t_put t s k v)"
    "forwards P inn (\<lambda>w. t_delete ops w k) (\<lambda>s. t_delete t s k)"
    "forwards P inn (\<lambda>w. t_put_many ops w es) (\<lambda>s. t_put_many t s es)"
    "forwards P inn (\<lambda>w. t_delete_many ops w ks) (\<lambda>s. t_delete_many t s ks)"
  using assms by (simp_all add: wraps_def)

text \<open>The states of a wrapper that makes the table \<open>mk t\<close> of an inner table \<open>t\<close>.\<close>

definition wrapped_inv ::
  "(('s, 'k, 'v, 'e) tier_ops \<Rightarrow> ('w, 'k, 'v, 'f) tier_ops) \<Rightarrow> ('w \<Rightarrow> bool) \<Rightarrow> ('w \<Rightarrow> 's) \<Rightarrow>
   (('s, 'k, 'v, 'e) tier_ops \<Rightarrow> 's \<Rightarrow> bool) \<Rightarrow> ('w, 'k, 'v, 'f) tier_ops \<Rightarrow> 'w \<Rightarrow> bool"
where
  "wrapped_inv mk P inn ivt ops w \<longleftrightarrow> (\<exists>t. ops = mk t \<and> P w \<and> ivt t (inn w))"

lemma wrapped_invE:
  "wrapped_inv mk P inn ivt ops w \<Longrightarrow> (\<And>t. ops = mk t \<Longrightarrow> P w \<Longrightarrow> ivt t (inn w) \<Longrightarrow> Q) \<Longrightarrow> Q"
  by (auto simp: wrapped_inv_def)

lemma wrapped_invI: "P w \<Longrightarrow> ivt t (inn w) \<Longrightarrow> wrapped_inv mk P inn ivt (mk t) w"
  by (auto simp: wrapped_inv_def)

lemma wrapped_laws:
  assumes "tier_laws ivt (\<lambda>_. c)" and "\<And>t. wraps P inn (mk t) t"
  shows "tier_laws (wrapped_inv mk P inn ivt) (\<lambda>_ w. c (inn w))"
proof -
  note s = tier_laws.axioms(1) [OF assms(1)]
  note w = wrapsD [OF assms(2)]
  note snds = w [THEN forwards_snd]
  note fsts = w [THEN forwards_fst]
  note keeps = w [THEN forwards_keeps]
  note invs = single_laws.get_inv [OF s] single_laws.get_con [OF s] single_laws.exists_inv [OF s]
    single_laws.exists_con [OF s] single_laws.put_inv [OF s] single_laws.delete_inv [OF s]
    tier_laws.get_many_inv [OF assms(1)] tier_laws.get_many_con [OF assms(1)]
    tier_laws.put_many_inv [OF assms(1)] tier_laws.delete_many_inv [OF assms(1)]
  note res = single_laws.get_res [OF s] single_laws.exists_res [OF s] single_laws.put_con [OF s]
    single_laws.delete_con [OF s] single_laws.delete_res [OF s] tier_laws.get_many_res [OF assms(1)]
    tier_laws.put_many_con [OF assms(1)] tier_laws.delete_many_con [OF assms(1)]
    tier_laws.delete_many_res [OF assms(1)]
  show ?thesis
    by unfold_locales
       (erule wrapped_invE, hypsubst, (drule fsts, assumption)?,
        (rule wrapped_invI, rule keeps, assumption)?, (subst snds, assumption)?,
        (rule invs res; assumption))+
qed

text \<open>A wrapper that answers exactly what its inner tier answers.\<close>

definition transparent ::
  "('w \<Rightarrow> bool) \<Rightarrow> ('w \<Rightarrow> 's) \<Rightarrow> ('w, 'k, 'v, 'e) tier_ops \<Rightarrow> ('s, 'k, 'v, 'e) tier_ops \<Rightarrow> bool" where
  "transparent P inn ops t \<longleftrightarrow>
     (\<forall>w k. P w \<longrightarrow> fst (t_get ops w k) = fst (t_get t (inn w) k)) \<and>
     (\<forall>w k. P w \<longrightarrow> fst (t_exists ops w k) = fst (t_exists t (inn w) k)) \<and>
     (\<forall>w ks. P w \<longrightarrow> fst (t_get_many ops w ks) = fst (t_get_many t (inn w) ks)) \<and>
     (\<forall>w k v. P w \<longrightarrow> fst (t_put ops w k v) = fst (t_put t (inn w) k v)) \<and>
     (\<forall>w k. P w \<longrightarrow> fst (t_delete ops w k) = fst (t_delete t (inn w) k)) \<and>
     (\<forall>w es. P w \<longrightarrow> fst (t_put_many ops w es) = fst (t_put_many t (inn w) es)) \<and>
     (\<forall>w ks. P w \<longrightarrow> fst (t_delete_many ops w ks) = fst (t_delete_many t (inn w) ks))"

lemma wrapped_reliable:
  assumes "reliable_tiers ivt (\<lambda>_. c)" and "\<And>t. wraps P inn (mk t) t" and "\<And>t. transparent P inn (mk t) t"
  shows "reliable_tiers (wrapped_inv mk P inn ivt) (\<lambda>_ w. c (inn w))"
proof -
  note oks = reliable_tiers.get_ok [OF assms(1)] reliable_tiers.exists_ok [OF assms(1)]
    reliable_tiers.get_many_ok [OF assms(1)] reliable_tiers.put_ok [OF assms(1)]
    reliable_tiers.put_many_ok [OF assms(1)] reliable_tiers.delete_ok [OF assms(1)]
    reliable_tiers.delete_many_ok [OF assms(1)]
  show ?thesis
    using wrapped_laws [where mk = mk, OF reliable_tiers.axioms(1) [OF assms(1)] assms(2)]
      assms(3) [unfolded transparent_def]
    by (intro reliable_tiers.intro reliable_tiers_axioms.intro) (auto elim!: wrapped_invE simp: oks)
qed

end
