(* ===== verification/Memory_Examples.thy ===== *)
theory Memory_Examples
  imports Memory_Tier
begin

text \<open>
  Memory tiers of capacity one that hold one entry, and what every operation does to them: the
  concrete tiers on which the properties of the hierarchies and of the middleware are applied.
\<close>

section \<open>Memory tiers of capacity one\<close>

text \<open>A memory tier of capacity one that holds one entry.\<close>

definition one_entry :: "'k \<Rightarrow> 'v \<Rightarrow> u64 \<Rightarrow> u64 \<Rightarrow> ('k, 'v) memory_tier" where
  "one_entry k v st nx =
     set_inner (memory_bounded 1)
       \<lparr>i_map = fmupd k \<lparr>e_value = v, e_weight = 0, e_stamp = st\<rparr> fmempty, i_order = [(k, st)],
        i_total = 0, i_next = nx\<rparr>"

lemma one_limits: "tier_limits (memory_bounded c) = \<lparr>lim_entries = Some c, lim_bytes = None\<rparr>"
  by (simp add: tier_limits_def memory_bounded_def memory_unbounded_def)

lemma one_config:
  "mt_eviction (memory_bounded c) = Fifo" "weight_of (memory_bounded c) k v = 0"
  "mt_inner (memory_bounded c) = mem_empty"
  by (simp_all add: memory_bounded_def memory_unbounded_def weight_of_def)

lemma one_len: "hm_len (fmupd k e fmempty) = 1"
  by (simp add: hm_len_upd hm_contains_def)

lemma put_empty: "memory_put (memory_bounded 1) k v = (Ok [], one_entry k v 1 1)"
  by (simp add: memory_put_def one_limits one_config one_entry_def mem_insert_store mem_store_def
      mem_empty_def hm_contains_def mem_compact_def evict_over_stop mem_over_def one_len Let_def
      saturating_add_def saturating_sub_def)

lemma put_same: "memory_put (one_entry k w st nx) k v = (Ok [], one_entry k v st (nx + 1))"
  by (simp add: memory_put_def one_limits one_config one_entry_def mem_insert_store mem_store_def
      hm_contains_def mem_compact_def evict_over_stop mem_over_def one_len Let_def
      saturating_add_def saturating_sub_def)

lemma put_other:
  assumes "j \<noteq> k"
  shows "memory_put (one_entry j w st nx) k v = (Ok [(j, w)], one_entry k v (nx + 1) (nx + 1))"
proof -
  let ?e = "\<lparr>e_value = w, e_weight = 0, e_stamp = st\<rparr>" and ?f = "\<lparr>e_value = v, e_weight = 0, e_stamp = nx + 1\<rparr>"
  let ?lim = "\<lparr>lim_entries = Some 1, lim_bytes = None\<rparr> :: limits"
  let ?s = "\<lparr>i_map = fmupd k ?f (fmupd j ?e fmempty), i_order = [(j, st), (k, nx + 1)], i_total = 0, i_next = nx + 1\<rparr>"
  have m: "fmdrop j (fmupd k ?f (fmupd j ?e fmempty)) = fmupd k ?f fmempty"
    using assms by (intro fmap_ext) auto
  have "evict_over ?s ?lim =
      (let r = evict_over \<lparr>i_map = fmupd k ?f fmempty, i_order = [(k, nx + 1)], i_total = 0, i_next = nx + 1\<rparr> ?lim
       in ((j, w) # fst r, snd r))"
    using assms m
    by (subst evict_over_pop [where k = j and st = st and rest = "[(k, nx + 1)]" and e = ?e])
       (auto simp: mem_over_def hm_len_upd hm_contains_def saturating_sub_def)
  also have "\<dots> = ([(j, w)], \<lparr>i_map = fmupd k ?f fmempty, i_order = [(k, nx + 1)], i_total = 0, i_next = nx + 1\<rparr>)"
    by (simp add: evict_over_stop mem_over_def one_len)
  finally show ?thesis
    using assms
    by (simp add: memory_put_def one_limits one_config one_entry_def mem_insert_store mem_store_def
      hm_contains_def mem_compact_def Let_def saturating_add_def saturating_sub_def)
qed

lemma get_one: "memory_get (one_entry j w st nx) k = (Ok (if j = k then Some w else None), one_entry j w st nx)"
  by (simp add: memory_get_def one_entry_def mem_fetch_def one_config)

lemma con_one: "memory_con (one_entry j w st nx) = [j \<mapsto> w]"
  by (auto simp: memory_con_def one_entry_def mem_con_def fun_eq_iff)

lemma con_unbounded: "memory_con memory_unbounded = Map.empty"
  by (simp add: memory_con_def mem_con_def memory_unbounded_def mem_empty_def)

lemma get_many_one:
  "memory_get_many (one_entry j w st nx) ks =
     (Ok (map (\<lambda>k. if j = k then Some w else None) ks), one_entry j w st nx)"
proof -
  have "mem_fetch_batch (mt_inner (one_entry j w st nx)) ks Fifo =
      (map (\<lambda>k. if j = k then Some w else None) ks, mt_inner (one_entry j w st nx))" for ks
    by (induction ks) (simp_all add: mem_fetch_def one_entry_def)
  then show ?thesis by (simp add: memory_get_many_def) (simp add: one_entry_def one_config)
qed

lemma one_entry_inv: "memory_inv memory_ops (one_entry k v 1 1)"
proof -
  have "memory_inv memory_ops (memory_bounded 1 :: ('a, 'b) memory_tier)"
    by (simp add: memory_inv_def one_config mem_inv_empty)
  from memory.put_inv [OF this, of k v] show ?thesis by (simp only: memory_ops_simps put_empty snd_conv)
qed

text \<open>The state after a delete keeps the stale ticket.\<close>

definition no_entry :: "'k \<Rightarrow> u64 \<Rightarrow> u64 \<Rightarrow> ('k, 'v) memory_tier" where
  "no_entry k st nx =
     set_inner (memory_bounded 1) \<lparr>i_map = fmempty, i_order = [(k, st)], i_total = 0, i_next = nx\<rparr>"

lemma fmdrop_single: "fmdrop k (fmupd k e fmempty) = fmempty"
  by (rule fmap_ext) simp

lemma delete_one:
  "memory_delete (one_entry j w st nx) k =
     (if j = k then (Ok True, no_entry k st nx) else (Ok False, one_entry j w st nx))"
  by (simp add: memory_delete_def one_entry_def no_entry_def mem_remove_def saturating_sub_def Let_def
        fmdrop_single)

lemma delete_many_two:
  "k \<noteq> l \<Longrightarrow> memory_delete_many (one_entry k w st nx) [k, l] = (Ok [True, False], no_entry k st nx)"
  "j \<noteq> k \<Longrightarrow> j \<noteq> l \<Longrightarrow>
   memory_delete_many (one_entry j w st nx) [k, l] = (Ok [False, False], one_entry j w st nx)"
  by (simp_all add: memory_delete_many_def mem_remove_def one_entry_def no_entry_def
        saturating_sub_def Let_def fmdrop_single)

lemma exists_one: "memory_exists (one_entry j w st nx) k = (Ok (j = k), one_entry j w st nx)"
  by (simp add: memory_exists_def one_entry_def hm_contains_def)

lemma con_none: "memory_con (no_entry k st nx) = Map.empty"
  by (simp add: memory_con_def no_entry_def mem_con_def)

end
