(* ===== verification/Verified_Tier.thy ===== *)
theory Verified_Tier
  imports Tier_Wrapping Memory_Examples
begin

text \<open>
  \<open>tierstore/src/verified.rs\<close>: a tier that checks every value its inner tier serves. The inner tier
  is any table of operations with its state; the check is a function stored in the tier, its error
  a boxed error. A rejected value is an error of the tier, so a verified tier keeps the tier
  contract with the contents of its inner tier, and no rejected value leaves it.
\<close>

section \<open>Operations\<close>

record ('s, 'k, 'v, 'b) verified_tier =
  vt_inner :: 's
  vt_name :: string
  vt_check :: "'k \<Rightarrow> 'v \<Rightarrow> (unit, 'b) result"

datatype ('e, 'b) verify_error = Verify_Backend 'e | Corrupt 'b

definition verified_new ::
  "('s, 'k, 'v, 'e) tier_ops \<Rightarrow> 's \<Rightarrow> ('k \<Rightarrow> 'v \<Rightarrow> (unit, 'b) result) \<Rightarrow> ('s, 'k, 'v, 'b) verified_tier" where
  "verified_new t s chk =
     \<lparr>vt_inner = s, vt_name = ''verified('' @ t_name t s @ '')'', vt_check = chk\<rparr>"

text \<open>A call of the inner tier whose error is wrapped, and the tier with the inner state after it.\<close>

definition verified_pass ::
  "('s \<Rightarrow> ('a, 'e) result \<times> 's) \<Rightarrow> ('s, 'k, 'v, 'b) verified_tier \<Rightarrow>
   ('a, ('e, 'b) verify_error) result \<times> ('s, 'k, 'v, 'b) verified_tier"
where
  "verified_pass f w =
     (let (r, s) = f (vt_inner w) in (map_err Verify_Backend r, w\<lparr>vt_inner := s\<rparr>))"

definition verified_get ::
  "('s, 'k, 'v, 'e) tier_ops \<Rightarrow> ('s, 'k, 'v, 'b) verified_tier \<Rightarrow> 'k \<Rightarrow>
   ('v option, ('e, 'b) verify_error) result \<times> ('s, 'k, 'v, 'b) verified_tier"
where
  "verified_get t w k =
     (case verified_pass (\<lambda>s. t_get t s k) w of
        (Err e, w1) \<Rightarrow> (Err e, w1)
      | (Ok (Some v), w1) \<Rightarrow>
          (case vt_check w k v of
             Err b \<Rightarrow> (Err (Corrupt b), w1)
           | Ok _ \<Rightarrow> (Ok (Some v), w1))
      | (Ok None, w1) \<Rightarrow> (Ok None, w1))"

text \<open>The loop over the batch, which stops at the first rejected value.\<close>

fun check_all ::
  "('k \<Rightarrow> 'v \<Rightarrow> (unit, 'b) result) \<Rightarrow> ('k \<times> 'v option) list \<Rightarrow> (unit, 'b) result" where
  "check_all chk [] = Ok ()"
| "check_all chk ((k, Some v) # kvs) =
     (case chk k v of Err b \<Rightarrow> Err b | Ok _ \<Rightarrow> check_all chk kvs)"
| "check_all chk ((k, None) # kvs) = check_all chk kvs"

definition verified_get_many ::
  "('s, 'k, 'v, 'e) tier_ops \<Rightarrow> ('s, 'k, 'v, 'b) verified_tier \<Rightarrow> 'k list \<Rightarrow>
   ('v option list, ('e, 'b) verify_error) result \<times> ('s, 'k, 'v, 'b) verified_tier"
where
  "verified_get_many t w ks =
     (case verified_pass (\<lambda>s. t_get_many t s ks) w of
        (Err e, w1) \<Rightarrow> (Err e, w1)
      | (Ok vs, w1) \<Rightarrow>
          (case check_all (vt_check w) (zip ks vs) of
             Err b \<Rightarrow> (Err (Corrupt b), w1)
           | Ok _ \<Rightarrow> (Ok vs, w1)))"

definition verified_ops ::
  "('s, 'k, 'v, 'e) tier_ops \<Rightarrow>
   (('s, 'k, 'v, 'b) verified_tier, 'k, 'v, ('e, 'b) verify_error) tier_ops"
where
  "verified_ops t =
     \<lparr>t_name = vt_name,
      t_get = verified_get t,
      t_exists = (\<lambda>w k. verified_pass (\<lambda>s. t_exists t s k) w),
      t_get_many = verified_get_many t,
      t_put = (\<lambda>w k v. verified_pass (\<lambda>s. t_put t s k v) w),
      t_delete = (\<lambda>w k. verified_pass (\<lambda>s. t_delete t s k) w),
      t_put_many = (\<lambda>w es. verified_pass (\<lambda>s. t_put_many t s es) w),
      t_delete_many = (\<lambda>w ks. verified_pass (\<lambda>s. t_delete_many t s ks) w)\<rparr>"

text \<open>The listing of the inner tier, \<open>lst\<close>, forwarded.\<close>

definition verified_list ::
  "('s \<Rightarrow> 'c option \<Rightarrow> nat \<Rightarrow> (('k, 'c) page, 'e) result \<times> 's) \<Rightarrow>
   ('s, 'k, 'v, 'b) verified_tier \<Rightarrow> 'c option \<Rightarrow> nat \<Rightarrow>
   (('k, 'c) page, ('e, 'b) verify_error) result \<times> ('s, 'k, 'v, 'b) verified_tier"
where
  "verified_list lst w cursor limit = verified_pass (\<lambda>s. lst s cursor limit) w"

lemma verified_ops_simps [simp]:
  "t_name (verified_ops t) w = vt_name w"
  "t_get (verified_ops t) = verified_get t"
  "t_exists (verified_ops t) w k = verified_pass (\<lambda>s. t_exists t s k) w"
  "t_get_many (verified_ops t) = verified_get_many t"
  "t_put (verified_ops t) w k v = verified_pass (\<lambda>s. t_put t s k v) w"
  "t_delete (verified_ops t) w k = verified_pass (\<lambda>s. t_delete t s k) w"
  "t_put_many (verified_ops t) w es = verified_pass (\<lambda>s. t_put_many t s es) w"
  "t_delete_many (verified_ops t) w ks = verified_pass (\<lambda>s. t_delete_many t s ks) w"
  by (simp_all add: verified_ops_def)

section \<open>The contract\<close>

lemma verified_pass_simps [simp]:
  "fst (verified_pass f w) = map_err Verify_Backend (fst (f (vt_inner w)))"
  "vt_inner (snd (verified_pass f w)) = snd (f (vt_inner w))"
  by (simp_all add: verified_pass_def Let_def split_def)

lemma verified_get_fst:
  "fst (verified_get t w k) =
     (case fst (t_get t (vt_inner w) k) of
        Err e \<Rightarrow> Err (Verify_Backend e)
      | Ok None \<Rightarrow> Ok None
      | Ok (Some v) \<Rightarrow> (case vt_check w k v of Err b \<Rightarrow> Err (Corrupt b) | Ok _ \<Rightarrow> Ok (Some v)))"
  by (cases "t_get t (vt_inner w) k")
     (auto simp: verified_get_def verified_pass_def Let_def split: sum.split option.split)

lemma verified_get_many_fst:
  "fst (verified_get_many t w ks) =
     (case fst (t_get_many t (vt_inner w) ks) of
        Err e \<Rightarrow> Err (Verify_Backend e)
      | Ok vs \<Rightarrow> (case check_all (vt_check w) (zip ks vs) of Err b \<Rightarrow> Err (Corrupt b) | Ok _ \<Rightarrow> Ok vs))"
  by (cases "t_get_many t (vt_inner w) ks")
     (auto simp: verified_get_many_def verified_pass_def Let_def split: sum.split)

lemma verified_reads_inner [simp]:
  "vt_inner (snd (verified_get t w k)) = snd (t_get t (vt_inner w) k)"
  "vt_inner (snd (verified_get_many t w ks)) = snd (t_get_many t (vt_inner w) ks)"
  by (cases "t_get t (vt_inner w) k", cases "t_get_many t (vt_inner w) ks",
      auto simp: verified_get_def verified_get_many_def verified_pass_def Let_def
           split: sum.split option.split)+

lemma verified_get_Ok: "fst (verified_get t w k) = Ok x \<Longrightarrow> fst (t_get t (vt_inner w) k) = Ok x"
  by (auto simp: verified_get_fst split: sum.splits option.splits)

lemma verified_get_many_Ok:
  "fst (verified_get_many t w ks) = Ok vs \<Longrightarrow> fst (t_get_many t (vt_inner w) ks) = Ok vs"
  by (auto simp: verified_get_many_fst split: sum.splits)

lemma verified_wraps: "wraps (\<lambda>_. True) vt_inner (verified_ops t) t"
  by (auto simp: wraps_def forwards_def dest: verified_get_Ok verified_get_many_Ok)

interpretation verified_memory:
  tier_laws "wrapped_inv verified_ops (\<lambda>_. True) vt_inner memory_inv" "\<lambda>_ w. memory_con (vt_inner w)"
  by (rule wrapped_laws [OF memory.tier_laws_axioms verified_wraps])

section \<open>No rejected value is served\<close>

lemma check_all_Ok:
  "check_all chk kvs = Ok u \<longleftrightarrow> (\<forall>k v. (k, Some v) \<in> set kvs \<longrightarrow> is_ok (chk k v))"
  by (induction chk kvs rule: check_all.induct) (auto split: sum.split)

lemma check_all_Err: "check_all chk kvs = Err b \<Longrightarrow> \<exists>k v. (k, Some v) \<in> set kvs \<and> chk k v = Err b"
  by (induction chk kvs rule: check_all.induct) (auto split: sum.splits)

text \<open>
  C26. A verified tier screens its inner tier. Over any tier that keeps the contract, a value it
  returns is what the inner tier holds and has passed the check, absence is the inner tier's, a
  corruption error means that the inner tier holds a value the check rejects with that error, and
  any other error is the inner tier's own. A batch is served only if every value in it passes.
\<close>

theorem verified_screens:
  assumes "tier_laws ivt (\<lambda>_. c)" "ivt t (vt_inner w)"
  shows "(case fst (verified_get t w k) of
            Ok (Some v) \<Rightarrow> c (vt_inner w) k = Some v \<and> vt_check w k v = Ok ()
          | Ok None \<Rightarrow> c (vt_inner w) k = None
          | Err (Corrupt b) \<Rightarrow> \<exists>v. c (vt_inner w) k = Some v \<and> vt_check w k v = Err b
          | Err (Verify_Backend e) \<Rightarrow> fst (t_get t (vt_inner w) k) = Err e) \<and>
         (case fst (verified_get_many t w ks) of
            Ok vs \<Rightarrow> vs = map (c (vt_inner w)) ks \<and>
              (\<forall>k \<in> set ks. \<forall>v. c (vt_inner w) k = Some v \<longrightarrow> vt_check w k v = Ok ())
          | Err (Corrupt b) \<Rightarrow> \<exists>k \<in> set ks. \<exists>v. c (vt_inner w) k = Some v \<and> vt_check w k v = Err b
          | Err (Verify_Backend e) \<Rightarrow> fst (t_get_many t (vt_inner w) ks) = Err e)"
proof
  have u: "is_ok r \<longleftrightarrow> r = Ok ()" for r :: "(unit, 'e) result" by (cases r) simp_all
  note s = tier_laws.axioms(1) [OF assms(1)]
  show "case fst (verified_get t w k) of
            Ok (Some v) \<Rightarrow> c (vt_inner w) k = Some v \<and> vt_check w k v = Ok ()
          | Ok None \<Rightarrow> c (vt_inner w) k = None
          | Err (Corrupt b) \<Rightarrow> \<exists>v. c (vt_inner w) k = Some v \<and> vt_check w k v = Err b
          | Err (Verify_Backend e) \<Rightarrow> fst (t_get t (vt_inner w) k) = Err e"
    using single_laws.get_res [OF s assms(2), of k]
    by (auto simp: verified_get_fst split: sum.split option.split)
  show "case fst (verified_get_many t w ks) of
            Ok vs \<Rightarrow> vs = map (c (vt_inner w)) ks \<and>
              (\<forall>k \<in> set ks. \<forall>v. c (vt_inner w) k = Some v \<longrightarrow> vt_check w k v = Ok ())
          | Err (Corrupt b) \<Rightarrow> \<exists>k \<in> set ks. \<exists>v. c (vt_inner w) k = Some v \<and> vt_check w k v = Err b
          | Err (Verify_Backend e) \<Rightarrow> fst (t_get_many t (vt_inner w) ks) = Err e"
  proof (cases "fst (t_get_many t (vt_inner w) ks)")
    case (Inl e)
    then show ?thesis by (simp add: verified_get_many_fst)
  next
    case (Inr vs)
    then have vs: "vs = map (c (vt_inner w)) ks" by (rule tier_laws.get_many_res [OF assms])
    have zip: "(k, x) \<in> set (zip ks (map f ks)) \<longleftrightarrow> k \<in> set ks \<and> x = f k" for k x and f :: "'b \<Rightarrow> 'c option"
      by (induction ks) auto
    show ?thesis
    proof (cases "check_all (vt_check w) (zip ks vs)")
      case (Inl b)
      then obtain k v where "k \<in> set ks" "c (vt_inner w) k = Some v" "vt_check w k v = Err b"
        using check_all_Err [OF Inl] by (auto simp: vs zip) (metis)
      then show ?thesis using Inl Inr by (auto simp: verified_get_many_fst)
    next
      case (Inr u)
      then show ?thesis
        using check_all_Ok [of "vt_check w" "zip ks vs"] \<open>fst (t_get_many t (vt_inner w) ks) = Ok vs\<close>
        by (auto simp: verified_get_many_fst vs zip u)
    qed
  qed
qed

theorem verified_screens_witness:
  "memory_con (one_entry ''k'' (0 :: nat) 1 1) ''k'' = Some 0 \<and>
   fst (verified_get (memory_ops :: ((string, nat) memory_tier, string, nat, unit) tier_ops)
     \<lparr>vt_inner = one_entry ''k'' 0 1 1, vt_name = ''verified(memory)'',
      vt_check = \<lambda>k v. if v = 0 then Err ''empty value'' else Ok ()\<rparr> ''k'') = Err (Corrupt ''empty value'')"
proof -
  let ?t = "memory_ops :: ((string, nat) memory_tier, string, nat, unit) tier_ops"
  let ?w = "\<lparr>vt_inner = one_entry ''k'' 0 1 1, vt_name = ''verified(memory)'',
      vt_check = \<lambda>(k :: string) v. if v = (0 :: nat) then Err ''empty value'' else Ok ()\<rparr>"
  have r: "fst (verified_get ?t ?w ''k'') = Err (Corrupt ''empty value'')"
    by (simp add: verified_get_fst get_one)
  have i: "memory_inv ?t (vt_inner ?w)" using one_entry_inv by simp
  from verified_screens [OF memory.tier_laws_axioms i, of "''k''" "[]"] r
  show ?thesis by (auto split: if_splits)
qed

end
