(* ===== verification/Codec_Tier.thy ===== *)
theory Codec_Tier
  imports Memory_Examples
begin

text \<open>
  \<open>tierstore/src/codec.rs\<close>: typed keys and values over a byte-oriented inner tier. The key mapping
  and the value codec are functions stored in the tier. Over a reliable inner tier, with an
  injective key mapping and a codec that decodes what it encoded (key included), the typed tier
  keeps the tier contract; with a key mapping that collides it does not.
\<close>

section \<open>Operations\<close>

record ('s, 'k, 'v, 'ik, 'iv, 'b) codec_tier =
  ct_inner :: 's
  ct_name :: string
  ct_to_key :: "'k \<Rightarrow> 'ik"
  ct_encode :: "'k \<Rightarrow> 'v \<Rightarrow> ('iv, 'b) result"
  ct_decode :: "'iv \<Rightarrow> ('k \<times> 'v, 'b) result"

datatype ('e, 'b) codec_error = Codec_Backend 'e | Codec 'b

definition codec_new ::
  "('s, 'ik, 'iv, 'e) tier_ops \<Rightarrow> 's \<Rightarrow> ('k \<Rightarrow> 'ik) \<Rightarrow> ('k \<Rightarrow> 'v \<Rightarrow> ('iv, 'b) result) \<Rightarrow>
   ('iv \<Rightarrow> ('k \<times> 'v, 'b) result) \<Rightarrow> ('s, 'k, 'v, 'ik, 'iv, 'b) codec_tier"
where
  "codec_new t s to_key enc dec =
     \<lparr>ct_inner = s, ct_name = ''codec('' @ t_name t s @ '')'', ct_to_key = to_key,
      ct_encode = enc, ct_decode = dec\<rparr>"

definition codec_pass ::
  "('s \<Rightarrow> ('a, 'e) result \<times> 's) \<Rightarrow> ('s, 'k, 'v, 'ik, 'iv, 'b) codec_tier \<Rightarrow>
   ('a, ('e, 'b) codec_error) result \<times> ('s, 'k, 'v, 'ik, 'iv, 'b) codec_tier"
where
  "codec_pass f w =
     (let (r, s) = f (ct_inner w) in (map_err Codec_Backend r, w\<lparr>ct_inner := s\<rparr>))"

definition codec_get ::
  "('s, 'ik, 'iv, 'e) tier_ops \<Rightarrow> ('s, 'k, 'v, 'ik, 'iv, 'b) codec_tier \<Rightarrow> 'k \<Rightarrow>
   ('v option, ('e, 'b) codec_error) result \<times> ('s, 'k, 'v, 'ik, 'iv, 'b) codec_tier"
where
  "codec_get t w k =
     (case codec_pass (\<lambda>s. t_get t s (ct_to_key w k)) w of
        (Err e, w1) \<Rightarrow> (Err e, w1)
      | (Ok None, w1) \<Rightarrow> (Ok None, w1)
      | (Ok (Some b), w1) \<Rightarrow>
          (case ct_decode w b of
             Err x \<Rightarrow> (Err (Codec x), w1)
           | Ok (_, v) \<Rightarrow> (Ok (Some v), w1)))"

definition codec_exists ::
  "('s, 'ik, 'iv, 'e) tier_ops \<Rightarrow> ('s, 'k, 'v, 'ik, 'iv, 'b) codec_tier \<Rightarrow> 'k \<Rightarrow>
   (bool, ('e, 'b) codec_error) result \<times> ('s, 'k, 'v, 'ik, 'iv, 'b) codec_tier"
where
  "codec_exists t w k = codec_pass (\<lambda>s. t_exists t s (ct_to_key w k)) w"

fun decode_all ::
  "('iv \<Rightarrow> ('k \<times> 'v, 'b) result) \<Rightarrow> 'iv option list \<Rightarrow> ('v option list, 'b) result" where
  "decode_all dec [] = Ok []"
| "decode_all dec (None # xs) =
     (case decode_all dec xs of Err x \<Rightarrow> Err x | Ok vs \<Rightarrow> Ok (None # vs))"
| "decode_all dec (Some b # xs) =
     (case dec b of
        Err x \<Rightarrow> Err x
      | Ok (_, v) \<Rightarrow> (case decode_all dec xs of Err x \<Rightarrow> Err x | Ok vs \<Rightarrow> Ok (Some v # vs)))"

definition codec_get_many ::
  "('s, 'ik, 'iv, 'e) tier_ops \<Rightarrow> ('s, 'k, 'v, 'ik, 'iv, 'b) codec_tier \<Rightarrow> 'k list \<Rightarrow>
   ('v option list, ('e, 'b) codec_error) result \<times> ('s, 'k, 'v, 'ik, 'iv, 'b) codec_tier"
where
  "codec_get_many t w ks =
     (case codec_pass (\<lambda>s. t_get_many t s (map (ct_to_key w) ks)) w of
        (Err e, w1) \<Rightarrow> (Err e, w1)
      | (Ok found, w1) \<Rightarrow> (map_err Codec (decode_all (ct_decode w) found), w1))"

text \<open>Displaced entries, typed again; one that does not decode is dropped.\<close>

fun decode_displaced ::
  "('iv \<Rightarrow> ('k \<times> 'v, 'b) result) \<Rightarrow> ('ik, 'iv) displaced \<Rightarrow> ('k, 'v) displaced" where
  "decode_displaced dec [] = []"
| "decode_displaced dec ((_, b) # d) =
     (case dec b of Ok kv \<Rightarrow> kv # decode_displaced dec d | Err _ \<Rightarrow> decode_displaced dec d)"

definition codec_put ::
  "('s, 'ik, 'iv, 'e) tier_ops \<Rightarrow> ('s, 'k, 'v, 'ik, 'iv, 'b) codec_tier \<Rightarrow> 'k \<Rightarrow> 'v \<Rightarrow>
   (('k, 'v) displaced, ('e, 'b) codec_error) result \<times> ('s, 'k, 'v, 'ik, 'iv, 'b) codec_tier"
where
  "codec_put t w k v =
     (case ct_encode w k v of
        Err x \<Rightarrow> (Err (Codec x), w)
      | Ok b \<Rightarrow>
          apfst (map_sum id (decode_displaced (ct_decode w)))
            (codec_pass (\<lambda>s. t_put t s (ct_to_key w k) b) w))"

definition codec_delete ::
  "('s, 'ik, 'iv, 'e) tier_ops \<Rightarrow> ('s, 'k, 'v, 'ik, 'iv, 'b) codec_tier \<Rightarrow> 'k \<Rightarrow>
   (bool, ('e, 'b) codec_error) result \<times> ('s, 'k, 'v, 'ik, 'iv, 'b) codec_tier"
where
  "codec_delete t w k = codec_pass (\<lambda>s. t_delete t s (ct_to_key w k)) w"

fun encode_all ::
  "('k \<Rightarrow> 'ik) \<Rightarrow> ('k \<Rightarrow> 'v \<Rightarrow> ('iv, 'b) result) \<Rightarrow> ('k \<times> 'v) list \<Rightarrow> (('ik \<times> 'iv) list, 'b) result" where
  "encode_all to_key enc [] = Ok []"
| "encode_all to_key enc ((k, v) # es) =
     (case enc k v of
        Err x \<Rightarrow> Err x
      | Ok b \<Rightarrow>
          (case encode_all to_key enc es of Err x \<Rightarrow> Err x | Ok bs \<Rightarrow> Ok ((to_key k, b) # bs)))"

definition codec_put_many ::
  "('s, 'ik, 'iv, 'e) tier_ops \<Rightarrow> ('s, 'k, 'v, 'ik, 'iv, 'b) codec_tier \<Rightarrow> ('k \<times> 'v) list \<Rightarrow>
   (('k, 'v) displaced, ('e, 'b) codec_error) result \<times> ('s, 'k, 'v, 'ik, 'iv, 'b) codec_tier"
where
  "codec_put_many t w es =
     (case encode_all (ct_to_key w) (ct_encode w) es of
        Err x \<Rightarrow> (Err (Codec x), w)
      | Ok bs \<Rightarrow>
          apfst (map_sum id (decode_displaced (ct_decode w)))
            (codec_pass (\<lambda>s. t_put_many t s bs) w))"

definition codec_delete_many ::
  "('s, 'ik, 'iv, 'e) tier_ops \<Rightarrow> ('s, 'k, 'v, 'ik, 'iv, 'b) codec_tier \<Rightarrow> 'k list \<Rightarrow>
   (bool list, ('e, 'b) codec_error) result \<times> ('s, 'k, 'v, 'ik, 'iv, 'b) codec_tier"
where
  "codec_delete_many t w ks = codec_pass (\<lambda>s. t_delete_many t s (map (ct_to_key w) ks)) w"

definition codec_ops ::
  "('s, 'ik, 'iv, 'e) tier_ops \<Rightarrow>
   (('s, 'k, 'v, 'ik, 'iv, 'b) codec_tier, 'k, 'v, ('e, 'b) codec_error) tier_ops"
where
  "codec_ops t =
     \<lparr>t_name = ct_name, t_get = codec_get t, t_exists = codec_exists t, t_get_many = codec_get_many t,
      t_put = codec_put t, t_delete = codec_delete t, t_put_many = codec_put_many t,
      t_delete_many = codec_delete_many t\<rparr>"

section \<open>Tiers that displace what they hold\<close>

text \<open>Every displaced entry was in the tier or is one of the entries written.\<close>

locale genuine_tiers = reliable_tiers +
  assumes put_genuine: "inv t s \<Longrightarrow> fst (t_put t s k v) = Ok d \<Longrightarrow> (k', v') \<in> set d \<Longrightarrow>
        con t s k' = Some v' \<or> (k', v') = (k, v)"
    and put_many_genuine: "inv t s \<Longrightarrow> fst (t_put_many t s es) = Ok d \<Longrightarrow> (k', v') \<in> set d \<Longrightarrow>
        con t s k' = Some v' \<or> (k', v') \<in> set es"

lemma evict_over_genuine: "(k, v) \<in> set (fst (evict_over s lim)) \<Longrightarrow> mem_con s k = Some v"
proof (induction s rule: evict_over_induct [where lim = lim])
  case (stop s)
  then show ?case by (auto simp: evict_over_stop)
next
  case (skip s t rest)
  then show ?case by (simp add: evict_over_skip mem_con_def)
next
  case (pop s j e rest)
  then show ?case by (auto simp: evict_over_pop Let_def mem_con_def split: if_splits)
qed

lemma mem_insert_genuine:
  "(k', v') \<in> set (fst (mem_insert s k v w lim ev)) \<Longrightarrow> mem_con s k' = Some v' \<or> (k', v') = (k, v)"
  using evict_over_genuine [of k' v' "mem_compact (mem_store s k v w ev)" lim]
  by (auto simp: mem_insert_store mem_con_def mem_compact_def mem_store_def Let_def split: if_splits)

lemma mem_insert_batch_genuine:
  "(k', v') \<in> set (fst (mem_insert_batch s es lim ev)) \<Longrightarrow>
   mem_con s k' = Some v' \<or> (k', v') \<in> set (map (\<lambda>(k, v, w). (k, v)) es)"
proof (induction es arbitrary: s)
  case (Cons e es)
  obtain k v w where e: "e = (k, v, w)" by (cases e)
  let ?r = "mem_insert s k v w lim ev"
  consider "(k', v') \<in> set (fst ?r)" | "(k', v') \<in> set (fst (mem_insert_batch (snd ?r) es lim ev))"
    using Cons.prems by (auto simp: e Let_def split_def)
  then show ?case
  proof cases
    case 1
    from mem_insert_genuine [OF this] show ?thesis by (auto simp: e)
  next
    case 2
    have "mem_con (snd ?r) k' = Some v' \<Longrightarrow> mem_con s k' = Some v' \<or> (k', v') = (k, v)"
      using fun_cong [OF mem_insert_con [of s k v w lim ev], of k']
      by (auto simp: map_add_Some_iff split: if_splits)
    with Cons.IH [OF 2] show ?thesis by (auto simp: e)
  qed
qed simp

interpretation memory: genuine_tiers memory_inv "\<lambda>_. memory_con"
proof
  fix t :: "(('k, 'v) memory_tier, 'k, 'v, 'e) tier_ops" and s k v d k' v'
  assume "memory_inv t s" "fst (t_put t s k v) = Ok d" "(k', v') \<in> set d"
  then show "memory_con s k' = Some v' \<or> (k', v') = (k, v)"
    using mem_insert_genuine [of k' v' "mt_inner s" k v] by (auto simp: memory_inv_def memory_con_def
        memory_put_def Let_def split_def)
next
  fix t :: "(('k, 'v) memory_tier, 'k, 'v, 'e) tier_ops" and s es d k' v'
  assume "memory_inv t s" "fst (t_put_many t s es) = Ok d" "(k', v') \<in> set d"
  then show "memory_con s k' = Some v' \<or> (k', v') \<in> set es"
    using mem_insert_batch_genuine [of k' v' "mt_inner s" "map (\<lambda>(k, v). (k, v, weight_of s k v)) es"]
    by (auto simp: memory_inv_def memory_con_def memory_put_many_def Let_def split_def comp_def)
qed

section \<open>Typed contents\<close>

text \<open>An entry of the inner tier is the encoding of an entry of the typed tier.\<close>

definition typed_entry ::
  "('k \<Rightarrow> 'ik) \<Rightarrow> ('iv \<Rightarrow> ('k \<times> 'v, 'b) result) \<Rightarrow> 'ik \<Rightarrow> 'iv \<Rightarrow> bool" where
  "typed_entry tk dc ik b \<longleftrightarrow> (\<exists>k v. ik = tk k \<and> dc b = Ok (k, v))"

definition typed_map :: "('k \<Rightarrow> 'ik) \<Rightarrow> ('iv \<Rightarrow> ('k \<times> 'v, 'b) result) \<Rightarrow> ('ik \<rightharpoonup> 'iv) \<Rightarrow> bool" where
  "typed_map tk dc m \<longleftrightarrow> (\<forall>ik b. m ik = Some b \<longrightarrow> typed_entry tk dc ik b)"

definition decoded :: "('k \<Rightarrow> 'ik) \<Rightarrow> ('iv \<Rightarrow> ('k \<times> 'v, 'b) result) \<Rightarrow> ('ik \<rightharpoonup> 'iv) \<Rightarrow> ('k \<rightharpoonup> 'v)" where
  "decoded tk dc m k =
     (case m (tk k) of
        None \<Rightarrow> None
      | Some b \<Rightarrow> (case dc b of Ok (_, v) \<Rightarrow> Some v | Err _ \<Rightarrow> None))"

text \<open>The key mapping is injective and the codec decodes what it encoded, key included.\<close>

definition faithful_codec ::
  "('k \<Rightarrow> 'ik) \<Rightarrow> ('k \<Rightarrow> 'v \<Rightarrow> ('iv, 'b) result) \<Rightarrow> ('iv \<Rightarrow> ('k \<times> 'v, 'b) result) \<Rightarrow> bool" where
  "faithful_codec tk enc dc \<longleftrightarrow> inj tk \<and> (\<forall>k v b. enc k v = Ok b \<longrightarrow> dc b = Ok (k, v))"

lemma decoded_None_iff:
  assumes "typed_map tk dc m"
  shows "decoded tk dc m k = None \<longleftrightarrow> m (tk k) = None"
proof (cases "m (tk k)")
  case (Some b)
  with assms have "typed_entry tk dc (tk k) b" by (simp add: typed_map_def)
  then obtain j v where "dc b = Ok (j, v)" by (auto simp: typed_entry_def)
  with Some show ?thesis by (simp add: decoded_def)
qed (simp add: decoded_def)

lemma decoded_add:
  "typed_map tk dc n \<Longrightarrow> decoded tk dc (m ++ n) = decoded tk dc m ++ decoded tk dc n"
proof
  fix k
  assume "typed_map tk dc n"
  from decoded_None_iff [OF this, of k] show "decoded tk dc (m ++ n) k = (decoded tk dc m ++ decoded tk dc n) k"
    by (auto simp: map_add_def decoded_def split: option.splits sum.splits)
qed

lemma decoded_upd:
  assumes "inj tk" "dc b = Ok (k, v)"
  shows "decoded tk dc [tk k \<mapsto> b] = [k \<mapsto> v]"
  using assms by (auto simp: decoded_def fun_eq_iff inj_eq)

lemma typed_upd: "dc b = Ok (k, v) \<Longrightarrow> typed_map tk dc [tk k \<mapsto> b]"
  by (auto simp: typed_map_def typed_entry_def)

lemma typed_add: "typed_map tk dc m \<Longrightarrow> typed_map tk dc n \<Longrightarrow> typed_map tk dc (m ++ n)"
  by (auto simp: typed_map_def map_add_Some_iff)

lemma typed_add_right: "typed_map tk dc (m ++ n) \<Longrightarrow> typed_map tk dc n"
  by (auto simp: typed_map_def map_add_Some_iff)

lemma typed_restrict: "typed_map tk dc m \<Longrightarrow> typed_map tk dc (m |` A)"
  by (auto simp: typed_map_def restrict_map_def split: if_splits)

lemma decoded_restrict: "inj tk \<Longrightarrow> decoded tk dc (m |` (- set (map tk ks))) = decoded tk dc m |` (- set ks)"
  by (auto simp: decoded_def restrict_map_def fun_eq_iff inj_image_mem_iff)

lemma decoded_displaced:
  assumes "inj tk" "\<forall>(ik, b) \<in> set d. typed_entry tk dc ik b"
  shows "typed_map tk dc (pend d) \<and> pend (decode_displaced dc d) = decoded tk dc (pend d)"
  using assms(2)
proof (induction d)
  case Nil
  then show ?case by (simp add: typed_map_def decoded_def fun_eq_iff)
next
  case (Cons e d)
  obtain ik b where e: "e = (ik, b)" by (cases e)
  then obtain k v where b: "ik = tk k" "dc b = Ok (k, v)" using Cons.prems by (auto simp: typed_entry_def)
  have IH: "typed_map tk dc (pend d)" "pend (decode_displaced dc d) = decoded tk dc (pend d)"
    using Cons by auto
  have "typed_map tk dc ([tk k \<mapsto> b] ++ pend d)" using IH(1) b(2) by (intro typed_add typed_upd)
  moreover have "pend (decode_displaced dc (e # d)) = [k \<mapsto> v] ++ decoded tk dc (pend d)"
    using IH(2) b by (simp add: e pend_Cons)
  moreover have "decoded tk dc ([tk k \<mapsto> b] ++ pend d) = [k \<mapsto> v] ++ decoded tk dc (pend d)"
    by (simp only: decoded_add [OF IH(1)] decoded_upd [where dc = dc, OF assms(1) b(2)])
  ultimately show ?case by (simp add: e b(1) pend_Cons)
qed

lemma decode_all_decoded:
  "decode_all dc (map (\<lambda>k. m (tk k)) ks) = Ok vs \<Longrightarrow> vs = map (decoded tk dc m) ks"
proof (induction ks arbitrary: vs)
  case (Cons k ks)
  then show ?case by (cases "m (tk k)") (auto simp: decoded_def split: sum.splits)
qed simp

lemma decode_all_typed:
  "typed_map tk dc m \<Longrightarrow> is_ok (decode_all dc (map (\<lambda>k. m (tk k)) ks))"
proof (induction ks)
  case (Cons k ks)
  then obtain vs where vs: "decode_all dc (map (\<lambda>k. m (tk k)) ks) = Ok vs" by (auto simp: is_ok_iff)
  show ?case
  proof (cases "m (tk k)")
    case (Some b)
    then obtain j v where "dc b = Ok (j, v)" using Cons.prems by (force simp: typed_map_def typed_entry_def)
    with Some vs show ?thesis by simp
  qed (simp add: vs)
qed simp

lemma encode_all_cases:
  "case encode_all tk enc es of
     Err x \<Rightarrow> \<exists>(k, v) \<in> set es. enc k v = Err x
   | Ok bs \<Rightarrow> \<forall>(k, v) \<in> set es. is_ok (enc k v)"
proof (induction es)
  case (Cons e es)
  obtain k v where "e = (k, v)" by (cases e)
  with Cons.IH show ?case by (auto split: sum.splits)
qed simp

lemma encode_all_typed:
  assumes "faithful_codec tk enc dc" "encode_all tk enc es = Ok bs"
  shows "typed_map tk dc (pend bs) \<and> decoded tk dc (pend bs) = pend es \<and>
    (\<forall>(ik, b) \<in> set bs. typed_entry tk dc ik b)"
  using assms(2)
proof (induction es arbitrary: bs)
  case Nil
  then show ?case by (simp add: typed_map_def decoded_def fun_eq_iff)
next
  case (Cons e es)
  obtain k v where e: "e = (k, v)" by (cases e)
  obtain b bs' where b: "enc k v = Ok b" "encode_all tk enc es = Ok bs'" "bs = (tk k, b) # bs'"
    using Cons.prems by (auto simp: e split: sum.splits)
  have d: "dc b = Ok (k, v)" "inj tk" using assms(1) b(1) by (auto simp: faithful_codec_def)
  have IH: "typed_map tk dc (pend bs')" "decoded tk dc (pend bs') = pend es"
      "\<forall>(ik, b) \<in> set bs'. typed_entry tk dc ik b"
    using Cons.IH [OF b(2)] by auto
  have "typed_map tk dc ([tk k \<mapsto> b] ++ pend bs')" using IH(1) d(1) by (intro typed_add typed_upd)
  moreover have "decoded tk dc ([tk k \<mapsto> b] ++ pend bs') = [k \<mapsto> v] ++ pend es"
    by (simp only: decoded_add [OF IH(1)] decoded_upd [where dc = dc, OF d(2,1)] IH(2))
  ultimately show ?case using IH(3) d(1) by (auto simp: e b(3) pend_Cons typed_entry_def)
qed

lemma delete_flags_decoded:
  "inj tk \<Longrightarrow> typed_map tk dc m \<Longrightarrow> delete_flags m (map tk ks) = delete_flags (decoded tk dc m) ks"
proof (induction ks arbitrary: m)
  case (Cons k ks)
  have upd: "m(tk k := None) = m |` (- set (map tk [k]))" "(decoded tk dc m)(k := None) = decoded tk dc m |` (- set [k])"
    by (auto simp: restrict_map_def)
  have "delete_flags (m(tk k := None)) (map tk ks) = delete_flags ((decoded tk dc m)(k := None)) ks"
    using Cons.IH [OF Cons.prems(1) typed_restrict [OF Cons.prems(2)]]
    unfolding upd decoded_restrict [OF Cons.prems(1), symmetric] by blast
  with decoded_None_iff [OF Cons.prems(2), of k] show ?case by simp
qed simp

section \<open>The contract\<close>

text \<open>The states of a typed tier over the inner table \<open>t\<close>, and what it holds.\<close>

definition codec_inv ::
  "(('s, 'ik, 'iv, 'e) tier_ops \<Rightarrow> 's \<Rightarrow> bool) \<Rightarrow> (('s, 'ik, 'iv, 'e) tier_ops \<Rightarrow> 's \<Rightarrow> ('ik \<rightharpoonup> 'iv)) \<Rightarrow>
   ('s, 'ik, 'iv, 'e) tier_ops \<Rightarrow>
   (('s, 'k, 'v, 'ik, 'iv, 'b) codec_tier, 'k, 'v, ('e, 'b) codec_error) tier_ops \<Rightarrow>
   ('s, 'k, 'v, 'ik, 'iv, 'b) codec_tier \<Rightarrow> bool"
where
  "codec_inv ivt con t ops w \<longleftrightarrow>
     ops = codec_ops t \<and> ivt t (ct_inner w) \<and>
     faithful_codec (ct_to_key w) (ct_encode w) (ct_decode w) \<and>
     typed_map (ct_to_key w) (ct_decode w) (con t (ct_inner w))"

definition codec_con ::
  "(('s, 'ik, 'iv, 'e) tier_ops \<Rightarrow> 's \<Rightarrow> ('ik \<rightharpoonup> 'iv)) \<Rightarrow> ('s, 'ik, 'iv, 'e) tier_ops \<Rightarrow>
   ('s, 'k, 'v, 'ik, 'iv, 'b) codec_tier \<Rightarrow> ('k \<rightharpoonup> 'v)"
where
  "codec_con con t w = decoded (ct_to_key w) (ct_decode w) (con t (ct_inner w))"

lemma codec_ops_simps [simp]:
  "t_name (codec_ops t) w = ct_name w"
  "t_get (codec_ops t) = codec_get t"
  "t_exists (codec_ops t) = codec_exists t"
  "t_get_many (codec_ops t) = codec_get_many t"
  "t_put (codec_ops t) = codec_put t"
  "t_delete (codec_ops t) = codec_delete t"
  "t_put_many (codec_ops t) = codec_put_many t"
  "t_delete_many (codec_ops t) = codec_delete_many t"
  by (simp_all add: codec_ops_def)

lemma codec_pass_eq:
  "codec_pass f w =
     (map_err Codec_Backend (fst (f (ct_inner w))), w\<lparr>ct_inner := snd (f (ct_inner w))\<rparr>)"
  by (simp add: codec_pass_def Let_def split_def)

lemma codec_get_eq:
  "codec_get t w k =
     (case fst (t_get t (ct_inner w) (ct_to_key w k)) of
        Err e \<Rightarrow> Err (Codec_Backend e)
      | Ok None \<Rightarrow> Ok None
      | Ok (Some b) \<Rightarrow> (case ct_decode w b of Err x \<Rightarrow> Err (Codec x) | Ok (_, v) \<Rightarrow> Ok (Some v)),
      w\<lparr>ct_inner := snd (t_get t (ct_inner w) (ct_to_key w k))\<rparr>)"
  by (auto simp: codec_get_def codec_pass_eq split: sum.split option.split)

lemma codec_get_many_eq:
  "codec_get_many t w ks =
     (case fst (t_get_many t (ct_inner w) (map (ct_to_key w) ks)) of
        Err e \<Rightarrow> Err (Codec_Backend e)
      | Ok found \<Rightarrow> map_err Codec (decode_all (ct_decode w) found),
      w\<lparr>ct_inner := snd (t_get_many t (ct_inner w) (map (ct_to_key w) ks))\<rparr>)"
  by (auto simp: codec_get_many_def codec_pass_eq split: sum.split)

context genuine_tiers begin

lemma codec_reads_keep:
  "codec_inv inv con t ops w \<Longrightarrow> inv t s \<Longrightarrow> con t s = con t (ct_inner w) \<Longrightarrow>
   codec_inv inv con t ops (w\<lparr>ct_inner := s\<rparr>) \<and>
   codec_con con t (w\<lparr>ct_inner := s\<rparr>) = codec_con con t w"
  by (simp add: codec_inv_def codec_con_def)

text \<open>A write of the entries \<open>m\<close> of the inner tier.\<close>

lemma codec_write:
  assumes w: "codec_inv inv con t ops w" and s: "inv t s"
    and law: "pend d ++ con t s = con t (ct_inner w) ++ m"
    and m: "typed_map (ct_to_key w) (ct_decode w) m"
    and d: "\<And>ik b. (ik, b) \<in> set d \<Longrightarrow>
          con t (ct_inner w) ik = Some b \<or> typed_entry (ct_to_key w) (ct_decode w) ik b"
  shows "codec_inv inv con t ops (w\<lparr>ct_inner := s\<rparr>) \<and>
    pend (decode_displaced (ct_decode w) d) ++ codec_con con t (w\<lparr>ct_inner := s\<rparr>) =
      codec_con con t w ++ decoded (ct_to_key w) (ct_decode w) m"
proof -
  let ?tk = "ct_to_key w" and ?dc = "ct_decode w"
  have old: "inj ?tk" "typed_map ?tk ?dc (con t (ct_inner w))"
    using w by (simp_all add: codec_inv_def faithful_codec_def)
  have "typed_map ?tk ?dc (pend d ++ con t s)" unfolding law by (rule typed_add [OF old(2) m])
  then have new: "typed_map ?tk ?dc (con t s)" by (rule typed_add_right)
  have "\<forall>(ik, b) \<in> set d. typed_entry ?tk ?dc ik b" using d old(2) by (auto simp: typed_map_def)
  from decoded_displaced [OF old(1) this]
  have "pend (decode_displaced ?dc d) ++ decoded ?tk ?dc (con t s) = decoded ?tk ?dc (pend d ++ con t s)"
    by (simp add: decoded_add [OF new])
  also have "\<dots> = decoded ?tk ?dc (con t (ct_inner w)) ++ decoded ?tk ?dc m"
    by (simp only: law decoded_add [OF m])
  finally show ?thesis using w s new by (simp add: codec_inv_def codec_con_def)
qed

lemma codec_put_law:
  assumes "codec_inv inv con t ops w"
  shows "codec_inv inv con t ops (snd (codec_put t w k v)) \<and>
    (\<forall>d. fst (codec_put t w k v) = Ok d \<longrightarrow>
       pend d ++ codec_con con t (snd (codec_put t w k v)) = codec_con con t w ++ [k \<mapsto> v])"
proof (cases "ct_encode w k v")
  case (Inl x)
  with assms show ?thesis by (simp add: codec_put_def)
next
  case (Inr b)
  have iw: "inv t (ct_inner w)" and f: "faithful_codec (ct_to_key w) (ct_encode w) (ct_decode w)"
    using assms by (simp_all add: codec_inv_def)
  have b: "ct_decode w b = Ok (k, v)" "inj (ct_to_key w)" using f Inr by (auto simp: faithful_codec_def)
  let ?p = "t_put t (ct_inner w) (ct_to_key w k) b"
  obtain d where d: "fst ?p = Ok d" using put_ok [OF iw] by (auto simp: is_ok_iff)
  have gen: "con t (ct_inner w) ik = Some c \<or> typed_entry (ct_to_key w) (ct_decode w) ik c"
    if "(ik, c) \<in> set d" for ik c
    using put_genuine [OF iw d that] b(1) by (auto simp: typed_entry_def)
  have "codec_inv inv con t ops (w\<lparr>ct_inner := snd ?p\<rparr>) \<and>
      pend (decode_displaced (ct_decode w) d) ++ codec_con con t (w\<lparr>ct_inner := snd ?p\<rparr>) =
        codec_con con t w ++ decoded (ct_to_key w) (ct_decode w) [ct_to_key w k \<mapsto> b]"
    using put_inv [OF iw] put_con [OF iw d] gen b(1) by (intro codec_write [OF assms] typed_upd)
  then show ?thesis
    using decoded_upd [where dc = "ct_decode w", OF b(2,1)]
    by (simp add: codec_put_def Inr codec_pass_eq d)
qed

lemma codec_put_many_law:
  assumes "codec_inv inv con t ops w"
  shows "codec_inv inv con t ops (snd (codec_put_many t w es)) \<and>
    (\<forall>d. fst (codec_put_many t w es) = Ok d \<longrightarrow>
       pend d ++ codec_con con t (snd (codec_put_many t w es)) = codec_con con t w ++ pend es)"
proof (cases "encode_all (ct_to_key w) (ct_encode w) es")
  case (Inl x)
  with assms show ?thesis by (simp add: codec_put_many_def)
next
  case (Inr bs)
  have iw: "inv t (ct_inner w)" and f: "faithful_codec (ct_to_key w) (ct_encode w) (ct_decode w)"
    using assms by (simp_all add: codec_inv_def)
  note bs = encode_all_typed [OF f Inr]
  let ?p = "t_put_many t (ct_inner w) bs"
  obtain d where d: "fst ?p = Ok d" using put_many_ok [OF iw] by (auto simp: is_ok_iff)
  have gen: "con t (ct_inner w) ik = Some c \<or> typed_entry (ct_to_key w) (ct_decode w) ik c"
    if "(ik, c) \<in> set d" for ik c
    using put_many_genuine [OF iw d that] bs by auto
  have "codec_inv inv con t ops (w\<lparr>ct_inner := snd ?p\<rparr>) \<and>
      pend (decode_displaced (ct_decode w) d) ++ codec_con con t (w\<lparr>ct_inner := snd ?p\<rparr>) =
        codec_con con t w ++ decoded (ct_to_key w) (ct_decode w) (pend bs)"
    using put_many_inv [OF iw] put_many_con [OF iw d] gen bs by (intro codec_write [OF assms]) blast+
  then show ?thesis using bs by (simp add: codec_put_many_def Inr codec_pass_eq d)
qed

lemma codec_remove:
  assumes w: "codec_inv inv con t ops w" and s: "inv t s"
    and law: "con t s = con t (ct_inner w) |` (- set (map (ct_to_key w) ks))"
  shows "codec_inv inv con t ops (w\<lparr>ct_inner := s\<rparr>) \<and>
    codec_con con t (w\<lparr>ct_inner := s\<rparr>) = codec_con con t w |` (- set ks)"
proof -
  have "inj (ct_to_key w)" "typed_map (ct_to_key w) (ct_decode w) (con t (ct_inner w))"
    using w by (simp_all add: codec_inv_def faithful_codec_def)
  then show ?thesis
    using w s decoded_restrict [of "ct_to_key w" "ct_decode w" "con t (ct_inner w)" ks]
    by (simp add: codec_inv_def codec_con_def law typed_restrict del: set_map)
qed

lemma codec_read_laws:
  assumes w: "codec_inv inv con t ops w"
  shows "codec_inv inv con t ops (snd (codec_get t w k)) \<and>
         codec_con con t (snd (codec_get t w k)) = codec_con con t w \<and>
         (\<forall>x. fst (codec_get t w k) = Ok x \<longrightarrow> x = codec_con con t w k)"
    and "codec_inv inv con t ops (snd (codec_exists t w k)) \<and>
         codec_con con t (snd (codec_exists t w k)) = codec_con con t w \<and>
         (\<forall>b. fst (codec_exists t w k) = Ok b \<longrightarrow> (b \<longleftrightarrow> codec_con con t w k \<noteq> None))"
    and "codec_inv inv con t ops (snd (codec_get_many t w ks)) \<and>
         codec_con con t (snd (codec_get_many t w ks)) = codec_con con t w \<and>
         (\<forall>vs. fst (codec_get_many t w ks) = Ok vs \<longrightarrow> vs = map (codec_con con t w) ks)"
proof -
  have iw: "inv t (ct_inner w)"
    and ty: "typed_map (ct_to_key w) (ct_decode w) (con t (ct_inner w))"
    using w by (simp_all add: codec_inv_def)
  show "codec_inv inv con t ops (snd (codec_get t w k)) \<and>
         codec_con con t (snd (codec_get t w k)) = codec_con con t w \<and>
         (\<forall>x. fst (codec_get t w k) = Ok x \<longrightarrow> x = codec_con con t w k)"
    using codec_reads_keep [OF w get_inv [OF iw] get_con [OF iw]] get_res [OF iw, of "ct_to_key w k"]
    by (auto simp: codec_get_eq) (auto simp: codec_con_def decoded_def split: sum.splits option.splits)
  show "codec_inv inv con t ops (snd (codec_exists t w k)) \<and>
         codec_con con t (snd (codec_exists t w k)) = codec_con con t w \<and>
         (\<forall>b. fst (codec_exists t w k) = Ok b \<longrightarrow> (b \<longleftrightarrow> codec_con con t w k \<noteq> None))"
    using codec_reads_keep [OF w exists_inv [OF iw] exists_con [OF iw]] exists_res [OF iw, of "ct_to_key w k"]
      decoded_None_iff [OF ty, of k]
    by (auto simp: codec_exists_def codec_pass_eq) (auto simp: codec_con_def)
  have "vs = map (codec_con con t w) ks" if r: "fst (codec_get_many t w ks) = Ok vs" for vs
  proof (cases "fst (t_get_many t (ct_inner w) (map (ct_to_key w) ks))")
    case (Inl e)
    with r show ?thesis by (simp add: codec_get_many_eq)
  next
    case (Inr found)
    from get_many_res [OF iw Inr]
    have "found = map (\<lambda>k. con t (ct_inner w) (ct_to_key w k)) ks" by (simp add: comp_def)
    moreover have "decode_all (ct_decode w) found = Ok vs" using r by (simp add: codec_get_many_eq Inr)
    ultimately show ?thesis using decode_all_decoded by (simp add: codec_con_def [abs_def])
  qed
  then show "codec_inv inv con t ops (snd (codec_get_many t w ks)) \<and>
         codec_con con t (snd (codec_get_many t w ks)) = codec_con con t w \<and>
         (\<forall>vs. fst (codec_get_many t w ks) = Ok vs \<longrightarrow> vs = map (codec_con con t w) ks)"
    using codec_reads_keep [OF w get_many_inv [OF iw] get_many_con [OF iw]] by (simp add: codec_get_many_eq)
qed

lemma codec_delete_laws:
  assumes w: "codec_inv inv con t ops w"
  shows "codec_inv inv con t ops (snd (codec_delete t w k)) \<and>
         codec_con con t (snd (codec_delete t w k)) = (codec_con con t w)(k := None) \<and>
         (\<forall>b. fst (codec_delete t w k) = Ok b \<longrightarrow> (b \<longleftrightarrow> codec_con con t w k \<noteq> None))"
    and "codec_inv inv con t ops (snd (codec_delete_many t w ks)) \<and>
         codec_con con t (snd (codec_delete_many t w ks)) = codec_con con t w |` (- set ks) \<and>
         (\<forall>bs. fst (codec_delete_many t w ks) = Ok bs \<longrightarrow> bs = delete_flags (codec_con con t w) ks)"
proof -
  have iw: "inv t (ct_inner w)" and i: "inj (ct_to_key w)"
    and ty: "typed_map (ct_to_key w) (ct_decode w) (con t (ct_inner w))"
    using w by (simp_all add: codec_inv_def faithful_codec_def)
  let ?k = "ct_to_key w k" and ?ks = "map (ct_to_key w) ks"
  obtain f where f: "fst (t_delete t (ct_inner w) ?k) = Ok f"
    using delete_ok [OF iw] by (auto simp: is_ok_iff)
  have "con t (snd (t_delete t (ct_inner w) ?k)) = con t (ct_inner w) |` (- set (map (ct_to_key w) [k]))"
    using delete_con [OF iw f] by (auto simp: restrict_map_def)
  from codec_remove [OF w delete_inv [OF iw] this]
  show "codec_inv inv con t ops (snd (codec_delete t w k)) \<and>
         codec_con con t (snd (codec_delete t w k)) = (codec_con con t w)(k := None) \<and>
         (\<forall>b. fst (codec_delete t w k) = Ok b \<longrightarrow> (b \<longleftrightarrow> codec_con con t w k \<noteq> None))"
    using delete_res [OF iw f] decoded_None_iff [OF ty, of k]
    by (auto simp: codec_delete_def codec_pass_eq f restrict_map_def) (auto simp: codec_con_def)
  obtain fs where fs: "fst (t_delete_many t (ct_inner w) ?ks) = Ok fs"
    using delete_many_ok [OF iw] by (auto simp: is_ok_iff)
  from codec_remove [OF w delete_many_inv [OF iw] delete_many_con [OF iw fs]]
  show "codec_inv inv con t ops (snd (codec_delete_many t w ks)) \<and>
         codec_con con t (snd (codec_delete_many t w ks)) = codec_con con t w |` (- set ks) \<and>
         (\<forall>bs. fst (codec_delete_many t w ks) = Ok bs \<longrightarrow> bs = delete_flags (codec_con con t w) ks)"
    using delete_many_res [OF iw fs] delete_flags_decoded [OF i ty]
    by (simp add: codec_delete_many_def codec_pass_eq fs) (simp add: codec_con_def)
qed

text \<open>What can fail: the encoding of a value, and nothing else.\<close>

lemma typed_ok: "is_ok r \<Longrightarrow> is_ok (map_sum id f (map_err g r))"
  by (cases r) simp_all

lemma codec_put_fails:
  assumes "codec_inv inv con t ops w"
  shows "case ct_encode w k v of
      Err x \<Rightarrow> codec_put t w k v = (Err (Codec x), w) | Ok b \<Rightarrow> is_ok (fst (codec_put t w k v))"
proof -
  have "is_ok (fst (t_put t (ct_inner w) ik b))" for ik b
    using assms by (intro put_ok) (simp add: codec_inv_def)
  then show ?thesis by (simp add: codec_put_def codec_pass_eq typed_ok split: sum.split)
qed

lemma codec_put_many_fails:
  assumes "codec_inv inv con t ops w"
  shows "if \<forall>(k, v) \<in> set es. is_ok (ct_encode w k v) then is_ok (fst (codec_put_many t w es))
    else \<exists>(k, v) \<in> set es. \<exists>x. ct_encode w k v = Err x \<and> codec_put_many t w es = (Err (Codec x), w)"
proof (cases "encode_all (ct_to_key w) (ct_encode w) es")
  case (Inl x)
  then obtain k v where e: "(k, v) \<in> set es" "ct_encode w k v = Err x"
    using encode_all_cases [where tk = "ct_to_key w" and enc = "ct_encode w" and es = es] by auto
  moreover have "codec_put_many t w es = (Err (Codec x), w)" by (simp add: codec_put_many_def Inl)
  ultimately have "\<exists>(k, v) \<in> set es. \<exists>x. ct_encode w k v = Err x \<and> codec_put_many t w es = (Err (Codec x), w)" by blast
  moreover have "\<not> (\<forall>(k, v) \<in> set es. is_ok (ct_encode w k v))" using e by force
  ultimately show ?thesis by (simp only: if_False)
next
  case (Inr bs)
  have "is_ok (fst (t_put_many t (ct_inner w) bs))" using assms by (intro put_many_ok) (simp add: codec_inv_def)
  moreover have "\<forall>(k, v) \<in> set es. is_ok (ct_encode w k v)"
    using encode_all_cases [where tk = "ct_to_key w" and enc = "ct_encode w" and es = es] by (simp add: Inr)
  ultimately show ?thesis by (simp add: codec_put_many_def codec_pass_eq Inr typed_ok)
qed

lemma codec_others_ok:
  assumes "codec_inv inv con t ops w"
  shows "is_ok (fst (codec_get t w k))" "is_ok (fst (codec_exists t w k))" "is_ok (fst (codec_get_many t w ks))"
    "is_ok (fst (codec_delete t w k))" "is_ok (fst (codec_delete_many t w ks))"
proof -
  have iw: "inv t (ct_inner w)" and ty: "typed_map (ct_to_key w) (ct_decode w) (con t (ct_inner w))"
    using assms by (simp_all add: codec_inv_def)
  obtain x where x: "fst (t_get t (ct_inner w) (ct_to_key w k)) = Ok x" using get_ok [OF iw] by (auto simp: is_ok_iff)
  have "\<exists>j v. ct_decode w b = Ok (j, v)" if "x = Some b" for b
    using get_res [OF iw x] that ty by (force simp: typed_map_def typed_entry_def)
  then show "is_ok (fst (codec_get t w k))" by (auto simp: codec_get_eq x split: option.split)
  obtain fs where fs: "fst (t_get_many t (ct_inner w) (map (ct_to_key w) ks)) = Ok fs"
    using get_many_ok [OF iw] by (auto simp: is_ok_iff)
  have "fs = map (\<lambda>k. con t (ct_inner w) (ct_to_key w k)) ks" using get_many_res [OF iw fs] by (simp add: comp_def)
  then show "is_ok (fst (codec_get_many t w ks))"
    using decode_all_typed [OF ty, of ks] by (auto simp: codec_get_many_eq fs is_ok_iff)
  show "is_ok (fst (codec_exists t w k))" "is_ok (fst (codec_delete t w k))" "is_ok (fst (codec_delete_many t w ks))"
    using exists_ok [OF iw] delete_ok [OF iw] delete_many_ok [OF iw]
    by (auto simp: codec_exists_def codec_delete_def codec_delete_many_def codec_pass_eq is_ok_iff)
qed

lemma codec_inv_ops: "codec_inv inv con t ops w \<Longrightarrow> ops = codec_ops t"
  by (simp add: codec_inv_def)

lemma codec_laws: "tier_laws (codec_inv inv con t) (\<lambda>_. codec_con con t)"
proof -
  note keep = codec_read_laws [THEN conjunct1] codec_read_laws [THEN conjunct2, THEN conjunct1]
    codec_put_law [THEN conjunct1] codec_put_many_law [THEN conjunct1] codec_delete_laws [THEN conjunct1]
  note res = codec_read_laws [THEN conjunct2, THEN conjunct2, rule_format]
    codec_put_law [THEN conjunct2, rule_format] codec_put_many_law [THEN conjunct2, rule_format]
    codec_delete_laws [THEN conjunct2, THEN conjunct1]
    codec_delete_laws [THEN conjunct2, THEN conjunct2, rule_format]
  show ?thesis
    by unfold_locales
       (frule codec_inv_ops, simp only: codec_ops_simps, (rule keep res; assumption))+
qed

end

interpretation codec_memory:
  tier_laws "codec_inv memory_inv (\<lambda>_. memory_con) t" "\<lambda>_. codec_con (\<lambda>_. memory_con) t" for t
  by (rule memory.codec_laws)

text \<open>
  C27. A typed tier keeps the tier contract: over a reliable inner tier that displaces only what it
  holds or is given, with an injective key mapping and a codec that decodes what it encoded, the
  typed tier reads, writes and deletes typed entries exactly, and displaced entries come back out
  typed, none of them lost. In every state that it can be in, only encoding can fail: a put of a
  value that the codec rejects returns the codec's error and changes nothing, and so does a batch
  with such a value, while every other operation succeeds.
\<close>

theorem codec_keeps_contract:
  assumes "genuine_tiers ivt con" "ivt t s" "faithful_codec tk enc dc" "typed_map tk dc (con t s)"
  defines "w \<equiv> codec_new t s tk enc dc"
  shows "tier_laws (codec_inv ivt con t) (\<lambda>_. codec_con con t) \<and>
    codec_inv ivt con t (codec_ops t) w \<and> codec_con con t w = decoded tk dc (con t s) \<and>
    (\<forall>w'. codec_inv ivt con t (codec_ops t) w' \<longrightarrow>
       (\<forall>k v. case ct_encode w' k v of
          Err x \<Rightarrow> codec_put t w' k v = (Err (Codec x), w') | Ok b \<Rightarrow> is_ok (fst (codec_put t w' k v))) \<and>
       (\<forall>es. if \<forall>(k, v) \<in> set es. is_ok (ct_encode w' k v) then is_ok (fst (codec_put_many t w' es))
          else \<exists>(k, v) \<in> set es. \<exists>x. ct_encode w' k v = Err x \<and> codec_put_many t w' es = (Err (Codec x), w')) \<and>
       (\<forall>k ks. is_ok (fst (codec_get t w' k)) \<and> is_ok (fst (codec_exists t w' k)) \<and>
          is_ok (fst (codec_get_many t w' ks)) \<and> is_ok (fst (codec_delete t w' k)) \<and>
          is_ok (fst (codec_delete_many t w' ks))))"
proof (intro conjI allI impI)
  show "tier_laws (codec_inv ivt con t) (\<lambda>_. codec_con con t)" by (rule genuine_tiers.codec_laws [OF assms(1)])
  show "codec_inv ivt con t (codec_ops t) w" "codec_con con t w = decoded tk dc (con t s)"
    using assms(2-) by (simp_all add: codec_inv_def codec_new_def codec_con_def)
qed (rule genuine_tiers.codec_put_fails [OF assms(1)] genuine_tiers.codec_put_many_fails [OF assms(1)]
       genuine_tiers.codec_others_ok [OF assms(1)], assumption)+

text \<open>
  The key mapping has to be injective. With a mapping that collides (a hash), a get returns the
  value of the other key, although the embedded key is decoded with it, and the put of the other
  key has replaced the entry without returning it.
\<close>

theorem codec_collision:
  "let w = codec_new memory_ops (memory_bounded 1) (\<lambda>_. ''h'') (\<lambda>k v. Ok (k, v)) Ok;
       (r1, w1) = codec_put memory_ops w ''a'' (1 :: nat);
       (r2, w2) = codec_put memory_ops w1 ''b'' 2
   in r1 = (Ok [] :: (_, (unit, unit) codec_error) result) \<and>
      r2 = (Ok [] :: (_, (unit, unit) codec_error) result) \<and>
      fst (codec_get memory_ops w2 ''a'') = (Ok (Some 2) :: (_, (unit, unit) codec_error) result)"
  by (simp add: codec_new_def codec_put_def codec_pass_eq put_empty [unfolded One_nat_def] put_same
        codec_get_eq get_one)

text \<open>
  A bounded inner tier and a codec that rejects large values: the displaced entry comes back with its
  own key, and the put of a large value fails and displaces nothing.
\<close>

theorem codec_keeps_contract_witness:
  "\<exists>w :: ((string, string \<times> nat) memory_tier, string, nat, string, string \<times> nat, unit) codec_tier.
     codec_inv memory_inv (\<lambda>_. memory_con) memory_ops
       (codec_ops (memory_ops :: (_, _, _, unit) tier_ops)) w \<and>
     codec_con (\<lambda>_. memory_con) (memory_ops :: (_, _, _, unit) tier_ops) w = [''a'' \<mapsto> 1] \<and>
     fst (codec_put (memory_ops :: (_, _, _, unit) tier_ops) w ''b'' 2) = Ok [(''a'', 1)] \<and>
     codec_put (memory_ops :: (_, _, _, unit) tier_ops) w ''b'' 200 = (Err (Codec ()), w)"
proof -
  let ?t = "memory_ops :: ((string, string \<times> nat) memory_tier, string, string \<times> nat, unit) tier_ops"
  let ?tk = "\<lambda>k. CHR ''#'' # k" and ?enc = "\<lambda>k v. if v < 100 then Ok (k, v) else Err () :: (string \<times> nat, unit) result"
  let ?dc = "Ok :: string \<times> nat \<Rightarrow> (string \<times> nat, unit) result"
  let ?s = "one_entry ''#a'' (''a'', 1) 1 1 :: (string, string \<times> nat) memory_tier"
  have f: "faithful_codec ?tk ?enc ?dc" by (simp add: faithful_codec_def inj_def)
  have ty: "typed_map ?tk ?dc (memory_con ?s)" by (simp add: con_one typed_map_def typed_entry_def)
  have i: "memory_inv ?t ?s" by (rule one_entry_inv)
  let ?w = "codec_new ?t ?s ?tk ?enc ?dc"
  note kept = codec_keeps_contract [of memory_inv "\<lambda>_. memory_con" ?t ?s ?tk ?enc ?dc, OF memory.genuine_tiers_axioms i f ty]
  then have c: "codec_inv memory_inv (\<lambda>_. memory_con) ?t (codec_ops ?t) ?w"
      "codec_con (\<lambda>_. memory_con) ?t ?w = decoded ?tk ?dc (memory_con ?s)" by blast+
  have "decoded ?tk ?dc (memory_con ?s) = [''a'' \<mapsto> 1]" by (auto simp: con_one decoded_def)
  moreover have "fst (codec_put ?t ?w ''b'' 2) = Ok [(''a'', 1)]"
    by (simp add: codec_new_def codec_put_def codec_pass_eq put_other)
  moreover have "ct_encode ?w ''b'' 200 = Err ()" by (simp add: codec_new_def)
  then have "codec_put ?t ?w ''b'' 200 = (Err (Codec ()), ?w)"
    using kept [THEN conjunct2, THEN conjunct2, THEN conjunct2, rule_format, OF c(1), THEN conjunct1, rule_format, of "''b''" 200]
    by simp
  ultimately show ?thesis using c by (intro exI [of _ ?w] conjI) simp_all
qed

end
