(* ===== verification/Wait_Queue.thy ===== *)
theory Wait_Queue
  imports Tier_Prelude
begin

text \<open>
  What the gates of \<open>single_flight.rs\<close> and the semaphore of \<open>limited.rs\<close> share: a state with a number
  of free permits and a list of registered wakers, a \<open>try_acquire\<close> that takes a permit or registers
  the caller, and a \<open>release\<close> that returns a permit and hands back all wakers. The interface is the
  locale \<open>wait_queue\<close>; its lemmas are the reasons why waiters cannot be forgotten.

  A waker is identified with the task it wakes, so \<open>will_wake\<close> is equality of task numbers.
\<close>

type_synonym task = nat

text \<open>Registering a waker unless it is registered already.\<close>

definition register :: "task \<Rightarrow> task list \<Rightarrow> task list" where
  "register w ws = (if list_ex (\<lambda>x. x = w) ws then ws else ws @ [w])"

lemma set_register [simp]: "set (register w ws) = insert w (set ws)"
  by (auto simp: register_def list_ex_iff)

text \<open>Updating one task of a list.\<close>

lemma in_set_update: "i < length xs \<Longrightarrow>
    t \<in> set (xs[i := x]) \<longleftrightarrow> t = x \<or> (\<exists>j < length xs. j \<noteq> i \<and> t = xs ! j)"
  by (auto simp: in_set_conv_nth nth_list_update)

lemma sum_list_two:
  fixes xs :: "nat list"
  shows "i < length xs \<Longrightarrow> j < length xs \<Longrightarrow> j \<noteq> i \<Longrightarrow> xs ! i + xs ! j \<le> sum_list xs"
proof (induction xs arbitrary: i j)
  case (Cons x xs)
  then show ?case
    by (cases i; cases j) (auto intro: elem_le_sum_list trans_le_add2)
qed simp

lemma filter_update: "i < length xs \<Longrightarrow>
    length (filter P (xs[i := x])) + (if P (xs ! i) then 1 else 0) =
    length (filter P xs) + (if P x then 1 else 0)"
proof (induction xs arbitrary: i)
  case (Cons y ys)
  then show ?case by (cases i) auto
qed simp

lemma filter_unique:
  assumes "length (filter P xs) \<le> 1" "i < length xs" "j < length xs" "P (xs ! i)" "P (xs ! j)"
  shows "i = j"
proof (rule ccontr)
  assume "i \<noteq> j"
  then have "{i, j} \<subseteq> {l. l < length xs \<and> P (xs ! l)}" "card {i, j} = 2" using assms by auto
  then have "2 \<le> length (filter P xs)"
    unfolding length_filter_conv_card by (metis card_mono finite_Collect_conjI finite_Collect_less_nat)
  with assms(1) show False by simp
qed

lemma list_ex_update: "\<not> P (xs ! i) \<Longrightarrow> list_ex P xs \<Longrightarrow> list_ex P (xs[i := x])"
  unfolding list_ex_length by (metis length_list_update nth_list_update_neq)

lemma list_ex_update_new: "i < length xs \<Longrightarrow> P x \<Longrightarrow> list_ex P (xs[i := x])"
  by (auto simp: list_ex_length)

locale wait_queue =
  fixes try_acquire :: "'q \<Rightarrow> task \<Rightarrow> bool \<times> 'q"
    and release :: "'q \<Rightarrow> task list \<times> 'q"
    and free :: "'q \<Rightarrow> nat"
    and wakers :: "'q \<Rightarrow> task list"
    and cap :: nat
  assumes take_ok: "0 < free q \<Longrightarrow> fst (try_acquire q w) \<and>
        free (snd (try_acquire q w)) = free q - 1 \<and> wakers (snd (try_acquire q w)) = wakers q"
    and take_no: "free q = 0 \<Longrightarrow> \<not> fst (try_acquire q w) \<and>
        free (snd (try_acquire q w)) = 0 \<and> set (wakers (snd (try_acquire q w))) = insert w (set (wakers q))"
    and give_back: "free q < cap \<Longrightarrow> fst (release q) = wakers q \<and>
        free (snd (release q)) = Suc (free q) \<and> wakers (snd (release q)) = []"

text \<open>No waker stays registered while a permit is free.\<close>

definition quiet :: "('q \<Rightarrow> nat) \<Rightarrow> ('q \<Rightarrow> task list) \<Rightarrow> 'q \<Rightarrow> bool" where
  "quiet free wakers q \<longleftrightarrow> (0 < free q \<longrightarrow> wakers q = [])"

context wait_queue begin

lemma take_iff: "fst (try_acquire q w) \<longleftrightarrow> 0 < free q"
  using take_ok take_no by (cases "free q") auto

lemma quiet_take: "quiet free wakers q \<Longrightarrow> quiet free wakers (snd (try_acquire q w))"
  using take_ok [of q w] take_no [of q w] by (cases "free q") (auto simp: quiet_def)

lemma quiet_release: "free q < cap \<Longrightarrow> quiet free wakers (snd (release q))"
  using give_back [of q] by (simp add: quiet_def)

text \<open>A caller that did not get a permit is registered, and so is everyone who was.\<close>

lemma take_registers: "\<not> fst (try_acquire q w) \<Longrightarrow> w \<in> set (wakers (snd (try_acquire q w)))"
  using take_no [of q w] by (simp add: take_iff)

lemma take_keeps: "set (wakers q) \<subseteq> set (wakers (snd (try_acquire q w)))"
  using take_ok [of q w] take_no [of q w] by (cases "free q") auto

end

end
