(* ===== verification/Limited_Tier.thy ===== *)
theory Limited_Tier
  imports Wait_Queue Tier_Wrapping Memory_Examples
begin

text \<open>
  \<open>tierstore/src/limited.rs\<close>: a tier that admits a limited number of operations at once. Two views
  of it are modelled. The semaphore with the tasks that use it is a step relation, where every
  critical section of the source is one step; it shows that the limit is kept and that no waiter is
  forgotten. The operations of the tier, run one at a time, are a wrapper around the inner tier; they
  return a value whenever a permit is free, and then exactly that of the inner tier.

  A permit count is a \<open>nat\<close>: it never exceeds the limit, which is a \<open>usize\<close>.
\<close>

section \<open>The semaphore\<close>

record sem_state =
  available :: nat
  s_wakers :: "task list"

definition sem_new :: "nat \<Rightarrow> sem_state" where
  "sem_new limit = \<lparr>available = limit, s_wakers = []\<rparr>"

definition sem_try_acquire :: "sem_state \<Rightarrow> task \<Rightarrow> bool \<times> sem_state" where
  "sem_try_acquire q w =
     (if available q > 0 then (True, q\<lparr>available := available q - 1\<rparr>)
      else (False, q\<lparr>s_wakers := register w (s_wakers q)\<rparr>))"

definition sem_release :: "sem_state \<Rightarrow> task list \<times> sem_state" where
  "sem_release q = (s_wakers q, q\<lparr>available := available q + 1, s_wakers := []\<rparr>)"

interpretation sem: wait_queue sem_try_acquire sem_release available s_wakers limit for limit
  by unfold_locales (auto simp: sem_try_acquire_def sem_release_def)

section \<open>The tasks that share a tier\<close>

text \<open>
  A task is outside the tier, waits in \<open>acquire\<close>, runs an operation of the inner tier with its
  permit, or is inside the \<open>drop\<close> of the permit.
\<close>

datatype adm_phase = Adm_Idle | Adm_Waiting | Adm_Running | Adm_Releasing "task list"

record admission =
  adm_sem :: sem_state
  adm_tasks :: "adm_phase list"
  adm_woken :: "task set"

definition adm_new :: "nat \<Rightarrow> nat \<Rightarrow> admission" where
  "adm_new limit n = \<lparr>adm_sem = sem_new limit, adm_tasks = replicate n Adm_Idle, adm_woken = {}\<rparr>"

text \<open>The call of \<open>acquire\<close>, whose future is then polled for the first time, and every poll.\<close>

definition adm_acquire :: "task \<Rightarrow> admission \<Rightarrow> admission" where
  "adm_acquire i s = s\<lparr>adm_tasks := (adm_tasks s)[i := Adm_Waiting], adm_woken := insert i (adm_woken s)\<rparr>"

definition adm_poll :: "task \<Rightarrow> admission \<Rightarrow> admission" where
  "adm_poll i s =
     (let (ready, q) = sem_try_acquire (adm_sem s) i
      in s\<lparr>adm_sem := q, adm_woken := adm_woken s - {i},
           adm_tasks := (adm_tasks s)[i := if ready then Adm_Running else Adm_Waiting]\<rparr>)"

text \<open>The \<open>drop\<close> of a permit, at the end of the operation or when its future is dropped.\<close>

definition adm_release :: "task \<Rightarrow> admission \<Rightarrow> admission" where
  "adm_release i s =
     (let (ws, q) = sem_release (adm_sem s)
      in s\<lparr>adm_sem := q, adm_tasks := (adm_tasks s)[i := Adm_Releasing ws]\<rparr>)"

inductive adm_step :: "admission \<Rightarrow> admission \<Rightarrow> bool" where
  acquire: "i < length (adm_tasks s) \<Longrightarrow> adm_tasks s ! i = Adm_Idle \<Longrightarrow> adm_step s (adm_acquire i s)"
| poll: "i < length (adm_tasks s) \<Longrightarrow> adm_tasks s ! i = Adm_Waiting \<Longrightarrow> i \<in> adm_woken s \<Longrightarrow>
     adm_step s (adm_poll i s)"
| release: "i < length (adm_tasks s) \<Longrightarrow> adm_tasks s ! i = Adm_Running \<Longrightarrow> adm_step s (adm_release i s)"
| wake: "i < length (adm_tasks s) \<Longrightarrow> adm_tasks s ! i = Adm_Releasing (w # ws) \<Longrightarrow>
     adm_step s (s\<lparr>adm_tasks := (adm_tasks s)[i := Adm_Releasing ws], adm_woken := insert w (adm_woken s)\<rparr>)"
| finish: "i < length (adm_tasks s) \<Longrightarrow> adm_tasks s ! i = Adm_Releasing [] \<Longrightarrow>
     adm_step s (s\<lparr>adm_tasks := (adm_tasks s)[i := Adm_Idle]\<rparr>)"

text \<open>A caller may drop a waiting future, and an executor may poll a task that nobody woke.\<close>

inductive adm_env :: "admission \<Rightarrow> admission \<Rightarrow> bool" where
  cancel: "i < length (adm_tasks s) \<Longrightarrow> adm_tasks s ! i = Adm_Waiting \<Longrightarrow>
     adm_env s (s\<lparr>adm_tasks := (adm_tasks s)[i := Adm_Idle]\<rparr>)"
| spurious: "i < length (adm_tasks s) \<Longrightarrow> adm_env s (s\<lparr>adm_woken := insert i (adm_woken s)\<rparr>)"

inductive adm_reachable :: "nat \<Rightarrow> nat \<Rightarrow> admission \<Rightarrow> bool" for limit n where
  start: "adm_reachable limit n (adm_new limit n)"
| step: "adm_reachable limit n s \<Longrightarrow> adm_step s s' \<Longrightarrow> adm_reachable limit n s'"
| env: "adm_reachable limit n s \<Longrightarrow> adm_env s s' \<Longrightarrow> adm_reachable limit n s'"

section \<open>Invariant\<close>

definition running :: "admission \<Rightarrow> nat" where
  "running s = length (filter (\<lambda>t. t = Adm_Running) (adm_tasks s))"

fun adm_waking :: "task \<Rightarrow> adm_phase \<Rightarrow> bool" where
  "adm_waking w (Adm_Releasing ws) = (w \<in> set ws)"
| "adm_waking w _ = False"

definition adm_inv :: "nat \<Rightarrow> admission \<Rightarrow> bool" where
  "adm_inv limit s \<longleftrightarrow>
     available (adm_sem s) + running s = limit \<and> quiet available s_wakers (adm_sem s) \<and>
     (\<forall>i < length (adm_tasks s). adm_tasks s ! i = Adm_Waiting \<and> i \<notin> adm_woken s \<longrightarrow>
        i \<in> set (s_wakers (adm_sem s)) \<or> list_ex (adm_waking i) (adm_tasks s))"

text \<open>One task moves to phase \<open>x\<close>.\<close>

lemma adm_inv_move:
  assumes ivt: "adm_inv limit s" and i: "i < length (adm_tasks s)"
    and s': "adm_tasks s' = (adm_tasks s)[i := x]" "quiet available s_wakers (adm_sem s')"
      "available (adm_sem s') + (if x = Adm_Running then 1 else 0) =
         available (adm_sem s) + (if adm_tasks s ! i = Adm_Running then 1 else 0)"
    and x: "x = Adm_Waiting \<Longrightarrow> i \<in> adm_woken s' \<or> i \<in> set (s_wakers (adm_sem s'))"
    and others: "\<And>j. j \<noteq> i \<Longrightarrow>
      j \<in> set (s_wakers (adm_sem s)) \<or> adm_waking j (adm_tasks s ! i) \<or> j \<in> adm_woken s \<Longrightarrow>
      j \<in> set (s_wakers (adm_sem s')) \<or> adm_waking j x \<or> j \<in> adm_woken s'"
  shows "adm_inv limit s'"
  unfolding adm_inv_def
proof (intro conjI allI impI; (elim conjE)?)
  show "available (adm_sem s') + running s' = limit"
    using ivt filter_update [OF i, of "\<lambda>t. t = Adm_Running" x] s'(1,3)
    by (simp add: adm_inv_def running_def)
  fix j assume j: "j < length (adm_tasks s')" "adm_tasks s' ! j = Adm_Waiting" "j \<notin> adm_woken s'"
  show "j \<in> set (s_wakers (adm_sem s')) \<or> list_ex (adm_waking j) (adm_tasks s')"
  proof (cases "j = i")
    case False
    then have "adm_tasks s ! j = Adm_Waiting" "j < length (adm_tasks s)" using j s'(1) by auto
    then have "j \<in> adm_woken s \<or> j \<in> set (s_wakers (adm_sem s)) \<or> list_ex (adm_waking j) (adm_tasks s)"
      using ivt unfolding adm_inv_def by blast
    then show ?thesis
      using others [OF False] j(3) list_ex_update_new [OF i, of "adm_waking j" x]
        list_ex_update [of "adm_waking j" "adm_tasks s" i x] unfolding s'(1) by blast
  qed (use j i x s'(1) in auto)
qed (rule s'(2))

lemma adm_simps [simp]:
  "adm_tasks (adm_acquire i s) = (adm_tasks s)[i := Adm_Waiting]"
  "adm_sem (adm_acquire i s) = adm_sem s" "adm_woken (adm_acquire i s) = insert i (adm_woken s)"
  "adm_tasks (adm_poll i s) =
     (adm_tasks s)[i := if 0 < available (adm_sem s) then Adm_Running else Adm_Waiting]"
  "adm_sem (adm_poll i s) = snd (sem_try_acquire (adm_sem s) i)" "adm_woken (adm_poll i s) = adm_woken s - {i}"
  "adm_tasks (adm_release i s) = (adm_tasks s)[i := Adm_Releasing (s_wakers (adm_sem s))]"
  "adm_sem (adm_release i s) = sem_new (Suc (available (adm_sem s)))" "adm_woken (adm_release i s) = adm_woken s"
  by (cases "adm_sem s"; simp add: adm_acquire_def adm_poll_def adm_release_def sem_try_acquire_def
      sem_release_def sem_new_def)+

lemma sem_new_simps [simp]: "available (sem_new l) = l" "s_wakers (sem_new l) = []"
  "quiet available s_wakers (sem_new l)"
  by (simp_all add: sem_new_def quiet_def)

lemma adm_inv_quiet: "adm_inv limit s \<Longrightarrow> quiet available s_wakers (adm_sem s)"
  by (simp add: adm_inv_def)

lemma adm_inv_step: "adm_step s s' \<Longrightarrow> adm_inv limit s \<Longrightarrow> adm_inv limit s'"
proof (induction rule: adm_step.induct)
  case (acquire i s)
  show ?case
    by (rule adm_inv_move [OF acquire.prems acquire.hyps(1) adm_simps(1)])
      (use acquire adm_inv_quiet in auto)
next
  case (poll i s)
  show ?case
    by (rule adm_inv_move [OF poll.prems poll.hyps(1) adm_simps(4)])
      (use poll sem.quiet_take [OF adm_inv_quiet [OF poll.prems], of i] in \<open>auto simp: sem_try_acquire_def\<close>)
next
  case (release i s)
  show ?case
    by (rule adm_inv_move [OF release.prems release.hyps(1) adm_simps(7)]) (use release in auto)
next
  case (wake i s w ws)
  show ?case
    by (rule adm_inv_move [OF wake.prems wake.hyps(1), where x = "Adm_Releasing ws"])
      (use wake adm_inv_quiet in auto)
next
  case (finish i s)
  show ?case
    by (rule adm_inv_move [OF finish.prems finish.hyps(1), where x = Adm_Idle])
      (use finish adm_inv_quiet in auto)
qed

lemma adm_inv_env: "adm_env s s' \<Longrightarrow> adm_inv limit s \<Longrightarrow> adm_inv limit s'"
proof (induction rule: adm_env.induct)
  case (cancel i s)
  show ?case
    by (rule adm_inv_move [OF cancel.prems cancel.hyps(1), where x = Adm_Idle])
      (use cancel adm_inv_quiet in auto)
next
  case (spurious i s)
  then show ?case by (auto simp: adm_inv_def running_def)
qed

lemma adm_inv_new: "adm_inv limit (adm_new limit n)"
  by (simp add: adm_inv_def adm_new_def running_def)

lemma adm_reachable_inv: "adm_reachable limit n s \<Longrightarrow> adm_inv limit s"
  by (induction rule: adm_reachable.induct) (auto intro: adm_inv_new adm_inv_step adm_inv_env)

section \<open>No waiter is forgotten\<close>

lemma adm_waking_drains:
  "j < length (adm_tasks s) \<Longrightarrow> adm_tasks s ! j = Adm_Releasing ws \<Longrightarrow>
   adm_step\<^sup>*\<^sup>* s (s\<lparr>adm_tasks := (adm_tasks s)[j := Adm_Releasing []], adm_woken := set ws \<union> adm_woken s\<rparr>)"
proof (induction ws arbitrary: s)
  case Nil
  then have "(adm_tasks s)[j := Adm_Releasing []] = adm_tasks s" by (metis list_update_id)
  then show ?case by simp
next
  case (Cons w ws)
  let ?s = "s\<lparr>adm_tasks := (adm_tasks s)[j := Adm_Releasing ws], adm_woken := insert w (adm_woken s)\<rparr>"
  have "adm_step s ?s" using Cons.prems by (rule adm_step.wake)
  moreover have "adm_step\<^sup>*\<^sup>* ?s (s\<lparr>adm_tasks := (adm_tasks s)[j := Adm_Releasing []],
      adm_woken := set (w # ws) \<union> adm_woken s\<rparr>)"
    using Cons.IH [of ?s] Cons.prems by simp
  ultimately show ?case by (rule converse_rtranclp_into_rtranclp)
qed

lemma adm_woken_runs:
  assumes "i < length (adm_tasks s)" "adm_tasks s ! i = Adm_Waiting" "i \<in> adm_woken s"
    and "0 < available (adm_sem s)"
  shows "\<exists>s'. adm_step s s' \<and> adm_tasks s' ! i = Adm_Running"
  using adm_step.poll [OF assms(1-3)] assms(1,4) by (intro exI [of _ "adm_poll i s"]) simp

lemma free_permit_runs:
  assumes ivt: "adm_inv limit s" and i: "i < length (adm_tasks s)" "adm_tasks s ! i = Adm_Waiting"
    and free: "0 < available (adm_sem s)"
  shows "\<exists>s'. adm_step\<^sup>*\<^sup>* s s' \<and> adm_tasks s' ! i = Adm_Running"
proof (cases "i \<in> adm_woken s")
  case True
  then show ?thesis using adm_woken_runs [OF i True free] by blast
next
  case False
  have "s_wakers (adm_sem s) = []" using adm_inv_quiet [OF ivt] free by (simp add: quiet_def)
  then have "list_ex (adm_waking i) (adm_tasks s)"
    using ivt i False unfolding adm_inv_def by (metis empty_iff empty_set)
  then obtain j where j: "j < length (adm_tasks s)" "adm_waking i (adm_tasks s ! j)"
    by (auto simp: list_ex_length)
  then obtain ws where ws: "adm_tasks s ! j = Adm_Releasing ws" "i \<in> set ws"
    by (cases "adm_tasks s ! j") auto
  let ?s = "s\<lparr>adm_tasks := (adm_tasks s)[j := Adm_Releasing []], adm_woken := set ws \<union> adm_woken s\<rparr>"
  have "j \<noteq> i" using i(2) ws(1) by auto
  then obtain s' where "adm_step ?s s'" "adm_tasks s' ! i = Adm_Running"
    using adm_woken_runs [of i ?s] i ws(2) free by auto
  then show ?thesis using adm_waking_drains [OF j(1) ws(1)] by (meson rtranclp.rtrancl_into_rtrancl)
qed

lemma waiter_runs:
  assumes ivt: "adm_inv limit s" and i: "i < length (adm_tasks s)" "adm_tasks s ! i = Adm_Waiting"
    and "0 < limit"
  shows "\<exists>s'. adm_step\<^sup>*\<^sup>* s s' \<and> adm_tasks s' ! i = Adm_Running"
proof (cases "0 < available (adm_sem s)")
  case False
  then have "running s \<noteq> 0" using ivt \<open>0 < limit\<close> by (simp add: adm_inv_def)
  then obtain j where j: "j < length (adm_tasks s)" "adm_tasks s ! j = Adm_Running"
    by (auto simp: running_def filter_empty_conv in_set_conv_nth)
  then have "j \<noteq> i" using i(2) by auto
  have step: "adm_step s (adm_release j s)" using j by (rule adm_step.release)
  moreover have "\<exists>s'. adm_step\<^sup>*\<^sup>* (adm_release j s) s' \<and> adm_tasks s' ! i = Adm_Running"
    by (rule free_permit_runs [OF adm_inv_step [OF step ivt]]) (use i \<open>j \<noteq> i\<close> in auto)
  ultimately show ?thesis by (meson converse_rtranclp_into_rtranclp)
qed (use free_permit_runs [OF ivt i] in blast)

lemma adm_reachable_length: "adm_reachable limit n s \<Longrightarrow> length (adm_tasks s) = n"
  by (induction rule: adm_reachable.induct) (auto simp: adm_new_def elim!: adm_step.cases adm_env.cases)

lemma adm_full:
  "adm_reachable 1 2 (adm_poll 1 (adm_acquire 1 (adm_poll 0 (adm_acquire 0 (adm_new 1 2)))))"
proof -
  have "adm_reachable 1 2 (adm_acquire 0 (adm_new 1 2))"
    by (rule adm_reachable.step [OF adm_reachable.start adm_step.acquire]) (simp_all add: adm_new_def)
  then have "adm_reachable 1 2 (adm_poll 0 (adm_acquire 0 (adm_new 1 2)))"
    by (rule adm_reachable.step [OF _ adm_step.poll]) (simp_all add: adm_new_def)
  then have "adm_reachable 1 2 (adm_acquire 1 (adm_poll 0 (adm_acquire 0 (adm_new 1 2))))"
    by (rule adm_reachable.step [OF _ adm_step.acquire]) (simp_all add: adm_new_def)
  then show ?thesis
    by (rule adm_reachable.step [OF _ adm_step.poll]) (simp_all add: adm_new_def)
qed

lemma adm_full_tasks:
  "adm_tasks (adm_poll 1 (adm_acquire 1 (adm_poll 0 (adm_acquire 0 (adm_new 1 2))))) =
     [Adm_Running, Adm_Waiting]"
  by (simp add: adm_new_def sem_try_acquire_def numeral_2_eq_2)

text \<open>
  C28. Admission control: in every state that tasks reach by any interleaving of operations, spurious
  polls and dropped futures, the free permits and the operations in flight add up to the limit. So
  no more than \<open>limit\<close> operations run on the inner tier at once, no permit is lost or made up, and the
  permit counter stays within the limit.
\<close>

theorem limited_admission:
  assumes "adm_reachable limit n s"
  shows "running s \<le> limit \<and> available (adm_sem s) = limit - running s"
  using adm_reachable_inv [OF assms] by (auto simp: adm_inv_def)

theorem limited_admission_witness:
  "running (adm_poll 1 (adm_acquire 1 (adm_poll 0 (adm_acquire 0 (adm_new 1 2))))) = 1 \<and>
   available (adm_sem (adm_poll 1 (adm_acquire 1 (adm_poll 0 (adm_acquire 0 (adm_new 1 2)))))) = 0"
  using limited_admission [OF adm_full] adm_full_tasks by (simp add: running_def)

text \<open>
  C29. No lost wakeups at the semaphore: with a limit that is not zero, from every reachable state a
  waiting operation is admitted by steps that the code takes by itself: an operation in flight ends
  and drops its permit, the registered wakers are called, a woken task polls.
\<close>

theorem limited_progress:
  assumes "adm_reachable limit n s" "0 < limit" "i < n" "adm_tasks s ! i = Adm_Waiting"
  shows "\<exists>s'. adm_step\<^sup>*\<^sup>* s s' \<and> adm_tasks s' ! i = Adm_Running"
  using waiter_runs [OF adm_reachable_inv [OF assms(1)]] assms adm_reachable_length by blast

theorem limited_progress_witness:
  "\<exists>s'. adm_step\<^sup>*\<^sup>* (adm_poll 1 (adm_acquire 1 (adm_poll 0 (adm_acquire 0 (adm_new 1 2))))) s' \<and>
     adm_tasks s' ! 1 = Adm_Running"
  using limited_progress [OF adm_full, of 1] adm_full_tasks by simp


section \<open>The tier, one operation at a time\<close>

record 's limited_tier =
  lt_inner :: 's
  lt_name :: string
  lt_permits :: sem_state

definition limited_new :: "('s, 'k, 'v, 'e) tier_ops \<Rightarrow> 's \<Rightarrow> nat \<Rightarrow> 's limited_tier" where
  "limited_new t s limit =
     \<lparr>lt_inner = s, lt_name = ''limited('' @ t_name t s @ '')'', lt_permits = sem_new limit\<rparr>"

text \<open>
  The body that all operations share: acquire a permit, call the inner tier, drop the permit. With
  no permit free the call waits, which is \<open>None\<close> when nobody else runs. The caller is task 0.
\<close>

definition limited_call ::
  "('s \<Rightarrow> ('a, 'e) result \<times> 's) \<Rightarrow> 's limited_tier \<Rightarrow> (('a, 'e) result \<times> 's limited_tier) option" where
  "limited_call f w =
     (case sem_try_acquire (lt_permits w) 0 of
        (False, q) \<Rightarrow> None
      | (True, q) \<Rightarrow>
          (let (r, s) = f (lt_inner w); (ws, q') = sem_release q
           in Some (r, w\<lparr>lt_inner := s, lt_permits := q'\<rparr>)))"

text \<open>The trait methods; they return a value in the states where a permit is free.\<close>

definition limited_ops :: "('s, 'k, 'v, 'e) tier_ops \<Rightarrow> ('s limited_tier, 'k, 'v, 'e) tier_ops" where
  "limited_ops t =
     \<lparr>t_name = lt_name,
      t_get = (\<lambda>w k. the (limited_call (\<lambda>s. t_get t s k) w)),
      t_exists = (\<lambda>w k. the (limited_call (\<lambda>s. t_exists t s k) w)),
      t_get_many = (\<lambda>w ks. the (limited_call (\<lambda>s. t_get_many t s ks) w)),
      t_put = (\<lambda>w k v. the (limited_call (\<lambda>s. t_put t s k v) w)),
      t_delete = (\<lambda>w k. the (limited_call (\<lambda>s. t_delete t s k) w)),
      t_put_many = (\<lambda>w es. the (limited_call (\<lambda>s. t_put_many t s es) w)),
      t_delete_many = (\<lambda>w ks. the (limited_call (\<lambda>s. t_delete_many t s ks) w))\<rparr>"

definition limited_list ::
  "('s \<Rightarrow> 'c option \<Rightarrow> nat \<Rightarrow> (('k, 'c) page, 'e) result \<times> 's) \<Rightarrow> 's limited_tier \<Rightarrow> 'c option \<Rightarrow> nat \<Rightarrow>
   ((('k, 'c) page, 'e) result \<times> 's limited_tier) option"
where
  "limited_list lst w cursor limit = limited_call (\<lambda>s. lst s cursor limit) w"

definition limited_ready :: "'s limited_tier \<Rightarrow> bool" where
  "limited_ready w \<longleftrightarrow> 0 < available (lt_permits w)"

lemma limited_call_ready:
  assumes "limited_ready w"
  obtains w' where "limited_call f w = Some (fst (f (lt_inner w)), w')"
    "lt_inner w' = snd (f (lt_inner w))" "limited_ready w'" "available (lt_permits w') = available (lt_permits w)"
  using assms
  by (cases "f (lt_inner w)")
    (simp add: limited_call_def limited_ready_def sem_try_acquire_def sem_release_def Let_def)

lemma limited_call_simps:
  assumes "limited_ready w"
  shows "limited_call f w \<noteq> None" "fst (the (limited_call f w)) = fst (f (lt_inner w))"
    "lt_inner (snd (the (limited_call f w))) = snd (f (lt_inner w))"
    "limited_ready (snd (the (limited_call f w)))"
  by (rule limited_call_ready [OF assms, of f]; simp)+

lemma limited_wraps: "wraps limited_ready lt_inner (limited_ops t) t"
  by (simp add: wraps_def forwards_def limited_ops_def limited_call_simps)

lemma limited_same_answers: "transparent limited_ready lt_inner (limited_ops t) t"
  by (simp add: transparent_def limited_ops_def limited_call_simps)

lemma limited_new_ready: "limited_ready (limited_new t s limit) \<longleftrightarrow> 0 < limit"
  by (simp add: limited_ready_def limited_new_def)

interpretation limited_memory:
  reliable_tiers "wrapped_inv limited_ops limited_ready lt_inner memory_inv" "\<lambda>_ w. memory_con (lt_inner w)"
  by (rule wrapped_reliable [OF memory.reliable_tiers_axioms limited_wraps limited_same_answers])

end
