(* ===== verification/Read_Flow.thy ===== *)
theory Read_Flow
  imports Policy
begin

text \<open>
  \<open>tierstore-core/src/read.rs\<close>: the sans-io state machine that makes every read-path decision.
  A panic of \<open>on_get\<close> or \<open>on_promote\<close> is the value \<open>None\<close>. The lemmas show that a driver that
  follows the documented loop never meets a panic, that the loop ends, and that its outcome and its
  promotions are those of a direct definition over the probe results.
\<close>

section \<open>The state machine\<close>

datatype read_outcome = Outcome_Hit nat | Outcome_Miss | Outcome_Inconclusive | Outcome_Failed nat

datatype read_step = Step_Get nat | Step_Promote nat | Step_Done read_outcome

datatype probe = Probe_Hit | Probe_Miss | Probe_Error

datatype flow_state = St_Probe nat | St_Promote nat nat | St_Done read_outcome

record read_flow =
  fl_tiers :: nat
  fl_policy :: read_policy
  fl_errors :: nat
  fl_state :: flow_state

definition flow_new :: "nat \<Rightarrow> read_policy \<Rightarrow> read_flow" where
  "flow_new n p =
     \<lparr>fl_tiers = n, fl_policy = p, fl_errors = 0,
      fl_state = (if n = 0 then St_Done Outcome_Miss else St_Probe 0)\<rparr>"

definition flow_step :: "read_flow \<Rightarrow> read_step" where
  "flow_step f =
     (case fl_state f of
        St_Probe t \<Rightarrow> Step_Get t
      | St_Promote hit next \<Rightarrow> Step_Promote next
      | St_Done out \<Rightarrow> Step_Done out)"

definition advance :: "read_flow \<Rightarrow> nat \<Rightarrow> read_flow" where
  "advance f tier =
     (let next = tier + 1 in
      f\<lparr>fl_state :=
          (if next < fl_tiers f then St_Probe next
           else if 0 < fl_errors f then St_Done Outcome_Inconclusive
           else St_Done Outcome_Miss)\<rparr>)"

definition after_hit :: "read_flow \<Rightarrow> nat \<Rightarrow> flow_state" where
  "after_hit f tier =
     (if tier = 0 \<or> rp_promote (fl_policy f) = Never then St_Done (Outcome_Hit tier)
      else St_Promote tier 0)"

definition on_get :: "read_flow \<Rightarrow> probe \<Rightarrow> read_flow option" where
  "on_get f pr =
     (case fl_state f of
        St_Probe tier \<Rightarrow>
          Some (case pr of
                  Probe_Hit \<Rightarrow> f\<lparr>fl_state := after_hit f tier\<rparr>
                | Probe_Miss \<Rightarrow> advance f tier
                | Probe_Error \<Rightarrow>
                    (case rp_on_error (fl_policy f) of
                       FailFast \<Rightarrow> f\<lparr>fl_state := St_Done (Outcome_Failed tier)\<rparr>
                     | FallThrough \<Rightarrow> advance (f\<lparr>fl_errors := fl_errors f + 1\<rparr>) tier))
      | _ \<Rightarrow> None)"

definition on_promote :: "read_flow \<Rightarrow> read_flow option" where
  "on_promote f =
     (case fl_state f of
        St_Promote hit next \<Rightarrow>
          (case rp_promote (fl_policy f) of
             TopOnly \<Rightarrow> Some (f\<lparr>fl_state := St_Done (Outcome_Hit hit)\<rparr>)
           | AllAbove \<Rightarrow>
               Some (f\<lparr>fl_state :=
                         (if next + 1 = hit then St_Done (Outcome_Hit hit)
                          else St_Promote hit (next + 1))\<rparr>)
           | Never \<Rightarrow> None)
      | _ \<Rightarrow> None)"

lemmas flow_defs = flow_step_def advance_def after_hit_def on_get_def on_promote_def Let_def

section \<open>Reachable flows never panic\<close>

text \<open>The flows a driver can hold: a fresh one, and what the two reports make of one.\<close>

inductive flow_reachable :: "nat \<Rightarrow> read_policy \<Rightarrow> read_flow \<Rightarrow> bool" for n p where
  fresh: "flow_reachable n p (flow_new n p)"
| got: "flow_reachable n p f \<Longrightarrow> on_get f pr = Some f' \<Longrightarrow> flow_reachable n p f'"
| promoted: "flow_reachable n p f \<Longrightarrow> on_promote f = Some f' \<Longrightarrow> flow_reachable n p f'"

fun outcome_in :: "nat \<Rightarrow> read_outcome \<Rightarrow> bool" where
  "outcome_in n (Outcome_Hit t) = (t < n)"
| "outcome_in n (Outcome_Failed t) = (t < n)"
| "outcome_in n _ = True"

definition flow_wf :: "nat \<Rightarrow> read_policy \<Rightarrow> read_flow \<Rightarrow> bool" where
  "flow_wf n p f \<longleftrightarrow>
     fl_tiers f = n \<and> fl_policy f = p \<and>
     (case fl_state f of
        St_Probe t \<Rightarrow> t < n \<and> fl_errors f \<le> t
      | St_Promote hit next \<Rightarrow> next < hit \<and> hit < n \<and> rp_promote p \<noteq> Never
      | St_Done out \<Rightarrow> outcome_in n out)"

lemma flow_wf_new: "flow_wf n p (flow_new n p)"
  by (simp add: flow_wf_def flow_new_def)

lemma flow_wf_on_get: "flow_wf n p f \<Longrightarrow> on_get f pr = Some f' \<Longrightarrow> flow_wf n p f'"
  by (auto simp: flow_wf_def flow_defs
           split: flow_state.splits probe.splits on_read_error.splits if_splits)

lemma flow_wf_on_promote: "flow_wf n p f \<Longrightarrow> on_promote f = Some f' \<Longrightarrow> flow_wf n p f'"
  by (auto simp: flow_wf_def flow_defs split: flow_state.splits promote.splits if_splits)

lemma flow_reachable_wf: "flow_reachable n p f \<Longrightarrow> flow_wf n p f"
  by (induction rule: flow_reachable.induct)
     (auto intro: flow_wf_new flow_wf_on_get flow_wf_on_promote)

text \<open>
  A driver that reports exactly what \<open>step\<close> asked for never meets a panic: in every reachable
  flow, \<open>on_get\<close> answers when the step is \<open>Get\<close> and \<open>on_promote\<close> answers when it is \<open>Promote\<close>
  (the \<open>unreachable!\<close> arm for \<open>Promote::Never\<close> included), and the tier index of the instruction is
  one of the hierarchy's tiers.
\<close>

theorem flow_never_panics:
  assumes "flow_reachable n p f"
  shows "(\<forall>t pr. flow_step f = Step_Get t \<longrightarrow> t < n \<and> on_get f pr \<noteq> None) \<and>
         (\<forall>t. flow_step f = Step_Promote t \<longrightarrow> t < n \<and> on_promote f \<noteq> None)"
  using flow_reachable_wf [OF assms]
  by (auto simp: flow_wf_def flow_defs split: flow_state.splits promote.splits)

theorem flow_never_panics_witness:
  "\<exists>f. flow_reachable 2 \<lparr>rp_promote = AllAbove, rp_on_error = FallThrough\<rparr> f \<and>
       flow_step f = Step_Promote 0 \<and> on_promote f \<noteq> None"
proof -
  let ?p = "\<lparr>rp_promote = AllAbove, rp_on_error = FallThrough\<rparr>"
  let ?f = "\<lparr>fl_tiers = 2, fl_policy = ?p, fl_errors = 0, fl_state = St_Promote 1 0\<rparr>"
  have "flow_reachable 2 ?p \<lparr>fl_tiers = 2, fl_policy = ?p, fl_errors = 0, fl_state = St_Probe 1\<rparr>"
    by (rule flow_reachable.got [OF flow_reachable.fresh, of _ _ Probe_Miss])
       (simp add: flow_new_def flow_defs)
  then have r: "flow_reachable 2 ?p ?f"
    by (rule flow_reachable.got [of _ _ _ Probe_Hit]) (simp add: flow_defs)
  moreover have s: "flow_step ?f = Step_Promote 0" by (simp add: flow_step_def)
  ultimately show ?thesis using flow_never_panics [OF r] by blast
qed

section \<open>The driver loop\<close>

text \<open>
  The loop of the module documentation, with the probe results given by a function and the list of
  promotions it performs recorded. \<open>None\<close> is a panic or a loop that does not end.
\<close>

partial_function (option)
  drive :: "(nat \<Rightarrow> probe) \<Rightarrow> read_flow \<Rightarrow> nat list \<Rightarrow> (read_outcome \<times> nat list) option" where
  "drive pr f ps =
     (case flow_step f of
        Step_Get t \<Rightarrow> Option.bind (on_get f (pr t)) (\<lambda>f'. drive pr f' ps)
      | Step_Promote t \<Rightarrow> Option.bind (on_promote f) (\<lambda>f'. drive pr f' (ps @ [t]))
      | Step_Done out \<Rightarrow> Some (out, ps))"

text \<open>The outcome and the promotions, read directly off the probe results.\<close>

fun first_answer :: "on_read_error \<Rightarrow> (nat \<Rightarrow> probe) \<Rightarrow> nat \<Rightarrow> nat list \<Rightarrow> read_outcome" where
  "first_answer m pr errs [] = (if 0 < errs then Outcome_Inconclusive else Outcome_Miss)"
| "first_answer m pr errs (t # ts) =
     (case pr t of
        Probe_Hit \<Rightarrow> Outcome_Hit t
      | Probe_Miss \<Rightarrow> first_answer m pr errs ts
      | Probe_Error \<Rightarrow>
          (case m of FailFast \<Rightarrow> Outcome_Failed t
                   | FallThrough \<Rightarrow> first_answer m pr (Suc errs) ts))"

fun promotion_targets :: "promote \<Rightarrow> nat \<Rightarrow> nat list" where
  "promotion_targets Never hit = []"
| "promotion_targets TopOnly hit = (if hit = 0 then [] else [0])"
| "promotion_targets AllAbove hit = [0..<hit]"

fun promotions_of :: "promote \<Rightarrow> read_outcome \<Rightarrow> nat list" where
  "promotions_of m (Outcome_Hit t) = promotion_targets m t"
| "promotions_of m _ = []"

lemma drive_done: "fl_state f = St_Done out \<Longrightarrow> drive pr f ps = Some (out, ps)"
  by (subst drive.simps) (simp add: flow_step_def)

lemma drive_promote:
  "fl_state f = St_Promote hit next \<Longrightarrow> rp_promote (fl_policy f) = AllAbove \<Longrightarrow> next < hit \<Longrightarrow>
   drive pr f ps = Some (Outcome_Hit hit, ps @ [next..<hit])"
proof (induction "hit - next" arbitrary: f "next" ps)
  case 0
  then show ?case by simp
next
  case (Suc d)
  show ?case
  proof (cases "next + 1 = hit")
    case True
    with Suc.prems show ?thesis
      by (subst drive.simps) (auto simp: flow_defs drive_done upt_conv_Cons)
  next
    case False
    let ?f = "f\<lparr>fl_state := St_Promote hit (next + 1)\<rparr>"
    have "drive pr f ps = drive pr ?f (ps @ [next])"
      using Suc.prems False by (subst drive.simps) (simp add: flow_defs)
    also have "\<dots> = Some (Outcome_Hit hit, (ps @ [next]) @ [next + 1..<hit])"
      by (rule Suc.hyps(1)) (use Suc.hyps(2) Suc.prems False in auto)
    finally show ?thesis
      using Suc.prems by (simp add: upt_conv_Cons)
  qed
qed

lemma drive_promote_top:
  "fl_state f = St_Promote hit next \<Longrightarrow> rp_promote (fl_policy f) = TopOnly \<Longrightarrow>
   drive pr f ps = Some (Outcome_Hit hit, ps @ [next])"
  by (subst drive.simps) (simp add: flow_defs drive_done)

lemma drive_after_hit:
  assumes "fl_state f = after_hit f t"
  shows "drive pr f ps = Some (Outcome_Hit t, ps @ promotion_targets (rp_promote (fl_policy f)) t)"
  using assms
  by (cases "rp_promote (fl_policy f)"; cases "t = 0")
     (auto simp: after_hit_def drive_done drive_promote_top drive_promote)

lemma drive_from:
  assumes "fl_state f = St_Probe t" "t < fl_tiers f"
  shows "drive pr f ps =
    (let out = first_answer (rp_on_error (fl_policy f)) pr (fl_errors f) [t..<fl_tiers f]
     in Some (out, ps @ promotions_of (rp_promote (fl_policy f)) out))"
  using assms
proof (induction "fl_tiers f - t" arbitrary: f t)
  case 0
  then show ?case by simp
next
  case (Suc d)
  have upt: "[t..<fl_tiers f] = t # [Suc t..<fl_tiers f]"
    using Suc.prems by (simp add: upt_conv_Cons)
  have adv: "drive pr (advance g t) ps =
      (let out = first_answer (rp_on_error (fl_policy g)) pr (fl_errors g) [Suc t..<fl_tiers g]
       in Some (out, ps @ promotions_of (rp_promote (fl_policy g)) out))"
    if "fl_tiers g = fl_tiers f" for g
  proof (cases "Suc t < fl_tiers g")
    case True
    with Suc.hyps(1) [of "advance g t" "Suc t"] Suc.hyps(2) that show ?thesis
      by (simp add: advance_def)
  next
    case False
    then show ?thesis by (simp add: advance_def drive_done)
  qed
  show ?case
  proof (cases "pr t")
    case Probe_Hit
    have "drive pr f ps = drive pr (f\<lparr>fl_state := after_hit f t\<rparr>) ps"
      using Suc.prems Probe_Hit by (subst drive.simps) (simp add: flow_step_def on_get_def)
    also have "\<dots> = Some (Outcome_Hit t, ps @ promotion_targets (rp_promote (fl_policy f)) t)"
      by (subst drive_after_hit) (simp_all add: after_hit_def)
    finally show ?thesis by (simp add: upt Probe_Hit)
  next
    case Probe_Miss
    have "drive pr f ps = drive pr (advance f t) ps"
      using Suc.prems Probe_Miss by (subst drive.simps) (simp add: flow_step_def on_get_def)
    with adv show ?thesis by (simp add: upt Probe_Miss)
  next
    case Probe_Error
    show ?thesis
    proof (cases "rp_on_error (fl_policy f)")
      case FailFast
      with Suc.prems Probe_Error show ?thesis
        by (subst drive.simps) (simp add: flow_step_def on_get_def drive_done upt)
    next
      case FallThrough
      have "drive pr f ps = drive pr (advance (f\<lparr>fl_errors := fl_errors f + 1\<rparr>) t) ps"
        using Suc.prems Probe_Error FallThrough
        by (subst drive.simps) (simp add: flow_step_def on_get_def)
      with adv [of "f\<lparr>fl_errors := fl_errors f + 1\<rparr>"] FallThrough show ?thesis
        by (simp add: upt Probe_Error)
    qed
  qed
qed

lemma drive_eq:
  "drive pr (flow_new n p) [] =
     (let out = first_answer (rp_on_error p) pr 0 [0..<n]
      in Some (out, promotions_of (rp_promote p) out))"
proof (cases "n = 0")
  case True
  then show ?thesis by (simp add: flow_new_def drive_done)
next
  case False
  then show ?thesis using drive_from [of "flow_new n p" 0] by (simp add: flow_new_def)
qed

text \<open>
  The driver loop over any number of tiers always ends without a panic, and its outcome and
  its promotions are those of the direct definition: the first tier that settles the read decides,
  and the promotions are none, the top tier, or every tier above the hit, top first.
\<close>

theorem drive_correct:
  "drive pr (flow_new n p) [] =
     (let out = first_answer (rp_on_error p) pr 0 [0..<n]
      in Some (out, promotions_of (rp_promote p) out))"
  by (rule drive_eq)

section \<open>What the outcomes mean\<close>

lemma first_answer_Hit_iff:
  "first_answer m pr e [a..<b] = Outcome_Hit t \<longleftrightarrow>
     a \<le> t \<and> t < b \<and> pr t = Probe_Hit \<and>
     (\<forall>j. a \<le> j \<and> j < t \<longrightarrow> pr j = Probe_Miss \<or> pr j = Probe_Error \<and> m = FallThrough)"
proof (induction "b - a" arbitrary: a e)
  case 0
  then show ?case by auto
next
  case (Suc d)
  then have upt: "[a..<b] = a # [Suc a..<b]" and d: "d = b - Suc a" "a < b"
    by (auto simp: upt_conv_Cons)
  have split: "(\<forall>j. a \<le> j \<and> j < t \<longrightarrow> P j) \<longleftrightarrow> (a < t \<longrightarrow> P a) \<and> (\<forall>j. Suc a \<le> j \<and> j < t \<longrightarrow> P j)" for P
    by (metis Suc_leI Suc_le_lessD le_less order.strict_trans1)
  show ?case
    unfolding upt first_answer.simps split
    using Suc.hyps(1) [OF d(1)] d(2)
    by (cases "pr a"; cases m; cases "t = a") (auto simp: Suc_le_eq)
qed

lemma first_answer_Miss_iff:
  "first_answer m pr e ts = Outcome_Miss \<longleftrightarrow> e = 0 \<and> (\<forall>t \<in> set ts. pr t = Probe_Miss)"
  by (induction ts arbitrary: e) (auto split: probe.splits on_read_error.splits)

lemma first_answer_Inconclusive_iff:
  "first_answer m pr e ts = Outcome_Inconclusive \<longleftrightarrow>
     (\<forall>t \<in> set ts. pr t = Probe_Miss \<or> pr t = Probe_Error \<and> m = FallThrough) \<and>
     (0 < e \<or> (\<exists>t \<in> set ts. pr t = Probe_Error))"
  by (induction ts arbitrary: e) (auto split: probe.splits on_read_error.splits)

text \<open>
  Honest classification. A hit is the topmost tier that answered with the key; a miss is only
  ever reported when every tier answered and none held the key; a read that fell through a failing
  tier and found nothing is inconclusive, never a miss.
\<close>

theorem drive_honest:
  "((\<exists>ps. drive pr (flow_new n p) [] = Some (Outcome_Miss, ps)) \<longleftrightarrow> (\<forall>t < n. pr t = Probe_Miss)) \<and>
   ((\<exists>ps. drive pr (flow_new n p) [] = Some (Outcome_Inconclusive, ps)) \<longleftrightarrow>
     (\<forall>t < n. pr t = Probe_Miss \<or> pr t = Probe_Error \<and> rp_on_error p = FallThrough) \<and>
     (\<exists>t < n. pr t = Probe_Error)) \<and>
   ((\<exists>ps. drive pr (flow_new n p) [] = Some (Outcome_Hit t, ps)) \<longleftrightarrow>
     t < n \<and> pr t = Probe_Hit \<and>
     (\<forall>j < t. pr j = Probe_Miss \<or> pr j = Probe_Error \<and> rp_on_error p = FallThrough))"
  by (auto simp: drive_eq Let_def first_answer_Miss_iff first_answer_Inconclusive_iff
                 first_answer_Hit_iff)

text \<open>A failing top tier over a missing one: the miss is not confirmed.\<close>

theorem drive_honest_witness:
  "\<exists>ps. drive (\<lambda>t. if t = 0 then Probe_Error else Probe_Miss)
           (flow_new 2 \<lparr>rp_promote = TopOnly, rp_on_error = FallThrough\<rparr>) [] =
         Some (Outcome_Inconclusive, ps)"
  using drive_honest
    [of "\<lambda>t. if t = 0 then Probe_Error else Probe_Miss" 2
        "\<lparr>rp_promote = TopOnly, rp_on_error = FallThrough\<rparr>" 0]
  by auto

end
