(* ===== verification/Errors_Reports.thy ===== *)
theory Errors_Reports
  imports Tier_Prelude
begin

text \<open>
  \<open>tierstore/src/error.rs\<close> and \<open>tierstore/src/report.rs\<close>: what router operations return besides
  values. \<open>BoxError\<close> is opaque to the router, which only stores it, so it is the type parameter
  \<open>'x\<close> throughout. The \<open>Display\<close> and \<open>Error::source\<close> implementations are in
  \<open>Error_Display\<close>. Variants of \<open>KeyStatus\<close> carry the prefix \<open>Status\<close>, since \<open>Inconclusive\<close> is also a
  variant of \<open>RouterError\<close>.
\<close>

datatype 'x tier_failure =
  TierFailure (failure_tier: nat) (failure_name: string) (failure_source: 'x)

datatype 'x router_error =
    Tier_Failed "'x tier_failure"
  | Inconclusive "'x tier_failure list"
  | Partial "'x tier_failure list"
  | Read_Only

fun error_failures :: "'x router_error \<Rightarrow> 'x tier_failure list" where
  "error_failures (Tier_Failed f) = [f]"
| "error_failures (Inconclusive fs) = fs"
| "error_failures (Partial fs) = fs"
| "error_failures Read_Only = []"

datatype 'v key_status = Status_Hit nat 'v | Status_Miss | Status_Inconclusive

fun status_tier :: "'v key_status \<Rightarrow> nat option" where
  "status_tier (Status_Hit t v) = Some t"
| "status_tier Status_Miss = None"
| "status_tier Status_Inconclusive = None"

fun status_value :: "'v key_status \<Rightarrow> 'v option" where
  "status_value (Status_Hit t v) = Some v"
| "status_value Status_Miss = None"
| "status_value Status_Inconclusive = None"

record ('v, 'x) read_one_report =
  one_status :: "'v key_status"
  one_failures :: "'x tier_failure list"

record ('v, 'x) read_report =
  rep_statuses :: "'v key_status list"
  rep_failures :: "'x tier_failure list"

record 'x delete_report =
  del_removed :: "bool list"
  del_failures :: "'x tier_failure list"

definition read_one_complete :: "('v, 'x) read_one_report \<Rightarrow> bool" where
  "read_one_complete r = (one_failures r = [])"

definition read_one_value :: "('v, 'x) read_one_report \<Rightarrow> 'v option" where
  "read_one_value r = status_value (one_status r)"

definition read_complete :: "('v, 'x) read_report \<Rightarrow> bool" where
  "read_complete r = (rep_failures r = [])"

definition into_values :: "('v, 'x) read_report \<Rightarrow> 'v option list" where
  "into_values r = map status_value (rep_statuses r)"

definition delete_complete :: "'x delete_report \<Rightarrow> bool" where
  "delete_complete r = (del_failures r = [])"

lemma status_tier_value: "status_tier st = None \<longleftrightarrow> status_value st = None"
  by (cases st) simp_all

end
