(* ===== verification/Router.thy ===== *)
theory Router
  imports Read_Flow Tier_Traits Errors_Reports
begin

text \<open>
  \<open>tierstore/src/router.rs\<close>, definitions. A slot is a table of operations with its state (the boxed
  \<open>DynTier\<close>), the writable flag and the counters; a router is a list of slots and a policy. All
  tiers of a router share one state type, so a mixed hierarchy takes a sum of its tiers' states.

  The slots are passed explicitly: every function below takes the current slots and returns them
  updated. A loop over a range of tier indices is a recursion over the list of those indices. The
  loops of \<open>put\<close> and \<open>put_many\<close> (and of their promotion and invalidation parts) are the same code
  with another call in the middle; that call is a parameter of one definition.
\<close>

section \<open>Slots, counters and adapters\<close>

record counters =
  c_hits :: u64
  c_misses :: u64
  c_errors :: u64
  c_puts :: u64
  c_deletes :: u64

definition counters_default :: counters where
  "counters_default = \<lparr>c_hits = 0, c_misses = 0, c_errors = 0, c_puts = 0, c_deletes = 0\<rparr>"

datatype counter = Hits | Misses | Errors | Puts | Deletes

text \<open>\<open>fetch_add\<close> wraps.\<close>

fun counter_add :: "counter \<Rightarrow> u64 \<Rightarrow> counters \<Rightarrow> counters" where
  "counter_add Hits n c = c\<lparr>c_hits := c_hits c + n\<rparr>"
| "counter_add Misses n c = c\<lparr>c_misses := c_misses c + n\<rparr>"
| "counter_add Errors n c = c\<lparr>c_errors := c_errors c + n\<rparr>"
| "counter_add Puts n c = c\<lparr>c_puts := c_puts c + n\<rparr>"
| "counter_add Deletes n c = c\<lparr>c_deletes := c_deletes c + n\<rparr>"

record ('s, 'k, 'v, 'x) tier_slot =
  slot_ops :: "('s, 'k, 'v, 'x) tier_ops"
  slot_state :: 's
  writable :: bool
  slot_counters :: counters

record ('s, 'k, 'v, 'x) router =
  rt_tiers :: "('s, 'k, 'v, 'x) tier_slot list"
  rt_policy :: policy

type_synonym ('s, 'k, 'v, 'x) slots = "('s, 'k, 'v, 'x) tier_slot list"

text \<open>
  \<open>Adapter\<close>: the error of every operation is converted by the tier's \<open>Into\<close>. \<open>ReadOnly\<close>: reads
  forward, writes fail with a fixed message, boxed by \<open>box\<close>.
\<close>

definition adapter :: "('e \<Rightarrow> 'x) \<Rightarrow> ('s, 'k, 'v, 'e) tier_ops \<Rightarrow> ('s, 'k, 'v, 'x) tier_ops" where
  "adapter into t =
     \<lparr>t_name = t_name t,
      t_get = (\<lambda>s k. apfst (map_err into) (t_get t s k)),
      t_exists = (\<lambda>s k. apfst (map_err into) (t_exists t s k)),
      t_get_many = (\<lambda>s ks. apfst (map_err into) (t_get_many t s ks)),
      t_put = (\<lambda>s k v. apfst (map_err into) (t_put t s k v)),
      t_delete = (\<lambda>s k. apfst (map_err into) (t_delete t s k)),
      t_put_many = (\<lambda>s es. apfst (map_err into) (t_put_many t s es)),
      t_delete_many = (\<lambda>s ks. apfst (map_err into) (t_delete_many t s ks))\<rparr>"

definition read_only_ops ::
  "('e \<Rightarrow> 'x) \<Rightarrow> (string \<Rightarrow> 'x) \<Rightarrow> ('s, 'k, 'v, 'e) tier_read \<Rightarrow> ('s, 'k, 'v, 'x) tier_ops" where
  "read_only_ops into box t =
     \<lparr>t_name = t_name t,
      t_get = (\<lambda>s k. apfst (map_err into) (t_get t s k)),
      t_exists = (\<lambda>s k. apfst (map_err into) (t_exists t s k)),
      t_get_many = (\<lambda>s ks. apfst (map_err into) (t_get_many t s ks)),
      t_put = (\<lambda>s k v. (Err (box ''tier is read-only''), s)),
      t_delete = (\<lambda>s k. (Err (box ''tier is read-only''), s)),
      t_put_many = (\<lambda>s es. (Err (box ''tier is read-only''), s)),
      t_delete_many = (\<lambda>s ks. (Err (box ''tier is read-only''), s))\<rparr>"

section \<open>Builder and accessors\<close>

definition builder_new :: "('s, 'k, 'v, 'x) router" where
  "builder_new = \<lparr>rt_tiers = [], rt_policy = policy_default\<rparr>"

definition builder_tier ::
  "('e \<Rightarrow> 'x) \<Rightarrow> ('s, 'k, 'v, 'e) tier_ops \<Rightarrow> 's \<Rightarrow> ('s, 'k, 'v, 'x) router \<Rightarrow> ('s, 'k, 'v, 'x) router"
where
  "builder_tier into t s b =
     b\<lparr>rt_tiers := rt_tiers b @
         [\<lparr>slot_ops = adapter into t, slot_state = s, writable = True,
           slot_counters = counters_default\<rparr>]\<rparr>"

definition builder_read_only_tier ::
  "('e \<Rightarrow> 'x) \<Rightarrow> (string \<Rightarrow> 'x) \<Rightarrow> ('s, 'k, 'v, 'e) tier_read \<Rightarrow> 's \<Rightarrow> ('s, 'k, 'v, 'x) router \<Rightarrow>
   ('s, 'k, 'v, 'x) router"
where
  "builder_read_only_tier into box t s b =
     b\<lparr>rt_tiers := rt_tiers b @
         [\<lparr>slot_ops = read_only_ops into box t, slot_state = s, writable = False,
           slot_counters = counters_default\<rparr>]\<rparr>"

definition builder_policy :: "policy \<Rightarrow> ('s, 'k, 'v, 'x) router \<Rightarrow> ('s, 'k, 'v, 'x) router" where
  "builder_policy p b = b\<lparr>rt_policy := p\<rparr>"

text \<open>\<open>None\<close>: the assertion fails.\<close>

definition builder_build :: "('s, 'k, 'v, 'x) router \<Rightarrow> ('s, 'k, 'v, 'x) router option" where
  "builder_build b = (if rt_tiers b = [] then None else Some b)"

definition tier_count :: "('s, 'k, 'v, 'x) router \<Rightarrow> nat" where
  "tier_count r = length (rt_tiers r)"

record tier_stats =
  ts_name :: string
  ts_read_only :: bool
  ts_hits :: u64
  ts_misses :: u64
  ts_errors :: u64
  ts_puts :: u64
  ts_deletes :: u64

definition router_stats :: "('s, 'k, 'v, 'x) router \<Rightarrow> tier_stats list" where
  "router_stats r =
     map (\<lambda>sl. \<lparr>ts_name = t_name (slot_ops sl) (slot_state sl), ts_read_only = (\<not> writable sl),
                ts_hits = c_hits (slot_counters sl), ts_misses = c_misses (slot_counters sl),
                ts_errors = c_errors (slot_counters sl), ts_puts = c_puts (slot_counters sl),
                ts_deletes = c_deletes (slot_counters sl)\<rparr>) (rt_tiers r)"

text \<open>Running one operation of the tier at an index, and bumping one of its counters.\<close>

definition call ::
  "nat \<Rightarrow> (('s, 'k, 'v, 'x) tier_ops \<Rightarrow> 's \<Rightarrow> 'a \<times> 's) \<Rightarrow> ('s, 'k, 'v, 'x) slots \<Rightarrow>
   'a \<times> ('s, 'k, 'v, 'x) slots"
where
  "call i f ts =
     (let sl = ts ! i; (a, s') = f (slot_ops sl) (slot_state sl)
      in (a, ts[i := sl\<lparr>slot_state := s'\<rparr>]))"

definition bump ::
  "nat \<Rightarrow> counter \<Rightarrow> nat \<Rightarrow> ('s, 'k, 'v, 'x) slots \<Rightarrow> ('s, 'k, 'v, 'x) slots" where
  "bump i c n ts =
     ts[i := (ts ! i)\<lparr>slot_counters := counter_add c (of_nat n) (slot_counters (ts ! i))\<rparr>]"

definition failure :: "('s, 'k, 'v, 'x) slots \<Rightarrow> nat \<Rightarrow> 'x \<Rightarrow> 'x tier_failure" where
  "failure ts i x = TierFailure i (t_name (slot_ops (ts ! i)) (slot_state (ts ! i))) x"

section \<open>Demotion\<close>

text \<open>The inner loop: every displaced entry is put into the target; a failing put drops it.\<close>

fun demote_into ::
  "nat \<Rightarrow> ('k, 'v) displaced \<Rightarrow> ('s, 'k, 'v, 'x) slots \<Rightarrow> ('k, 'v) displaced \<times> ('s, 'k, 'v, 'x) slots"
where
  "demote_into i [] ts = ([], ts)"
| "demote_into i ((k, v) # es) ts =
     (case call i (\<lambda>t s. t_put t s k v) ts of
        (Ok d, ts1) \<Rightarrow>
          (let (ds, ts2) = demote_into i es (bump i Puts 1 ts1) in (d @ ds, ts2))
      | (Err x, ts1) \<Rightarrow> demote_into i es (bump i Errors 1 ts1))"

fun demote_loop ::
  "nat list \<Rightarrow> ('k, 'v) displaced \<Rightarrow> ('s, 'k, 'v, 'x) slots \<Rightarrow>
   ('k, 'v) displaced \<times> ('s, 'k, 'v, 'x) slots"
where
  "demote_loop [] current ts = (current, ts)"
| "demote_loop (target # targets) current ts =
     (if current = [] then (current, ts)
      else if \<not> writable (ts ! target) then demote_loop targets current ts
      else (let (nxt, ts1) = demote_into target current ts in demote_loop targets nxt ts1))"

definition demote ::
  "nat \<Rightarrow> ('k, 'v) displaced \<Rightarrow> ('s, 'k, 'v, 'x) slots \<Rightarrow>
   ('k, 'v) displaced \<times> ('s, 'k, 'v, 'x) slots"
where
  "demote i entries ts = demote_loop [i + 1..<length ts] entries ts"

section \<open>Filling one tier from a read\<close>

text \<open>
  One promotion: \<open>wr\<close> is the put of the entry (or of the batch of \<open>n\<close> entries) on the target.
  Whatever falls off the bottom is discarded.
\<close>

type_synonym ('s, 'k, 'v, 'x) writer =
  "('s, 'k, 'v, 'x) tier_ops \<Rightarrow> 's \<Rightarrow> (('k, 'v) displaced, 'x) result \<times> 's"

definition fill_one ::
  "policy \<Rightarrow> ('s, 'k, 'v, 'x) writer \<Rightarrow> nat \<Rightarrow> nat \<Rightarrow> ('s, 'k, 'v, 'x) slots \<Rightarrow> ('s, 'k, 'v, 'x) slots"
where
  "fill_one p wr n i ts =
     (if \<not> writable (ts ! i) then ts
      else
        (case call i wr ts of
           (Ok d, ts1) \<Rightarrow>
             (let ts2 = bump i Puts n ts1
              in if pol_demote_displaced p \<and> d \<noteq> [] then snd (demote i d ts2) else ts2)
         | (Err x, ts1) \<Rightarrow> bump i Errors 1 ts1))"

section \<open>Batched reads\<close>

fun bucket_hits :: "nat \<Rightarrow> 'v key_status list \<Rightarrow> nat list list \<Rightarrow> nat list list" where
  "bucket_hits j [] hits = hits"
| "bucket_hits j (st # sts) hits =
     bucket_hits (Suc j) sts
       (case st of Status_Hit t v \<Rightarrow> hits[t := hits ! t @ [j]] | _ \<Rightarrow> hits)"

fun batch_entries :: "'k list \<Rightarrow> 'v key_status list \<Rightarrow> nat list \<Rightarrow> ('k \<times> 'v) list" where
  "batch_entries ks sts [] = []"
| "batch_entries ks sts (j # js) =
     (case status_value (sts ! j) of
        Some v \<Rightarrow> (ks ! j, v) # batch_entries ks sts js
      | None \<Rightarrow> batch_entries ks sts js)"

fun batch_targets :: "promote \<Rightarrow> nat \<Rightarrow> nat list" where
  "batch_targets TopOnly tier = [0..<1]"
| "batch_targets AllAbove tier = [0..<tier]"
| "batch_targets Never tier = []"

fun fill_batch ::
  "policy \<Rightarrow> ('k \<times> 'v) list \<Rightarrow> nat list \<Rightarrow> ('s, 'k, 'v, 'x) slots \<Rightarrow> ('s, 'k, 'v, 'x) slots" where
  "fill_batch p entries [] ts = ts"
| "fill_batch p entries (i # is) ts =
     fill_batch p entries is (fill_one p (\<lambda>t s. t_put_many t s entries) (length entries) i ts)"

fun promote_tiers ::
  "policy \<Rightarrow> 'k list \<Rightarrow> 'v key_status list \<Rightarrow> nat \<Rightarrow> nat list list \<Rightarrow> ('s, 'k, 'v, 'x) slots \<Rightarrow>
   ('s, 'k, 'v, 'x) slots"
where
  "promote_tiers p ks sts tier [] ts = ts"
| "promote_tiers p ks sts tier (hits # rest) ts =
     promote_tiers p ks sts (Suc tier) rest
       (if tier = 0 \<or> hits = [] then ts
        else fill_batch p (batch_entries ks sts hits)
               (batch_targets (rp_promote (pol_read p)) tier) ts)"

definition promote_batch ::
  "policy \<Rightarrow> 'k list \<Rightarrow> 'v key_status list \<Rightarrow> ('s, 'k, 'v, 'x) slots \<Rightarrow> ('s, 'k, 'v, 'x) slots" where
  "promote_batch p ks sts ts =
     (if rp_promote (pol_read p) = Never then ts
      else promote_tiers p ks sts 0 (bucket_hits 0 sts (replicate (length ts) [])) ts)"

text \<open>Storing what a tier found: the statuses, and the indices it did not have.\<close>

fun resolve ::
  "nat \<Rightarrow> (nat \<times> 'v option) list \<Rightarrow> 'v key_status list \<Rightarrow> 'v key_status list \<times> nat list" where
  "resolve i [] sts = (sts, [])"
| "resolve i ((j, Some v) # zs) sts = resolve i zs (sts[j := Status_Hit i v])"
| "resolve i ((j, None) # zs) sts = (let (sts', ms) = resolve i zs sts in (sts', j # ms))"

text \<open>
  The loop over the tiers. The number of misses is a \<open>usize\<close> subtraction, which would wrap (in a
  release build) for a tier that returns more answers than keys.
\<close>

fun read_loop ::
  "policy \<Rightarrow> 'k list \<Rightarrow> nat list \<Rightarrow> 'v key_status list \<Rightarrow> nat list \<Rightarrow> 'x tier_failure list \<Rightarrow>
   ('s, 'k, 'v, 'x) slots \<Rightarrow>
   ('v key_status list \<times> nat list \<times> 'x tier_failure list, 'x router_error) result \<times>
   ('s, 'k, 'v, 'x) slots"
where
  "read_loop p ks [] sts unresolved fs ts = (Ok (sts, unresolved, fs), ts)"
| "read_loop p ks (i # is) sts unresolved fs ts =
     (if unresolved = [] then (Ok (sts, unresolved, fs), ts)
      else
        (let subset = map (\<lambda>j. ks ! j) unresolved in
         case call i (\<lambda>t s. t_get_many t s subset) ts of
           (Ok found, ts1) \<Rightarrow>
             (let found_count = length (filter (\<lambda>v. \<not> Option.is_none v) found);
                  ts2 = bump i Misses (usize_sub (length subset) found_count) (bump i Hits found_count ts1);
                  (sts', missing) = resolve i (zip unresolved found) sts
              in read_loop p ks is sts' missing fs ts2)
         | (Err x, ts1) \<Rightarrow>
             (let ts2 = bump i Errors 1 ts1
              in case rp_on_error (pol_read p) of
                   FailFast \<Rightarrow> (Err (Tier_Failed (failure ts2 i x)), ts2)
                 | FallThrough \<Rightarrow>
                     read_loop p ks is sts unresolved (fs @ [failure ts2 i x]) ts2)))"

fun mark_inconclusive :: "nat list \<Rightarrow> 'v key_status list \<Rightarrow> 'v key_status list" where
  "mark_inconclusive [] sts = sts"
| "mark_inconclusive (j # js) sts = mark_inconclusive js (sts[j := Status_Inconclusive])"

definition router_read_many ::
  "('s, 'k, 'v, 'x) router \<Rightarrow> 'k list \<Rightarrow>
   (('v, 'x) read_report, 'x router_error) result \<times> ('s, 'k, 'v, 'x) router"
where
  "router_read_many r ks =
     (case read_loop (rt_policy r) ks [0..<length (rt_tiers r)] (replicate (length ks) Status_Miss)
             [0..<length ks] [] (rt_tiers r) of
        (Err e, ts1) \<Rightarrow> (Err e, r\<lparr>rt_tiers := ts1\<rparr>)
      | (Ok (sts, unresolved, fs), ts1) \<Rightarrow>
          (let sts' = (if fs \<noteq> [] then mark_inconclusive unresolved sts else sts)
           in (Ok \<lparr>rep_statuses = sts', rep_failures = fs\<rparr>,
               r\<lparr>rt_tiers := promote_batch (rt_policy r) ks sts' ts1\<rparr>)))"

definition router_read_one ::
  "('s, 'k, 'v, 'x) router \<Rightarrow> 'k \<Rightarrow>
   (('v, 'x) read_one_report, 'x router_error) result \<times> ('s, 'k, 'v, 'x) router"
where
  "router_read_one r k =
     (case router_read_many r [k] of
        (Err e, r1) \<Rightarrow> (Err e, r1)
      | (Ok rep, r1) \<Rightarrow>
          (Ok \<lparr>one_status = (if rep_statuses rep = [] then Status_Miss else last (rep_statuses rep)),
               one_failures = rep_failures rep\<rparr>, r1))"

section \<open>Batched deletes\<close>

fun or_flags :: "bool list \<Rightarrow> bool list \<Rightarrow> bool list" where
  "or_flags (a # as) (b # bs) = (a \<or> b) # or_flags as bs"
| "or_flags as bs = as"

fun remove_loop ::
  "'k list \<Rightarrow> nat list \<Rightarrow> bool list \<Rightarrow> 'x tier_failure list \<Rightarrow> ('s, 'k, 'v, 'x) slots \<Rightarrow>
   'x delete_report \<times> ('s, 'k, 'v, 'x) slots"
where
  "remove_loop ks [] removed fs ts = (\<lparr>del_removed = removed, del_failures = fs\<rparr>, ts)"
| "remove_loop ks (i # is) removed fs ts =
     (if \<not> writable (ts ! i) then remove_loop ks is removed fs ts
      else
        (case call i (\<lambda>t s. t_delete_many t s ks) ts of
           (Ok flags, ts1) \<Rightarrow>
             remove_loop ks is (or_flags removed flags) fs (bump i Deletes (length ks) ts1)
         | (Err x, ts1) \<Rightarrow>
             (let ts2 = bump i Errors 1 ts1
              in remove_loop ks is removed (fs @ [failure ts2 i x]) ts2)))"

definition router_remove_many ::
  "('s, 'k, 'v, 'x) router \<Rightarrow> 'k list \<Rightarrow> 'x delete_report \<times> ('s, 'k, 'v, 'x) router" where
  "router_remove_many r ks =
     (let (rep, ts) = remove_loop ks [0..<length (rt_tiers r)] (replicate (length ks) False) []
                        (rt_tiers r)
      in (rep, r\<lparr>rt_tiers := ts\<rparr>))"

section \<open>Single reads\<close>

text \<open>How the loops of \<open>get\<close> and \<open>exists\<close> return, \<open>found\<close> being the value of a hit.\<close>

fun read_answer :: "'a \<Rightarrow> 'a \<Rightarrow> 'x tier_failure list \<Rightarrow> read_outcome \<Rightarrow> ('a, 'x router_error) result" where
  "read_answer found absent fs (Outcome_Hit t) = Ok found"
| "read_answer found absent fs Outcome_Miss = Ok absent"
| "read_answer found absent fs Outcome_Inconclusive = Err (Inconclusive fs)"
| "read_answer found absent fs (Outcome_Failed t) =
     Err (if fs = [] then Inconclusive [] else Tier_Failed (last fs))"

definition promote_value ::
  "policy \<Rightarrow> 'k \<Rightarrow> 'v option \<Rightarrow> nat \<Rightarrow> ('s, 'k, 'v, 'x) slots \<Rightarrow> ('s, 'k, 'v, 'x) slots" where
  "promote_value p k hit i ts =
     (case hit of None \<Rightarrow> ts | Some v \<Rightarrow> fill_one p (\<lambda>t s. t_put t s k v) 1 i ts)"

text \<open>The loop over the read flow; \<open>None\<close> is a panic of the flow, or a loop that does not end.\<close>

partial_function (option)
  get_loop ::
    "policy \<Rightarrow> 'k \<Rightarrow> read_flow \<Rightarrow> 'v option \<Rightarrow> 'x tier_failure list \<Rightarrow> ('s, 'k, 'v, 'x) slots \<Rightarrow>
     (('v option, 'x router_error) result \<times> ('s, 'k, 'v, 'x) slots) option"
where
  "get_loop p k f hit fs ts =
     (case flow_step f of
        Step_Get i \<Rightarrow>
          (case call i (\<lambda>t s. t_get t s k) ts of
             (Ok (Some v), ts1) \<Rightarrow>
               Option.bind (on_get f Probe_Hit)
                 (\<lambda>f'. get_loop p k f' (Some v) fs (bump i Hits 1 ts1))
           | (Ok None, ts1) \<Rightarrow>
               Option.bind (on_get f Probe_Miss)
                 (\<lambda>f'. get_loop p k f' hit fs (bump i Misses 1 ts1))
           | (Err x, ts1) \<Rightarrow>
               Option.bind (on_get f Probe_Error)
                 (\<lambda>f'. get_loop p k f' hit (fs @ [failure (bump i Errors 1 ts1) i x])
                          (bump i Errors 1 ts1)))
      | Step_Promote i \<Rightarrow>
          Option.bind (on_promote f) (\<lambda>f'. get_loop p k f' hit fs (promote_value p k hit i ts))
      | Step_Done out \<Rightarrow> Some (read_answer hit None fs out, ts))"

definition router_get ::
  "('s, 'k, 'v, 'x) router \<Rightarrow> 'k \<Rightarrow>
   (('v option, 'x router_error) result \<times> ('s, 'k, 'v, 'x) router) option"
where
  "router_get r k =
     map_option (map_prod id (\<lambda>ts. r\<lparr>rt_tiers := ts\<rparr>))
       (get_loop (rt_policy r) k (flow_new (length (rt_tiers r)) (pol_read (rt_policy r))) None []
          (rt_tiers r))"

partial_function (option)
  exists_loop ::
    "'k \<Rightarrow> read_flow \<Rightarrow> 'x tier_failure list \<Rightarrow> ('s, 'k, 'v, 'x) slots \<Rightarrow>
     ((bool, 'x router_error) result \<times> ('s, 'k, 'v, 'x) slots) option"
where
  "exists_loop k f fs ts =
     (case flow_step f of
        Step_Get i \<Rightarrow>
          (case call i (\<lambda>t s. t_exists t s k) ts of
             (Ok present, ts1) \<Rightarrow>
               (if present
                then Option.bind (on_get f Probe_Hit) (\<lambda>f'. exists_loop k f' fs (bump i Hits 1 ts1))
                else Option.bind (on_get f Probe_Miss) (\<lambda>f'. exists_loop k f' fs (bump i Misses 1 ts1)))
           | (Err x, ts1) \<Rightarrow>
               Option.bind (on_get f Probe_Error)
                 (\<lambda>f'. exists_loop k f' (fs @ [failure (bump i Errors 1 ts1) i x])
                          (bump i Errors 1 ts1)))
      | Step_Promote i \<Rightarrow> Option.bind (on_promote f) (\<lambda>f'. exists_loop k f' fs ts)
      | Step_Done out \<Rightarrow> Some (read_answer True False fs out, ts))"

definition router_exists ::
  "('s, 'k, 'v, 'x) router \<Rightarrow> 'k \<Rightarrow>
   ((bool, 'x router_error) result \<times> ('s, 'k, 'v, 'x) router) option"
where
  "router_exists r k =
     map_option (map_prod id (\<lambda>ts. r\<lparr>rt_tiers := ts\<rparr>))
       (exists_loop k
          (flow_new (length (rt_tiers r))
             \<lparr>rp_promote = Never, rp_on_error = rp_on_error (pol_read (rt_policy r))\<rparr>) []
          (rt_tiers r))"

definition router_get_many ::
  "('s, 'k, 'v, 'x) router \<Rightarrow> 'k list \<Rightarrow>
   ('v option list, 'x router_error) result \<times> ('s, 'k, 'v, 'x) router"
where
  "router_get_many r ks =
     (case router_read_many r ks of
        (Err e, r1) \<Rightarrow> (Err e, r1)
      | (Ok rep, r1) \<Rightarrow>
          (if list_ex (\<lambda>st. case st of Status_Inconclusive \<Rightarrow> True | _ \<Rightarrow> False) (rep_statuses rep)
           then (Err (Inconclusive (rep_failures rep)), r1)
           else (Ok (into_values rep), r1)))"

section \<open>Writes\<close>

text \<open>Write-through: bottom-up over the writable tiers.\<close>

fun through_loop ::
  "policy \<Rightarrow> ('s, 'k, 'v, 'x) writer \<Rightarrow> nat \<Rightarrow> nat list \<Rightarrow> ('k, 'v) displaced \<Rightarrow>
   ('s, 'k, 'v, 'x) slots \<Rightarrow>
   (('k, 'v) displaced, 'x router_error) result \<times> ('s, 'k, 'v, 'x) slots"
where
  "through_loop p wr n [] ev ts = (Ok ev, ts)"
| "through_loop p wr n (i # is) ev ts =
     (if \<not> writable (ts ! i) then through_loop p wr n is ev ts
      else
        (case call i wr ts of
           (Ok d, ts1) \<Rightarrow>
             (let ts2 = bump i Puts n ts1
              in if d = [] then through_loop p wr n is ev ts2
                 else if pol_demote_displaced p
                 then (let (off, ts3) = demote i d ts2 in through_loop p wr n is (ev @ off) ts3)
                 else through_loop p wr n is (ev @ d) ts2)
         | (Err x, ts1) \<Rightarrow>
             (let ts2 = bump i Errors 1 ts1
              in case pol_on_write_error p of
                   FailFastWrite \<Rightarrow> (Err (Tier_Failed (failure ts2 i x)), ts2)
                 | BestEffort \<Rightarrow> through_loop p wr n is ev ts2)))"

definition write_through ::
  "policy \<Rightarrow> ('s, 'k, 'v, 'x) writer \<Rightarrow> nat \<Rightarrow> ('s, 'k, 'v, 'x) slots \<Rightarrow>
   (('k, 'v) displaced, 'x router_error) result \<times> ('s, 'k, 'v, 'x) slots"
where
  "write_through p wr n ts =
     (if \<not> list_ex writable ts then (Err Read_Only, ts)
      else through_loop p wr n (rev [0..<length ts]) [] ts)"

text \<open>Write-around: the lowest writable tier, then invalidation of the ones above it.\<close>

fun rposition_writable :: "('s, 'k, 'v, 'x) slots \<Rightarrow> nat option" where
  "rposition_writable [] = None"
| "rposition_writable (sl # sls) =
     (case rposition_writable sls of
        Some i \<Rightarrow> Some (Suc i)
      | None \<Rightarrow> (if writable sl then Some 0 else None))"

fun invalidate_loop ::
  "(('s, 'k, 'v, 'x) tier_ops \<Rightarrow> 's \<Rightarrow> ('a, 'x) result \<times> 's) \<Rightarrow> nat \<Rightarrow> nat list \<Rightarrow>
   'x tier_failure list \<Rightarrow> ('s, 'k, 'v, 'x) slots \<Rightarrow> 'x tier_failure list \<times> ('s, 'k, 'v, 'x) slots"
where
  "invalidate_loop del n [] fs ts = (fs, ts)"
| "invalidate_loop del n (i # is) fs ts =
     (if \<not> writable (ts ! i) then invalidate_loop del n is fs ts
      else
        (case call i del ts of
           (Ok a, ts1) \<Rightarrow> invalidate_loop del n is fs (bump i Deletes n ts1)
         | (Err x, ts1) \<Rightarrow>
             (let ts2 = bump i Errors 1 ts1
              in invalidate_loop del n is (fs @ [failure ts2 i x]) ts2)))"

definition write_around ::
  "('s, 'k, 'v, 'x) writer \<Rightarrow>
   (('s, 'k, 'v, 'x) tier_ops \<Rightarrow> 's \<Rightarrow> ('a, 'x) result \<times> 's) \<Rightarrow> nat \<Rightarrow>
   ('s, 'k, 'v, 'x) slots \<Rightarrow>
   (('k, 'v) displaced, 'x router_error) result \<times> ('s, 'k, 'v, 'x) slots"
where
  "write_around wr del n ts =
     (case rposition_writable ts of
        None \<Rightarrow> (Err Read_Only, ts)
      | Some bottom \<Rightarrow>
          (case call bottom wr ts of
             (Err x, ts1) \<Rightarrow>
               (let ts2 = bump bottom Errors 1 ts1
                in (Err (Tier_Failed (failure ts2 bottom x)), ts2))
           | (Ok d, ts1) \<Rightarrow>
               (let (fs, ts2) = invalidate_loop del n [0..<bottom] [] (bump bottom Puts n ts1)
                in (if fs = [] then Ok d else Err (Partial fs), ts2))))"

definition router_put ::
  "('s, 'k, 'v, 'x) router \<Rightarrow> 'k \<Rightarrow> 'v \<Rightarrow>
   (('k, 'v) displaced, 'x router_error) result \<times> ('s, 'k, 'v, 'x) router"
where
  "router_put r k v =
     (let (a, ts) =
        (case pol_write (rt_policy r) of
           WriteThrough \<Rightarrow> write_through (rt_policy r) (\<lambda>t s. t_put t s k v) 1 (rt_tiers r)
         | WriteAround \<Rightarrow> write_around (\<lambda>t s. t_put t s k v) (\<lambda>t s. t_delete t s k) 1 (rt_tiers r))
      in (a, r\<lparr>rt_tiers := ts\<rparr>))"

fun delete_loop ::
  "'k \<Rightarrow> nat list \<Rightarrow> bool \<Rightarrow> 'x tier_failure list \<Rightarrow> ('s, 'k, 'v, 'x) slots \<Rightarrow>
   (bool \<times> 'x tier_failure list) \<times> ('s, 'k, 'v, 'x) slots"
where
  "delete_loop k [] existed fs ts = ((existed, fs), ts)"
| "delete_loop k (i # is) existed fs ts =
     (if \<not> writable (ts ! i) then delete_loop k is existed fs ts
      else
        (case call i (\<lambda>t s. t_delete t s k) ts of
           (Ok b, ts1) \<Rightarrow> delete_loop k is (existed \<or> b) fs (bump i Deletes 1 ts1)
         | (Err x, ts1) \<Rightarrow>
             (let ts2 = bump i Errors 1 ts1
              in delete_loop k is existed (fs @ [failure ts2 i x]) ts2)))"

definition router_delete ::
  "('s, 'k, 'v, 'x) router \<Rightarrow> 'k \<Rightarrow> (bool, 'x router_error) result \<times> ('s, 'k, 'v, 'x) router" where
  "router_delete r k =
     (let ((existed, fs), ts) = delete_loop k [0..<length (rt_tiers r)] False [] (rt_tiers r)
      in (if fs = [] then Ok existed else Err (Partial fs), r\<lparr>rt_tiers := ts\<rparr>))"

definition router_put_many ::
  "('s, 'k, 'v, 'x) router \<Rightarrow> ('k \<times> 'v) list \<Rightarrow>
   (('k, 'v) displaced, 'x router_error) result \<times> ('s, 'k, 'v, 'x) router"
where
  "router_put_many r es =
     (let (a, ts) =
        (case pol_write (rt_policy r) of
           WriteThrough \<Rightarrow>
             write_through (rt_policy r) (\<lambda>t s. t_put_many t s es) (length es) (rt_tiers r)
         | WriteAround \<Rightarrow>
             write_around (\<lambda>t s. t_put_many t s es) (\<lambda>t s. t_delete_many t s (map fst es))
               (length es) (rt_tiers r))
      in (a, r\<lparr>rt_tiers := ts\<rparr>))"

definition router_delete_many ::
  "('s, 'k, 'v, 'x) router \<Rightarrow> 'k list \<Rightarrow>
   (bool list, 'x router_error) result \<times> ('s, 'k, 'v, 'x) router"
where
  "router_delete_many r ks =
     (case router_remove_many r ks of
        (rep, r1) \<Rightarrow>
          (if delete_complete rep then (Ok (del_removed rep), r1)
           else (Err (Partial (del_failures rep)), r1)))"

text \<open>
  The router as a tier. \<open>the\<close> picks the answer of the read loops, which always have one
  (\<open>router_get_eq\<close> and \<open>router_exists_eq\<close>).
\<close>

definition router_ops :: "(('s, 'k, 'v, 'x) router, 'k, 'v, 'x router_error) tier_ops" where
  "router_ops =
     \<lparr>t_name = (\<lambda>r. ''router''), t_get = (\<lambda>r k. the (router_get r k)),
      t_exists = (\<lambda>r k. the (router_exists r k)), t_get_many = router_get_many,
      t_put = router_put, t_delete = router_delete, t_put_many = router_put_many,
      t_delete_many = router_delete_many\<rparr>"

lemma router_ops_simps [simp]:
  "t_name router_ops r = ''router''"
  "t_get router_ops = (\<lambda>r k. the (router_get r k))"
  "t_exists router_ops = (\<lambda>r k. the (router_exists r k))"
  "t_get_many router_ops = router_get_many"
  "t_put router_ops = router_put"
  "t_delete router_ops = router_delete"
  "t_put_many router_ops = router_put_many"
  "t_delete_many router_ops = router_delete_many"
  by (simp_all add: router_ops_def)

end
