(* ===== verification/Router_Get.thy ===== *)
theory Router_Get
  imports Router
begin

text \<open>
  The read loops of the router against a direct definition: a scan down the tiers, then the
  promotions. The loops drive the sans-io flow of \<open>Read_Flow\<close>, so this is where the state machine
  meets real tiers; it gives termination and freedom from panics for every router and every tier.
\<close>

section \<open>The direct definition\<close>

datatype ('w, 'x) scan =
    Scan_Hit nat 'w
  | Scan_Miss
  | Scan_Inconclusive "'x tier_failure list"
  | Scan_Failed "'x tier_failure"

fun scan_tiers ::
  "on_read_error \<Rightarrow> (('s, 'k, 'v, 'x) tier_ops \<Rightarrow> 's \<Rightarrow> ('w option, 'x) result \<times> 's) \<Rightarrow> nat list \<Rightarrow>
   'x tier_failure list \<Rightarrow> ('s, 'k, 'v, 'x) slots \<Rightarrow> ('w, 'x) scan \<times> ('s, 'k, 'v, 'x) slots"
where
  "scan_tiers m ask [] fs ts = (if fs = [] then Scan_Miss else Scan_Inconclusive fs, ts)"
| "scan_tiers m ask (i # is) fs ts =
     (case call i ask ts of
        (Ok (Some w), ts1) \<Rightarrow> (Scan_Hit i w, bump i Hits 1 ts1)
      | (Ok None, ts1) \<Rightarrow> scan_tiers m ask is fs (bump i Misses 1 ts1)
      | (Err x, ts1) \<Rightarrow>
          (let ts2 = bump i Errors 1 ts1; f = failure ts2 i x
           in case m of
                FailFast \<Rightarrow> (Scan_Failed f, ts2)
              | FallThrough \<Rightarrow> scan_tiers m ask is (fs @ [f]) ts2))"

fun scan_result :: "('w \<Rightarrow> 'a) \<Rightarrow> 'a \<Rightarrow> ('w, 'x) scan \<Rightarrow> ('a, 'x router_error) result" where
  "scan_result g absent (Scan_Hit i w) = Ok (g w)"
| "scan_result g absent Scan_Miss = Ok absent"
| "scan_result g absent (Scan_Inconclusive fs) = Err (Inconclusive fs)"
| "scan_result g absent (Scan_Failed f) = Err (Tier_Failed f)"

fun fill_all ::
  "policy \<Rightarrow> 'k \<Rightarrow> 'v \<Rightarrow> nat list \<Rightarrow> ('s, 'k, 'v, 'x) slots \<Rightarrow> ('s, 'k, 'v, 'x) slots" where
  "fill_all p k v [] ts = ts"
| "fill_all p k v (i # is) ts = fill_all p k v is (fill_one p (\<lambda>t s. t_put t s k v) 1 i ts)"

fun promote_hit ::
  "policy \<Rightarrow> 'k \<Rightarrow> ('v, 'x) scan \<Rightarrow> ('s, 'k, 'v, 'x) slots \<Rightarrow> ('s, 'k, 'v, 'x) slots" where
  "promote_hit p k (Scan_Hit i v) ts =
     fill_all p k v (promotion_targets (rp_promote (pol_read p)) i) ts"
| "promote_hit p k _ ts = ts"

definition get_reference ::
  "('s, 'k, 'v, 'x) router \<Rightarrow> 'k \<Rightarrow>
   ('v option, 'x router_error) result \<times> ('s, 'k, 'v, 'x) router"
where
  "get_reference r k =
     (let p = rt_policy r;
          (sc, ts) = scan_tiers (rp_on_error (pol_read p)) (\<lambda>t s. t_get t s k)
                       [0..<length (rt_tiers r)] [] (rt_tiers r)
      in (scan_result Some None sc, r\<lparr>rt_tiers := promote_hit p k sc ts\<rparr>))"

text \<open>An existence check as a probe that finds no value.\<close>

definition ask_exists ::
  "'k \<Rightarrow> ('s, 'k, 'v, 'x) tier_ops \<Rightarrow> 's \<Rightarrow> (unit option, 'x) result \<times> 's" where
  "ask_exists k t s = apfst (map_sum id (\<lambda>b. if b then Some () else None)) (t_exists t s k)"

definition exists_reference ::
  "('s, 'k, 'v, 'x) router \<Rightarrow> 'k \<Rightarrow> (bool, 'x router_error) result \<times> ('s, 'k, 'v, 'x) router" where
  "exists_reference r k =
     (let (sc, ts) = scan_tiers (rp_on_error (pol_read (rt_policy r))) (ask_exists k)
                       [0..<length (rt_tiers r)] [] (rt_tiers r)
      in (scan_result (\<lambda>_. True) False sc, r\<lparr>rt_tiers := ts\<rparr>))"

section \<open>The loops follow it\<close>

lemma get_loop_done:
  "fl_state f = St_Done out \<Longrightarrow> get_loop p k f hit fs ts = Some (read_answer hit None fs out, ts)"
  by (subst get_loop.simps) (simp add: flow_step_def)

lemma get_loop_promote:
  "fl_state f = St_Promote hit nxt \<Longrightarrow> rp_promote (fl_policy f) = AllAbove \<Longrightarrow> nxt < hit \<Longrightarrow>
   get_loop p k f (Some v) fs ts = Some (Ok (Some v), fill_all p k v [nxt..<hit] ts)"
proof (induction "hit - nxt" arbitrary: f nxt ts)
  case 0
  then show ?case by simp
next
  case (Suc d)
  let ?ts = "fill_one p (\<lambda>t s. t_put t s k v) 1 nxt ts"
  show ?case
  proof (cases "nxt + 1 = hit")
    case True
    with Suc.prems show ?thesis
      by (subst get_loop.simps) (auto simp: flow_defs get_loop_done upt_conv_Cons promote_value_def)
  next
    case False
    let ?f = "f\<lparr>fl_state := St_Promote hit (nxt + 1)\<rparr>"
    have "get_loop p k f (Some v) fs ts = get_loop p k ?f (Some v) fs ?ts"
      using Suc.prems False by (subst get_loop.simps) (simp add: flow_defs promote_value_def)
    also have "\<dots> = Some (Ok (Some v), fill_all p k v [nxt + 1..<hit] ?ts)"
      by (rule Suc.hyps(1)) (use Suc.hyps(2) Suc.prems False in auto)
    finally show ?thesis using Suc.prems by (simp add: upt_conv_Cons)
  qed
qed

lemma get_loop_promote_top:
  "fl_state f = St_Promote hit 0 \<Longrightarrow> rp_promote (fl_policy f) = TopOnly \<Longrightarrow>
   get_loop p k f (Some v) fs ts = Some (Ok (Some v), fill_all p k v [0] ts)"
  by (subst get_loop.simps) (simp add: flow_defs get_loop_done promote_value_def)

lemma get_loop_after_hit:
  assumes "fl_state f = after_hit f i"
  shows "get_loop p k f (Some v) fs ts =
    Some (Ok (Some v), fill_all p k v (promotion_targets (rp_promote (fl_policy f)) i) ts)"
  using assms
  by (cases "rp_promote (fl_policy f)"; cases "i = 0")
     (auto simp: after_hit_def get_loop_done get_loop_promote_top get_loop_promote)

text \<open>One probe of the loop, by what the tier answered.\<close>

lemma get_loop_hit:
  "fl_state f = St_Probe i \<Longrightarrow> call i (\<lambda>t s. t_get t s k) ts = (Ok (Some v), ts1) \<Longrightarrow>
   get_loop p k f hit fs ts =
     Some (Ok (Some v),
       fill_all p k v (promotion_targets (rp_promote (fl_policy f)) i) (bump i Hits 1 ts1))"
  by (subst get_loop.simps) (simp add: flow_step_def on_get_def get_loop_after_hit after_hit_def)

lemma get_loop_miss:
  "fl_state f = St_Probe i \<Longrightarrow> call i (\<lambda>t s. t_get t s k) ts = (Ok None, ts1) \<Longrightarrow>
   get_loop p k f hit fs ts = get_loop p k (advance f i) hit fs (bump i Misses 1 ts1)"
  by (subst get_loop.simps) (simp add: flow_step_def on_get_def)

lemma get_loop_error:
  assumes "fl_state f = St_Probe i" "call i (\<lambda>t s. t_get t s k) ts = (Err x, ts1)"
  defines "ts2 \<equiv> bump i Errors 1 ts1"
  shows "get_loop p k f hit fs ts =
    (case rp_on_error (fl_policy f) of
       FailFast \<Rightarrow> Some (Err (Tier_Failed (failure ts2 i x)), ts2)
     | FallThrough \<Rightarrow>
         get_loop p k (advance (f\<lparr>fl_errors := fl_errors f + 1\<rparr>) i) hit (fs @ [failure ts2 i x]) ts2)"
  using assms(1,2) unfolding ts2_def
  by (subst get_loop.simps)
     (simp add: flow_step_def on_get_def get_loop_done split: on_read_error.splits)

lemma advance_last:
  "\<not> Suc i < fl_tiers g \<Longrightarrow> fl_errors g = length fs \<Longrightarrow>
   fl_state (advance g i) = St_Done (if fs = [] then Outcome_Miss else Outcome_Inconclusive)"
  by (auto simp: advance_def)

lemma get_loop_from:
  fixes fs :: "'x tier_failure list" and ts :: "('s, 'k, 'v, 'x) slots"
  assumes "fl_state f = St_Probe i" "i < fl_tiers f" "fl_policy f = pol_read p"
    "fl_errors f = length fs"
  shows "get_loop p k f None fs ts =
    (let (sc, ts') = scan_tiers (rp_on_error (pol_read p)) (\<lambda>t s. t_get t s k) [i..<fl_tiers f] fs ts
     in Some (scan_result Some None sc, promote_hit p k sc ts'))"
  using assms
proof (induction "fl_tiers f - i" arbitrary: f i fs ts)
  case 0
  then show ?case by simp
next
  case (Suc d)
  have upt: "[i..<fl_tiers f] = i # [Suc i..<fl_tiers f]" using Suc.prems by (simp add: upt_conv_Cons)
  have adv: "get_loop p k (advance g i) None fs' ts' =
      (let (sc, ts'') = scan_tiers (rp_on_error (pol_read p)) (\<lambda>t s. t_get t s k)
                          [Suc i..<fl_tiers f] fs' ts'
       in Some (scan_result Some None sc, promote_hit p k sc ts''))"
    if "fl_tiers g = fl_tiers f" "fl_policy g = pol_read p" "fl_errors g = length fs'"
    for g and fs' :: "'x tier_failure list" and ts' :: "('s, 'k, 'v, 'x) slots"
  proof (cases "Suc i < fl_tiers g")
    case True
    with Suc.hyps(1) [of "advance g i" "Suc i" fs' ts'] Suc.hyps(2) that show ?thesis
      by (simp add: advance_def)
  next
    case False
    with that advance_last [of i g fs'] show ?thesis by (auto simp: get_loop_done)
  qed
  obtain a ts1 where c: "call i (\<lambda>t s. t_get t s k) ts = (a, ts1)" by fastforce
  show ?case
  proof (cases a)
    case (Inl x)
    show ?thesis
      using c Inl Suc.prems get_loop_error [OF Suc.prems(1), of k ts x ts1] adv
      by (simp add: upt Let_def split: on_read_error.splits)
  next
    case (Inr w)
    then show ?thesis
      using c Suc.prems get_loop_hit [OF Suc.prems(1), of k ts _ ts1]
        get_loop_miss [OF Suc.prems(1), of k ts ts1] adv
      by (cases w) (simp_all add: upt)
  qed
qed

lemma router_get_eq: "router_get r k = Some (get_reference r k)"
proof (cases "rt_tiers r")
  case Nil
  then show ?thesis
    by (simp add: router_get_def get_reference_def flow_new_def get_loop_done)
next
  case (Cons sl sls)
  then show ?thesis
    using get_loop_from [of "flow_new (length (rt_tiers r)) (pol_read (rt_policy r))" 0
        "rt_policy r" "[]" k "rt_tiers r"]
    by (simp add: router_get_def get_reference_def flow_new_def Let_def split_def)
qed

lemma exists_loop_done:
  "fl_state f = St_Done out \<Longrightarrow> exists_loop k f fs ts = Some (read_answer True False fs out, ts)"
  by (subst exists_loop.simps) (simp add: flow_step_def)

lemma exists_loop_hit:
  "fl_state f = St_Probe i \<Longrightarrow> rp_promote (fl_policy f) = Never \<Longrightarrow>
   call i (\<lambda>t s. t_exists t s k) ts = (Ok True, ts1) \<Longrightarrow>
   exists_loop k f fs ts = Some (Ok True, bump i Hits 1 ts1)"
  by (subst exists_loop.simps)
     (simp add: flow_step_def on_get_def exists_loop_done after_hit_def)

lemma exists_loop_miss:
  "fl_state f = St_Probe i \<Longrightarrow> call i (\<lambda>t s. t_exists t s k) ts = (Ok False, ts1) \<Longrightarrow>
   exists_loop k f fs ts = exists_loop k (advance f i) fs (bump i Misses 1 ts1)"
  by (subst exists_loop.simps) (simp add: flow_step_def on_get_def)

lemma exists_loop_error:
  assumes "fl_state f = St_Probe i" "call i (\<lambda>t s. t_exists t s k) ts = (Err x, ts1)"
  defines "ts2 \<equiv> bump i Errors 1 ts1"
  shows "exists_loop k f fs ts =
    (case rp_on_error (fl_policy f) of
       FailFast \<Rightarrow> Some (Err (Tier_Failed (failure ts2 i x)), ts2)
     | FallThrough \<Rightarrow>
         exists_loop k (advance (f\<lparr>fl_errors := fl_errors f + 1\<rparr>) i) (fs @ [failure ts2 i x]) ts2)"
  using assms(1,2) unfolding ts2_def
  by (subst exists_loop.simps)
     (simp add: flow_step_def on_get_def exists_loop_done split: on_read_error.splits)

lemma call_ask_exists:
  "call i (ask_exists k) ts =
   apfst (map_sum id (\<lambda>b. if b then Some () else None)) (call i (\<lambda>t s. t_exists t s k) ts)"
  by (simp add: call_def ask_exists_def Let_def split_def apfst_def)

lemma exists_loop_from:
  fixes fs :: "'x tier_failure list" and ts :: "('s, 'k, 'v, 'x) slots"
  assumes "fl_state f = St_Probe i" "i < fl_tiers f" "rp_promote (fl_policy f) = Never"
    "rp_on_error (fl_policy f) = m" "fl_errors f = length fs"
  shows "exists_loop k f fs ts =
    (let (sc, ts') = scan_tiers m (ask_exists k) [i..<fl_tiers f] fs ts
     in Some (scan_result (\<lambda>_. True) False sc, ts'))"
  using assms
proof (induction "fl_tiers f - i" arbitrary: f i fs ts)
  case 0
  then show ?case by simp
next
  case (Suc d)
  have upt: "[i..<fl_tiers f] = i # [Suc i..<fl_tiers f]" using Suc.prems by (simp add: upt_conv_Cons)
  have adv: "exists_loop k (advance g i) fs' ts' =
      (let (sc, ts'') = scan_tiers m (ask_exists k) [Suc i..<fl_tiers f] fs' ts'
       in Some (scan_result (\<lambda>_. True) False sc, ts''))"
    if "fl_tiers g = fl_tiers f" "fl_policy g = fl_policy f" "fl_errors g = length fs'"
    for g and fs' :: "'x tier_failure list" and ts' :: "('s, 'k, 'v, 'x) slots"
  proof (cases "Suc i < fl_tiers g")
    case True
    with Suc.hyps(1) [of "advance g i" "Suc i" fs' ts'] Suc.hyps(2) Suc.prems that show ?thesis
      by (simp add: advance_def)
  next
    case False
    with that advance_last [of i g fs'] show ?thesis by (auto simp: exists_loop_done)
  qed
  obtain a ts1 where c: "call i (\<lambda>t s. t_exists t s k) ts = (a, ts1)" by fastforce
  show ?case
  proof (cases a)
    case (Inl x)
    show ?thesis
      using c Inl Suc.prems exists_loop_error [OF Suc.prems(1), of k ts x ts1] adv
      by (simp add: upt Let_def call_ask_exists split: on_read_error.splits)
  next
    case (Inr b)
    then show ?thesis
      using c Suc.prems exists_loop_hit [OF Suc.prems(1,3), of k ts ts1]
        exists_loop_miss [OF Suc.prems(1), of k ts ts1] adv
      by (cases b) (simp_all add: upt call_ask_exists)
  qed
qed

lemma router_exists_eq: "router_exists r k = Some (exists_reference r k)"
proof (cases "rt_tiers r")
  case Nil
  then show ?thesis
    by (simp add: router_exists_def exists_reference_def flow_new_def exists_loop_done)
next
  case (Cons sl sls)
  then show ?thesis
    using exists_loop_from [of "flow_new (length (rt_tiers r))
            \<lparr>rp_promote = Never, rp_on_error = rp_on_error (pol_read (rt_policy r))\<rparr>" 0
        "rp_on_error (pol_read (rt_policy r))" "[]" k "rt_tiers r"]
    by (simp add: router_exists_def exists_reference_def flow_new_def Let_def split_def)
qed

text \<open>
  C3. \<open>Router::get\<close> and \<open>Router::exists\<close>, the loops that execute the read flow's instructions
  against the tiers, always return without a panic, whatever the tiers do and for any number of
  them, and compute the direct definitions: a scan down the tiers that collects the failures, and
  for \<open>get\<close> the fill of the promotion targets. \<open>exists\<close> never promotes.
\<close>

theorem router_reads_reference:
  "router_get r k = Some (get_reference r k) \<and> router_exists r k = Some (exists_reference r k)"
  by (simp add: router_get_eq router_exists_eq)

end
