(* ===== verification/Router_Frame.thy ===== *)
theory Router_Frame
  imports Router Memory_Tier
begin

text \<open>
  What the router's operations leave alone, whatever the tiers do: the tables of operations and
  the write capability of every slot, the slots an operation does not reach (read-only ones for
  every write, the ones above the failing tier for an aborted write-through).
\<close>

section \<open>Frames\<close>

text \<open>\<open>ts'\<close> differs from \<open>ts\<close> at most in the states and counters of the slots in \<open>W\<close>.\<close>

definition frame :: "nat set \<Rightarrow> ('s, 'k, 'v, 'x) slots \<Rightarrow> ('s, 'k, 'v, 'x) slots \<Rightarrow> bool" where
  "frame W ts ts' \<longleftrightarrow>
     length ts' = length ts \<and>
     (\<forall>j. slot_ops (ts' ! j) = slot_ops (ts ! j) \<and> writable (ts' ! j) = writable (ts ! j)) \<and>
     (\<forall>j. j \<notin> W \<longrightarrow> ts' ! j = ts ! j)"

abbreviation writables :: "('s, 'k, 'v, 'x) slots \<Rightarrow> nat set" where
  "writables ts \<equiv> {j. writable (ts ! j)}"

lemma frame_refl [simp]: "frame W ts ts"
  by (simp add: frame_def)

lemma frame_trans: "frame W a b \<Longrightarrow> frame W b c \<Longrightarrow> frame W a c"
  by (simp add: frame_def)

lemma frame_mono: "frame V a b \<Longrightarrow> V \<subseteq> W \<Longrightarrow> frame W a b"
  by (auto simp: frame_def)

lemma frame_length: "frame W a b \<Longrightarrow> length b = length a"
  by (simp add: frame_def)

lemma frame_writable: "frame W a b \<Longrightarrow> writable (b ! j) = writable (a ! j)"
  by (simp add: frame_def)

lemma frame_ops: "frame W a b \<Longrightarrow> slot_ops (b ! j) = slot_ops (a ! j)"
  by (simp add: frame_def)

lemma frame_nth: "frame W a b \<Longrightarrow> j \<notin> W \<Longrightarrow> b ! j = a ! j"
  by (simp add: frame_def)

lemma frame_writables: "frame W a b \<Longrightarrow> writables b = writables a"
  by (simp add: frame_def)

lemma frame_call: "frame {i} ts (snd (call i f ts))"
  by (cases "i < length ts")
     (auto simp: frame_def call_def Let_def split_def nth_list_update list_update_beyond not_less)

lemma frame_bump: "frame {i} ts (bump i c n ts)"
  by (cases "i < length ts") (auto simp: frame_def bump_def nth_list_update list_update_beyond not_less)

lemma frame_call_bump: "call i f ts = (a, ts1) \<Longrightarrow> i \<in> W \<Longrightarrow> frame W ts (bump i c n ts1)"
  using frame_mono [OF frame_call [of i ts f], of W] frame_mono [OF frame_bump [of i ts1 c n], of W]
  by (auto intro: frame_trans)

text \<open>A step of a loop over slots that only writes writable ones (or those in \<open>J\<close>).\<close>

lemma frame_step:
  assumes "frame W ts ts1" "J \<inter> writables ts \<subseteq> W" "J \<inter> writables ts1 \<subseteq> W \<Longrightarrow> frame W ts1 ts2"
  shows "frame W ts ts2"
  using assms(3) frame_writables [OF assms(1)] assms(2) by (auto intro: frame_trans [OF assms(1)])

section \<open>Demotion and promotion\<close>

lemma frame_demote_into: "i \<in> W \<Longrightarrow> frame W ts (snd (demote_into i es ts))"
proof (induction es arbitrary: ts)
  case (Cons e es)
  obtain k v where e: "e = (k, v)" by (cases e)
  obtain a ts1 where c: "call i (\<lambda>t s. t_put t s k v) ts = (a, ts1)" by fastforce
  have "frame W ts (snd (demote_into i es (bump i cc 1 ts1)))" for cc
    using Cons frame_call_bump [OF c, of W cc 1] by (blast intro: frame_trans)
  then show ?case by (cases a) (simp_all add: e c Let_def split_def)
qed simp

lemma frame_demote_loop:
  "set is \<inter> writables ts \<subseteq> W \<Longrightarrow> frame W ts (snd (demote_loop is d ts))"
proof (induction "is" arbitrary: d ts)
  case (Cons i "is")
  show ?case
  proof (cases "d = [] \<or> \<not> writable (ts ! i)")
    case True
    with Cons show ?thesis by auto
  next
    case False
    have "frame W ts (snd (demote_into i d ts))"
      using Cons.prems False by (intro frame_demote_into) auto
    then have "frame W ts (snd (demote_loop is (fst (demote_into i d ts)) (snd (demote_into i d ts))))"
      by (rule frame_step [where J = "set is"]) (use Cons in auto)
    with False show ?thesis by (simp add: Let_def split_def)
  qed
qed simp

lemma frame_demote:
  assumes "{j. i < j \<and> writable (ts ! j)} \<subseteq> W"
  shows "frame W ts (snd (demote i d ts))"
  unfolding demote_def by (rule frame_demote_loop) (use assms in auto)

lemma frame_fill_one:
  assumes "{j. i \<le> j \<and> writable (ts ! j)} \<subseteq> W"
  shows "frame W ts (fill_one p wr n i ts)"
proof -
  obtain a ts1 where c: "call i wr ts = (a, ts1)" by fastforce
  show ?thesis
  proof (cases "writable (ts ! i)")
    case True
    then have i: "i \<in> W" using assms by auto
    have f: "frame W ts (bump i cc m ts1)" for cc m by (rule frame_call_bump [OF c i])
    have "frame W (bump i Puts n ts1) (snd (demote i d (bump i Puts n ts1)))" for d
      using frame_writables [OF f [of Puts n]] assms by (intro frame_demote) auto
    with f [of Puts n] have "frame W ts (snd (demote i d (bump i Puts n ts1)))" for d
      by (rule frame_trans)
    then show ?thesis using True f by (cases a) (auto simp: fill_one_def c Let_def)
  qed (simp add: fill_one_def)
qed

lemma frame_fill_batch: "writables ts \<subseteq> W \<Longrightarrow> frame W ts (fill_batch p es is ts)"
proof (induction "is" arbitrary: ts)
  case (Cons i "is")
  have "frame W ts (fill_one p (\<lambda>t s. t_put_many t s es) (length es) i ts)"
    using Cons.prems by (intro frame_fill_one) auto
  then show ?case
    unfolding fill_batch.simps by (rule frame_step [where J = UNIV]) (use Cons in auto)
qed simp

lemma frame_promote_tiers: "writables ts \<subseteq> W \<Longrightarrow> frame W ts (promote_tiers p ks sts t hits ts)"
proof (induction hits arbitrary: t ts)
  case (Cons h hits)
  have "frame W ts (if t = 0 \<or> h = [] then ts
      else fill_batch p (batch_entries ks sts h) (batch_targets (rp_promote (pol_read p)) t) ts)"
    using frame_fill_batch [OF Cons.prems] by simp
  then show ?case
    unfolding promote_tiers.simps by (rule frame_step [where J = UNIV]) (use Cons in auto)
qed simp

lemma frame_promote_batch: "frame (writables ts) ts (promote_batch p ks sts ts)"
  by (simp add: promote_batch_def frame_promote_tiers)

section \<open>Writes and deletes\<close>

lemma frame_through:
  "writables ts \<subseteq> W \<Longrightarrow> frame W ts (snd (through_loop p wr n is ev ts))"
proof (induction "is" arbitrary: ev ts)
  case (Cons i "is")
  obtain a ts1 where c: "call i wr ts = (a, ts1)" by fastforce
  show ?case
  proof (cases "writable (ts ! i)")
    case True
    then have i: "i \<in> W" using Cons.prems by auto
    note f = frame_call_bump [OF c i]
    have rest: "frame W ts (snd (through_loop p wr n is ev' ts'))" if "frame W ts ts'" for ev' ts'
      using that by (rule frame_step [where J = UNIV]) (use Cons in auto)
    have dem: "frame W ts (snd (demote i d (bump i Puts n ts1)))" for d
      using f by (rule frame_step [where J = UNIV]) (use Cons.prems in \<open>auto intro!: frame_demote\<close>)
    show ?thesis
      using True c rest f dem
      by (cases a) (auto simp: Let_def split_def split: on_write_error.splits)
  qed (use Cons in simp)
qed simp

lemma through_abort:
  assumes "through_loop p wr n (rev [0..<m]) ev ts = (Err (Tier_Failed f), ts')"
  shows "failure_tier f < m \<and> frame {j. failure_tier f \<le> j} ts ts'"
  using assms
proof (induction m arbitrary: ev ts)
  case 0
  then show ?case by simp
next
  case (Suc m)
  obtain a ts1 where c: "call m wr ts = (a, ts1)" by fastforce
  show ?case
  proof (cases "writable (ts ! m)")
    case False
    with Suc show ?thesis by fastforce
  next
    case True
    have fb: "frame {j. i \<le> j} ts (bump m cc n' ts1)" if "i \<le> m" for i cc n'
      by (rule frame_call_bump [OF c]) (use that in simp)
    have step: "failure_tier f < Suc m \<and> frame {j. failure_tier f \<le> j} ts ts'"
      if "through_loop p wr n (rev [0..<m]) ev' ts'' = (Err (Tier_Failed f), ts')"
        "\<And>i. i \<le> m \<Longrightarrow> frame {j. i \<le> j} ts ts''" for ev' ts''
      using Suc.IH [OF that(1)] that(2) [of "failure_tier f"] by (auto intro: frame_trans)
    show ?thesis
    proof (cases a)
      case (Inl x)
      with Suc.prems c True fb step show ?thesis
        by (auto simp: Let_def failure_def split: on_write_error.splits)
    next
      case (Inr d)
      have "frame {j. i \<le> j} ts (snd (demote m d (bump m Puts n ts1)))" if "i \<le> m" for i
        using fb [OF that] by (rule frame_trans) (use that in \<open>auto intro!: frame_demote\<close>)
      with Suc.prems c True Inr fb step show ?thesis
        by (auto simp: Let_def split_def split: if_splits)
    qed
  qed
qed

lemma frame_invalidate:
  "set is \<inter> writables ts \<subseteq> W \<Longrightarrow> frame W ts (snd (invalidate_loop del n is fs ts))"
proof (induction "is" arbitrary: fs ts)
  case (Cons i "is")
  obtain a ts1 where c: "call i del ts = (a, ts1)" by fastforce
  show ?case
  proof (cases "writable (ts ! i)")
    case True
    then have f: "frame W ts (bump i cc m ts1)" for cc m
      using Cons.prems by (intro frame_call_bump [OF c]) auto
    have rest: "frame W ts (snd (invalidate_loop del n is fs (bump i cc m ts1)))" for fs cc m
      using f by (rule frame_step [where J = "set is"]) (use Cons in auto)
    show ?thesis using True rest by (cases a) (simp_all add: c Let_def)
  qed (use Cons in auto)
qed simp

lemma rposition_writable_Some:
  "rposition_writable ts = Some i \<Longrightarrow>
   i < length ts \<and> writable (ts ! i) \<and> (\<forall>j. i < j \<and> j < length ts \<longrightarrow> \<not> writable (ts ! j))"
proof (induction ts arbitrary: i)
  case (Cons sl sls)
  have none: "rposition_writable sls = None \<Longrightarrow> \<forall>sl \<in> set sls. \<not> writable sl" for sls :: "('a, 'b, 'c, 'd) slots"
    by (induction sls) (auto split: option.splits if_splits)
  from Cons none [of sls] show ?case
    by (auto simp: nth_Cons' less_Suc_eq_0_disj split: option.splits if_splits)
qed simp

lemma rposition_writable_None: "rposition_writable ts = None \<longleftrightarrow> \<not> list_ex writable ts"
  by (induction ts) (auto split: option.splits)

lemma frame_around: "frame (writables ts) ts (snd (write_around wr del n ts))"
proof (cases "rposition_writable ts")
  case None
  then show ?thesis by (simp add: write_around_def)
next
  case (Some b)
  obtain a ts1 where c: "call b wr ts = (a, ts1)" by fastforce
  have f: "frame (writables ts) ts (bump b cc m ts1)" for cc m
    by (rule frame_call_bump [OF c]) (use rposition_writable_Some [OF Some] in simp)
  have "frame (writables ts) (bump b Puts n ts1)
      (snd (invalidate_loop del n [0..<b] [] (bump b Puts n ts1)))"
    by (rule frame_invalidate) (use frame_writables [OF f] in auto)
  with f [of Puts n] have "frame (writables ts) ts
      (snd (invalidate_loop del n [0..<b] [] (bump b Puts n ts1)))" by (rule frame_trans)
  then show ?thesis using Some c f by (cases a) (auto simp: write_around_def Let_def split_def)
qed

lemma frame_write_through: "frame (writables ts) ts (snd (write_through p wr n ts))"
  by (simp add: write_through_def frame_through)

lemma frame_delete_loop:
  "set is \<inter> writables ts \<subseteq> W \<Longrightarrow> frame W ts (snd (delete_loop k is e fs ts))"
proof (induction "is" arbitrary: e fs ts)
  case (Cons i "is")
  obtain a ts1 where c: "call i (\<lambda>t s. t_delete t s k) ts = (a, ts1)" by fastforce
  show ?case
  proof (cases "writable (ts ! i)")
    case True
    then have f: "frame W ts (bump i cc m ts1)" for cc m
      using Cons.prems by (intro frame_call_bump [OF c]) auto
    have rest: "frame W ts (snd (delete_loop k is e fs (bump i cc m ts1)))" for e fs cc m
      using f by (rule frame_step [where J = "set is"]) (use Cons in auto)
    show ?thesis using True rest by (cases a) (simp_all add: c Let_def)
  qed (use Cons in auto)
qed simp

lemma frame_remove_loop:
  "set is \<inter> writables ts \<subseteq> W \<Longrightarrow> frame W ts (snd (remove_loop ks is rm fs ts))"
proof (induction "is" arbitrary: rm fs ts)
  case (Cons i "is")
  obtain a ts1 where c: "call i (\<lambda>t s. t_delete_many t s ks) ts = (a, ts1)" by fastforce
  show ?case
  proof (cases "writable (ts ! i)")
    case True
    then have f: "frame W ts (bump i cc m ts1)" for cc m
      using Cons.prems by (intro frame_call_bump [OF c]) auto
    have rest: "frame W ts (snd (remove_loop ks is rm fs (bump i cc m ts1)))" for rm fs cc m
      using f by (rule frame_step [where J = "set is"]) (use Cons in auto)
    show ?thesis using True rest by (cases a) (simp_all add: c Let_def)
  qed (use Cons in auto)
qed simp

section \<open>Properties\<close>

lemma put_frame: "frame (writables (rt_tiers r)) (rt_tiers r) (rt_tiers (snd (router_put r k v)))"
  by (simp add: router_put_def frame_write_through frame_around split_def Let_def
           split: write_mode.split)

lemma put_many_frame: "frame (writables (rt_tiers r)) (rt_tiers r) (rt_tiers (snd (router_put_many r es)))"
  by (simp add: router_put_many_def frame_write_through frame_around split_def Let_def
           split: write_mode.split)

lemma delete_frame: "frame (writables (rt_tiers r)) (rt_tiers r) (rt_tiers (snd (router_delete r k)))"
  by (simp add: router_delete_def split_def Let_def frame_delete_loop)

lemma remove_many_frame:
  "frame (writables (rt_tiers r)) (rt_tiers r) (rt_tiers (snd (router_remove_many r ks)))"
  by (simp add: router_remove_many_def split_def Let_def frame_remove_loop)

lemma delete_many_frame:
  "frame (writables (rt_tiers r)) (rt_tiers r) (rt_tiers (snd (router_delete_many r ks)))"
  using remove_many_frame [of r ks] by (simp add: router_delete_many_def split_def)

text \<open>
  The router never writes a read-only tier: no put, batched put, delete or batched delete
  changes its state or its counters, in any policy and whatever the other tiers do (demotions pass
  over it too).
\<close>

theorem read_only_tiers_untouched:
  assumes "\<not> writable (rt_tiers r ! j)"
  shows "rt_tiers (snd (router_put r k v)) ! j = rt_tiers r ! j \<and>
         rt_tiers (snd (router_put_many r es)) ! j = rt_tiers r ! j \<and>
         rt_tiers (snd (router_delete r k)) ! j = rt_tiers r ! j \<and>
         rt_tiers (snd (router_delete_many r ks)) ! j = rt_tiers r ! j"
  using assms frame_nth [OF put_frame [of r k v], of j] frame_nth [OF put_many_frame [of r es], of j]
    frame_nth [OF delete_frame [of r k], of j] frame_nth [OF delete_many_frame [of r ks], of j]
  by simp

text \<open>A two-tier router over a memory tier and a read-only one, for the witnesses.\<close>

definition origin_router :: "((string, nat) memory_tier, string, nat, string) router" where
  "origin_router =
     builder_read_only_tier (\<lambda>e :: unit. ''never'') id (tier_read.truncate memory_ops)
       (snd (memory_put memory_unbounded ''k'' 7 :: (_, unit) result \<times> _))
       (builder_tier (\<lambda>e :: unit. ''never'') memory_ops memory_unbounded builder_new)"

theorem read_only_tiers_untouched_witness:
  "rt_tiers (snd (router_delete origin_router ''k'')) ! 1 = rt_tiers origin_router ! 1 \<and>
   \<not> writable (rt_tiers origin_router ! 1)"
  using read_only_tiers_untouched [of origin_router 1 "''k''" 0 "[]" "[]"]
  by (simp add: origin_router_def builder_read_only_tier_def builder_tier_def builder_new_def)

text \<open>
  A fail-fast write-through that aborts at a tier has not touched any tier above it (neither
  the entry nor a demotion reached them), so no upper tier claims a key that a lower one rejected.
  The same for a batch.
\<close>

theorem aborted_write_spares_uppers:
  assumes "pol_write (rt_policy r) = WriteThrough" "j < failure_tier f"
  shows "(fst (router_put r k v) = Err (Tier_Failed f) \<longrightarrow>
            rt_tiers (snd (router_put r k v)) ! j = rt_tiers r ! j) \<and>
         (fst (router_put_many r es) = Err (Tier_Failed f) \<longrightarrow>
            rt_tiers (snd (router_put_many r es)) ! j = rt_tiers r ! j)"
proof -
  have "snd (write_through p wr n ts) ! j = ts ! j"
    if "fst (write_through p wr n ts) = Err (Tier_Failed f)" for p n
      and wr :: "('a, 'b, 'c, 'd) writer" and ts :: "('a, 'b, 'c, 'd) slots"
    using that through_abort [of p wr n "length ts" "[]" ts f] assms(2)
    by (cases "through_loop p wr n (rev [0..<length ts]) [] ts")
       (auto simp: write_through_def split: if_splits intro: frame_nth)
  with assms(1) show ?thesis by (simp add: router_put_def router_put_many_def split_def Let_def)
qed

text \<open>A memory tier over one that rejects every write.\<close>

definition rejecting_router :: "((string, nat) memory_tier, string, nat, string) router" where
  "rejecting_router =
     builder_tier id (read_only_ops (\<lambda>e :: unit. ''never'') id (tier_read.truncate memory_ops))
       memory_unbounded
       (builder_tier (\<lambda>e :: unit. ''never'') memory_ops memory_unbounded builder_new)"

theorem aborted_write_spares_uppers_witness:
  "\<exists>f. fst (router_put rejecting_router ''k'' 1) = Err (Tier_Failed f) \<and> failure_tier f = 1 \<and>
       rt_tiers (snd (router_put rejecting_router ''k'' 1)) ! 0 = rt_tiers rejecting_router ! 0"
proof -
  let ?f = "TierFailure 1 ''memory'' ''tier is read-only''"
  have e: "fst (router_put rejecting_router ''k'' 1) = Err (Tier_Failed ?f)"
    by (simp add: router_put_def rejecting_router_def builder_tier_def builder_new_def
          policy_default_def write_through_def adapter_def read_only_ops_def call_def failure_def
          bump_def Let_def split_def tier_read.defs upt_rec numeral_2_eq_2)
  have "pol_write (rt_policy rejecting_router) = WriteThrough"
    by (simp add: rejecting_router_def builder_tier_def builder_new_def policy_default_def)
  from aborted_write_spares_uppers [OF this, of 0 ?f "''k''" 1 "[]"] e show ?thesis by auto
qed

end
