(* ===== verification/Router_View.thy ===== *)
theory Router_View
  imports Router_Frame
begin

text \<open>
  What a hierarchy serves: the layered contents of its tiers, topmost first. Every write of a
  router over reliable tiers conserves it (\<open>demote\<close>, one fill of a promotion, write-through): the
  entries it returns and what the writable tiers hold afterwards make up what they held before
  with the written entries on top.
\<close>

section \<open>Contents of slots\<close>

definition slot_con ::
  "(('s, 'k, 'v, 'x) tier_ops \<Rightarrow> 's \<Rightarrow> ('k \<rightharpoonup> 'v)) \<Rightarrow> ('s, 'k, 'v, 'x) tier_slot \<Rightarrow> ('k \<rightharpoonup> 'v)" where
  "slot_con con sl = con (slot_ops sl) (slot_state sl)"

text \<open>The invariant of every slot, and of the writable ones (which is all that writes need).\<close>

definition slots_inv ::
  "(('s, 'k, 'v, 'x) tier_ops \<Rightarrow> 's \<Rightarrow> bool) \<Rightarrow> ('s, 'k, 'v, 'x) slots \<Rightarrow> bool" where
  "slots_inv invt ts \<longleftrightarrow> (\<forall>sl \<in> set ts. invt (slot_ops sl) (slot_state sl))"

definition wslots_inv ::
  "(('s, 'k, 'v, 'x) tier_ops \<Rightarrow> 's \<Rightarrow> bool) \<Rightarrow> ('s, 'k, 'v, 'x) slots \<Rightarrow> bool" where
  "wslots_inv invt ts \<longleftrightarrow>
     (\<forall>sl \<in> set ts. writable sl \<longrightarrow> invt (slot_ops sl) (slot_state sl))"

lemma slots_inv_wslots: "slots_inv invt ts \<Longrightarrow> wslots_inv invt ts"
  by (simp add: slots_inv_def wslots_inv_def)

lemma slots_inv_nth: "slots_inv invt ts \<Longrightarrow> i < length ts \<Longrightarrow> invt (slot_ops (ts ! i)) (slot_state (ts ! i))"
  by (simp add: slots_inv_def)

text \<open>What reads can see, and what the writable tiers hold.\<close>

definition view ::
  "(('s, 'k, 'v, 'x) tier_ops \<Rightarrow> 's \<Rightarrow> ('k \<rightharpoonup> 'v)) \<Rightarrow> ('s, 'k, 'v, 'x) slots \<Rightarrow> ('k \<rightharpoonup> 'v)" where
  "view con ts = layers (map (slot_con con) ts)"

definition wview ::
  "(('s, 'k, 'v, 'x) tier_ops \<Rightarrow> 's \<Rightarrow> ('k \<rightharpoonup> 'v)) \<Rightarrow> ('s, 'k, 'v, 'x) slots \<Rightarrow> ('k \<rightharpoonup> 'v)" where
  "wview con ts = view con (filter writable ts)"

lemma wview_all_writable: "list_all writable ts \<Longrightarrow> wview con ts = view con ts"
  by (simp add: wview_def list_all_iff)

lemma wview_Nil [simp]: "wview con [] = Map.empty"
  by (simp add: wview_def view_def)

lemma wview_split: "wview con ts = wview con (drop m ts) ++ wview con (take m ts)"
  by (metis append_take_drop_id filter_append layers_append map_append view_def wview_def)

lemma wview_drop:
  "m < length ts \<Longrightarrow>
   wview con (drop m ts) =
     (if writable (ts ! m) then wview con (drop (Suc m) ts) ++ slot_con con (ts ! m)
      else wview con (drop (Suc m) ts))"
  by (simp add: wview_def view_def Cons_nth_drop_Suc [symmetric])

lemma wview_take:
  "m < length ts \<Longrightarrow>
   wview con (take (Suc m) ts) =
     (if writable (ts ! m) then slot_con con (ts ! m) ++ wview con (take m ts)
      else wview con (take m ts))"
  by (simp add: wview_def view_def take_Suc_conv_app_nth)

lemma frame_take:
  assumes "frame {j. i \<le> j} ts ts'"
  shows "take i ts' = take i ts"
  using assms frame_length [OF assms] by (intro nth_equalityI) (auto intro: frame_nth)

lemma frame_drop:
  assumes "frame {j. j < i} ts ts'"
  shows "drop i ts' = drop i ts"
  using assms frame_length [OF assms] by (intro nth_equalityI) (auto intro: frame_nth)

lemma wslots_inv_nth:
  "wslots_inv invt ts \<Longrightarrow> i < length ts \<Longrightarrow> writable (ts ! i) \<Longrightarrow> invt (slot_ops (ts ! i)) (slot_state (ts ! i))"
  by (simp add: wslots_inv_def)

text \<open>A call and the bump of a counter after it.\<close>

lemma call_fst: "call i f ts = (a, ts1) \<Longrightarrow> a = fst (f (slot_ops (ts ! i)) (slot_state (ts ! i)))"
  by (auto simp: call_def Let_def split_def)

lemma call_bump_nth:
  assumes "call i f ts = (a, ts1)" "i < length ts"
  shows "slot_state (bump i c n ts1 ! i) = snd (f (slot_ops (ts ! i)) (slot_state (ts ! i)))"
    and "slot_ops (bump i c n ts1 ! i) = slot_ops (ts ! i)"
    and "slot_con con (bump i c n ts1 ! i) =
         con (slot_ops (ts ! i)) (snd (f (slot_ops (ts ! i)) (slot_state (ts ! i))))"
    and "length (bump i c n ts1) = length ts"
  using assms by (auto simp: call_def bump_def slot_con_def Let_def split_def)

lemma call_bump_inv:
  assumes "call i f ts = (a, ts1)" "i < length ts" "wslots_inv invt ts"
    and "invt (slot_ops (ts ! i)) (snd (f (slot_ops (ts ! i)) (slot_state (ts ! i))))"
  shows "wslots_inv invt (bump i c n ts1)"
  using assms
  by (auto simp: wslots_inv_def call_def bump_def Let_def split_def all_set_conv_all_nth nth_list_update)

section \<open>Conservation over reliable tiers\<close>

text \<open>A write of the entries \<open>m\<close> into one tier that cannot fail.\<close>

definition writer_law ::
  "(('s, 'k, 'v, 'x) tier_ops \<Rightarrow> 's \<Rightarrow> bool) \<Rightarrow> (('s, 'k, 'v, 'x) tier_ops \<Rightarrow> 's \<Rightarrow> ('k \<rightharpoonup> 'v)) \<Rightarrow>
   ('s, 'k, 'v, 'x) writer \<Rightarrow> ('k \<rightharpoonup> 'v) \<Rightarrow> bool"
where
  "writer_law invt con wr m \<longleftrightarrow>
     (\<forall>t s. invt t s \<longrightarrow> invt t (snd (wr t s)) \<and>
        (\<exists>d. fst (wr t s) = Ok d \<and> pend d ++ con t (snd (wr t s)) = con t s ++ m))"

context reliable_tiers begin

lemma put_writer: "writer_law inv con (\<lambda>t s. t_put t s k v) [k \<mapsto> v]"
  unfolding writer_law_def using put_ok put_con put_inv by (meson is_ok_iff)

lemma put_many_writer: "writer_law inv con (\<lambda>t s. t_put_many t s es) (pend es)"
  unfolding writer_law_def using put_many_ok put_many_con put_many_inv by (meson is_ok_iff)

text \<open>One write and the bump after it.\<close>

lemma write_call:
  assumes wr: "writer_law inv con wr m" and ts: "wslots_inv inv ts" "i < length ts" "writable (ts ! i)"
  obtains d ts1 where "call i wr ts = (Ok d, ts1)" "wslots_inv inv (bump i c n ts1)"
    "pend d ++ slot_con con (bump i c n ts1 ! i) = slot_con con (ts ! i) ++ m"
    "frame {i} ts (bump i c n ts1)"
proof -
  let ?r = "wr (slot_ops (ts ! i)) (slot_state (ts ! i))"
  have "inv (slot_ops (ts ! i)) (snd ?r) \<and>
      (\<exists>d. fst ?r = Ok d \<and> pend d ++ con (slot_ops (ts ! i)) (snd ?r) = slot_con con (ts ! i) ++ m)"
    using wr wslots_inv_nth [OF ts] by (auto simp: writer_law_def slot_con_def)
  then obtain d where inv: "inv (slot_ops (ts ! i)) (snd ?r)" and d: "fst ?r = Ok d"
      "pend d ++ con (slot_ops (ts ! i)) (snd ?r) = slot_con con (ts ! i) ++ m" by blast
  obtain a ts1 where c: "call i wr ts = (a, ts1)" by fastforce
  have a: "a = Ok d" using call_fst [OF c] d(1) by simp
  show thesis
  proof
    show "call i wr ts = (Ok d, ts1)" using c a by simp
    show "wslots_inv inv (bump i c n ts1)" by (rule call_bump_inv [where invt = inv, OF c ts(2,1) inv])
    show "pend d ++ slot_con con (bump i c n ts1 ! i) = slot_con con (ts ! i) ++ m"
      using call_bump_nth(3) [OF c ts(2)] d(2) by simp
    show "frame {i} ts (bump i c n ts1)" by (rule frame_call_bump [OF c]) simp
  qed
qed

lemma demote_into_conserves:
  assumes "wslots_inv inv ts" "i < length ts" "writable (ts ! i)" "demote_into i es ts = (ds, ts')"
  shows "wslots_inv inv ts' \<and>
    pend ds ++ slot_con con (ts' ! i) = slot_con con (ts ! i) ++ pend es"
  using assms
proof (induction es arbitrary: ts ds ts')
  case Nil
  then show ?case by simp
next
  case (Cons e es)
  obtain k v where e: "e = (k, v)" by (cases e)
  obtain d ts1 where w: "call i (\<lambda>t s. t_put t s k v) ts = (Ok d, ts1)"
      "wslots_inv inv (bump i Puts 1 ts1)"
      "pend d ++ slot_con con (bump i Puts 1 ts1 ! i) = slot_con con (ts ! i) ++ [k \<mapsto> v]"
      "frame {i} ts (bump i Puts 1 ts1)"
    by (rule write_call [OF put_writer Cons.prems(1-3)])
  obtain ds' ts2 where r: "demote_into i es (bump i Puts 1 ts1) = (ds', ts2)" by fastforce
  have IH: "wslots_inv inv ts2 \<and>
      pend ds' ++ slot_con con (ts2 ! i) = slot_con con (bump i Puts 1 ts1 ! i) ++ pend es"
    using Cons.prems(2,3) frame_length [OF w(4)] frame_writable [OF w(4)]
    by (intro Cons.IH [OF w(2) _ _ r]) simp_all
  have "pend (d @ ds') ++ slot_con con (ts2 ! i) =
      slot_con con (ts ! i) ++ ([k \<mapsto> v] ++ pend es)"
    using map_add_chain [OF w(3), of "pend ds'" "slot_con con (ts2 ! i)" "pend es"] IH by simp
  moreover have "ds = d @ ds'" "ts' = ts2"
    using Cons.prems(4) w(1) r by (simp_all add: e Let_def)
  ultimately show ?case using IH by (simp add: e pend_Cons)
qed

lemma demote_loop_conserves:
  assumes "wslots_inv inv ts" "demote_loop [m..<length ts] d ts = (off, ts')"
  shows "wslots_inv inv ts' \<and>
    pend off ++ wview con (drop m ts') = wview con (drop m ts) ++ pend d"
  using assms
proof (induction "length ts - m" arbitrary: m d ts)
  case 0
  then show ?case using frame_length [OF frame_demote_loop [of "[]" ts UNIV d]] by auto
next
  case (Suc n)
  then have m: "m < length ts" and upt: "[m..<length ts] = m # [Suc m..<length ts]"
    by (auto simp: upt_conv_Cons)
  show ?case
  proof (cases "d = []")
    case True
    then show ?thesis using Suc.prems by (simp add: upt)
  next
    case nonempty: False
    show ?thesis
    proof (cases "writable (ts ! m)")
      case False
      have r: "demote_loop [Suc m..<length ts] d ts = (off, ts')"
        using Suc.prems(2) nonempty False by (simp add: upt)
      have "frame {j. Suc m \<le> j} ts (snd (demote_loop [Suc m..<length ts] d ts))"
        by (rule frame_demote_loop) auto
      with r have "frame {j. Suc m \<le> j} ts ts'" by simp
      then have "\<not> writable (ts' ! m)" "length ts' = length ts"
        using False by (simp_all add: frame_writable frame_length)
      with Suc.hyps(1) [OF _ Suc.prems(1) r] Suc.hyps(2) m False show ?thesis
        by (simp add: wview_drop)
    next
      case True
      obtain nxt ts1 where di: "demote_into m d ts = (nxt, ts1)" by fastforce
      have f1: "frame {m} ts ts1" using frame_demote_into [of m "{m}" ts d] di by simp
      have len: "length ts1 = length ts" by (rule frame_length [OF f1])
      have into: "wslots_inv inv ts1"
          "pend nxt ++ slot_con con (ts1 ! m) = slot_con con (ts ! m) ++ pend d"
        using demote_into_conserves [OF Suc.prems(1) m True di] by simp_all
      have r: "demote_loop [Suc m..<length ts1] nxt ts1 = (off, ts')"
        using Suc.prems(2) nonempty True by (simp add: upt di len)
      have "frame {j. Suc m \<le> j} ts1 (snd (demote_loop [Suc m..<length ts1] nxt ts1))"
        by (rule frame_demote_loop) auto
      with r have f2: "frame {j. Suc m \<le> j} ts1 ts'" by simp
      have slot: "ts' ! m = ts1 ! m" by (rule frame_nth [OF f2]) simp
      have below: "drop (Suc m) ts1 = drop (Suc m) ts"
        by (rule frame_drop [OF frame_mono [OF f1]]) simp
      have IH: "wslots_inv inv ts'"
          "pend off ++ wview con (drop (Suc m) ts') = wview con (drop (Suc m) ts) ++ pend nxt"
        using Suc.hyps(1) [OF _ into(1) r] Suc.hyps(2) len by (simp_all add: below)
      have w: "writable (ts' ! m)" "m < length ts'"
        using True m frame_writable [OF f1] frame_writable [OF f2] frame_length [OF f1] frame_length [OF f2]
        by simp_all
      have "pend off ++ (wview con (drop (Suc m) ts') ++ slot_con con (ts1 ! m)) =
          wview con (drop (Suc m) ts) ++ (pend nxt ++ slot_con con (ts1 ! m))"
        using IH(2) by (rule map_add_swap_eq)
      then show ?thesis
        using IH(1) into(2) m True w by (simp add: wview_drop slot)
    qed
  qed
qed

lemma demote_conserves:
  assumes "wslots_inv inv ts" "demote i d ts = (off, ts')"
  shows "wslots_inv inv ts' \<and> frame {j. i < j} ts ts' \<and>
    pend off ++ wview con (drop (Suc i) ts') = wview con (drop (Suc i) ts) ++ pend d"
  using demote_loop_conserves [OF assms(1), of "Suc i" d off ts'] assms(2)
    frame_demote [of i ts "{j. i < j}" d]
  by (auto simp: demote_def)

text \<open>A write into one tier, and the demotion of what it displaced.\<close>

lemma write_demote_conserves:
  assumes wr: "writer_law inv con wr m" and ts: "wslots_inv inv ts" "i < length ts" "writable (ts ! i)"
  obtains d ts1 off ts2 where "call i wr ts = (Ok d, ts1)" "demote i d (bump i Puts n ts1) = (off, ts2)"
    "wslots_inv inv ts2" "frame {j. i \<le> j} ts ts2"
    "pend off ++ wview con (drop i ts2) = wview con (drop i ts) ++ m"
    "pend d ++ slot_con con (ts2 ! i) = slot_con con (ts ! i) ++ m"
    "d = [] \<longrightarrow> off = [] \<and> ts2 = bump i Puts n ts1"
proof -
  obtain d ts1 where w: "call i wr ts = (Ok d, ts1)" "wslots_inv inv (bump i Puts n ts1)"
      "pend d ++ slot_con con (bump i Puts n ts1 ! i) = slot_con con (ts ! i) ++ m"
      "frame {i} ts (bump i Puts n ts1)"
    by (rule write_call [OF wr ts])
  obtain off ts2 where d: "demote i d (bump i Puts n ts1) = (off, ts2)" by fastforce
  note c = demote_conserves [OF w(2) d]
  have f2: "frame {j. i < j} (bump i Puts n ts1) ts2" using c by blast
  have slot: "ts2 ! i = bump i Puts n ts1 ! i" by (rule frame_nth [OF f2]) simp
  have "frame {j. i \<le> j} ts (bump i Puts n ts1)" by (rule frame_mono [OF w(4)]) simp
  moreover have "frame {j. i \<le> j} (bump i Puts n ts1) ts2" by (rule frame_mono [OF f2]) auto
  ultimately have f: "frame {j. i \<le> j} ts ts2" by (rule frame_trans)
  have below: "drop (Suc i) (bump i Puts n ts1) = drop (Suc i) ts"
    by (rule frame_drop [OF frame_mono [OF w(4)]]) simp
  have "pend off ++ (wview con (drop (Suc i) ts2) ++ slot_con con (ts2 ! i)) =
      wview con (drop (Suc i) ts) ++ (pend d ++ slot_con con (ts2 ! i))"
    using c unfolding below by (intro map_add_swap_eq) simp
  moreover have "writable (ts2 ! i)" "i < length ts2"
    using ts frame_writable [OF f] frame_length [OF f] by simp_all
  ultimately have "pend off ++ wview con (drop i ts2) = wview con (drop i ts) ++ m"
    using ts w(3) by (simp add: wview_drop slot)
  moreover have "d = [] \<longrightarrow> off = [] \<and> ts2 = bump i Puts n ts1"
    using d by (cases "[i + 1..<length (bump i Puts n ts1)]") (auto simp: demote_def)
  moreover have "pend d ++ slot_con con (ts2 ! i) = slot_con con (ts ! i) ++ m"
    using w(3) by (simp add: slot)
  moreover have "wslots_inv inv ts2" using c by blast
  ultimately show thesis using w(1) d f by (intro that)
qed

end

end
