(* ===== verification/Router_Writes.thy ===== *)
theory Router_Writes
  imports Router_View
begin

text \<open>
  Writes and deletes of the router over tiers that keep the contract: write-through conserves what
  the hierarchy holds, write-around invalidates the copies above the written tier, deletes reach
  every writable tier and report exactly the ones that failed.
\<close>

section \<open>Write-through\<close>

context reliable_tiers begin

lemma through_step:
  assumes "call i wr ts = (Ok d, ts1)" "demote i d (bump i Puts n ts1) = (off, ts2)"
    "d = [] \<longrightarrow> off = [] \<and> ts2 = bump i Puts n ts1" "writable (ts ! i)" "pol_demote_displaced p"
  shows "through_loop p wr n (i # is) ev ts = through_loop p wr n is (ev @ off) ts2"
  using assms by (cases "d = []") (auto simp: Let_def)

lemma through_conserves:
  assumes "writer_law inv con wr m" "wslots_inv inv ts" "n \<le> length ts" "pol_demote_displaced p"
    and "pend ev ++ wview con (drop n ts) = z ++ e" "e = Map.empty \<or> e = m"
  shows "\<exists>ev' ts'. through_loop p wr c (rev [0..<n]) ev ts = (Ok ev', ts') \<and> wslots_inv inv ts' \<and>
    pend ev' ++ wview con ts' =
      z ++ wview con (take n ts) ++ (if \<exists>j < n. writable (ts ! j) then m else e)"
  using assms(2-)
proof (induction n arbitrary: ev ts z e)
  case 0
  then show ?case by simp
next
  case (Suc n)
  have n: "n < length ts" using Suc.prems by simp
  show ?case
  proof (cases "writable (ts ! n)")
    case False
    have same: "pend ev ++ wview con (drop n ts) = z ++ e"
      using Suc.prems(4) False n by (simp add: wview_drop)
    have "\<exists>ev' ts'. through_loop p wr c (rev [0..<n]) ev ts = (Ok ev', ts') \<and> wslots_inv inv ts' \<and>
        pend ev' ++ wview con ts' =
          z ++ wview con (take n ts) ++ (if \<exists>j < n. writable (ts ! j) then m else e)"
      using Suc.IH [OF Suc.prems(1) _ Suc.prems(3) same Suc.prems(5)] n by simp
    moreover have "(\<exists>j < Suc n. writable (ts ! j)) \<longleftrightarrow> (\<exists>j < n. writable (ts ! j))"
      using False less_Suc_eq by auto
    moreover have "through_loop p wr c (rev [0..<Suc n]) ev ts = through_loop p wr c (rev [0..<n]) ev ts"
      using False by simp
    ultimately show ?thesis using False n by (simp only: wview_take if_False)
  next
    case True
    obtain d ts1 off ts2 where w: "call n wr ts = (Ok d, ts1)"
        "demote n d (bump n Puts c ts1) = (off, ts2)" "wslots_inv inv ts2" "frame {j. n \<le> j} ts ts2"
        "pend off ++ wview con (drop n ts2) = wview con (drop n ts) ++ m"
        "pend d ++ slot_con con (ts2 ! n) = slot_con con (ts ! n) ++ m"
        "d = [] \<longrightarrow> off = [] \<and> ts2 = bump n Puts c ts1"
      by (rule write_demote_conserves [where n = c, OF assms(1) Suc.prems(1) n True])
    have "pend ev ++ (pend off ++ wview con (drop n ts2)) = pend ev ++ (wview con (drop n ts) ++ m)"
      by (simp only: w(5))
    then have "pend (ev @ off) ++ wview con (drop n ts2) =
        pend ev ++ wview con (drop (Suc n) ts) ++ slot_con con (ts ! n) ++ m"
      using True n by (simp add: wview_drop)
    also have "\<dots> = z ++ e ++ slot_con con (ts ! n) ++ m" using Suc.prems(4) by simp
    also have "\<dots> = z ++ slot_con con (ts ! n) ++ m"
      using Suc.prems(5) map_add_absorb [of z m "slot_con con (ts ! n)"] by auto
    finally have key: "pend (ev @ off) ++ wview con (drop n ts2) = (z ++ slot_con con (ts ! n)) ++ m" .
    have take: "take n ts2 = take n ts" by (rule frame_take [OF w(4)])
    have len: "n \<le> length ts2" using n frame_length [OF w(4)] by simp
    have loop: "through_loop p wr c (rev [0..<Suc n]) ev ts =
        through_loop p wr c (rev [0..<n]) (ev @ off) ts2"
      using through_step [OF w(1,2,7) True Suc.prems(3)] by simp
    obtain ev' ts' where r: "through_loop p wr c (rev [0..<n]) (ev @ off) ts2 = (Ok ev', ts')"
        "wslots_inv inv ts'"
        "pend ev' ++ wview con ts' = z ++ slot_con con (ts ! n) ++ wview con (take n ts2) ++ m"
      using Suc.IH [OF w(3) len Suc.prems(3) key] by auto
    have "\<exists>j < Suc n. writable (ts ! j)" using True by auto
    then show ?thesis using r True n unfolding loop by (simp add: take wview_take)
  qed
qed

lemma write_through_conserves:
  assumes "writer_law inv con wr m" "wslots_inv inv ts" "pol_demote_displaced p" "list_ex writable ts"
  obtains ev ts' where "write_through p wr c ts = (Ok ev, ts')" "wslots_inv inv ts'"
    "pend ev ++ wview con ts' = wview con ts ++ m"
proof -
  have "\<exists>j < length ts. writable (ts ! j)"
    using assms(4) by (auto simp: list_ex_length)
  with through_conserves [OF assms(1,2) order_refl assms(3), of "[]" Map.empty Map.empty c] that assms(4)
  show thesis by (auto simp: write_through_def)
qed

end

text \<open>
  C1. Write-through with demotion loses nothing: over tiers that cannot fail, \<open>put\<close> and \<open>put_many\<close>
  on a router with a writable tier succeed, and the entries they return together with what the
  writable tiers then hold are exactly what the writable tiers held with the new entries on top.
  However far displaced entries cascade, every one is in some tier or in the answer.
\<close>

theorem write_through_lossless:
  assumes "reliable_tiers ivt con" "wslots_inv ivt (rt_tiers r)" "list_ex writable (rt_tiers r)"
    and "pol_write (rt_policy r) = WriteThrough" "pol_demote_displaced (rt_policy r)"
  shows "(\<exists>ev r'. router_put r k v = (Ok ev, r') \<and> wslots_inv ivt (rt_tiers r') \<and>
            pend ev ++ wview con (rt_tiers r') = wview con (rt_tiers r) ++ [k \<mapsto> v]) \<and>
         (\<exists>ev r'. router_put_many r es = (Ok ev, r') \<and> wslots_inv ivt (rt_tiers r') \<and>
            pend ev ++ wview con (rt_tiers r') = wview con (rt_tiers r) ++ pend es)"
proof
  note laws = reliable_tiers.write_through_conserves [OF assms(1) _ assms(2,5,3)]
  obtain ev ts' where "write_through (rt_policy r) (\<lambda>t s. t_put t s k v) 1 (rt_tiers r) = (Ok ev, ts')"
      "wslots_inv ivt ts'" "pend ev ++ wview con ts' = wview con (rt_tiers r) ++ [k \<mapsto> v]"
    by (rule laws [OF reliable_tiers.put_writer [OF assms(1)]])
  then show "\<exists>ev r'. router_put r k v = (Ok ev, r') \<and> wslots_inv ivt (rt_tiers r') \<and>
            pend ev ++ wview con (rt_tiers r') = wview con (rt_tiers r) ++ [k \<mapsto> v]"
    using assms(4) by (simp add: router_put_def)
  obtain ev ts' where "write_through (rt_policy r) (\<lambda>t s. t_put_many t s es) (length es) (rt_tiers r) =
        (Ok ev, ts')"
      "wslots_inv ivt ts'" "pend ev ++ wview con ts' = wview con (rt_tiers r) ++ pend es"
    by (rule laws [OF reliable_tiers.put_many_writer [OF assms(1)]])
  then show "\<exists>ev r'. router_put_many r es = (Ok ev, r') \<and> wslots_inv ivt (rt_tiers r') \<and>
            pend ev ++ wview con (rt_tiers r') = wview con (rt_tiers r) ++ pend es"
    using assms(4) by (simp add: router_put_many_def)
qed

section \<open>Invalidation and deletes\<close>

text \<open>A fallible write, and a fallible removal of the keys \<open>K\<close>.\<close>

definition fallible_writer ::
  "(('s, 'k, 'v, 'x) tier_ops \<Rightarrow> 's \<Rightarrow> bool) \<Rightarrow> (('s, 'k, 'v, 'x) tier_ops \<Rightarrow> 's \<Rightarrow> ('k \<rightharpoonup> 'v)) \<Rightarrow>
   ('s, 'k, 'v, 'x) writer \<Rightarrow> ('k \<rightharpoonup> 'v) \<Rightarrow> bool"
where
  "fallible_writer ivt con wr m \<longleftrightarrow>
     (\<forall>t s. ivt t s \<longrightarrow> ivt t (snd (wr t s)) \<and>
        (\<forall>d. fst (wr t s) = Ok d \<longrightarrow> pend d ++ con t (snd (wr t s)) = con t s ++ m))"

definition remover_law ::
  "(('s, 'k, 'v, 'x) tier_ops \<Rightarrow> 's \<Rightarrow> bool) \<Rightarrow> (('s, 'k, 'v, 'x) tier_ops \<Rightarrow> 's \<Rightarrow> ('k \<rightharpoonup> 'v)) \<Rightarrow>
   (('s, 'k, 'v, 'x) tier_ops \<Rightarrow> 's \<Rightarrow> ('a, 'x) result \<times> 's) \<Rightarrow> 'k set \<Rightarrow> bool"
where
  "remover_law ivt con del K \<longleftrightarrow>
     (\<forall>t s. ivt t s \<longrightarrow> ivt t (snd (del t s)) \<and>
        (\<forall>a. fst (del t s) = Ok a \<longrightarrow> con t (snd (del t s)) = con t s |` (- K)))"

lemma restrict_single: "m |` (- {k}) = m(k := None)"
  by (auto simp: restrict_map_def)

context single_laws begin

lemma put_fallible: "fallible_writer inv con (\<lambda>t s. t_put t s k v) [k \<mapsto> v]"
  by (simp add: fallible_writer_def put_inv put_con)

lemma delete_remover: "remover_law inv con (\<lambda>t s. t_delete t s k) {k}"
  by (simp add: remover_law_def delete_inv delete_con restrict_single)

end

context tier_laws begin

lemma put_many_fallible: "fallible_writer inv con (\<lambda>t s. t_put_many t s es) (pend es)"
  by (simp add: fallible_writer_def put_many_inv put_many_con)

lemma delete_many_remover: "remover_law inv con (\<lambda>t s. t_delete_many t s ks) (set ks)"
  by (simp add: remover_law_def delete_many_inv delete_many_con)

end

text \<open>The delete loops are the invalidation loop with the flags collected beside it.\<close>

lemma delete_loop_invalidate:
  "invalidate_loop (\<lambda>t s. t_delete t s k) 1 is fs ts =
   (snd (fst (delete_loop k is e fs ts)), snd (delete_loop k is e fs ts))"
  by (induction "is" arbitrary: e fs ts) (auto simp: Let_def split: prod.split sum.split)

lemma remove_loop_invalidate:
  "invalidate_loop (\<lambda>t s. t_delete_many t s ks) (length ks) is fs ts =
   (del_failures (fst (remove_loop ks is rm fs ts)), snd (remove_loop ks is rm fs ts))"
  by (induction "is" arbitrary: rm fs ts) (auto simp: Let_def split: prod.split sum.split)

lemma invalidate_spec:
  fixes ts :: "('s, 'k, 'v, 'x) slots"
  assumes "remover_law ivt con del K" "wslots_inv ivt ts" "set is \<subseteq> {..<length ts}" "distinct is"
    and "invalidate_loop del n is fs ts = (fs', ts')"
  shows "wslots_inv ivt ts' \<and> set fs \<subseteq> set fs' \<and>
    failure_tier ` set fs' \<subseteq> failure_tier ` set fs \<union> (set is \<inter> writables ts) \<and>
    (\<forall>j \<in> set is. writable (ts ! j) \<longrightarrow> j \<in> failure_tier ` set fs' \<or>
       slot_con con (ts' ! j) = slot_con con (ts ! j) |` (- K))"
  using assms(2-)
proof (induction "is" arbitrary: fs ts)
  case Nil
  then show ?case by simp
next
  case (Cons i "is")
  obtain a ts1 where c: "call i del ts = (a, ts1)" by fastforce
  have i: "i < length ts" "i \<notin> set is" "set is \<subseteq> {..<length ts}" "distinct is"
    using Cons.prems by auto
  show ?case
  proof (cases "writable (ts ! i)")
    case False
    with Cons.prems(4) have "invalidate_loop del n is fs ts = (fs', ts')" by simp
    from Cons.IH [OF Cons.prems(1) i(3,4) this] False show ?thesis by auto
  next
    case True
    have law: "ivt (slot_ops (ts ! i)) (snd (del (slot_ops (ts ! i)) (slot_state (ts ! i))))"
        "\<And>b. fst (del (slot_ops (ts ! i)) (slot_state (ts ! i))) = Ok b \<Longrightarrow>
           con (slot_ops (ts ! i)) (snd (del (slot_ops (ts ! i)) (slot_state (ts ! i)))) =
           slot_con con (ts ! i) |` (- K)"
      using assms(1) wslots_inv_nth [OF Cons.prems(1) i(1) True] by (auto simp: remover_law_def slot_con_def)
    have f: "frame {i} ts (bump i cc m ts1)" for cc m by (rule frame_call_bump [OF c]) simp
    have iv: "wslots_inv ivt (bump i cc m ts1)" for cc m
      by (rule call_bump_inv [OF c i(1) Cons.prems(1) law(1)])
    have others: "slot_con con (bump i cc m ts1 ! j) = slot_con con (ts ! j)" if "j \<noteq> i" for cc m j
      using frame_nth [OF f, of j cc m] that by simp
    have rest: "wslots_inv ivt ts' \<and> set fs2 \<subseteq> set fs' \<and>
        failure_tier ` set fs' \<subseteq> failure_tier ` set fs2 \<union> (set is \<inter> writables ts) \<and>
        (\<forall>j \<in> set is. writable (ts ! j) \<longrightarrow> j \<in> failure_tier ` set fs' \<or>
           slot_con con (ts' ! j) = slot_con con (ts ! j) |` (- K)) \<and> ts' ! i = bump i cc m ts1 ! i"
      if l: "invalidate_loop del n is fs2 (bump i cc m ts1) = (fs', ts')" for fs2 cc m
    proof -
      have "set is \<subseteq> {..<length (bump i cc m ts1)}" using i(3) frame_length [OF f] by simp
      note IH = Cons.IH [OF iv this i(4) l]
      have "frame (set is) (bump i cc m ts1) (snd (invalidate_loop del n is fs2 (bump i cc m ts1)))"
        by (rule frame_invalidate) auto
      then have "ts' ! i = bump i cc m ts1 ! i" using l i(2) by (auto intro: frame_nth)
      then show ?thesis
        using IH others i(2) frame_writables [OF f, of cc m]
        by (auto simp: frame_writable [OF f]) (metis others)+
    qed
    show ?thesis
    proof (cases a)
      case (Inl x)
      let ?f = "failure (bump i Errors 1 ts1) i x"
      have "invalidate_loop del n is (fs @ [?f]) (bump i Errors 1 ts1) = (fs', ts')"
        using Cons.prems(4) True c Inl by (simp add: Let_def)
      note r = rest [OF this]
      have "?f \<in> set fs'" using r by simp
      moreover have "failure_tier ?f = i" by (simp add: failure_def)
      ultimately have "i \<in> failure_tier ` set fs'" by (metis imageI)
      with r True show ?thesis by (auto simp: failure_def)
    next
      case (Inr b)
      have l: "invalidate_loop del n is fs (bump i Deletes n ts1) = (fs', ts')"
        using Cons.prems(4) True c Inr by simp
      have "slot_con con (bump i Deletes n ts1 ! i) = slot_con con (ts ! i) |` (- K)"
        using call_bump_nth(3) [OF c i(1)] law(2) [of b] call_fst [OF c] Inr by simp
      with rest [OF l] True show ?thesis by auto
    qed
  qed
qed

lemma layers_restrict: "layers (map (\<lambda>m. m |` A) ms) = layers ms |` A"
  by (induction ms) (auto simp: restrict_map_def map_add_def fun_eq_iff split: option.splits)

lemma wview_restrict:
  assumes "length ts' = length ts"
    and "\<And>j. j < length ts \<Longrightarrow> writable (ts' ! j) = writable (ts ! j)"
    and "\<And>j. j < length ts \<Longrightarrow> writable (ts ! j) \<Longrightarrow> slot_con con (ts' ! j) = slot_con con (ts ! j) |` A"
  shows "wview con ts' = wview con ts |` A"
proof -
  have "list_all2 (\<lambda>a b. writable a = writable b \<and> (writable b \<longrightarrow> slot_con con a = slot_con con b |` A))
      ts' ts"
    using assms by (simp add: list_all2_conv_all_nth)
  then have "map (slot_con con) (filter writable ts') =
      map (\<lambda>m. m |` A) (map (slot_con con) (filter writable ts))"
    by (induction rule: list_all2_induct) auto
  then show ?thesis by (simp add: wview_def view_def layers_restrict del: map_map)
qed

lemma wview_None_iff:
  "wview con ts k = None \<longleftrightarrow> (\<forall>j < length ts. writable (ts ! j) \<longrightarrow> slot_con con (ts ! j) k = None)"
  by (auto simp: wview_def view_def layers_None_iff all_set_conv_all_nth [where xs = ts]
           simp flip: list_all_iff) (auto simp: list_all_iff in_set_conv_nth)

lemma upt_range: "set [0..<n] \<subseteq> {..<n}"
  by auto

text \<open>An invalidation of all tiers that reports no failure.\<close>

lemma invalidate_all:
  assumes "remover_law ivt con del K" "wslots_inv ivt ts"
    and "invalidate_loop del n [0..<length ts] [] ts = ([], ts')"
  shows "wslots_inv ivt ts' \<and> wview con ts' = wview con ts |` (- K)"
proof -
  have f: "frame (writables ts) ts ts'"
    using frame_invalidate [of "[0..<length ts]" ts "writables ts" del n "[]"] assms(3) by simp
  have spec: "wslots_inv ivt ts'"
      "\<forall>j \<in> set [0..<length ts]. writable (ts ! j) \<longrightarrow>
         slot_con con (ts' ! j) = slot_con con (ts ! j) |` (- K)"
    using invalidate_spec [OF assms(1,2) upt_range distinct_upt assms(3)] by auto
  have "wview con ts' = wview con ts |` (- K)"
    using spec(2) by (intro wview_restrict) (simp_all add: frame_length [OF f] frame_writable [OF f])
  with spec(1) show ?thesis by simp
qed

lemma delete_loop_clean: "delete_loop k is e fs ts = ((e', []), ts') \<Longrightarrow> fs = []"
  by (induction "is" arbitrary: e fs ts) (auto simp: Let_def split: prod.splits sum.splits if_splits)

context single_laws begin

lemma delete_loop_flag:
  assumes "wslots_inv inv ts" "set is \<subseteq> {..<length ts}" "distinct is"
    and "delete_loop k is e [] ts = ((e', []), ts')"
  shows "e' \<longleftrightarrow> e \<or> (\<exists>j \<in> set is. writable (ts ! j) \<and> slot_con con (ts ! j) k \<noteq> None)"
  using assms
proof (induction "is" arbitrary: e ts)
  case Nil
  then show ?case by simp
next
  case (Cons i "is")
  obtain a ts1 where c: "call i (\<lambda>t s. t_delete t s k) ts = (a, ts1)" by fastforce
  have i: "i < length ts" "i \<notin> set is" "set is \<subseteq> {..<length ts}" "distinct is"
    using Cons.prems by auto
  show ?case
  proof (cases "writable (ts ! i)")
    case False
    with Cons i show ?thesis by auto
  next
    case True
    show ?thesis
    proof (cases a)
      case (Inl x)
      with Cons.prems(4) True c delete_loop_clean [of k "is" e "[failure (bump i Errors 1 ts1) i x]"] show ?thesis
        by (auto simp: Let_def)
    next
      case (Inr b)
      note law = wslots_inv_nth [OF Cons.prems(1) i(1) True]
      have f: "frame {i} ts (bump i Deletes 1 ts1)" by (rule frame_call_bump [OF c]) simp
      have iv: "wslots_inv inv (bump i Deletes 1 ts1)"
        by (rule call_bump_inv [OF c i(1) Cons.prems(1)]) (simp add: delete_inv law)
      have b: "b \<longleftrightarrow> slot_con con (ts ! i) k \<noteq> None"
        using delete_res [OF law] call_fst [OF c] Inr by (simp add: slot_con_def)
      have l: "delete_loop k is (e \<or> b) [] (bump i Deletes 1 ts1) = ((e', []), ts')"
        using Cons.prems(4) True c Inr by simp
      have "set is \<subseteq> {..<length (bump i Deletes 1 ts1)}" using i(3) frame_length [OF f] by simp
      moreover have "bump i Deletes 1 ts1 ! j = ts ! j" if "j \<in> set is" for j
        using that i(2) by (intro frame_nth [OF f]) auto
      ultimately show ?thesis using Cons.IH [OF iv _ i(4) l] b True by auto
    qed
  qed
qed

end

text \<open>
  C23. Deletes are all-tier. When \<open>delete\<close> succeeds, no writable tier holds the key any more, the
  other keys are as before, and the flag says exactly whether a writable tier held it. When it
  reports a partial failure, the list is not empty, it names only writable tiers, and every
  writable tier it does not name has lost the key: no tier was skipped. It has no other error.
\<close>

theorem router_delete_correct:
  assumes "single_laws ivt con" "wslots_inv ivt (rt_tiers r)" "router_delete r k = (res, r')"
  shows "case res of
      Ok b \<Rightarrow> wview con (rt_tiers r') = (wview con (rt_tiers r))(k := None) \<and>
              (b \<longleftrightarrow> wview con (rt_tiers r) k \<noteq> None)
    | Err (Partial fs) \<Rightarrow>
        fs \<noteq> [] \<and> failure_tier ` set fs \<subseteq> writables (rt_tiers r) \<and>
        (\<forall>j < tier_count r. writable (rt_tiers r ! j) \<and> j \<notin> failure_tier ` set fs \<longrightarrow>
           slot_con con (rt_tiers r' ! j) = (slot_con con (rt_tiers r ! j))(k := None))
    | Err _ \<Rightarrow> False"
proof -
  let ?ts = "rt_tiers r" and ?is = "[0..<length (rt_tiers r)]"
  obtain e fs ts' where l: "delete_loop k ?is False [] ?ts = ((e, fs), ts')"
    by (metis surj_pair)
  have inval: "invalidate_loop (\<lambda>t s. t_delete t s k) 1 ?is [] ?ts = (fs, ts')"
    using delete_loop_invalidate [of k ?is "[]" ?ts False] l by simp
  have res: "res = (if fs = [] then Ok e else Err (Partial fs))" "rt_tiers r' = ts'"
    using assms(3) l by (auto simp: router_delete_def)
  note rem = single_laws.delete_remover [OF assms(1)]
  show ?thesis
  proof (cases "fs = []")
    case True
    have "wview con ts' = (wview con ?ts)(k := None)"
      using invalidate_all [OF rem assms(2)] inval True by (simp add: restrict_single)
    moreover have "e \<longleftrightarrow> wview con ?ts k \<noteq> None"
      using single_laws.delete_loop_flag [OF assms(1,2) upt_range distinct_upt, of k False e ts'] l True
      by (auto simp: wview_None_iff)
    ultimately show ?thesis using res True by simp
  next
    case False
    then show ?thesis
      using invalidate_spec [OF rem assms(2) upt_range distinct_upt inval] res
      by (auto simp: tier_count_def restrict_single)
  qed
qed

section \<open>Batched deletes\<close>

lemma or_flags_map2: "length as = length bs \<Longrightarrow> or_flags as bs = map2 (\<or>) as bs"
  by (induction as bs rule: list_induct2) simp_all

lemma or_flags_assoc:
  "length as = length bs \<Longrightarrow> length bs = length cs \<Longrightarrow>
   or_flags (or_flags as bs) cs = or_flags as (or_flags bs cs)"
  by (induction as bs cs rule: list_induct3) simp_all

lemma length_or_flags [simp]: "length (or_flags as bs) = length as"
  by (induction as bs rule: or_flags.induct) simp_all

lemma or_flags_none: "or_flags (replicate (length bs) False) bs = bs"
  by (induction bs) simp_all

lemma delete_flags_none: "delete_flags Map.empty ks = replicate (length ks) False"
  by (induction ks) (simp_all add: fun_upd_idem)

lemma delete_flags_or:
  "or_flags (delete_flags m ks) (delete_flags n ks) = delete_flags (n ++ m) ks"
proof (induction ks arbitrary: m n)
  case (Cons k ks)
  have "(n ++ m)(k := None) = n(k := None) ++ m(k := None)"
    by (auto simp: map_add_def fun_eq_iff split: option.splits)
  then show ?case
    by (simp only: delete_flags.simps or_flags.simps Cons.IH map_add_None de_Morgan_conj)
qed simp

lemma or_flags_id: "or_flags rm (replicate (length rm) False) = rm"
  by (induction rm) simp_all

lemma remove_loop_clean: "remove_loop ks is rm fs ts = (rep, ts') \<Longrightarrow> del_failures rep = [] \<Longrightarrow> fs = []"
  by (induction "is" arbitrary: rm fs ts) (auto simp: Let_def split: prod.splits sum.splits if_splits)

context tier_laws begin

lemma remove_loop_flags:
  assumes "wslots_inv inv ts" "length rm = length ks"
    and "remove_loop ks [m..<length ts] rm [] ts = (rep, ts')" "del_failures rep = []"
  shows "del_removed rep = or_flags rm (delete_flags (wview con (drop m ts)) ks)"
  using assms
proof (induction "length ts - m" arbitrary: m rm ts)
  case 0
  then show ?case by (auto simp: delete_flags_none) (metis or_flags_id)
next
  case (Suc n)
  then have m: "m < length ts" and upt: "[m..<length ts] = m # [Suc m..<length ts]"
    by (auto simp: upt_conv_Cons)
  show ?case
  proof (cases "writable (ts ! m)")
    case False
    with Suc.prems(3) have "remove_loop ks [Suc m..<length ts] rm [] ts = (rep, ts')" by (simp add: upt)
    with Suc.hyps(1) [OF _ Suc.prems(1,2) this Suc.prems(4)] Suc.hyps(2) m False show ?thesis
      by (simp add: wview_drop)
  next
    case True
    obtain a ts1 where c: "call m (\<lambda>t s. t_delete_many t s ks) ts = (a, ts1)" by fastforce
    show ?thesis
    proof (cases a)
      case (Inl x)
      with Suc.prems(3,4) True c show ?thesis
        by (auto simp: upt Let_def dest!: remove_loop_clean)
    next
      case (Inr flags)
      note law = wslots_inv_nth [OF Suc.prems(1) m True]
      let ?ts1 = "bump m Deletes (length ks) ts1"
      have f: "frame {m} ts ?ts1" by (rule frame_call_bump [OF c]) simp
      have len: "length ?ts1 = length ts" by (rule frame_length [OF f])
      have iv: "wslots_inv inv ?ts1"
        by (rule call_bump_inv [OF c m Suc.prems(1)]) (simp add: delete_many_inv law)
      have flags: "flags = delete_flags (slot_con con (ts ! m)) ks"
        using delete_many_res [OF law] call_fst [OF c] Inr by (simp add: slot_con_def)
      have below: "drop (Suc m) ?ts1 = drop (Suc m) ts"
        by (rule frame_drop [OF frame_mono [OF f]]) simp
      have l: "remove_loop ks [Suc m..<length ?ts1] (or_flags rm flags) [] ?ts1 = (rep, ts')"
        using Suc.prems(3) True c Inr by (simp add: upt len)
      have "del_removed rep = or_flags (or_flags rm flags) (delete_flags (wview con (drop (Suc m) ts)) ks)"
        using Suc.hyps(1) [OF _ iv _ l Suc.prems(4)] Suc.hyps(2) Suc.prems(2) len by (simp add: below)
      then show ?thesis
        using True m Suc.prems(2) by (simp add: or_flags_assoc flags delete_flags_or wview_drop)
    qed
  qed
qed

end

text \<open>
  Batched deletes: \<open>remove_many\<close> reports a complete batch only when every writable tier took
  the whole batch; then all the keys are gone from the writable tiers, the other keys are as
  before, and the flags are those of deleting the keys one after the other from what the writable
  tiers held (a repeated key is reported as removed once). The trait's \<open>delete_many\<close> succeeds
  exactly in that case, with the same flags.
\<close>

theorem router_remove_many_correct:
  assumes "tier_laws ivt con" "wslots_inv ivt (rt_tiers r)" "router_remove_many r ks = (rep, r')"
  shows "(delete_complete rep \<longrightarrow>
            wview con (rt_tiers r') = wview con (rt_tiers r) |` (- set ks) \<and>
            del_removed rep = delete_flags (wview con (rt_tiers r)) ks) \<and>
         (\<not> delete_complete rep \<longrightarrow>
            (\<forall>j < tier_count r. writable (rt_tiers r ! j) \<and> j \<notin> failure_tier ` set (del_failures rep) \<longrightarrow>
               slot_con con (rt_tiers r' ! j) = slot_con con (rt_tiers r ! j) |` (- set ks))) \<and>
         router_delete_many r ks =
           (if delete_complete rep then Ok (del_removed rep) else Err (Partial (del_failures rep)), r')"
proof -
  let ?ts = "rt_tiers r" and ?is = "[0..<length (rt_tiers r)]"
  obtain ts' where l: "remove_loop ks ?is (replicate (length ks) False) [] ?ts = (rep, ts')"
      and r': "rt_tiers r' = ts'"
    using assms(3) by (auto simp: router_remove_many_def split: prod.splits)
  have inval: "invalidate_loop (\<lambda>t s. t_delete_many t s ks) (length ks) ?is [] ?ts = (del_failures rep, ts')"
    using remove_loop_invalidate [of ks ?is "[]" ?ts "replicate (length ks) False"] l by simp
  note rem = tier_laws.delete_many_remover [OF assms(1)]
  have "wview con ts' = wview con ?ts |` (- set ks)" if "delete_complete rep"
    using invalidate_all [OF rem assms(2)] inval that by (simp add: delete_complete_def)
  moreover have "del_removed rep = delete_flags (wview con ?ts) ks" if "delete_complete rep"
    using tier_laws.remove_loop_flags [OF assms(1,2) _ l] that
      or_flags_none [of "delete_flags (wview con ?ts) ks"]
    by (simp add: delete_complete_def)
  ultimately show ?thesis
    using invalidate_spec [OF rem assms(2) upt_range distinct_upt inval] assms(3)
    by (auto simp: r' tier_count_def router_delete_many_def)
qed

section \<open>Write-around\<close>

lemma write_around_spec:
  assumes wr: "fallible_writer ivt con wr m" and del: "remover_law ivt con del K"
    and ts: "wslots_inv ivt ts" and dom: "dom m = K"
    and run: "write_around wr del n ts = (Ok d, ts')"
  shows "\<exists>b. rposition_writable ts = Some b \<and>
    (\<forall>j < b. writable (ts ! j) \<longrightarrow> slot_con con (ts' ! j) = slot_con con (ts ! j) |` (- K)) \<and>
    wslots_inv ivt ts' \<and> pend d ++ wview con ts' = wview con ts ++ m"
proof -
  obtain b where b: "rposition_writable ts = Some b"
    using run by (cases "rposition_writable ts") (auto simp: write_around_def)
  have bw: "b < length ts" "writable (ts ! b)" and low: "\<And>j. b < j \<Longrightarrow> j < length ts \<Longrightarrow> \<not> writable (ts ! j)"
    using rposition_writable_Some [OF b] by blast+
  obtain ts1 where c: "call b wr ts = (Ok d, ts1)"
      and i: "invalidate_loop del n [0..<b] [] (bump b Puts n ts1) = ([], ts')"
    using run b by (auto simp: write_around_def Let_def split: prod.splits sum.splits if_splits)
  let ?t = "bump b Puts n ts1"
  note law = wslots_inv_nth [OF ts bw]
  have w: "ivt (slot_ops (ts ! b)) (snd (wr (slot_ops (ts ! b)) (slot_state (ts ! b))))"
      "pend d ++ con (slot_ops (ts ! b)) (snd (wr (slot_ops (ts ! b)) (slot_state (ts ! b)))) =
       slot_con con (ts ! b) ++ m"
    using wr law call_fst [OF c] by (auto simp: fallible_writer_def slot_con_def)
  have iv: "wslots_inv ivt ?t" by (rule call_bump_inv [OF c bw(1) ts w(1)])
  have f: "frame {b} ts ?t" by (rule frame_call_bump [OF c]) simp
  have "frame {j. j < b} ?t (snd (invalidate_loop del n [0..<b] [] ?t))"
    by (rule frame_invalidate) auto
  with i have g: "frame {j. j < b} ?t ts'" by simp
  have "set [0..<b] \<subseteq> {..<length ?t}" using bw(1) frame_length [OF f] by auto
  note spec = invalidate_spec [OF del iv this distinct_upt i]
  have above: "slot_con con (ts' ! j) = slot_con con (ts ! j) |` (- K)" if "j < b" "writable (ts ! j)" for j
  proof -
    have "?t ! j = ts ! j" using that by (intro frame_nth [OF f]) simp
    then show ?thesis using spec that by auto
  qed
  have len: "length ts' = length ts" using frame_length [OF f] frame_length [OF g] by simp
  have wr': "writable (ts' ! j) = writable (ts ! j)" for j
    using frame_writable [OF f, of j] frame_writable [OF g, of j] by simp
  have slot: "pend d ++ slot_con con (ts' ! b) = slot_con con (ts ! b) ++ m"
    using w(2) call_bump_nth(3) [OF c bw(1), of con Puts n] frame_nth [OF g, of b] by simp
  have empty: "wview con (drop (Suc b) us) = Map.empty"
    if "length us = length ts" "\<And>j. writable (us ! j) = writable (ts ! j)" for us
    using that low by (intro ext) (auto simp: wview_None_iff)
  have upper: "wview con (take b ts') = wview con (take b ts) |` (- K)"
    using bw(1) by (intro wview_restrict) (simp_all add: len wr' above)
  have split: "wview con us = slot_con con (us ! b) ++ wview con (take b us)"
    if "length us = length ts" "\<And>j. writable (us ! j) = writable (ts ! j)" for us
    using empty [OF that] wview_split [of con us b] wview_drop [of b us con] bw that by simp
  have "pend d ++ wview con ts' = (pend d ++ slot_con con (ts' ! b)) ++ wview con (take b ts) |` (- K)"
    by (simp add: split [OF len wr'] upper)
  also have "\<dots> = slot_con con (ts ! b) ++ wview con (take b ts) ++ m"
    using dom unfolding slot
    by (auto simp: fun_eq_iff map_add_def restrict_map_def split: option.splits)
  also have "\<dots> = wview con ts ++ m" by (simp add: split [of ts])
  finally show ?thesis using b above spec by auto
qed

lemma dom_pend: "dom (pend es) = set (map fst es)"
  by (auto simp: pend_def dom_map_of_conv_image_fst)

text \<open>
  C24. Write-around invalidates. When a write-around \<open>put\<close> (or batch) succeeds, over tiers that may
  fail, no writable tier above the written one holds any of the keys, so nothing shadows the new
  values; and nothing is lost: the returned entries and the writable tiers' contents make up what
  was there with the new entries on top.
\<close>

theorem write_around_invalidates:
  assumes "tier_laws ivt con" "wslots_inv ivt (rt_tiers r)" "pol_write (rt_policy r) = WriteAround"
  shows "(fst (router_put r k v) = Ok d \<longrightarrow>
            (\<exists>b. rposition_writable (rt_tiers r) = Some b \<and>
               (\<forall>j < b. writable (rt_tiers r ! j) \<longrightarrow>
                  slot_con con (rt_tiers (snd (router_put r k v)) ! j) k = None)) \<and>
            pend d ++ wview con (rt_tiers (snd (router_put r k v))) =
              wview con (rt_tiers r) ++ [k \<mapsto> v]) \<and>
         (fst (router_put_many r es) = Ok d \<longrightarrow>
            (\<exists>b. rposition_writable (rt_tiers r) = Some b \<and>
               (\<forall>j < b. writable (rt_tiers r ! j) \<longrightarrow>
                  (\<forall>k \<in> set (map fst es).
                     slot_con con (rt_tiers (snd (router_put_many r es)) ! j) k = None))) \<and>
            pend d ++ wview con (rt_tiers (snd (router_put_many r es))) =
              wview con (rt_tiers r) ++ pend es)"
proof (intro conjI impI)
  note single = tier_laws.axioms(1) [OF assms(1)]
  note put = write_around_spec [OF single_laws.put_fallible [OF single]
      single_laws.delete_remover [OF single] assms(2)]
  note many = write_around_spec [OF tier_laws.put_many_fallible [OF assms(1)]
      tier_laws.delete_many_remover [OF assms(1)] assms(2)]
  let ?P = "write_around (\<lambda>t s. t_put t s k v) (\<lambda>t s. t_delete t s k) 1 (rt_tiers r)"
  let ?M = "write_around (\<lambda>t s. t_put_many t s es) (\<lambda>t s. t_delete_many t s (map fst es))
      (length es) (rt_tiers r)"
  have P: "fst (router_put r k v) = fst ?P" "rt_tiers (snd (router_put r k v)) = snd ?P"
    using assms(3) by (simp_all add: router_put_def split_def Let_def)
  have M: "fst (router_put_many r es) = fst ?M" "rt_tiers (snd (router_put_many r es)) = snd ?M"
    using assms(3) by (simp_all add: router_put_many_def split_def Let_def)
  {
    assume "fst (router_put r k v) = Ok d"
    then have "?P = (Ok d, snd ?P)" by (simp add: P prod_eq_iff)
    from put [OF _ this] show "(\<exists>b. rposition_writable (rt_tiers r) = Some b \<and>
               (\<forall>j < b. writable (rt_tiers r ! j) \<longrightarrow>
                  slot_con con (rt_tiers (snd (router_put r k v)) ! j) k = None))"
        "pend d ++ wview con (rt_tiers (snd (router_put r k v))) = wview con (rt_tiers r) ++ [k \<mapsto> v]"
      by (auto simp: P)
  }
  {
    assume "fst (router_put_many r es) = Ok d"
    then have "?M = (Ok d, snd ?M)" by (simp add: M prod_eq_iff)
    from many [OF dom_pend this] show "(\<exists>b. rposition_writable (rt_tiers r) = Some b \<and>
               (\<forall>j < b. writable (rt_tiers r ! j) \<longrightarrow>
                  (\<forall>k \<in> set (map fst es).
                     slot_con con (rt_tiers (snd (router_put_many r es)) ! j) k = None)))"
        "pend d ++ wview con (rt_tiers (snd (router_put_many r es))) = wview con (rt_tiers r) ++ pend es"
      by (auto simp: M)
  }
qed

end
