(* ===== verification/Router_Reads.thy ===== *)
theory Router_Reads
  imports Router_Get Router_Writes
begin

text \<open>
  What the router's reads mean, over tiers that keep the contract and may fail: a value comes from
  the topmost tier that holds it (but for tiers that failed), a miss is confirmed by every tier,
  and everything else is an error that says so. Promotion over reliable tiers conserves contents.
\<close>

section \<open>Scanning\<close>

text \<open>A probe of one tier that changes no contents and answers \<open>g\<close> of them, or fails.\<close>

definition reader_law ::
  "(('s, 'k, 'v, 'x) tier_ops \<Rightarrow> 's \<Rightarrow> bool) \<Rightarrow> (('s, 'k, 'v, 'x) tier_ops \<Rightarrow> 's \<Rightarrow> ('k \<rightharpoonup> 'v)) \<Rightarrow>
   (('s, 'k, 'v, 'x) tier_ops \<Rightarrow> 's \<Rightarrow> ('a, 'x) result \<times> 's) \<Rightarrow> (('k \<rightharpoonup> 'v) \<Rightarrow> 'a) \<Rightarrow> bool"
where
  "reader_law ivt con ask g \<longleftrightarrow>
     (\<forall>t s. ivt t s \<longrightarrow> ivt t (snd (ask t s)) \<and> con t (snd (ask t s)) = con t s \<and>
        (\<forall>a. fst (ask t s) = Ok a \<longrightarrow> a = g (con t s)))"

text \<open>The tier at an index fails the probe.\<close>

definition probe_fails ::
  "(('s, 'k, 'v, 'x) tier_ops \<Rightarrow> 's \<Rightarrow> ('a, 'x) result \<times> 's) \<Rightarrow> ('s, 'k, 'v, 'x) slots \<Rightarrow> nat \<Rightarrow> bool"
where
  "probe_fails ask ts j \<longleftrightarrow> \<not> is_ok (fst (ask (slot_ops (ts ! j)) (slot_state (ts ! j))))"

text \<open>Two states of the slots with the same contents, tables and write capabilities.\<close>

definition same_contents ::
  "(('s, 'k, 'v, 'x) tier_ops \<Rightarrow> 's \<Rightarrow> bool) \<Rightarrow> (('s, 'k, 'v, 'x) tier_ops \<Rightarrow> 's \<Rightarrow> ('k \<rightharpoonup> 'v)) \<Rightarrow>
   ('s, 'k, 'v, 'x) slots \<Rightarrow> ('s, 'k, 'v, 'x) slots \<Rightarrow> bool"
where
  "same_contents ivt con ts ts' \<longleftrightarrow>
     frame UNIV ts ts' \<and> (\<forall>j < length ts. slot_con con (ts' ! j) = slot_con con (ts ! j)) \<and>
     (slots_inv ivt ts \<longrightarrow> slots_inv ivt ts')"

lemma same_contents_refl [simp]: "same_contents ivt con ts ts"
  by (simp add: same_contents_def)

lemma same_contents_trans:
  "same_contents ivt con a b \<Longrightarrow> same_contents ivt con b c \<Longrightarrow> same_contents ivt con a c"
  by (auto simp: same_contents_def frame_length intro: frame_trans)

lemma same_contents_bump: "same_contents ivt con ts (bump i c n ts)"
proof -
  have "frame UNIV ts (bump i c n ts)" by (rule frame_mono [OF frame_bump]) simp
  moreover have "slot_con con (bump i c n ts ! j) = slot_con con (ts ! j)" if "j < length ts" for j
    using that by (cases "i = j") (simp_all add: bump_def slot_con_def)
  moreover have "slots_inv ivt (bump i c n ts)" if "slots_inv ivt ts"
    using that
    by (cases "i < length ts")
       (auto simp: slots_inv_def bump_def all_set_conv_all_nth nth_list_update list_update_beyond not_less)
  ultimately show ?thesis by (simp add: same_contents_def)
qed

lemma same_contents_wview: "same_contents ivt con ts ts' \<Longrightarrow> wview con ts' = wview con ts"
  using wview_restrict [of ts' ts con UNIV]
  by (auto simp: same_contents_def frame_length frame_writable restrict_map_def)

lemma same_contents_view: "same_contents ivt con ts ts' \<Longrightarrow> view con ts' = view con ts"
  by (auto simp: same_contents_def view_def frame_length intro!: arg_cong [where f = layers] nth_equalityI)

lemma view_None_iff: "view con ts k = None \<longleftrightarrow> (\<forall>j < length ts. slot_con con (ts ! j) k = None)"
  by (simp add: view_def layers_None_iff all_set_conv_all_nth [where xs = ts])

lemma layers_first:
  "i < length ms \<Longrightarrow> (\<forall>j < i. (ms ! j) k = None) \<Longrightarrow> (ms ! i) k \<noteq> None \<Longrightarrow> layers ms k = (ms ! i) k"
proof (induction ms arbitrary: i)
  case (Cons m ms)
  show ?case
  proof (cases i)
    case 0
    with Cons.prems show ?thesis by (auto simp: map_add_def split: option.splits)
  next
    case (Suc n)
    then have "m k = None" "\<forall>j < n. (ms ! j) k = None" using Cons.prems(2) by force+
    with Cons.IH [of n] Cons.prems Suc show ?thesis by (simp add: map_add_def)
  qed
qed simp

lemma view_first:
  assumes "i < length ts" "\<forall>j < i. slot_con con (ts ! j) k = None" "slot_con con (ts ! i) k = Some v"
  shows "view con ts k = Some v"
  using layers_first [of i "map (slot_con con) ts" k] assms by (simp add: view_def)

lemma probe_call:
  assumes law: "reader_law ivt con ask g" and ts: "slots_inv ivt ts" "i < length ts"
    and c: "call i ask ts = (a, ts1)"
  shows "same_contents ivt con ts (bump i cc n ts1)"
    and "\<And>w. a = Ok w \<Longrightarrow> w = g (slot_con con (ts ! i))"
    and "probe_fails ask ts i \<longleftrightarrow> \<not> is_ok a"
    and "\<And>j. j \<noteq> i \<Longrightarrow> bump i cc n ts1 ! j = ts ! j"
proof -
  let ?r = "ask (slot_ops (ts ! i)) (slot_state (ts ! i))"
  have l: "ivt (slot_ops (ts ! i)) (snd ?r)" "con (slot_ops (ts ! i)) (snd ?r) = slot_con con (ts ! i)"
      "\<And>w. fst ?r = Ok w \<Longrightarrow> w = g (slot_con con (ts ! i))"
    using law slots_inv_nth [OF ts] by (simp_all add: reader_law_def slot_con_def)
  have f: "frame {i} ts (bump i cc n ts1)" by (rule frame_call_bump [OF c]) simp
  show other: "bump i cc n ts1 ! j = ts ! j" if "j \<noteq> i" for j
    using frame_nth [OF f, of j] that by simp
  have "slot_con con (bump i cc n ts1 ! j) = slot_con con (ts ! j)" for j
    using other [of j] call_bump_nth(3) [OF c ts(2), of con cc n] l(2) by (cases "j = i") simp_all
  moreover have "slots_inv ivt (bump i cc n ts1)"
    using ts l(1) c
    by (auto simp: slots_inv_def call_def bump_def Let_def split_def all_set_conv_all_nth nth_list_update)
  ultimately show "same_contents ivt con ts (bump i cc n ts1)"
    using frame_mono [OF f] by (simp add: same_contents_def)
  show "\<And>w. a = Ok w \<Longrightarrow> w = g (slot_con con (ts ! i))" using l(3) call_fst [OF c] by simp
  show "probe_fails ask ts i \<longleftrightarrow> \<not> is_ok a" using call_fst [OF c] by (simp add: probe_fails_def)
qed

text \<open>What a scan of the tiers from \<open>a\<close> down reports.\<close>

definition scan_meaning ::
  "(nat \<Rightarrow> 'w option) \<Rightarrow> (nat \<Rightarrow> bool) \<Rightarrow> on_read_error \<Rightarrow> nat \<Rightarrow> nat \<Rightarrow> bool \<Rightarrow> ('w, 'x) scan \<Rightarrow> bool"
where
  "scan_meaning held failed m a n clean sc \<longleftrightarrow>
     (case sc of
        Scan_Hit i w \<Rightarrow>
          a \<le> i \<and> i < n \<and> held i = Some w \<and>
          (\<forall>j. a \<le> j \<and> j < i \<longrightarrow> held j = None \<or> m = FallThrough \<and> failed j)
      | Scan_Miss \<Rightarrow> clean \<and> (\<forall>j. a \<le> j \<and> j < n \<longrightarrow> held j = None \<and> \<not> failed j)
      | Scan_Inconclusive fs \<Rightarrow>
          fs \<noteq> [] \<and> (clean \<longrightarrow> m = FallThrough \<and> (\<exists>j. a \<le> j \<and> j < n \<and> failed j)) \<and>
          (\<forall>j. a \<le> j \<and> j < n \<longrightarrow> held j = None \<or> failed j)
      | Scan_Failed f \<Rightarrow>
          m = FailFast \<and> a \<le> failure_tier f \<and> failure_tier f < n \<and> failed (failure_tier f) \<and>
          (\<forall>j. a \<le> j \<and> j < failure_tier f \<longrightarrow> held j = None))"

lemma from_here: "(\<forall>j. a \<le> j \<and> j < b \<longrightarrow> P j) \<longleftrightarrow> (a < b \<longrightarrow> P a) \<and> (\<forall>j. Suc a \<le> j \<and> j < b \<longrightarrow> P j)"
  by (metis Suc_leI Suc_le_lessD le_less order.strict_trans1)

lemma scan_meaning_miss:
  "held a = None \<Longrightarrow> \<not> failed a \<Longrightarrow> a < n \<Longrightarrow> scan_meaning held failed m (Suc a) n clean sc \<Longrightarrow>
   scan_meaning held failed m a n clean sc"
  unfolding scan_meaning_def
  by (cases sc; simp only: scan.case from_here [of a]) (auto simp: Suc_le_eq dest: less_imp_le)

lemma scan_meaning_fail:
  "failed a \<Longrightarrow> a < n \<Longrightarrow> scan_meaning held failed FallThrough (Suc a) n False sc \<Longrightarrow>
   scan_meaning held failed FallThrough a n clean sc"
  unfolding scan_meaning_def
  by (cases sc; simp only: scan.case from_here [of a]) (auto simp: Suc_le_eq dest: less_imp_le)

lemma scan_spec:
  fixes ts :: "('s, 'k, 'v, 'x) slots" and g :: "('k \<rightharpoonup> 'v) \<Rightarrow> 'w option"
  assumes "reader_law ivt con ask g" "slots_inv ivt ts" "scan_tiers m ask [a..<length ts] fs ts = (sc, ts')"
  shows "same_contents ivt con ts ts' \<and>
    scan_meaning (\<lambda>j. g (slot_con con (ts ! j))) (probe_fails ask ts) m a (length ts) (fs = []) sc"
  using assms(2,3)
proof (induction "length ts - a" arbitrary: a fs ts)
  case 0
  then show ?case by (auto simp: scan_meaning_def split: if_splits)
next
  case (Suc n)
  then have a: "a < length ts" and upt: "[a..<length ts] = a # [Suc a..<length ts]"
    by (auto simp: upt_conv_Cons)
  obtain r ts1 where c: "call a ask ts = (r, ts1)" by fastforce
  note pc = probe_call [OF assms(1) Suc.prems(1) a c]
  have IH: "same_contents ivt con ts ts' \<and>
      scan_meaning (\<lambda>j. g (slot_con con (ts ! j))) (probe_fails ask ts) m (Suc a) (length ts) (fs2 = []) sc"
    if l: "scan_tiers m ask [Suc a..<length ts] fs2 (bump a cc k ts1) = (sc, ts')"
    for fs2 and cc :: counter and k :: nat
  proof -
    let ?t = "bump a cc k ts1"
    have sc: "same_contents ivt con ts ?t" by (rule pc(1))
    then have iv: "slots_inv ivt ?t" and len: "length ?t = length ts"
      using Suc.prems(1) by (auto simp: same_contents_def frame_length)
    have "same_contents ivt con ?t ts' \<and>
      scan_meaning (\<lambda>j. g (slot_con con (?t ! j))) (probe_fails ask ?t) m (Suc a) (length ts) (fs2 = []) sc"
      using Suc.hyps(1) [of ?t "Suc a" fs2] iv len l Suc.hyps(2) by simp
    moreover have "?t ! j = ts ! j" if "Suc a \<le> j" for j using that by (intro pc(4)) simp
    ultimately show ?thesis
      using same_contents_trans [OF sc]
      by (auto simp: scan_meaning_def probe_fails_def split: scan.splits)
  qed
  show ?case
  proof (cases r)
    case (Inl x)
    then have failed: "probe_fails ask ts a" using pc(3) by simp
    let ?t = "bump a Errors 1 ts1"
    show ?thesis
    proof (cases m)
      case FailFast
      then have "sc = Scan_Failed (failure ?t a x)" "ts' = ?t"
        using Suc.prems(2) c Inl by (auto simp: upt Let_def)
      then show ?thesis using pc(1) [of Errors 1] FailFast failed a
        by (auto simp: scan_meaning_def failure_def)
    next
      case FallThrough
      then have "scan_tiers m ask [Suc a..<length ts] (fs @ [failure ?t a x]) ?t = (sc, ts')"
        using Suc.prems(2) c Inl by (simp add: upt Let_def)
      from IH [OF this] FallThrough failed a show ?thesis by (auto intro: scan_meaning_fail)
    qed
  next
    case (Inr w)
    then have w: "w = g (slot_con con (ts ! a))" and answered: "\<not> probe_fails ask ts a" using pc(2,3) by simp_all
    show ?thesis
    proof (cases w)
      case None
      then have "scan_tiers m ask [Suc a..<length ts] fs (bump a Misses 1 ts1) = (sc, ts')"
        using Suc.prems(2) c Inr by (simp add: upt)
      from IH [OF this] None w answered a show ?thesis by (auto intro: scan_meaning_miss)
    next
      case (Some v)
      then have "sc = Scan_Hit a v" "ts' = bump a Hits 1 ts1"
        using Suc.prems(2) c Inr by (simp_all add: upt)
      then show ?thesis using pc(1) [of Hits 1] Some w a by (auto simp: scan_meaning_def)
    qed
  qed
qed

context single_laws begin

lemma get_reader: "reader_law inv con (\<lambda>t s. t_get t s k) (\<lambda>m. m k)"
  by (simp add: reader_law_def get_inv get_con get_res)

lemma exists_reader: "reader_law inv con (ask_exists k) (\<lambda>m. if m k = None then None else Some ())"
  unfolding reader_law_def
proof (intro allI impI)
  fix t s
  assume "inv t s"
  then show "inv t (snd (ask_exists k t s)) \<and> con t (snd (ask_exists k t s)) = con t s \<and>
    (\<forall>a. fst (ask_exists k t s) = Ok a \<longrightarrow> a = (if con t s k = None then None else Some ()))"
    using exists_inv [of t s k] exists_con [of t s k] exists_res [of t s k]
    by (cases "fst (t_exists t s k)") (auto simp: ask_exists_def)
qed

end

section \<open>Single reads\<close>

text \<open>The tier at index \<open>j\<close> holds the key, and its \<open>get\<close> or \<open>exists\<close> fails.\<close>

definition holds ::
  "(('s, 'k, 'v, 'x) tier_ops \<Rightarrow> 's \<Rightarrow> ('k \<rightharpoonup> 'v)) \<Rightarrow> ('s, 'k, 'v, 'x) router \<Rightarrow> nat \<Rightarrow> 'k \<Rightarrow> bool" where
  "holds con r j k \<longleftrightarrow> slot_con con (rt_tiers r ! j) k \<noteq> None"

definition get_fails :: "('s, 'k, 'v, 'x) router \<Rightarrow> nat \<Rightarrow> 'k \<Rightarrow> bool" where
  "get_fails r j k \<longleftrightarrow> probe_fails (\<lambda>t s. t_get t s k) (rt_tiers r) j"

text \<open>
  C2. Honest reads. Over tiers that keep the contract but may fail, a value \<open>get\<close> returns is the
  one of the topmost tier that holds the key, except that a fall-through policy may have passed
  over failing tiers above it; \<open>Ok None\<close> means that every tier answered and none holds the key;
  \<open>Inconclusive\<close> comes only from a fall-through policy, lists failures, and no tier that answered
  holds the key; a tier error comes only from a fail-fast policy and names the failing tier. Under
  fail-fast, an \<open>Ok\<close> is exactly what the hierarchy serves.
\<close>

theorem router_get_honest:
  assumes "single_laws ivt con" "slots_inv ivt (rt_tiers r)" "router_get r k = Some (res, r')"
  shows "(case res of
      Ok (Some v) \<Rightarrow>
        \<exists>i < tier_count r. slot_con con (rt_tiers r ! i) k = Some v \<and>
          (\<forall>j < i. \<not> holds con r j k \<or>
             rp_on_error (pol_read (rt_policy r)) = FallThrough \<and> get_fails r j k)
    | Ok None \<Rightarrow> \<forall>j < tier_count r. \<not> holds con r j k \<and> \<not> get_fails r j k
    | Err (Inconclusive fs) \<Rightarrow>
        fs \<noteq> [] \<and> rp_on_error (pol_read (rt_policy r)) = FallThrough \<and>
        (\<forall>j < tier_count r. \<not> holds con r j k \<or> get_fails r j k)
    | Err (Tier_Failed f) \<Rightarrow>
        rp_on_error (pol_read (rt_policy r)) = FailFast \<and> failure_tier f < tier_count r \<and>
        get_fails r (failure_tier f) k \<and> (\<forall>j < failure_tier f. \<not> holds con r j k)
    | Err _ \<Rightarrow> False) \<and>
    (rp_on_error (pol_read (rt_policy r)) = FailFast \<longrightarrow>
       (\<forall>x. res = Ok x \<longrightarrow> x = view con (rt_tiers r) k))"
proof -
  let ?ts = "rt_tiers r" and ?m = "rp_on_error (pol_read (rt_policy r))"
  obtain sc ts' where s: "scan_tiers ?m (\<lambda>t s. t_get t s k) [0..<length ?ts] [] ?ts = (sc, ts')"
    by fastforce
  have res: "res = scan_result Some None sc"
    using assms(3) s by (simp add: router_get_eq get_reference_def Let_def)
  have m: "scan_meaning (\<lambda>j. slot_con con (?ts ! j) k) (\<lambda>j. get_fails r j k) ?m 0 (length ?ts) True sc"
    using scan_spec [OF single_laws.get_reader [OF assms(1)] assms(2) s]
    by (simp add: get_fails_def)
  have first: "x = view con ?ts k" if ff: "?m = FailFast" and x: "res = Ok x" for x
  proof (cases sc)
    case (Scan_Hit i w)
    then have "i < length ?ts" "slot_con con (?ts ! i) k = Some w" "\<forall>j < i. slot_con con (?ts ! j) k = None"
      using m ff by (auto simp: scan_meaning_def)
    with Scan_Hit x res view_first [of i ?ts con k w] show ?thesis by auto
  next
    case Scan_Miss
    then have "view con ?ts k = None" using m by (simp add: scan_meaning_def view_None_iff)
    with Scan_Miss x res show ?thesis by simp
  qed (use x res in simp_all)
  show ?thesis
    using m first by (cases sc) (auto simp: res scan_meaning_def holds_def tier_count_def)
qed

text \<open>
  Existence checks never write: whatever the policy, \<open>exists\<close> changes no tier's contents,
  \<open>false\<close> is only answered when no tier holds the key, and \<open>true\<close> only when some tier does.
\<close>

theorem router_exists_honest:
  assumes "single_laws ivt con" "slots_inv ivt (rt_tiers r)" "router_exists r k = Some (res, r')"
  shows "view con (rt_tiers r') = view con (rt_tiers r) \<and>
    (res = Ok False \<longrightarrow> view con (rt_tiers r) k = None) \<and>
    (res = Ok True \<longrightarrow> view con (rt_tiers r) k \<noteq> None)"
proof -
  let ?ts = "rt_tiers r" and ?m = "rp_on_error (pol_read (rt_policy r))"
  obtain sc ts' where s: "scan_tiers ?m (ask_exists k) [0..<length ?ts] [] ?ts = (sc, ts')"
    by fastforce
  have res: "res = scan_result (\<lambda>_. True) False sc" "rt_tiers r' = ts'"
    using assms(3) s by (auto simp: router_exists_eq exists_reference_def Let_def)
  note spec = scan_spec [OF single_laws.exists_reader [OF assms(1)] assms(2) s]
  have "view con ts' = view con ?ts" using spec same_contents_view by blast
  moreover have "view con ?ts k = None" if "res = Ok False"
    using spec that res(1)
    by (cases sc) (auto simp: scan_meaning_def view_None_iff split: if_splits)
  moreover have "view con ?ts k \<noteq> None" if "res = Ok True"
    using spec that res(1)
    by (cases sc) (auto simp: scan_meaning_def view_None_iff split: if_splits)
  ultimately show ?thesis by (simp add: res(2))
qed

section \<open>Promotion conserves\<close>

context reliable_tiers begin

lemma fill_one_conserves:
  assumes "wslots_inv inv ts" "i < length ts" "pol_demote_displaced p" "writable (ts ! i)"
    and "\<forall>j < i. writable (ts ! j) \<longrightarrow> slot_con con (ts ! j) k \<in> {None, Some v}"
  shows "\<exists>off. pend off ++ wview con (fill_one p (\<lambda>t s. t_put t s k v) n i ts) = wview con ts ++ [k \<mapsto> v] \<and>
    slot_con con (fill_one p (\<lambda>t s. t_put t s k v) n i ts ! i) k \<in> {None, Some v} \<and>
    frame {j. i \<le> j} ts (fill_one p (\<lambda>t s. t_put t s k v) n i ts) \<and>
    wslots_inv inv (fill_one p (\<lambda>t s. t_put t s k v) n i ts)"
proof -
  obtain d ts1 off ts2 where w: "call i (\<lambda>t s. t_put t s k v) ts = (Ok d, ts1)"
      "demote i d (bump i Puts n ts1) = (off, ts2)" "wslots_inv inv ts2" "frame {j. i \<le> j} ts ts2"
      "pend off ++ wview con (drop i ts2) = wview con (drop i ts) ++ [k \<mapsto> v]"
      "pend d ++ slot_con con (ts2 ! i) = slot_con con (ts ! i) ++ [k \<mapsto> v]"
      "d = [] \<longrightarrow> off = [] \<and> ts2 = bump i Puts n ts1"
    by (rule write_demote_conserves
          [where n = n, OF put_writer assms(1,2,4)])
  have fill: "fill_one p (\<lambda>t s. t_put t s k v) n i ts = ts2"
    using w(1,2,7) assms(3,4) by (cases "d = []") (auto simp: fill_one_def Let_def)
  have take: "take i ts2 = take i ts" by (rule frame_take [OF w(4)])
  have "wview con (take i ts) k \<in> {None, Some v}"
  proof (cases "wview con (take i ts) k")
    case (Some x)
    obtain m where "m \<in> set (map (slot_con con) (filter writable (take i ts)))" "m k = Some x"
      using Some layers_Some_in [of "map (slot_con con) (filter writable (take i ts))" k x]
      by (auto simp: wview_def view_def)
    with assms(2,5) Some show ?thesis by (auto simp: in_set_conv_nth)
  qed simp
  then have "wview con (drop i ts) ++ [k \<mapsto> v] ++ wview con (take i ts) =
      (wview con (drop i ts) ++ wview con (take i ts)) ++ [k \<mapsto> v]"
    by (intro map_add_upd_under) simp
  also have "\<dots> = wview con ts ++ [k \<mapsto> v]" by (simp only: wview_split [of con ts i, symmetric])
  finally have "wview con (drop i ts) ++ [k \<mapsto> v] ++ wview con (take i ts) =
      wview con ts ++ [k \<mapsto> v]" .
  moreover have "pend off ++ wview con ts2 = pend off ++ wview con (drop i ts2) ++ wview con (take i ts)"
    by (subst wview_split [of con ts2 i]) (simp add: take)
  ultimately have "pend off ++ wview con ts2 = wview con ts ++ [k \<mapsto> v]" using w(5) by simp
  moreover have "slot_con con (ts2 ! i) k \<in> {None, Some v}"
    using fun_cong [OF w(6), of k] by (auto simp: map_add_def split: option.splits)
  ultimately show ?thesis using w(3,4) fill by auto
qed

lemma fill_all_conserves:
  assumes "wslots_inv inv ts" "b \<le> length ts" "pol_demote_displaced p"
    and "\<forall>j < a. writable (ts ! j) \<longrightarrow> slot_con con (ts ! j) k \<in> {None, Some v}"
  shows "\<exists>ev. pend ev ++ wview con (fill_all p k v [a..<b] ts) \<in> {wview con ts, wview con ts ++ [k \<mapsto> v]}"
  using assms
proof (induction "b - a" arbitrary: a ts)
  case 0
  then have "pend [] ++ wview con (fill_all p k v [a..<b] ts) = wview con ts" by simp
  then show ?case by blast
next
  case (Suc n)
  then have a: "a < length ts" and upt: "[a..<b] = a # [Suc a..<b]" by (auto simp: upt_conv_Cons)
  let ?t = "fill_one p (\<lambda>t s. t_put t s k v) 1 a ts"
  show ?case
  proof (cases "writable (ts ! a)")
    case False
    then have "?t = ts" by (simp add: fill_one_def)
    moreover have "\<forall>j < Suc a. writable (ts ! j) \<longrightarrow> slot_con con (ts ! j) k \<in> {None, Some v}"
      using Suc.prems(4) False by (auto simp: less_Suc_eq)
    ultimately show ?thesis
      using Suc.hyps(1) [of "Suc a" ts] Suc.hyps(2) Suc.prems by (simp add: upt)
  next
    case True
    obtain off where f: "pend off ++ wview con ?t = wview con ts ++ [k \<mapsto> v]"
        "slot_con con (?t ! a) k \<in> {None, Some v}" "frame {j. a \<le> j} ts ?t" "wslots_inv inv ?t"
      using fill_one_conserves [OF Suc.prems(1) a Suc.prems(3) True Suc.prems(4)] by blast
    have "\<forall>j < Suc a. writable (?t ! j) \<longrightarrow> slot_con con (?t ! j) k \<in> {None, Some v}"
    proof (intro allI impI)
      fix j
      assume "j < Suc a" "writable (?t ! j)"
      then show "slot_con con (?t ! j) k \<in> {None, Some v}"
        using f(2) Suc.prems(4) frame_nth [OF f(3), of j] by (cases "j = a") auto
    qed
    moreover have "n = b - Suc a" "b \<le> length ?t"
      using Suc.hyps(2) Suc.prems(2) frame_length [OF f(3)] by auto
    ultimately obtain ev where ev: "pend ev ++ wview con (fill_all p k v [Suc a..<b] ?t) \<in>
        {wview con ?t, wview con ?t ++ [k \<mapsto> v]}"
      using Suc.hyps(1) [of "Suc a" ?t] f(4) Suc.prems(3) by blast
    have "pend off ++ (pend ev ++ wview con (fill_all p k v [Suc a..<b] ?t)) = wview con ts ++ [k \<mapsto> v]"
      using ev f(1) map_add_upd_absorb [of "wview con ts" k v Map.empty]
      by (elim insertE emptyE) simp_all
    then have "pend (off @ ev) ++ wview con (fill_all p k v [Suc a..<b] ?t) = wview con ts ++ [k \<mapsto> v]"
      by simp
    then show ?thesis unfolding upt fill_all.simps by blast
  qed
qed

end

text \<open>
  C25. A read never changes what the store holds, except for what its promotions push off the
  bottom: over reliable tiers and with demotion, \<open>get\<close> succeeds, and some list of discarded entries
  together with the writable tiers' contents afterwards is what they held before, possibly with
  the promoted entry on top.
\<close>

theorem router_get_conserves:
  assumes "reliable_tiers ivt con" "slots_inv ivt (rt_tiers r)" "pol_demote_displaced (rt_policy r)"
    and "router_get r k = Some (res, r')"
  shows "\<exists>x ev. res = Ok x \<and>
    (pend ev ++ wview con (rt_tiers r') = wview con (rt_tiers r) \<or>
     (\<exists>v. x = Some v \<and> pend ev ++ wview con (rt_tiers r') = wview con (rt_tiers r) ++ [k \<mapsto> v]))"
proof -
  let ?ts = "rt_tiers r" and ?p = "rt_policy r"
  let ?m = "rp_on_error (pol_read ?p)"
  note laws = tier_laws.axioms(1) [OF reliable_tiers.axioms(1) [OF assms(1)]]
  obtain sc ts' where s: "scan_tiers ?m (\<lambda>t s. t_get t s k) [0..<length ?ts] [] ?ts = (sc, ts')"
    by fastforce
  have res: "res = scan_result Some None sc" "rt_tiers r' = promote_hit ?p k sc ts'"
    using assms(4) s by (auto simp: router_get_eq get_reference_def Let_def)
  note spec = scan_spec [OF single_laws.get_reader [OF laws] assms(2) s]
  have same: "same_contents ivt con ?ts ts'" using spec by blast
  then have iv: "wslots_inv ivt ts'" and len: "length ts' = length ?ts"
    using assms(2) slots_inv_wslots by (auto simp: same_contents_def frame_length)
  note wv = same_contents_wview [OF same]
  have ok: "\<not> probe_fails (\<lambda>t s. t_get t s k) ?ts j" if "j < length ?ts" for j
    using reliable_tiers.get_ok [OF assms(1) slots_inv_nth [OF assms(2) that]]
    by (simp add: probe_fails_def)
  show ?thesis
  proof (cases sc)
    case (Scan_Hit i v)
    have "i < length ts'" using spec Scan_Hit len by (simp add: scan_meaning_def)
    then have "\<exists>b \<le> length ts'. promotion_targets (rp_promote (pol_read ?p)) i = [0..<b]"
      by (cases "rp_promote (pol_read ?p)"; cases "i = 0")
         (auto intro: exI [of _ 0] exI [of _ i] exI [of _ 1])
    then obtain b where b: "promotion_targets (rp_promote (pol_read ?p)) i = [0..<b]" "b \<le> length ts'"
      by blast
    obtain ev where "pend ev ++ wview con (rt_tiers r') \<in> {wview con ts', wview con ts' ++ [k \<mapsto> v]}"
      using reliable_tiers.fill_all_conserves [OF assms(1) iv b(2) assms(3), of 0 k v] res(2)
      by (auto simp: Scan_Hit b(1))
    then show ?thesis using Scan_Hit res(1) by (auto simp: wv)
  next
    case Scan_Miss
    then have "pend [] ++ wview con (rt_tiers r') = wview con ?ts" "res = Ok None"
      using res by (simp_all add: wv)
    then show ?thesis by blast
  qed (use spec ok in \<open>auto simp: scan_meaning_def\<close>)
qed

end
