(* ===== verification/Router_Batch.thy ===== *)
theory Router_Batch
  imports Router_Reads
begin

text \<open>
  Batched reads of the router: per-key outcomes, over tiers that keep the contract and may fail.
\<close>

section \<open>Storing what a tier found\<close>

lemma resolve_spec:
  assumes "distinct js" "set js \<subseteq> {..<length sts}"
  shows "length (fst (resolve i (map (\<lambda>j. (j, f j)) js) sts)) = length sts \<and>
    snd (resolve i (map (\<lambda>j. (j, f j)) js) sts) = filter (\<lambda>j. f j = None) js \<and>
    (\<forall>j. fst (resolve i (map (\<lambda>j. (j, f j)) js) sts) ! j =
       (if j \<in> set js \<and> f j \<noteq> None then Status_Hit i (the (f j)) else sts ! j))"
  using assms
proof (induction js arbitrary: sts)
  case Nil
  then show ?case by simp
next
  case (Cons j js)
  show ?case
  proof (cases "f j")
    case None
    with Cons show ?thesis by (auto simp: Let_def split_def)
  next
    case (Some v)
    have "set js \<subseteq> {..<length (sts[j := Status_Hit i v])}" using Cons.prems(2) by simp
    with Cons.IH [of "sts[j := Status_Hit i v]"] Cons.prems Some show ?thesis
      by (auto simp: nth_list_update)
  qed
qed

lemma mark_inconclusive_length [simp]: "length (mark_inconclusive js sts) = length sts"
  by (induction js arbitrary: sts) simp_all

lemma mark_inconclusive_nth:
  "set js \<subseteq> {..<length sts} \<Longrightarrow>
   mark_inconclusive js sts ! j = (if j \<in> set js then Status_Inconclusive else sts ! j)"
  by (induction js arbitrary: sts) (auto simp: nth_list_update)

section \<open>The loop\<close>

text \<open>
  After the tiers above \<open>a\<close>: a resolved key was found in the topmost tier that holds it (but for
  tiers that failed), an unresolved one is in none of them (but for tiers that failed).
\<close>

definition absent_above :: "(nat \<Rightarrow> 'k \<Rightarrow> 'v option) \<Rightarrow> 'x tier_failure list \<Rightarrow> nat \<Rightarrow> 'k \<Rightarrow> bool" where
  "absent_above held fs a k \<longleftrightarrow> (\<forall>i < a. held i k = None \<or> i \<in> failure_tier ` set fs)"

definition batch_meaning ::
  "(nat \<Rightarrow> 'k \<Rightarrow> 'v option) \<Rightarrow> 'k list \<Rightarrow> nat \<Rightarrow> 'v key_status list \<Rightarrow> nat list \<Rightarrow>
   'x tier_failure list \<Rightarrow> bool"
where
  "batch_meaning held ks a sts un fs \<longleftrightarrow>
     length sts = length ks \<and> distinct un \<and> set un \<subseteq> {..<length ks} \<and>
     (\<forall>j < length ks. if j \<in> set un then sts ! j = Status_Miss \<and> absent_above held fs a (ks ! j)
        else \<exists>t v. sts ! j = Status_Hit t v \<and> t < a \<and> held t (ks ! j) = Some v \<and>
               absent_above held fs t (ks ! j))"

lemma absent_above_mono: "absent_above held fs a k \<Longrightarrow> set fs \<subseteq> set fs' \<Longrightarrow> absent_above held fs' a k"
  by (auto simp: absent_above_def)

lemma absent_above_Suc:
  "absent_above held fs a k \<Longrightarrow> held a k = None \<or> a \<in> failure_tier ` set fs \<Longrightarrow>
   absent_above held fs (Suc a) k"
  by (auto simp: absent_above_def less_Suc_eq)

lemma batch_meaning_fail:
  assumes "batch_meaning held ks a sts un fs"
  shows "batch_meaning held ks (Suc a) sts un (fs @ [TierFailure a name x])"
proof -
  have "absent_above held (fs @ [TierFailure a name x]) (Suc a) k" if "absent_above held fs a k" for k
    using that by (intro absent_above_Suc) (auto intro: absent_above_mono)
  moreover have "absent_above held (fs @ [TierFailure a name x]) t k" if "absent_above held fs t k" for t k
    using that by (rule absent_above_mono) auto
  ultimately show ?thesis using assms unfolding batch_meaning_def by (auto split: if_splits)
qed

lemma batch_meaning_found:
  assumes b: "batch_meaning held ks a sts un fs"
    and r: "resolve a (map (\<lambda>j. (j, held a (ks ! j))) un) sts = (sts', un')"
  shows "batch_meaning held ks (Suc a) sts' un' fs"
proof -
  have un: "distinct un" "set un \<subseteq> {..<length sts}" "length sts = length ks"
    using b by (auto simp: batch_meaning_def)
  note spec = resolve_spec [OF un(1,2), of a "\<lambda>j. held a (ks ! j)"]
  have un': "un' = filter (\<lambda>j. held a (ks ! j) = None) un" and len: "length sts' = length ks"
    and st: "\<And>j. sts' ! j = (if j \<in> set un \<and> held a (ks ! j) \<noteq> None
                      then Status_Hit a (the (held a (ks ! j))) else sts ! j)"
    using spec un(3) by (simp_all add: r)
  have "if j \<in> set un' then sts' ! j = Status_Miss \<and> absent_above held fs (Suc a) (ks ! j)
        else \<exists>t v. sts' ! j = Status_Hit t v \<and> t < Suc a \<and> held t (ks ! j) = Some v \<and>
               absent_above held fs t (ks ! j)" if j: "j < length ks" for j
  proof (cases "j \<in> set un")
    case True
    then have "sts ! j = Status_Miss" "absent_above held fs a (ks ! j)"
      using b j by (auto simp: batch_meaning_def)
    with True show ?thesis
      by (cases "held a (ks ! j)") (auto simp: un' st intro: absent_above_Suc)
  next
    case False
    then show ?thesis using b j by (fastforce simp: batch_meaning_def un' st)
  qed
  then show ?thesis using un len by (auto simp: batch_meaning_def un')
qed

lemma zip_map_self: "zip js (map f js) = map (\<lambda>j. (j, f j)) js"
  by (induction js) simp_all

context tier_laws begin

lemma get_many_reader: "reader_law inv con (\<lambda>t s. t_get_many t s ks) (\<lambda>m. map m ks)"
  by (simp add: reader_law_def get_many_inv get_many_con get_many_res)

lemma read_loop_spec:
  fixes ts :: "('a, 'b, 'c, 'd) slots"
  assumes "slots_inv inv ts" "a \<le> length ts" "batch_meaning held ks a sts un fs"
    and "\<forall>j < length ts. held j = slot_con con (ts ! j)"
    and "read_loop p ks [a..<length ts] sts un fs ts = (res, ts')"
  shows "same_contents inv con ts ts' \<and>
    (case res of
       Ok (sts', un', fs') \<Rightarrow>
         batch_meaning held ks (length ts) sts' un' fs' \<and>
         (rp_on_error (pol_read p) = FailFast \<longrightarrow> fs' = fs)
     | Err e \<Rightarrow> rp_on_error (pol_read p) = FailFast \<and> (\<exists>f. e = Tier_Failed f \<and> failure_tier f < length ts))"
  using assms
proof (induction "length ts - a" arbitrary: a sts un fs ts)
  case 0
  then show ?case by auto
next
  case (Suc n)
  then have a: "a < length ts" and upt: "[a..<length ts] = a # [Suc a..<length ts]"
    by (auto simp: upt_conv_Cons)
  show ?case
  proof (cases "un = []")
    case True
    have "batch_meaning held ks (length ts) sts un fs"
      using Suc.prems(3) a True by (fastforce simp: batch_meaning_def)
    then show ?thesis using Suc.prems(5) True by (auto simp: upt)
  next
    case nonempty: False
    let ?keys = "map (\<lambda>j. ks ! j) un"
    obtain r ts1 where c: "call a (\<lambda>t s. t_get_many t s ?keys) ts = (r, ts1)" by fastforce
    note pc = probe_call [OF get_many_reader Suc.prems(1) a c]
    have IH: "same_contents inv con ts ts' \<and>
      (case res of
         Ok (sts', un', fs') \<Rightarrow>
           batch_meaning held ks (length ts) sts' un' fs' \<and>
           (rp_on_error (pol_read p) = FailFast \<longrightarrow> fs' = fs2)
       | Err e \<Rightarrow> rp_on_error (pol_read p) = FailFast \<and>
           (\<exists>f. e = Tier_Failed f \<and> failure_tier f < length ts))"
      if "same_contents inv con ts ts2" "batch_meaning held ks (Suc a) sts2 un2 fs2"
        "read_loop p ks [Suc a..<length ts] sts2 un2 fs2 ts2 = (res, ts')"
      for ts2 sts2 un2 and fs2 :: "'d tier_failure list"
    proof -
      have len: "length ts2 = length ts" and iv: "slots_inv inv ts2"
          and con: "\<forall>j < length ts2. held j = slot_con con (ts2 ! j)"
        using that(1) Suc.prems(1,4) by (auto simp: same_contents_def frame_length)
      have "n = length ts2 - Suc a" "Suc a \<le> length ts2" using Suc.hyps(2) a len by auto
      from Suc.hyps(1) [OF this(1) iv this(2) that(2) con] that(3) show ?thesis
        using same_contents_trans [OF that(1)] by (auto simp: len split: sum.splits)
    qed
    show ?thesis
    proof (cases r)
      case (Inl x)
      let ?t = "bump a Errors 1 ts1"
      show ?thesis
      proof (cases "rp_on_error (pol_read p)")
        case FailFast
        then have "res = Err (Tier_Failed (failure ?t a x))" "ts' = ?t"
          using Suc.prems(5) nonempty c Inl by (auto simp: upt Let_def)
        then show ?thesis using pc(1) [of Errors 1] FailFast a by (simp add: failure_def)
      next
        case FallThrough
        then have "read_loop p ks [Suc a..<length ts] sts un (fs @ [failure ?t a x]) ?t = (res, ts')"
          using Suc.prems(5) nonempty c Inl by (simp add: upt Let_def)
        from IH [OF pc(1) _ this] batch_meaning_fail [OF Suc.prems(3)] FallThrough show ?thesis
          by (auto simp: failure_def split: sum.splits)
      qed
    next
      case (Inr found)
      then have found: "found = map (\<lambda>j. held a (ks ! j)) un" using pc(2) Suc.prems(4) a by simp
      let ?n = "length (filter (\<lambda>v. \<not> Option.is_none v) found)"
      let ?t = "bump a Misses (usize_sub (length ?keys) ?n) (bump a Hits ?n ts1)"
      obtain sts2 un2 where r: "resolve a (zip un found) sts = (sts2, un2)" by fastforce
      have l: "read_loop p ks [Suc a..<length ts] sts2 un2 fs ?t = (res, ts')"
        using Suc.prems(5) nonempty c Inr r by (simp add: upt Let_def)
      have "same_contents inv con ts ?t"
        using pc(1) [of Hits ?n] same_contents_bump [of inv con _ a Misses] same_contents_trans by blast
      moreover have "batch_meaning held ks (Suc a) sts2 un2 fs"
        using batch_meaning_found [OF Suc.prems(3)] r by (simp add: found zip_map_self)
      ultimately show ?thesis using IH l by blast
    qed
  qed
qed

end

text \<open>
  C22. Batched reads give honest per-key statuses. In the report of \<open>read_many\<close>, a hit names the
  topmost tier that holds the key (but for tiers listed as failed) and carries its value there; a
  miss is only reported when no tier failed and no tier holds the key; an inconclusive key comes
  with failures, and no tier that did not fail holds it. Under fail-fast, or whenever no failure is
  listed, the values are exactly what the hierarchy serves. An error only comes from fail-fast.
\<close>

theorem router_read_many_honest:
  assumes "tier_laws ivt con" "slots_inv ivt (rt_tiers r)" "router_read_many r ks = (res, r')"
  shows "case res of
      Ok rep \<Rightarrow>
        length (rep_statuses rep) = length ks \<and>
        (\<forall>j < length ks.
           case rep_statuses rep ! j of
             Status_Hit t v \<Rightarrow>
               t < tier_count r \<and> slot_con con (rt_tiers r ! t) (ks ! j) = Some v \<and>
               (\<forall>i < t. \<not> holds con r i (ks ! j) \<or> i \<in> failure_tier ` set (rep_failures rep))
           | Status_Miss \<Rightarrow>
               rep_failures rep = [] \<and> (\<forall>i < tier_count r. \<not> holds con r i (ks ! j))
           | Status_Inconclusive \<Rightarrow>
               rep_failures rep \<noteq> [] \<and>
               (\<forall>i < tier_count r. \<not> holds con r i (ks ! j) \<or>
                  i \<in> failure_tier ` set (rep_failures rep))) \<and>
        (rp_on_error (pol_read (rt_policy r)) = FailFast \<longrightarrow> rep_failures rep = []) \<and>
        (rep_failures rep = [] \<longrightarrow> into_values rep = map (view con (rt_tiers r)) ks)
    | Err e \<Rightarrow> rp_on_error (pol_read (rt_policy r)) = FailFast \<and>
               (\<exists>f. e = Tier_Failed f \<and> failure_tier f < tier_count r)"
proof -
  let ?ts = "rt_tiers r" and ?p = "rt_policy r"
  define held where "held j = slot_con con (?ts ! j)" for j
  have start: "batch_meaning held ks 0 (replicate (length ks) Status_Miss) [0..<length ks] []"
    by (auto simp: batch_meaning_def absent_above_def)
  obtain lr ts' where l: "read_loop ?p ks [0..<length ?ts] (replicate (length ks) Status_Miss)
      [0..<length ks] [] ?ts = (lr, ts')" by fastforce
  have spec: "case lr of
       Ok (sts', un', fs') \<Rightarrow>
         batch_meaning held ks (length ?ts) sts' un' fs' \<and>
         (rp_on_error (pol_read ?p) = FailFast \<longrightarrow> fs' = [])
     | Err e \<Rightarrow> rp_on_error (pol_read ?p) = FailFast \<and> (\<exists>f. e = Tier_Failed f \<and> failure_tier f < length ?ts)"
    using tier_laws.read_loop_spec [OF assms(1,2) _ start _ l] by (simp add: held_def)
  show ?thesis
  proof (cases lr)
    case (Inl e)
    with spec assms(3) l show ?thesis by (auto simp: router_read_many_def tier_count_def)
  next
    case (Inr x)
    obtain sts un fs where x: "x = (sts, un, fs)" by (cases x)
    let ?sts = "if fs \<noteq> [] then mark_inconclusive un sts else sts"
    have res: "res = Ok \<lparr>rep_statuses = ?sts, rep_failures = fs\<rparr>"
      using assms(3) l Inr x by (simp add: router_read_many_def Let_def)
    have b: "batch_meaning held ks (length ?ts) sts un fs"
        and ff: "rp_on_error (pol_read ?p) = FailFast \<longrightarrow> fs = []"
      using spec Inr x by simp_all
    have len: "length ?sts = length ks" "set un \<subseteq> {..<length sts}"
      using b by (auto simp: batch_meaning_def)
    have key: "case ?sts ! j of
             Status_Hit t v \<Rightarrow> t < length ?ts \<and> held t (ks ! j) = Some v \<and> absent_above held fs t (ks ! j)
           | Status_Miss \<Rightarrow> fs = [] \<and> absent_above held fs (length ?ts) (ks ! j)
           | Status_Inconclusive \<Rightarrow> fs \<noteq> [] \<and> absent_above held fs (length ?ts) (ks ! j)"
      if "j < length ks" for j
      using b that len(2)
      by (cases "j \<in> set un") (force simp: batch_meaning_def mark_inconclusive_nth)+
    have vals: "into_values \<lparr>rep_statuses = ?sts, rep_failures = fs\<rparr> = map (view con ?ts) ks" if "fs = []"
    proof (rule nth_equalityI)
      fix j
      assume "j < length (into_values \<lparr>rep_statuses = ?sts, rep_failures = fs\<rparr>)"
      then have j: "j < length ks" using len(1) by (simp add: into_values_def)
      have "status_value (?sts ! j) = view con ?ts (ks ! j)"
        using key [OF j] that view_first [of _ ?ts con "ks ! j"]
        by (auto simp: absent_above_def held_def view_None_iff eq_commute [of None] split: key_status.splits)
      then show "into_values \<lparr>rep_statuses = ?sts, rep_failures = fs\<rparr> ! j = map (view con ?ts) ks ! j"
        using j len(1) by (simp add: into_values_def)
    qed (use len(1) in \<open>simp add: into_values_def\<close>)
    have statuses: "case ?sts ! j of
             Status_Hit t v \<Rightarrow>
               t < tier_count r \<and> slot_con con (rt_tiers r ! t) (ks ! j) = Some v \<and>
               (\<forall>i < t. \<not> holds con r i (ks ! j) \<or> i \<in> failure_tier ` set fs)
           | Status_Miss \<Rightarrow> fs = [] \<and> (\<forall>i < tier_count r. \<not> holds con r i (ks ! j))
           | Status_Inconclusive \<Rightarrow> fs \<noteq> [] \<and>
               (\<forall>i < tier_count r. \<not> holds con r i (ks ! j) \<or> i \<in> failure_tier ` set fs)"
      if "j < length ks" for j
      using key [OF that]
      by (cases "?sts ! j") (auto simp: absent_above_def held_def holds_def tier_count_def)
    then show ?thesis
      unfolding res sum.case read_report.simps using len(1) ff vals by blast
  qed
qed

end
