(* ===== verification/Router_Compose.thy ===== *)
theory Router_Compose
  imports Router_Batch
begin

text \<open>
  Hierarchies compose: a router over reliable tiers, all writable, that writes through with
  demotion and never promotes (the store preset), is itself a reliable tier. Its contents are what
  it serves. The memory tier's adapter keeps the memory tier's contract, which interprets the
  composition on the model's own tiers, to any depth.
\<close>

section \<open>Reliable tiers under a router\<close>

definition router_inv ::
  "(('s, 'k, 'v, 'x) tier_ops \<Rightarrow> 's \<Rightarrow> bool) \<Rightarrow>
   (('s, 'k, 'v, 'x) router, 'k, 'v, 'x router_error) tier_ops \<Rightarrow> ('s, 'k, 'v, 'x) router \<Rightarrow> bool"
where
  "router_inv ivt ops r \<longleftrightarrow>
     ops = router_ops \<and> slots_inv ivt (rt_tiers r) \<and> list_all writable (rt_tiers r) \<and>
     rt_tiers r \<noteq> [] \<and> rp_promote (pol_read (rt_policy r)) = Never \<and>
     pol_write (rt_policy r) = WriteThrough \<and> pol_demote_displaced (rt_policy r)"

definition router_con ::
  "(('s, 'k, 'v, 'x) tier_ops \<Rightarrow> 's \<Rightarrow> ('k \<rightharpoonup> 'v)) \<Rightarrow>
   (('s, 'k, 'v, 'x) router, 'k, 'v, 'x router_error) tier_ops \<Rightarrow> ('s, 'k, 'v, 'x) router \<Rightarrow> ('k \<rightharpoonup> 'v)"
where
  "router_con con ops r = view con (rt_tiers r)"

lemma list_all_frame: "frame W ts ts' \<Longrightarrow> list_all writable ts' = list_all writable ts"
  by (simp add: list_all_length frame_length frame_writable)

lemma router_inv_same:
  "router_inv ivt ops r \<Longrightarrow> same_contents ivt con (rt_tiers r) ts' \<Longrightarrow>
   router_inv ivt ops (r\<lparr>rt_tiers := ts'\<rparr>) \<and> router_con con ops (r\<lparr>rt_tiers := ts'\<rparr>) = router_con con ops r"
  using same_contents_view [of ivt con "rt_tiers r" ts']
  by (auto simp: router_inv_def router_con_def same_contents_def list_all_frame frame_length
           dest: frame_length)

lemma router_inv_write:
  assumes "router_inv ivt ops r" "frame W (rt_tiers r) (rt_tiers r')" "wslots_inv ivt (rt_tiers r')"
    and "rt_policy r' = rt_policy r"
  shows "router_inv ivt ops r'"
proof -
  have "list_all writable (rt_tiers r')" using assms(1,2) by (simp add: router_inv_def list_all_frame)
  then have "slots_inv ivt (rt_tiers r')"
    using assms(3) by (simp add: slots_inv_def wslots_inv_def list_all_iff)
  then show ?thesis
    using assms frame_length [OF assms(2)] by (auto simp: router_inv_def list_all_frame)
qed

lemma router_wview: "router_inv ivt ops r \<Longrightarrow> wview con (rt_tiers r) = view con (rt_tiers r)"
  by (simp add: router_inv_def wview_all_writable)

lemma router_policies:
  "rt_policy (snd (router_put r k v)) = rt_policy r"
  "rt_policy (snd (router_put_many r es)) = rt_policy r"
  "rt_policy (snd (router_delete r k)) = rt_policy r"
  "rt_policy (snd (router_delete_many r ks)) = rt_policy r"
  by (simp_all add: router_put_def router_put_many_def router_delete_def router_delete_many_def
        router_remove_many_def split_def Let_def)

lemma read_answer_reliable:
  assumes "scan_meaning held failed m 0 n True sc" "\<forall>j < n. \<not> failed j"
  shows "(\<exists>i w. sc = Scan_Hit i w \<and> i < n \<and> held i = Some w \<and> (\<forall>j < i. held j = None)) \<or>
         sc = Scan_Miss \<and> (\<forall>j < n. held j = None)"
  using assms
  by (cases sc) (auto simp: scan_meaning_def dest: order.strict_trans)

context reliable_tiers begin

lemma router_get_reliable:
  assumes "router_inv inv ops r"
  shows "\<exists>ts'. router_get r k = Some (Ok (view con (rt_tiers r) k), r\<lparr>rt_tiers := ts'\<rparr>) \<and>
    same_contents inv con (rt_tiers r) ts'"
proof -
  let ?ts = "rt_tiers r"
  have iv: "slots_inv inv ?ts" and never: "rp_promote (pol_read (rt_policy r)) = Never"
    using assms by (simp_all add: router_inv_def)
  obtain sc ts' where s: "scan_tiers (rp_on_error (pol_read (rt_policy r))) (\<lambda>t s. t_get t s k)
      [0..<length ?ts] [] ?ts = (sc, ts')" by fastforce
  note spec = scan_spec [OF get_reader iv s]
  have ok: "\<forall>j < length ?ts. \<not> probe_fails (\<lambda>t s. t_get t s k) ?ts j"
    using get_ok slots_inv_nth [OF iv] by (simp add: probe_fails_def)
  have "scan_result Some None sc = Ok (view con ?ts k) \<and> promote_hit (rt_policy r) k sc ts' = ts'"
    using read_answer_reliable [OF spec [THEN conjunct2, simplified] ok] view_first [of _ ?ts con k] never
    by (auto simp: view_None_iff eq_commute [of None])
  then show ?thesis
    using s spec by (intro exI [of _ ts']) (simp add: router_get_eq get_reference_def Let_def)
qed

lemma router_exists_reliable:
  assumes "router_inv inv ops r"
  shows "\<exists>ts'. router_exists r k = Some (Ok (view con (rt_tiers r) k \<noteq> None), r\<lparr>rt_tiers := ts'\<rparr>) \<and>
    same_contents inv con (rt_tiers r) ts'"
proof -
  let ?ts = "rt_tiers r"
  have iv: "slots_inv inv ?ts" using assms by (simp add: router_inv_def)
  obtain sc ts' where s: "scan_tiers (rp_on_error (pol_read (rt_policy r))) (ask_exists k)
      [0..<length ?ts] [] ?ts = (sc, ts')" by fastforce
  note spec = scan_spec [OF exists_reader iv s]
  have ok: "\<forall>j < length ?ts. \<not> probe_fails (ask_exists k) ?ts j"
    using exists_ok slots_inv_nth [OF iv]
    by (simp add: probe_fails_def ask_exists_def)
  have "scan_result (\<lambda>_. True) False sc = Ok (view con ?ts k \<noteq> None)"
    using read_answer_reliable [OF spec [THEN conjunct2, simplified] ok]
    by (auto simp: view_None_iff split: if_splits)
  then show ?thesis
    using s spec by (intro exI [of _ ts']) (simp add: router_exists_eq exists_reference_def Let_def)
qed

lemma read_loop_reliable:
  assumes "slots_inv inv ts" "a \<le> length ts"
  shows "\<exists>sts' un'. fst (read_loop p ks [a..<length ts] sts un fs ts) = Ok (sts', un', fs)"
  using assms
proof (induction "length ts - a" arbitrary: a sts un ts)
  case 0
  then show ?case by simp
next
  case (Suc n)
  then have a: "a < length ts" and upt: "[a..<length ts] = a # [Suc a..<length ts]"
    by (auto simp: upt_conv_Cons)
  show ?case
  proof (cases "un = []")
    case False
    let ?keys = "map (\<lambda>j. ks ! j) un"
    obtain r ts1 where c: "call a (\<lambda>t s. t_get_many t s ?keys) ts = (r, ts1)" by fastforce
    note pc = probe_call [OF get_many_reader Suc.prems(1) a c]
    have "is_ok r" using get_many_ok [OF slots_inv_nth [OF Suc.prems(1) a]] call_fst [OF c] by simp
    then obtain found where r: "r = Ok found" by (rule is_okE)
    let ?n = "length (filter (\<lambda>v. \<not> Option.is_none v) found)"
    let ?t = "bump a Misses (usize_sub (length ?keys) ?n) (bump a Hits ?n ts1)"
    have "same_contents inv con ts ?t"
      using pc(1) [of Hits ?n] same_contents_bump [of inv con _ a Misses] same_contents_trans by blast
    then have "slots_inv inv ?t" "length ?t = length ts"
      using Suc.prems(1) by (auto simp: same_contents_def frame_length)
    then show ?thesis
      using Suc.hyps(1) [of ?t "Suc a"] Suc.hyps(2) False c r a
      by (simp add: upt Let_def split_def)
  qed (simp add: upt)
qed

lemma router_get_many_reliable:
  assumes "router_inv inv ops r"
  shows "\<exists>ts'. router_get_many r ks = (Ok (map (view con (rt_tiers r)) ks), r\<lparr>rt_tiers := ts'\<rparr>) \<and>
    same_contents inv con (rt_tiers r) ts'"
proof -
  let ?ts = "rt_tiers r" and ?p = "rt_policy r"
  define held where "held j = slot_con con (?ts ! j)" for j
  have iv: "slots_inv inv ?ts" and never: "rp_promote (pol_read (rt_policy r)) = Never"
    using assms by (simp_all add: router_inv_def)
  have start: "batch_meaning held ks 0 (replicate (length ks) Status_Miss) [0..<length ks] []"
    by (auto simp: batch_meaning_def absent_above_def)
  obtain sts un ts' where l: "read_loop ?p ks [0..<length ?ts] (replicate (length ks) Status_Miss)
      [0..<length ks] [] ?ts = (Ok (sts, un, []), ts')"
    using read_loop_reliable [OF iv, of 0 ?p ks "replicate (length ks) Status_Miss" "[0..<length ks]" "[]"]
    by (metis le0 prod.collapse)
  have spec: "same_contents inv con ?ts ts'" "batch_meaning held ks (length ?ts) sts un ([] :: 'd tier_failure list)"
    using read_loop_spec [OF iv _ start _ l] by (simp_all add: held_def)
  have key: "status_value (sts ! j) = view con ?ts (ks ! j) \<and> sts ! j \<noteq> Status_Inconclusive"
    if "j < length ks" for j
    using spec(2) that view_first [of _ ?ts con "ks ! j"]
    by (cases "j \<in> set un")
       (force simp: batch_meaning_def absent_above_def held_def view_None_iff eq_commute [of None])+
  have len: "length sts = length ks" using spec(2) by (simp add: batch_meaning_def)
  have "\<not> list_ex (\<lambda>st. case st of Status_Inconclusive \<Rightarrow> True | _ \<Rightarrow> False) sts"
    using key len by (auto simp: list_ex_length split: key_status.splits)
  moreover have "map status_value sts = map (view con ?ts) ks"
    using key len by (auto intro: nth_equalityI)
  ultimately have "router_get_many r ks = (Ok (map (view con ?ts) ks), r\<lparr>rt_tiers := ts'\<rparr>)"
    using l never
    by (simp add: router_get_many_def router_read_many_def into_values_def promote_batch_def)
  with spec(1) show ?thesis by blast
qed

lemma router_put_reliable:
  assumes "router_inv inv ops r"
  shows "\<exists>d r'. router_put r k v = (Ok d, r') \<and> router_inv inv ops r' \<and>
    pend d ++ view con (rt_tiers r') = view con (rt_tiers r) ++ [k \<mapsto> v]"
proof -
  have r: "wslots_inv inv (rt_tiers r)" "pol_demote_displaced (rt_policy r)"
      "list_ex writable (rt_tiers r)" "pol_write (rt_policy r) = WriteThrough"
    using assms by (auto simp: router_inv_def list_all_iff list_ex_iff slots_inv_wslots ex_in_conv)
  obtain ev ts' where w: "write_through (rt_policy r) (\<lambda>t s. t_put t s k v) 1 (rt_tiers r) = (Ok ev, ts')"
      "wslots_inv inv ts'" "pend ev ++ wview con ts' = wview con (rt_tiers r) ++ [k \<mapsto> v]"
    by (rule write_through_conserves [OF put_writer r(1-3)])
  have p: "router_put r k v = (Ok ev, r\<lparr>rt_tiers := ts'\<rparr>)" using w(1) r(4) by (simp add: router_put_def)
  have "router_inv inv ops (r\<lparr>rt_tiers := ts'\<rparr>)"
    using put_frame [of r k v] w(2) by (intro router_inv_write [OF assms]) (simp_all add: p)
  with p w(3) show ?thesis using router_wview [of inv ops] assms by fastforce
qed

lemma router_put_many_reliable:
  assumes "router_inv inv ops r"
  shows "\<exists>d r'. router_put_many r es = (Ok d, r') \<and> router_inv inv ops r' \<and>
    pend d ++ view con (rt_tiers r') = view con (rt_tiers r) ++ pend es"
proof -
  have r: "wslots_inv inv (rt_tiers r)" "pol_demote_displaced (rt_policy r)"
      "list_ex writable (rt_tiers r)" "pol_write (rt_policy r) = WriteThrough"
    using assms by (auto simp: router_inv_def list_all_iff list_ex_iff slots_inv_wslots ex_in_conv)
  obtain ev ts' where w: "write_through (rt_policy r) (\<lambda>t s. t_put_many t s es) (length es) (rt_tiers r) = (Ok ev, ts')"
      "wslots_inv inv ts'" "pend ev ++ wview con ts' = wview con (rt_tiers r) ++ pend es"
    by (rule write_through_conserves [OF put_many_writer r(1-3)])
  have p: "router_put_many r es = (Ok ev, r\<lparr>rt_tiers := ts'\<rparr>)"
    using w(1) r(4) by (simp add: router_put_many_def)
  have "router_inv inv ops (r\<lparr>rt_tiers := ts'\<rparr>)"
    using put_many_frame [of r es] w(2) by (intro router_inv_write [OF assms]) (simp_all add: p)
  with p w(3) show ?thesis using router_wview [of inv ops] assms by fastforce
qed

text \<open>A removal that cannot fail leaves no failures.\<close>

lemma invalidate_reliable:
  assumes "remover_law inv con del K" "\<And>t s. inv t s \<Longrightarrow> is_ok (fst (del t s))" "wslots_inv inv ts"
    and "set is \<subseteq> {..<length ts}"
  shows "fst (invalidate_loop del n is fs ts) = fs"
  using assms(3,4)
proof (induction "is" arbitrary: ts)
  case (Cons i "is")
  obtain a ts1 where c: "call i del ts = (a, ts1)" by fastforce
  show ?case
  proof (cases "writable (ts ! i)")
    case False
    with Cons show ?thesis by simp
  next
    case True
    have i: "i < length ts" using Cons.prems(2) by simp
    note law = wslots_inv_nth [OF Cons.prems(1) i True]
    obtain b where "a = Ok b" using assms(2) [OF law] call_fst [OF c] by (auto elim: is_okE)
    moreover have "wslots_inv inv (bump i Deletes n ts1)"
      by (rule call_bump_inv [OF c i Cons.prems(1)]) (use assms(1) law in \<open>simp add: remover_law_def\<close>)
    moreover have "length (bump i Deletes n ts1) = length ts" using call_bump_nth(4) [OF c i] .
    ultimately show ?thesis using Cons True c by simp
  qed
qed simp

lemma router_delete_reliable:
  assumes "router_inv inv ops r"
  shows "\<exists>r'. router_delete r k = (Ok (view con (rt_tiers r) k \<noteq> None), r') \<and> router_inv inv ops r' \<and>
    view con (rt_tiers r') = (view con (rt_tiers r))(k := None)"
proof -
  let ?ts = "rt_tiers r" and ?is = "[0..<length (rt_tiers r)]"
  have iv: "wslots_inv inv ?ts" using assms by (simp add: router_inv_def slots_inv_wslots)
  obtain e fs ts' where l: "delete_loop k ?is False [] ?ts = ((e, fs), ts')" by (metis surj_pair)
  have inval: "invalidate_loop (\<lambda>t s. t_delete t s k) 1 ?is [] ?ts = (fs, ts')"
    using delete_loop_invalidate [of k ?is "[]" ?ts False] l by simp
  have fs: "fs = []"
    using invalidate_reliable [OF delete_remover delete_ok iv upt_range, of k 1 "[]"] inval by simp
  have d: "router_delete r k = (Ok e, r\<lparr>rt_tiers := ts'\<rparr>)" using l fs by (simp add: router_delete_def)
  have all: "wslots_inv inv ts'" "wview con ts' = (wview con ?ts)(k := None)"
    using invalidate_all [OF delete_remover iv] inval fs by (simp_all add: restrict_single)
  have "e \<longleftrightarrow> wview con ?ts k \<noteq> None"
    using delete_loop_flag [OF iv upt_range distinct_upt, of k False e ts'] l fs
    by (auto simp: wview_None_iff)
  moreover have "router_inv inv ops (r\<lparr>rt_tiers := ts'\<rparr>)"
    using delete_frame [of r k] all(1) by (intro router_inv_write [OF assms]) (simp_all add: d)
  ultimately show ?thesis using d all(2) router_wview [of inv ops] assms by fastforce
qed

lemma router_delete_many_reliable:
  assumes "router_inv inv ops r"
  shows "\<exists>r'. router_delete_many r ks = (Ok (delete_flags (view con (rt_tiers r)) ks), r') \<and>
    router_inv inv ops r' \<and> view con (rt_tiers r') = view con (rt_tiers r) |` (- set ks)"
proof -
  let ?ts = "rt_tiers r" and ?is = "[0..<length (rt_tiers r)]" and ?rm = "replicate (length ks) False"
  have iv: "wslots_inv inv ?ts" using assms by (simp add: router_inv_def slots_inv_wslots)
  obtain rep ts' where l: "remove_loop ks ?is ?rm [] ?ts = (rep, ts')" by fastforce
  have inval: "invalidate_loop (\<lambda>t s. t_delete_many t s ks) (length ks) ?is [] ?ts = (del_failures rep, ts')"
    using remove_loop_invalidate [of ks ?is "[]" ?ts ?rm] l by simp
  have fs: "del_failures rep = []"
    using invalidate_reliable [OF delete_many_remover delete_many_ok iv upt_range, of ks "length ks" "[]"]
      inval by simp
  have d: "router_delete_many r ks = (Ok (del_removed rep), r\<lparr>rt_tiers := ts'\<rparr>)"
    using l fs by (simp add: router_delete_many_def router_remove_many_def delete_complete_def)
  have all: "wslots_inv inv ts'" "wview con ts' = wview con ?ts |` (- set ks)"
    using invalidate_all [OF delete_many_remover iv] inval fs by simp_all
  have "del_removed rep = delete_flags (wview con ?ts) ks"
    using remove_loop_flags [OF iv _ l fs] or_flags_none [of "delete_flags (wview con ?ts) ks"] by simp
  moreover have "router_inv inv ops (r\<lparr>rt_tiers := ts'\<rparr>)"
    using delete_many_frame [of r ks] all(1) by (intro router_inv_write [OF assms]) (simp_all add: d)
  ultimately show ?thesis using d all(2) router_wview [of inv ops] assms by fastforce
qed

lemma router_ops_facts:
  assumes "router_inv inv t s"
  shows "router_inv inv t (snd (t_get t s k)) \<and> router_con con t (snd (t_get t s k)) = router_con con t s \<and>
      fst (t_get t s k) = Ok (router_con con t s k)"
    and "router_inv inv t (snd (t_exists t s k)) \<and>
      router_con con t (snd (t_exists t s k)) = router_con con t s \<and>
      fst (t_exists t s k) = Ok (router_con con t s k \<noteq> None)"
    and "router_inv inv t (snd (t_get_many t s ks)) \<and>
      router_con con t (snd (t_get_many t s ks)) = router_con con t s \<and>
      fst (t_get_many t s ks) = Ok (map (router_con con t s) ks)"
    and "router_inv inv t (snd (t_put t s k v)) \<and>
      (\<exists>d. fst (t_put t s k v) = Ok d \<and>
         pend d ++ router_con con t (snd (t_put t s k v)) = router_con con t s ++ [k \<mapsto> v])"
    and "router_inv inv t (snd (t_put_many t s es)) \<and>
      (\<exists>d. fst (t_put_many t s es) = Ok d \<and>
         pend d ++ router_con con t (snd (t_put_many t s es)) = router_con con t s ++ pend es)"
    and "router_inv inv t (snd (t_delete t s k)) \<and>
      router_con con t (snd (t_delete t s k)) = (router_con con t s)(k := None) \<and>
      fst (t_delete t s k) = Ok (router_con con t s k \<noteq> None)"
    and "router_inv inv t (snd (t_delete_many t s ks)) \<and>
      router_con con t (snd (t_delete_many t s ks)) = router_con con t s |` (- set ks) \<and>
      fst (t_delete_many t s ks) = Ok (delete_flags (router_con con t s) ks)"
proof -
  have ops: "t = router_ops" using assms by (simp add: router_inv_def)
  note same = router_inv_same [OF assms]
  obtain ts' where g: "router_get s k = Some (Ok (view con (rt_tiers s) k), s\<lparr>rt_tiers := ts'\<rparr>)" and "same_contents inv con (rt_tiers s) ts'"
    using router_get_reliable [OF assms, of k] by blast
  from same [OF this(2)] g
  show "router_inv inv t (snd (t_get t s k)) \<and> router_con con t (snd (t_get t s k)) = router_con con t s \<and>
      fst (t_get t s k) = Ok (router_con con t s k)"
    by (simp add: ops router_con_def)
  obtain ts' where g: "router_exists s k = Some (Ok (view con (rt_tiers s) k \<noteq> None), s\<lparr>rt_tiers := ts'\<rparr>)" and "same_contents inv con (rt_tiers s) ts'"
    using router_exists_reliable [OF assms, of k] by blast
  from same [OF this(2)] g
  show "router_inv inv t (snd (t_exists t s k)) \<and>
      router_con con t (snd (t_exists t s k)) = router_con con t s \<and>
      fst (t_exists t s k) = Ok (router_con con t s k \<noteq> None)"
    by (simp add: ops router_con_def)
  obtain ts' where g: "router_get_many s ks = (Ok (map (view con (rt_tiers s)) ks), s\<lparr>rt_tiers := ts'\<rparr>)" and "same_contents inv con (rt_tiers s) ts'"
    using router_get_many_reliable [OF assms, of ks] by blast
  from same [OF this(2)] g
  show "router_inv inv t (snd (t_get_many t s ks)) \<and>
      router_con con t (snd (t_get_many t s ks)) = router_con con t s \<and>
      fst (t_get_many t s ks) = Ok (map (router_con con t s) ks)"
    by (simp add: ops router_con_def)
  show "router_inv inv t (snd (t_put t s k v)) \<and>
      (\<exists>d. fst (t_put t s k v) = Ok d \<and>
         pend d ++ router_con con t (snd (t_put t s k v)) = router_con con t s ++ [k \<mapsto> v])"
    using router_put_reliable [OF assms, of k v] unfolding ops by (elim exE conjE) (simp add: router_con_def)
  show "router_inv inv t (snd (t_put_many t s es)) \<and>
      (\<exists>d. fst (t_put_many t s es) = Ok d \<and>
         pend d ++ router_con con t (snd (t_put_many t s es)) = router_con con t s ++ pend es)"
    using router_put_many_reliable [OF assms, of es] unfolding ops by (elim exE conjE) (simp add: router_con_def)
  show "router_inv inv t (snd (t_delete t s k)) \<and>
      router_con con t (snd (t_delete t s k)) = (router_con con t s)(k := None) \<and>
      fst (t_delete t s k) = Ok (router_con con t s k \<noteq> None)"
    using router_delete_reliable [OF assms, of k] unfolding ops by (elim exE conjE) (simp add: router_con_def)
  show "router_inv inv t (snd (t_delete_many t s ks)) \<and>
      router_con con t (snd (t_delete_many t s ks)) = router_con con t s |` (- set ks) \<and>
      fst (t_delete_many t s ks) = Ok (delete_flags (router_con con t s) ks)"
    using router_delete_many_reliable [OF assms, of ks] unfolding ops by (elim exE conjE) (simp add: router_con_def)
qed

lemma router_put_laws:
  "router_inv inv t s \<Longrightarrow> fst (t_put t s k v) = Ok d \<Longrightarrow>
   pend d ++ router_con con t (snd (t_put t s k v)) = router_con con t s ++ [k \<mapsto> v]"
  "router_inv inv t s \<Longrightarrow> fst (t_put_many t s es) = Ok d \<Longrightarrow>
   pend d ++ router_con con t (snd (t_put_many t s es)) = router_con con t s ++ pend es"
  using router_ops_facts(4) [of t s k v] router_ops_facts(5) [of t s es] by force+

lemma router_reliable: "reliable_tiers (router_inv inv) (router_con con)"
proof -
  have oks: "is_ok (fst (t_put t s k v))" "is_ok (fst (t_put_many t s es))" if "router_inv inv t s" for t s k v es
    using router_ops_facts(4) [OF that, of k v] router_ops_facts(5) [OF that, of es] by (auto simp: is_ok_iff)
  show ?thesis
    by unfold_locales
       (simp_all only: router_ops_facts router_put_laws oks is_ok.simps sum.inject)
qed

end

section \<open>Boxing a tier\<close>

text \<open>The tables an adapter makes of the tables of \<open>ivt\<close>.\<close>

definition adapted ::
  "('e \<Rightarrow> 'x) \<Rightarrow> (('s, 'k, 'v, 'e) tier_ops \<Rightarrow> 's \<Rightarrow> bool) \<Rightarrow> ('s, 'k, 'v, 'x) tier_ops \<Rightarrow> 's \<Rightarrow> bool" where
  "adapted into ivt t s \<longleftrightarrow> (\<exists>t0. t = adapter into t0 \<and> ivt t0 s)"

lemma adapter_simps [simp]:
  "t_name (adapter into t) = t_name t"
  "t_get (adapter into t) s k = apfst (map_err into) (t_get t s k)"
  "t_exists (adapter into t) s k = apfst (map_err into) (t_exists t s k)"
  "t_get_many (adapter into t) s ks = apfst (map_err into) (t_get_many t s ks)"
  "t_put (adapter into t) s k v = apfst (map_err into) (t_put t s k v)"
  "t_delete (adapter into t) s k = apfst (map_err into) (t_delete t s k)"
  "t_put_many (adapter into t) s es = apfst (map_err into) (t_put_many t s es)"
  "t_delete_many (adapter into t) s ks = apfst (map_err into) (t_delete_many t s ks)"
  by (simp_all add: adapter_def)

lemma adaptedI: "ivt t s \<Longrightarrow> adapted into ivt (adapter into t) s"
  by (auto simp: adapted_def)

lemma adaptedE: "adapted into ivt t s \<Longrightarrow> (\<And>t0. t = adapter into t0 \<Longrightarrow> ivt t0 s \<Longrightarrow> P) \<Longrightarrow> P"
  by (auto simp: adapted_def)

lemma adapted_tier_laws:
  assumes "tier_laws ivt (\<lambda>_. c)"
  shows "tier_laws (adapted into ivt) (\<lambda>_. c)"
proof -
  note s = tier_laws.axioms(1) [OF assms]
  note invs = single_laws.get_inv [OF s] single_laws.get_con [OF s] single_laws.exists_inv [OF s]
    single_laws.exists_con [OF s] single_laws.put_inv [OF s] single_laws.delete_inv [OF s]
    tier_laws.get_many_inv [OF assms] tier_laws.get_many_con [OF assms]
    tier_laws.put_many_inv [OF assms] tier_laws.delete_many_inv [OF assms]
  note res = single_laws.get_res [OF s] single_laws.exists_res [OF s] single_laws.put_con [OF s]
    single_laws.delete_con [OF s] single_laws.delete_res [OF s] tier_laws.get_many_res [OF assms]
    tier_laws.put_many_con [OF assms] tier_laws.delete_many_con [OF assms]
    tier_laws.delete_many_res [OF assms]
  show ?thesis
    by unfold_locales
       (erule adaptedE; simp only: adapter_simps fst_apfst snd_apfst map_err_eq_Ok; (rule adaptedI)?;
        (rule invs res; assumption)+)+
qed

lemma adapted_reliable:
  assumes "reliable_tiers ivt (\<lambda>_. c)"
  shows "reliable_tiers (adapted into ivt) (\<lambda>_. c)"
proof -
  note oks = reliable_tiers.get_ok [OF assms] reliable_tiers.exists_ok [OF assms]
    reliable_tiers.get_many_ok [OF assms] reliable_tiers.put_ok [OF assms]
    reliable_tiers.put_many_ok [OF assms] reliable_tiers.delete_ok [OF assms]
    reliable_tiers.delete_many_ok [OF assms]
  show ?thesis
    using adapted_tier_laws [OF reliable_tiers.axioms(1) [OF assms], of into]
    by (intro reliable_tiers.intro reliable_tiers_axioms.intro) (auto elim!: adaptedE simp: oks)
qed

text \<open>A memory tier cannot fail, so boxing it changes nothing.\<close>

lemma adapter_memory: "adapter into memory_ops = memory_ops"
  by (simp add: adapter_def memory_ops_def fun_eq_iff memory_get_def memory_exists_def
        memory_get_many_def memory_put_def memory_delete_def memory_put_many_def
        memory_delete_many_def split_def Let_def)

interpretation memory_router: reliable_tiers "router_inv memory_inv" "router_con (\<lambda>_. memory_con)"
  by (rule memory.router_reliable)

interpretation boxed_router:
  reliable_tiers "adapted into (router_inv memory_inv)" "\<lambda>_ r. view (\<lambda>_. memory_con) (rt_tiers r)" for into
  using memory.router_reliable by (intro adapted_reliable) (simp add: router_con_def [abs_def])

text \<open>
  C8. Routers compose. Over reliable tiers, a router of writable tiers that writes through with
  demotion and never promotes, boxed as a tier of another router, is again a reliable tier that
  keeps the whole contract: reads answer what the hierarchy serves and change nothing, puts and
  batches lose nothing but what they return, deletes remove exactly the keys with exact flags. So
  the argument repeats at every level of nesting.
\<close>

theorem hierarchies_compose:
  assumes "reliable_tiers ivt (\<lambda>_. c)"
  shows "reliable_tiers (adapted into (router_inv ivt)) (\<lambda>_ r. view (\<lambda>_. c) (rt_tiers r))"
  using reliable_tiers.router_reliable [OF assms]
  by (intro adapted_reliable) (simp add: router_con_def [abs_def])

text \<open>A router of routers of memory tiers.\<close>

theorem hierarchies_compose_witness:
  "reliable_tiers
     (adapted id (router_inv (adapted id (router_inv
        (memory_inv :: ((string, nat) memory_tier, string, nat, string) tier_ops \<Rightarrow> _)))))
     (\<lambda>_ r. view (\<lambda>_ q. view (\<lambda>_. memory_con) (rt_tiers q)) (rt_tiers r))"
  using hierarchies_compose [OF hierarchies_compose [OF memory.reliable_tiers_axioms]] by blast

end
