(* ===== verification/Router_Absorb.thy ===== *)
theory Router_Absorb
  imports Router_Compose
begin

text \<open>
  Hierarchies whose lowest writable tier never displaces anything, such as an unbounded memory
  tier: demotion rolls every overflow of the bounded tiers above into it, so a write evicts
  nothing. What the bottom tier has to provide is the locale \<open>absorbing_tiers\<close>.
\<close>

section \<open>Tiers that never displace\<close>

locale absorbing_tiers = reliable_tiers +
  fixes absorbs :: "('a, 'b, 'c, 'd) tier_ops \<Rightarrow> 'a \<Rightarrow> bool"
  assumes put_none: "inv t s \<Longrightarrow> absorbs t s \<Longrightarrow> fst (t_put t s k v) = Ok []"
    and put_absorbs: "inv t s \<Longrightarrow> absorbs t s \<Longrightarrow> absorbs t (snd (t_put t s k v))"
    and put_many_none: "inv t s \<Longrightarrow> absorbs t s \<Longrightarrow> fst (t_put_many t s es) = Ok []"
    and put_many_absorbs: "inv t s \<Longrightarrow> absorbs t s \<Longrightarrow> absorbs t (snd (t_put_many t s es))"

definition absorbing_slot ::
  "(('s, 'k, 'v, 'x) tier_ops \<Rightarrow> 's \<Rightarrow> bool) \<Rightarrow> nat \<Rightarrow> ('s, 'k, 'v, 'x) slots \<Rightarrow> bool" where
  "absorbing_slot ab b ts \<longleftrightarrow>
     b < length ts \<and> writable (ts ! b) \<and> ab (slot_ops (ts ! b)) (slot_state (ts ! b))"

lemma absorbing_frame:
  assumes "frame W ts ts'" "b \<notin> W" "absorbing_slot ab b ts"
  shows "absorbing_slot ab b ts'"
  using assms frame_length [OF assms(1)] frame_nth [OF assms(1,2)] by (simp add: absorbing_slot_def)

context absorbing_tiers begin

lemma demote_into_none:
  assumes "wslots_inv inv ts" "absorbing_slot absorbs b ts"
  shows "fst (demote_into b es ts) = [] \<and> absorbing_slot absorbs b (snd (demote_into b es ts))"
  using assms
proof (induction es arbitrary: ts)
  case (Cons e es)
  obtain k v where e: "e = (k, v)" by (cases e)
  note b = Cons.prems(2) [unfolded absorbing_slot_def]
  note i = wslots_inv_nth [OF Cons.prems(1)]
  obtain d ts1 where w: "call b (\<lambda>t s. t_put t s k v) ts = (Ok d, ts1)"
      "wslots_inv inv (bump b Puts 1 ts1)"
    by (rule write_call [where n = 1 and c = Puts, OF put_writer Cons.prems(1)]) (use b in blast)+
  have "d = []" using call_fst [OF w(1)] put_none i b by auto
  moreover have "absorbing_slot absorbs b (bump b Puts 1 ts1)"
    using call_bump_nth [OF w(1), where c = Puts and n = 1] frame_writable [OF frame_call_bump [OF w(1)], of UNIV]
      put_absorbs i b by (simp add: absorbing_slot_def)
  ultimately show ?case using Cons.IH [OF w(2)] by (simp add: e w(1) Let_def split_def)
qed simp

lemma demote_loop_none:
  assumes "wslots_inv inv ts" "absorbing_slot absorbs b ts" "m \<le> b"
  shows "fst (demote_loop [m..<length ts] d ts) = [] \<and>
         absorbing_slot absorbs b (snd (demote_loop [m..<length ts] d ts))"
  using assms
proof (induction "b - m" arbitrary: m d ts)
  case 0
  then have m: "m = b" "[m..<length ts] = m # [Suc m..<length ts]"
    by (simp_all add: absorbing_slot_def upt_conv_Cons)
  have w: "writable (ts ! m)" using 0 m by (simp add: absorbing_slot_def)
  have nil: "demote_loop is [] ts' = ([], ts')" for "is" and ts' :: "('a, 'b, 'c, 'd) slots"
    by (cases "is") simp_all
  show ?case
    using demote_into_none [OF 0(2,3), of d] 0(3) m w nil by (simp add: Let_def split_def)
next
  case (Suc n)
  have m: "m < b" "[m..<length ts] = m # [Suc m..<length ts]"
    using Suc.hyps(2) Suc.prems(2) by (auto simp: absorbing_slot_def upt_conv_Cons)
  show ?case
  proof (cases "writable (ts ! m) \<and> d \<noteq> []")
    case False
    have "fst (demote_loop [Suc m..<length ts] d ts) = [] \<and>
        absorbing_slot absorbs b (snd (demote_loop [Suc m..<length ts] d ts))"
      by (rule Suc.hyps(1)) (use Suc m in auto)
    with False Suc.prems(2) m show ?thesis by auto
  next
    case True
    obtain nxt ts1 where di: "demote_into m d ts = (nxt, ts1)" by fastforce
    have f: "frame {m} ts ts1" using frame_demote_into [of m "{m}" ts d] di by simp
    have ml: "m < length ts" using m(1) Suc.prems(2) by (simp add: absorbing_slot_def)
    have i1: "wslots_inv inv ts1" using demote_into_conserves [OF Suc.prems(1) ml _ di] True by blast
    have "absorbing_slot absorbs b ts1" using absorbing_frame [OF f _ Suc.prems(2)] m by simp
    with Suc.hyps i1 m have "fst (demote_loop [Suc m..<length ts1] nxt ts1) = [] \<and>
        absorbing_slot absorbs b (snd (demote_loop [Suc m..<length ts1] nxt ts1))"
      by (intro Suc.hyps(1)) auto
    then show ?thesis using True m di frame_length [OF f] by simp
  qed
qed

lemma demote_none:
  "wslots_inv inv ts \<Longrightarrow> absorbing_slot absorbs b ts \<Longrightarrow> i < b \<Longrightarrow>
   fst (demote i d ts) = [] \<and> absorbing_slot absorbs b (snd (demote i d ts))"
  using demote_loop_none [of ts b "i + 1" d] by (simp add: demote_def)

text \<open>A write at or above an absorbing tier: its overflow is absorbed.\<close>

lemma write_demote_none:
  assumes wr: "writer_law inv con wr m"
    and ab: "\<And>t s. inv t s \<Longrightarrow> absorbs t s \<Longrightarrow> fst (wr t s) = Ok [] \<and> absorbs t (snd (wr t s))"
    and ts: "wslots_inv inv ts" "absorbing_slot absorbs b ts" "n \<le> b" "writable (ts ! n)"
    and c: "call n wr ts = (Ok d, ts1)" "demote n d (bump n Puts c ts1) = (off, ts2)"
      "d = [] \<longrightarrow> off = [] \<and> ts2 = bump n Puts c ts1"
  shows "off = [] \<and> absorbing_slot absorbs b ts2"
proof -
  have n: "n < length ts" using ts(2,3) by (simp add: absorbing_slot_def)
  note i = wslots_inv_nth [OF ts(1) n ts(4)]
  have fb: "frame {n} ts (bump n Puts c ts1)" by (rule frame_call_bump [OF c(1)]) simp
  show ?thesis
  proof (cases "n = b")
    case True
    have s: "absorbs (slot_ops (ts ! n)) (slot_state (ts ! n))"
      using ts(2) True by (simp add: absorbing_slot_def)
    have "d = []" using call_fst [OF c(1)] ab [OF i s] by simp
    with c(3) have "off = []" "ts2 = bump n Puts c ts1" by simp_all
    moreover have "absorbing_slot absorbs b (bump n Puts c ts1)"
      using call_bump_nth [OF c(1) n, where c = Puts and n = c] frame_writable [OF fb] ab [OF i s]
        ts(2) True by (simp add: absorbing_slot_def)
    ultimately show ?thesis by simp
  next
    case False
    have "wslots_inv inv (bump n Puts c ts1)"
      by (rule call_bump_inv [where invt = inv, OF c(1) n ts(1)])
         (use wr i in \<open>simp add: writer_law_def\<close>)
    moreover have "absorbing_slot absorbs b (bump n Puts c ts1)"
      using absorbing_frame [OF fb _ ts(2)] False by simp
    ultimately show ?thesis using demote_none [of "bump n Puts c ts1" b n d] c(2) False ts(3) by simp
  qed
qed

text \<open>A write of one tier that an absorbing tier takes whole.\<close>

lemma through_none:
  assumes wr: "writer_law inv con wr m"
    and ab: "\<And>t s. inv t s \<Longrightarrow> absorbs t s \<Longrightarrow> fst (wr t s) = Ok [] \<and> absorbs t (snd (wr t s))"
    and "wslots_inv inv ts" "absorbing_slot absorbs b ts" "pol_demote_displaced p"
    and "n \<le> length ts" "\<And>j. b < j \<Longrightarrow> j < n \<Longrightarrow> \<not> writable (ts ! j)"
  shows "fst (through_loop p wr c (rev [0..<n]) [] ts) = Ok [] \<and>
         absorbing_slot absorbs b (snd (through_loop p wr c (rev [0..<n]) [] ts))"
  using assms(3-)
proof (induction n arbitrary: ts)
  case (Suc n)
  have n: "n < length ts" using Suc.prems by simp
  show ?case
  proof (cases "writable (ts ! n)")
    case False
    with Suc.IH [OF Suc.prems(1-3)] Suc.prems(4,5) show ?thesis by simp
  next
    case True
    obtain d ts1 off ts2 where w: "call n wr ts = (Ok d, ts1)"
        "demote n d (bump n Puts c ts1) = (off, ts2)" "wslots_inv inv ts2" "frame {j. n \<le> j} ts ts2"
        "d = [] \<longrightarrow> off = [] \<and> ts2 = bump n Puts c ts1"
      by (rule write_demote_conserves [where n = c, OF wr Suc.prems(1) n True])
    have nb: "n \<le> b" using Suc.prems(5) [of n] True by (cases "b < n") auto
    have b2: "off = [] \<and> absorbing_slot absorbs b ts2"
      by (rule write_demote_none [OF wr ab Suc.prems(1,2) nb True w(1,2,5)])
    have "through_loop p wr c (rev [0..<Suc n]) [] ts = through_loop p wr c (rev [0..<n]) [] ts2"
      using through_step [OF w(1,2,5) True Suc.prems(3), of "rev [0..<n]" "[]"] b2 by simp
    moreover have "n \<le> length ts2" using n frame_length [OF w(4)] by simp
    ultimately show ?thesis
      using Suc.IH [OF w(3) _ Suc.prems(3)] b2 Suc.prems(5) frame_writable [OF w(4)] by simp
  qed
qed simp

lemma write_through_none:
  assumes wr: "writer_law inv con wr m"
    and ab: "\<And>t s. inv t s \<Longrightarrow> absorbs t s \<Longrightarrow> fst (wr t s) = Ok [] \<and> absorbs t (snd (wr t s))"
    and ts: "wslots_inv inv ts" "rposition_writable ts = Some b" "absorbing_slot absorbs b ts"
      "pol_demote_displaced p"
  obtains ts' where "write_through p wr c ts = (Ok [], ts')" "wslots_inv inv ts'"
    "absorbing_slot absorbs b ts'" "wview con ts' = wview con ts ++ m"
proof -
  note b = rposition_writable_Some [OF ts(2)]
  have w: "list_ex writable ts" using b by (auto simp: list_ex_length)
  obtain ev ts' where c: "write_through p wr c ts = (Ok ev, ts')" "wslots_inv inv ts'"
      "pend ev ++ wview con ts' = wview con ts ++ m"
    by (rule write_through_conserves [OF wr ts(1,4) w])
  have "fst (through_loop p wr c (rev [0..<length ts]) [] ts) = Ok [] \<and>
        absorbing_slot absorbs b (snd (through_loop p wr c (rev [0..<length ts]) [] ts))"
    using through_none [OF wr ab ts(1,3,4) order_refl] b by simp
  then have "ev = []" "absorbing_slot absorbs b ts'" using c(1) w by (simp_all add: write_through_def)
  with c show thesis by (intro that) simp_all
qed

end

section \<open>The property\<close>

lemma absorbing_never_evicts:
  assumes "absorbing_tiers ivt con ab" "wslots_inv ivt (rt_tiers r)"
    and "pol_write (rt_policy r) = WriteThrough" "pol_demote_displaced (rt_policy r)"
    and "rposition_writable (rt_tiers r) = Some b" "absorbing_slot ab b (rt_tiers r)"
  shows "(\<exists>r'. router_put r k v = (Ok [], r') \<and> wslots_inv ivt (rt_tiers r') \<and>
            absorbing_slot ab b (rt_tiers r') \<and>
            wview con (rt_tiers r') = wview con (rt_tiers r) ++ [k \<mapsto> v]) \<and>
         (\<exists>r'. router_put_many r es = (Ok [], r') \<and> wslots_inv ivt (rt_tiers r') \<and>
            absorbing_slot ab b (rt_tiers r') \<and>
            wview con (rt_tiers r') = wview con (rt_tiers r) ++ pend es)"
proof
  note rel = absorbing_tiers.axioms(1) [OF assms(1)]
  note none = absorbing_tiers.put_none [OF assms(1)] absorbing_tiers.put_absorbs [OF assms(1)]
    absorbing_tiers.put_many_none [OF assms(1)] absorbing_tiers.put_many_absorbs [OF assms(1)]
  obtain ts' where "write_through (rt_policy r) (\<lambda>t s. t_put t s k v) 1 (rt_tiers r) = (Ok [], ts')"
      "wslots_inv ivt ts'" "absorbing_slot ab b ts'" "wview con ts' = wview con (rt_tiers r) ++ [k \<mapsto> v]"
    by (rule absorbing_tiers.write_through_none [where c = 1, OF assms(1)
          reliable_tiers.put_writer [OF rel] _ assms(2,5,6,4)]) (use none in blast)
  then show "\<exists>r'. router_put r k v = (Ok [], r') \<and> wslots_inv ivt (rt_tiers r') \<and>
            absorbing_slot ab b (rt_tiers r') \<and>
            wview con (rt_tiers r') = wview con (rt_tiers r) ++ [k \<mapsto> v]"
    using assms(3) by (simp add: router_put_def)
  obtain ts' where "write_through (rt_policy r) (\<lambda>t s. t_put_many t s es) (length es) (rt_tiers r) = (Ok [], ts')"
      "wslots_inv ivt ts'" "absorbing_slot ab b ts'" "wview con ts' = wview con (rt_tiers r) ++ pend es"
    by (rule absorbing_tiers.write_through_none [where c = "length es", OF assms(1)
          reliable_tiers.put_many_writer [OF rel] _ assms(2,5,6,4)]) (use none in blast)
  then show "\<exists>r'. router_put_many r es = (Ok [], r') \<and> wslots_inv ivt (rt_tiers r') \<and>
            absorbing_slot ab b (rt_tiers r') \<and>
            wview con (rt_tiers r') = wview con (rt_tiers r) ++ pend es"
    using assms(3) by (simp add: router_put_many_def)
qed

text \<open>
  C7. Bounded tiers over a bottom that never displaces lose nothing and evict nothing: over reliable
  tiers, when the lowest writable tier absorbs every put, \<open>put\<close> and \<open>put_many\<close> of a write-through
  router with demotion return no evicted entry, the writable tiers hold what they held with the
  new entries on top, and the bottom still absorbs.
\<close>

theorem absorbing_bottom_never_evicts:
  assumes "absorbing_tiers ivt con ab" "wslots_inv ivt (rt_tiers r)"
    and "pol_write (rt_policy r) = WriteThrough" "pol_demote_displaced (rt_policy r)"
    and "rposition_writable (rt_tiers r) = Some b" "absorbing_slot ab b (rt_tiers r)"
  shows "(\<exists>r'. router_put r k v = (Ok [], r') \<and> wslots_inv ivt (rt_tiers r') \<and>
            absorbing_slot ab b (rt_tiers r') \<and>
            wview con (rt_tiers r') = wview con (rt_tiers r) ++ [k \<mapsto> v]) \<and>
         (\<exists>r'. router_put_many r es = (Ok [], r') \<and> wslots_inv ivt (rt_tiers r') \<and>
            absorbing_slot ab b (rt_tiers r') \<and>
            wview con (rt_tiers r') = wview con (rt_tiers r) ++ pend es)"
  using assms by (rule absorbing_never_evicts)

section \<open>Unbounded memory tiers\<close>

definition memory_absorbs ::
  "(('k, 'v) memory_tier, 'k, 'v, 'e) tier_ops \<Rightarrow> ('k, 'v) memory_tier \<Rightarrow> bool" where
  "memory_absorbs ops t \<longleftrightarrow> mt_max_entries t = None \<and> mt_bytes t = None"

lemma unlimited: "memory_absorbs ops t \<longleftrightarrow> tier_limits t = \<lparr>lim_entries = None, lim_bytes = None\<rparr>"
  by (auto simp: memory_absorbs_def tier_limits_def)

lemma unlimited_insert:
  "fst (mem_insert s k v w \<lparr>lim_entries = None, lim_bytes = None\<rparr> ev) = []"
  by (simp add: mem_insert_store evict_over_stop mem_over_def)

lemma unlimited_insert_batch:
  "fst (mem_insert_batch s es \<lparr>lim_entries = None, lim_bytes = None\<rparr> ev) = []"
  by (induction es arbitrary: s) (auto simp: Let_def split_def unlimited_insert)

interpretation memory: absorbing_tiers memory_inv "\<lambda>_. memory_con" memory_absorbs
  by unfold_locales
     (auto simp: memory_inv_def unlimited memory_put_def memory_put_many_def unlimited_insert
        unlimited_insert_batch Let_def split_def)

end
