(* ===== verification/Router_Examples.thy ===== *)
theory Router_Examples
  imports Router_Absorb Memory_Examples
begin

text \<open>
  Concrete hierarchies of memory tiers, on which the router's properties are instantiated, and a run
  that shows where entries leave a hierarchy without being returned: the promotions of a read.
\<close>

definition never_box :: "unit \<Rightarrow> string" where
  "never_box e = ''never''"

section \<open>Two full tiers\<close>

definition through_policy :: policy where
  "through_policy =
     \<lparr>pol_read = \<lparr>rp_promote = TopOnly, rp_on_error = FailFast\<rparr>, pol_write = WriteThrough,
      pol_on_write_error = FailFastWrite, pol_demote_displaced = True\<rparr>"

definition around_policy :: policy where
  "around_policy = through_policy\<lparr>pol_write := WriteAround\<rparr>"


definition two_tier :: "policy \<Rightarrow> ((string, nat) memory_tier, string, nat, string) router" where
  "two_tier p =
     builder_policy p
       (builder_tier never_box memory_ops (one_entry ''y'' 2 1 1)
         (builder_tier never_box memory_ops (one_entry ''x'' 1 1 1) builder_new))"

lemma two_tier_simps [simp]:
  "rt_policy (two_tier p) = p"
  "rt_tiers (two_tier p) =
     [\<lparr>slot_ops = memory_ops, slot_state = one_entry ''x'' 1 1 1, writable = True,
       slot_counters = counters_default\<rparr>,
      \<lparr>slot_ops = memory_ops, slot_state = one_entry ''y'' 2 1 1, writable = True,
       slot_counters = counters_default\<rparr>]"
  by (simp_all add: two_tier_def builder_policy_def builder_tier_def builder_new_def adapter_memory)

lemma two_tier_inv:
  "slots_inv memory_inv (rt_tiers (two_tier p))" "wslots_inv memory_inv (rt_tiers (two_tier p))"
  by (simp_all add: slots_inv_def wslots_inv_def one_entry_inv)

lemmas memory_laws =
  memory.single_laws_axioms memory.tier_laws_axioms memory.reliable_tiers_axioms

lemmas run_simps = call_def Let_def bump_def demote_def upt_rec numeral_2_eq_2
  wview_def view_def slot_con_def con_one con_none put_other put_same get_one exists_one delete_one

theorem write_through_lossless_witness:
  "\<exists>r'. router_put (two_tier through_policy) ''k'' 5 = (Ok [(''y'', 2), (''k'', 5)], r') \<and>
     pend [(''y'', 2), (''k'', 5)] ++ wview (\<lambda>_. memory_con) (rt_tiers r') =
       wview (\<lambda>_. memory_con) (rt_tiers (two_tier through_policy)) ++ [''k'' \<mapsto> 5]"
proof -
  have "fst (router_put (two_tier through_policy) ''k'' 5) = Ok [(''y'', 2), (''k'', 5)]"
    by (simp add: router_put_def write_through_def through_policy_def run_simps)
  with write_through_lossless [OF memory_laws(3) two_tier_inv(2) [of through_policy], of "''k''" 5 "[]"]
  show ?thesis by (auto simp: through_policy_def)
qed

definition rollover_router :: "((string, nat) memory_tier, string, nat, string) router" where
  "rollover_router =
     builder_policy through_policy
       (builder_tier never_box memory_ops memory_unbounded
         (builder_tier never_box memory_ops (one_entry ''x'' 1 1 1) builder_new))"

theorem absorbing_bottom_never_evicts_witness:
  "\<exists>r'. router_put rollover_router ''k'' 5 = (Ok [], r') \<and>
     wview (\<lambda>_. memory_con) (rt_tiers r') =
       wview (\<lambda>_. memory_con) (rt_tiers rollover_router) ++ [''k'' \<mapsto> 5]"
proof -
  have r: "rt_policy rollover_router = through_policy"
      "rt_tiers rollover_router =
        [\<lparr>slot_ops = memory_ops, slot_state = one_entry ''x'' 1 1 1, writable = True,
          slot_counters = counters_default\<rparr>,
         \<lparr>slot_ops = memory_ops, slot_state = memory_unbounded, writable = True,
          slot_counters = counters_default\<rparr>]"
    by (simp_all add: rollover_router_def builder_policy_def builder_tier_def builder_new_def adapter_memory)
  have "wslots_inv memory_inv (rt_tiers rollover_router)"
    by (simp add: r wslots_inv_def one_entry_inv) (simp add: memory_inv_def memory_unbounded_def mem_inv_empty)
  moreover have "absorbing_slot memory_absorbs 1 (rt_tiers rollover_router)"
    by (simp add: r absorbing_slot_def memory_absorbs_def memory_unbounded_def)
  ultimately show ?thesis
    using absorbing_bottom_never_evicts [OF memory.absorbing_tiers_axioms,
        of rollover_router 1 "''k''" 5 "[]"]
    by (auto simp: r through_policy_def)
qed

theorem router_delete_correct_witness:
  "\<exists>r'. router_delete (two_tier through_policy) ''y'' = (Ok True, r') \<and>
     wview (\<lambda>_. memory_con) (rt_tiers r') =
       (wview (\<lambda>_. memory_con) (rt_tiers (two_tier through_policy)))(''y'' := None)"
proof -
  obtain r' where r: "router_delete (two_tier through_policy) ''y'' = (Ok True, r')"
    by (simp add: router_delete_def run_simps)
  with router_delete_correct [OF memory_laws(1) two_tier_inv(2) r] show ?thesis by auto
qed

theorem write_around_invalidates_witness:
  "\<exists>r'. router_put (two_tier around_policy) ''x'' 5 = (Ok [(''y'', 2)], r') \<and>
     slot_con (\<lambda>_. memory_con) (rt_tiers r' ! 0) ''x'' = None \<and>
     pend [(''y'', 2)] ++ wview (\<lambda>_. memory_con) (rt_tiers r') =
       wview (\<lambda>_. memory_con) (rt_tiers (two_tier around_policy)) ++ [''x'' \<mapsto> 5]"
proof -
  have "fst (router_put (two_tier around_policy) ''x'' 5) = Ok [(''y'', 2)]"
    by (simp add: router_put_def write_around_def around_policy_def through_policy_def run_simps)
  moreover have "rposition_writable (rt_tiers (two_tier around_policy)) = Some 1" by simp
  ultimately show ?thesis
    using write_around_invalidates [OF memory_laws(2) two_tier_inv(2) [of around_policy],
        of "''x''" 5 "[(''y'', 2)]" "[]"]
    by (cases "router_put (two_tier around_policy) ''x'' 5") (auto simp: around_policy_def)
qed

theorem router_get_honest_witness:
  "\<exists>r'. router_get (two_tier through_policy) ''y'' = Some (Ok (Some 2), r') \<and>
     view (\<lambda>_. memory_con) (rt_tiers (two_tier through_policy)) ''y'' = Some 2"
proof -
  obtain r' where g: "router_get (two_tier through_policy) ''y'' = Some (Ok (Some 2), r')"
    by (simp add: router_get_eq get_reference_def through_policy_def run_simps)
  have "rp_on_error (pol_read (rt_policy (two_tier through_policy))) = FailFast"
    by (simp add: through_policy_def)
  with router_get_honest [OF memory_laws(1) two_tier_inv(1) g] g show ?thesis by auto
qed

theorem router_exists_honest_witness:
  "\<exists>r'. router_exists (two_tier through_policy) ''y'' = Some (Ok True, r') \<and>
     view (\<lambda>_. memory_con) (rt_tiers r') ''y'' \<noteq> None"
proof -
  obtain r' where g: "router_exists (two_tier through_policy) ''y'' = Some (Ok True, r')"
    by (simp add: router_exists_eq exists_reference_def ask_exists_def through_policy_def run_simps)
  with router_exists_honest [OF memory_laws(1) two_tier_inv(1) g] show ?thesis by auto
qed

theorem router_get_conserves_witness:
  "\<exists>r' ev. router_get (two_tier through_policy) ''y'' = Some (Ok (Some 2), r') \<and>
     (pend ev ++ wview (\<lambda>_. memory_con) (rt_tiers r') =
        wview (\<lambda>_. memory_con) (rt_tiers (two_tier through_policy)) \<or>
      pend ev ++ wview (\<lambda>_. memory_con) (rt_tiers r') =
        wview (\<lambda>_. memory_con) (rt_tiers (two_tier through_policy)) ++ [''y'' \<mapsto> 2])"
proof -
  obtain r' where g: "router_get (two_tier through_policy) ''y'' = Some (Ok (Some 2), r')"
    by (simp add: router_get_eq get_reference_def through_policy_def run_simps)
  have "pol_demote_displaced (rt_policy (two_tier through_policy))" by (simp add: through_policy_def)
  from router_get_conserves [OF memory_laws(3) two_tier_inv(1) this g] g show ?thesis by auto
qed

theorem router_remove_many_correct_witness:
  "\<exists>r'. router_remove_many (two_tier through_policy) [''x'', ''z''] =
          (\<lparr>del_removed = [True, False], del_failures = []\<rparr>, r') \<and>
     wview (\<lambda>_. memory_con) (rt_tiers r') =
       wview (\<lambda>_. memory_con) (rt_tiers (two_tier through_policy)) |` (- {''x'', ''z''})"
proof -
  obtain r' where r: "router_remove_many (two_tier through_policy) [''x'', ''z''] =
      (\<lparr>del_removed = [True, False], del_failures = []\<rparr>, r')"
    by (simp add: router_remove_many_def run_simps delete_many_two)
  with router_remove_many_correct [OF memory_laws(2) two_tier_inv(2) r] show ?thesis
    by (simp add: delete_complete_def)
qed

section \<open>Where entries leave without being returned\<close>

definition rolling_router :: "((string, nat) memory_tier, string, nat, string) router" where
  "rolling_router =
     builder_policy (through_policy\<lparr>pol_read := \<lparr>rp_promote = AllAbove, rp_on_error = FallThrough\<rparr>\<rparr>)
      (builder_tier never_box memory_ops (one_entry ''k'' 3 1 1)
       (builder_tier never_box memory_ops (one_entry ''y'' 2 1 1)
        (builder_tier never_box memory_ops (one_entry ''x'' 1 1 1) builder_new)))"

lemma rolling_simps:
  "rt_policy rolling_router = through_policy\<lparr>pol_read := \<lparr>rp_promote = AllAbove, rp_on_error = FallThrough\<rparr>\<rparr>"
  "rt_tiers rolling_router =
     [\<lparr>slot_ops = memory_ops, slot_state = one_entry ''x'' 1 1 1, writable = True, slot_counters = counters_default\<rparr>,
      \<lparr>slot_ops = memory_ops, slot_state = one_entry ''y'' 2 1 1, writable = True, slot_counters = counters_default\<rparr>,
      \<lparr>slot_ops = memory_ops, slot_state = one_entry ''k'' 3 1 1, writable = True, slot_counters = counters_default\<rparr>]"
  by (simp_all add: rolling_router_def builder_policy_def builder_tier_def builder_new_def adapter_memory)

lemma rolling_batch:
  "fst (router_read_many rolling_router [''y'', ''z'']) =
     Ok \<lparr>rep_statuses = [Status_Hit 1 2, Status_Miss], rep_failures = []\<rparr>"
  by (simp add: rolling_simps router_read_many_def upt_rec call_def Let_def get_many_one bump_def through_policy_def numeral_3_eq_3)

lemma rolling_inv: "slots_inv memory_inv (rt_tiers rolling_router)"
  by (simp add: rolling_simps slots_inv_def one_entry_inv)

theorem router_read_many_honest_witness:
  "fst (router_read_many rolling_router [''y'', ''z'']) =
     Ok \<lparr>rep_statuses = [Status_Hit 1 2, Status_Miss], rep_failures = []\<rparr> \<and>
   map (view (\<lambda>_. memory_con) (rt_tiers rolling_router)) [''y'', ''z''] = [Some 2, None]"
proof -
  obtain r' where "router_read_many rolling_router [''y'', ''z''] =
      (Ok \<lparr>rep_statuses = [Status_Hit 1 2, Status_Miss], rep_failures = []\<rparr>, r')"
    using rolling_batch by (metis prod.collapse)
  from router_read_many_honest [OF memory_laws(2) rolling_inv this] rolling_batch
  show ?thesis by (simp add: into_values_def)
qed

text \<open>
  A read can lose an entry silently. It promotes into every tier above the hit, the cascade of
  the second promotion pushes \<open>y\<close> off the bottom, and the read answers without it.
\<close>

theorem promotion_drops_evicted:
  "wview (\<lambda>_. memory_con) (rt_tiers rolling_router) ''y'' = Some 2 \<and>
   (\<exists>r'. router_get rolling_router ''k'' = Some (Ok (Some 3), r') \<and>
     wview (\<lambda>_. memory_con) (rt_tiers r') ''y'' = None)"
  by (simp add: rolling_simps router_get_eq get_reference_def through_policy_def upt_rec call_def Let_def
     bump_def get_one fill_one_def demote_def put_other put_same wview_def view_def slot_con_def con_one numeral_3_eq_3 map_add_def)

end
