(* ===== verification/Router_Keeps.thy ===== *)
theory Router_Keeps
  imports Router_Absorb
begin

text \<open>
  Hierarchies that never forget: all tiers writable, the bottom one absorbs every put, demotion is
  on. Then nothing a client does short of deleting makes a key disappear: reads with any promotion,
  batched reads and writes only ever add keys to what the hierarchy holds.
\<close>

section \<open>Reads of an absorbing tier\<close>

locale lasting_tiers = absorbing_tiers +
  assumes get_absorbs: "inv t s \<Longrightarrow> absorbs t s \<Longrightarrow> absorbs t (snd (t_get t s k))"
    and exists_absorbs: "inv t s \<Longrightarrow> absorbs t s \<Longrightarrow> absorbs t (snd (t_exists t s k))"
    and get_many_absorbs: "inv t s \<Longrightarrow> absorbs t s \<Longrightarrow> absorbs t (snd (t_get_many t s ks))"

interpretation memory: lasting_tiers memory_inv "\<lambda>_. memory_con" memory_absorbs
  by unfold_locales
     (auto simp: memory_inv_def memory_absorbs_def memory_get_def memory_exists_def memory_get_many_def Let_def split_def)

definition kept ::
  "(('s, 'k, 'v, 'x) tier_ops \<Rightarrow> 's \<Rightarrow> bool) \<Rightarrow> (('s, 'k, 'v, 'x) tier_ops \<Rightarrow> 's \<Rightarrow> bool) \<Rightarrow>
   ('s, 'k, 'v, 'x) slots \<Rightarrow> bool"
where
  "kept ivt ab ts \<longleftrightarrow> slots_inv ivt ts \<and> list_all writable ts \<and> absorbing_slot ab (length ts - 1) ts"

text \<open>From \<open>ts\<close> to \<open>ts'\<close> no key is lost, and the hierarchy stays one that never forgets.\<close>

definition grows ::
  "(('s, 'k, 'v, 'x) tier_ops \<Rightarrow> 's \<Rightarrow> bool) \<Rightarrow> (('s, 'k, 'v, 'x) tier_ops \<Rightarrow> 's \<Rightarrow> bool) \<Rightarrow>
   (('s, 'k, 'v, 'x) tier_ops \<Rightarrow> 's \<Rightarrow> ('k \<rightharpoonup> 'v)) \<Rightarrow>
   ('s, 'k, 'v, 'x) slots \<Rightarrow> ('s, 'k, 'v, 'x) slots \<Rightarrow> bool"
where
  "grows ivt ab con ts ts' \<longleftrightarrow>
     kept ivt ab ts \<longrightarrow> kept ivt ab ts' \<and> length ts' = length ts \<and> dom (view con ts) \<subseteq> dom (view con ts')"

lemma grows_refl [simp]: "grows ivt ab con ts ts"
  by (simp add: grows_def)

lemma grows_trans:
  "grows ivt ab con ts ts1 \<Longrightarrow> grows ivt ab con ts1 ts2 \<Longrightarrow> grows ivt ab con ts ts2"
  by (auto simp: grows_def)

lemma rposition_all: "list_all writable ts \<Longrightarrow> ts \<noteq> [] \<Longrightarrow> rposition_writable ts = Some (length ts - 1)"
proof (induction ts)
  case (Cons sl ts)
  then show ?case by (cases ts) simp_all
qed simp

lemma kept_ne: "kept ivt ab ts \<Longrightarrow> ts \<noteq> []"
  by (auto simp: kept_def absorbing_slot_def)

lemma kept_wslots: "kept ivt ab ts \<Longrightarrow> wslots_inv ivt ts"
  by (simp add: kept_def slots_inv_wslots)

lemma kept_writable: "kept ivt ab ts \<Longrightarrow> i < length ts \<Longrightarrow> writable (ts ! i)"
  by (simp add: kept_def list_all_length)

lemma kept_frame:
  assumes "kept ivt ab ts" "frame W ts ts'" "wslots_inv ivt ts'" "absorbing_slot ab (length ts - 1) ts'"
  shows "kept ivt ab ts'"
proof -
  have "list_all writable ts'" using assms(1,2) by (simp add: kept_def list_all_frame)
  then show ?thesis
    using assms frame_length [OF assms(2)] by (auto simp: kept_def slots_inv_def wslots_inv_def list_all_iff)
qed

lemma wview_kept: "kept ivt ab ts \<Longrightarrow> wview con ts = view con ts"
  by (simp add: kept_def wview_all_writable)

lemma dom_wview_split: "dom (wview con ts) = dom (wview con (drop i ts)) \<union> dom (wview con (take i ts))"
  by (subst wview_split [of con ts i]) auto

context lasting_tiers begin

lemma fill_one_grows:
  assumes wr: "writer_law inv con wr m"
    and ab: "\<And>t s. inv t s \<Longrightarrow> absorbs t s \<Longrightarrow> fst (wr t s) = Ok [] \<and> absorbs t (snd (wr t s))"
    and "pol_demote_displaced p" "i < length ts"
  shows "grows inv absorbs con ts (fill_one p wr n i ts)"
  unfolding grows_def
proof
  assume k: "kept inv absorbs ts"
  note w = kept_writable [OF k assms(4)]
  obtain d ts1 off ts2 where s: "call i wr ts = (Ok d, ts1)" "demote i d (bump i Puts n ts1) = (off, ts2)"
      "wslots_inv inv ts2" "frame {j. i \<le> j} ts ts2"
      "pend off ++ wview con (drop i ts2) = wview con (drop i ts) ++ m"
      "d = [] \<longrightarrow> off = [] \<and> ts2 = bump i Puts n ts1"
    by (rule write_demote_conserves [where n = n, OF wr kept_wslots [OF k] assms(4) w])
  have b: "absorbing_slot absorbs (length ts - 1) ts" using k by (simp add: kept_def)
  have off: "off = [] \<and> absorbing_slot absorbs (length ts - 1) ts2"
    by (rule write_demote_none [OF wr ab kept_wslots [OF k] b _ w s(1,2,6)]) (use assms(4) in auto)
  have fill: "fill_one p wr n i ts = ts2"
    using s(1,2,6) w assms(3) by (cases "d = []") (auto simp: fill_one_def Let_def)
  have "wview con (drop i ts2) = wview con (drop i ts) ++ m" using s(5) off by simp
  then have "dom (wview con ts) \<subseteq> dom (wview con ts2)"
    unfolding dom_wview_split [of con ts i] dom_wview_split [of con ts2 i]
    using frame_take [OF s(4)] by auto
  moreover have "kept inv absorbs ts2" using kept_frame [OF k s(4,3)] off by blast
  ultimately show "kept inv absorbs (fill_one p wr n i ts) \<and> length (fill_one p wr n i ts) = length ts \<and>
      dom (view con ts) \<subseteq> dom (view con (fill_one p wr n i ts))"
    using fill frame_length [OF s(4)] wview_kept [OF k, of con] wview_kept [of inv absorbs ts2 con] by simp
qed


lemma put_takes:
  "inv t s \<Longrightarrow> absorbs t s \<Longrightarrow> fst (t_put t s k v) = Ok [] \<and> absorbs t (snd (t_put t s k v))"
  "inv t s \<Longrightarrow> absorbs t s \<Longrightarrow> fst (t_put_many t s es) = Ok [] \<and> absorbs t (snd (t_put_many t s es))"
  by (simp_all add: put_none put_absorbs put_many_none put_many_absorbs)

lemma fill_all_grows:
  assumes "pol_demote_displaced p" "set is \<subseteq> {..<length ts}"
  shows "grows inv absorbs con ts (fill_all p k v is ts)"
  using assms(2)
proof (induction "is" arbitrary: ts)
  case (Cons i "is")
  let ?t = "fill_one p (\<lambda>t s. t_put t s k v) 1 i ts"
  have g: "grows inv absorbs con ts ?t"
    using Cons.prems by (intro fill_one_grows [OF put_writer put_takes(1) assms(1)]) auto
  show ?case
  proof (cases "kept inv absorbs ts")
    case True
    then have "grows inv absorbs con ?t (fill_all p k v is ?t)"
      using g Cons.prems by (intro Cons.IH) (simp add: grows_def)
    with g show ?thesis by (auto intro: grows_trans)
  qed (simp add: grows_def)
qed simp

lemma fill_batch_grows:
  assumes "pol_demote_displaced p" "set is \<subseteq> {..<length ts}"
  shows "grows inv absorbs con ts (fill_batch p es is ts)"
  using assms(2)
proof (induction "is" arbitrary: ts)
  case (Cons i "is")
  let ?t = "fill_one p (\<lambda>t s. t_put_many t s es) (length es) i ts"
  have g: "grows inv absorbs con ts ?t"
    using Cons.prems by (intro fill_one_grows [OF put_many_writer put_takes(2) assms(1)]) auto
  show ?case
  proof (cases "kept inv absorbs ts")
    case True
    then have "grows inv absorbs con ?t (fill_batch p es is ?t)"
      using g Cons.prems by (intro Cons.IH) (simp add: grows_def)
    with g show ?thesis by (auto intro: grows_trans)
  qed (simp add: grows_def)
qed simp

lemma promote_tiers_grows:
  assumes "pol_demote_displaced p" "tier + length hits \<le> length ts"
  shows "grows inv absorbs con ts (promote_tiers p ks sts tier hits ts)"
  using assms(2)
proof (induction hits arbitrary: tier ts)
  case (Cons h hits)
  let ?t = "if tier = 0 \<or> h = [] then ts else fill_batch p (batch_entries ks sts h)
               (batch_targets (rp_promote (pol_read p)) tier) ts"
  have "set (batch_targets (rp_promote (pol_read p)) tier) \<subseteq> {..<length ts}" if "tier \<noteq> 0"
    using Cons.prems that by (cases "rp_promote (pol_read p)") auto
  then have g: "grows inv absorbs con ts ?t" by (auto intro: fill_batch_grows [OF assms(1)])
  show ?case
  proof (cases "kept inv absorbs ts")
    case True
    then have "grows inv absorbs con ?t (promote_tiers p ks sts (Suc tier) hits ?t)"
      using g Cons.prems by (intro Cons.IH) (simp add: grows_def)
    with g show ?thesis using grows_trans by (metis promote_tiers.simps(2))
  qed (simp add: grows_def)
qed simp

lemma length_bucket_hits: "length (bucket_hits j sts hits) = length hits"
  by (induction j sts hits rule: bucket_hits.induct) (auto split: key_status.split)

lemma promote_batch_grows:
  "pol_demote_displaced p \<Longrightarrow> grows inv absorbs con ts (promote_batch p ks sts ts)"
  by (simp add: promote_batch_def promote_tiers_grows length_bucket_hits)

text \<open>A probe of one tier.\<close>

lemma probe_grows:
  assumes law: "reader_law inv con ask g" and i: "i < length ts" and c: "call i ask ts = (a, ts1)"
    and ab: "\<And>t s. inv t s \<Longrightarrow> absorbs t s \<Longrightarrow> absorbs t (snd (ask t s))"
  shows "grows inv absorbs con ts (bump i cc n ts1)"
  unfolding grows_def
proof
  assume k: "kept inv absorbs ts"
  let ?t = "bump i cc n ts1"
  have iv: "slots_inv inv ts" using k by (simp add: kept_def)
  note p = probe_call(1) [OF law iv i c, where cc = cc and n = n]
    probe_call(4) [OF law iv i c, where cc = cc and n = n]
  have f: "frame UNIV ts ?t" and iv': "slots_inv inv ?t" using p(1) iv by (auto simp: same_contents_def)
  have b: "absorbing_slot absorbs (length ts - 1) ts" using k by (simp add: kept_def)
  have "absorbing_slot absorbs (length ts - 1) ?t"
  proof (cases "i = length ts - 1")
    case True
    then show ?thesis
      using call_bump_nth(1,2,4) [OF c i, of cc n] frame_writable [OF f] b ab [OF slots_inv_nth [OF iv i]]
      by (simp add: absorbing_slot_def)
  next
    case False
    then show ?thesis
      using p(2) [of "length ts - 1"] b call_bump_nth(4) [OF c i, of cc n] by (simp add: absorbing_slot_def)
  qed
  then show "kept inv absorbs ?t \<and> length ?t = length ts \<and> dom (view con ts) \<subseteq> dom (view con ?t)"
    using kept_frame [OF k f] iv' slots_inv_wslots frame_length [OF f] same_contents_view [OF p(1)] by auto
qed

lemma scan_grows:
  assumes law: "reader_law inv con ask g"
    and ab: "\<And>t s. inv t s \<Longrightarrow> absorbs t s \<Longrightarrow> absorbs t (snd (ask t s))"
    and "set is \<subseteq> {..<length ts}"
  shows "grows inv absorbs con ts (snd (scan_tiers m ask is fs ts))"
  using assms(3)
proof (induction "is" arbitrary: fs ts)
  case (Cons i "is")
  obtain a ts1 where c: "call i ask ts = (a, ts1)" by fastforce
  have i: "i < length ts" using Cons.prems by simp
  note g = probe_grows [OF law i c ab]
  have len: "length (bump i cc n ts1) = length ts" for cc n by (rule call_bump_nth(4) [OF c i])
  have step: "grows inv absorbs con ts (snd (scan_tiers m ask is fs' (bump i cc n ts1)))" for fs' cc n
    using grows_trans [OF g [of cc n]] Cons.IH [of "bump i cc n ts1" fs'] Cons.prems len [of cc n] by simp
  show ?case
    using step g by (cases a) (auto simp: c Let_def split: option.split on_read_error.split)
qed simp


lemma bump_grows: "grows inv absorbs con ts (bump i c n ts)"
  unfolding grows_def
proof
  assume k: "kept inv absorbs ts"
  note s = same_contents_bump [of inv con ts i c n]
  have f: "frame UNIV ts (bump i c n ts)" and iv: "slots_inv inv (bump i c n ts)"
    using s k by (auto simp: same_contents_def kept_def)
  have "absorbing_slot absorbs (length ts - 1) (bump i c n ts)"
    using k by (cases "i = length ts - 1") (simp_all add: kept_def absorbing_slot_def bump_def)
  then show "kept inv absorbs (bump i c n ts) \<and> length (bump i c n ts) = length ts \<and>
      dom (view con ts) \<subseteq> dom (view con (bump i c n ts))"
    using kept_frame [OF k f slots_inv_wslots [OF iv]] frame_length [OF f] same_contents_view [OF s] by simp
qed

lemma read_loop_grows:
  assumes "set is \<subseteq> {..<length ts}"
  shows "grows inv absorbs con ts (snd (read_loop p ks is sts un fs ts))"
  using assms
proof (induction "is" arbitrary: sts un fs ts)
  case (Cons i "is")
  let ?ask = "\<lambda>t s. t_get_many t s (map (\<lambda>j. ks ! j) un)"
  obtain a ts1 where c: "call i ?ask ts = (a, ts1)" by fastforce
  have i: "i < length ts" using Cons.prems by simp
  note g = probe_grows [OF get_many_reader i c get_many_absorbs]
  have len: "length (bump i cc n ts1) = length ts" for cc n by (rule call_bump_nth(4) [OF c i])
  have step: "grows inv absorbs con ts (snd (read_loop p ks is sts' un' fs' (bump i c2 n2 (bump i c1 n1 ts1))))"
    for sts' un' fs' c1 n1 c2 n2
    using grows_trans [OF grows_trans [OF g [of c1 n1] bump_grows [of _ i c2 n2]]]
      Cons.IH [of "bump i c2 n2 (bump i c1 n1 ts1)" sts' un' fs'] Cons.prems len [of c1 n1]
    by (simp add: bump_def)
  have step1: "grows inv absorbs con ts (snd (read_loop p ks is sts' un' fs' (bump i c1 n1 ts1)))"
    for sts' un' fs' c1 n1
    using grows_trans [OF g [of c1 n1]] Cons.IH [of "bump i c1 n1 ts1" sts' un' fs'] Cons.prems
      len [of c1 n1] by simp
  show ?case
    using g step step1 by (cases a) (auto simp: c Let_def split_def split: on_read_error.split)
qed simp

text \<open>The operations of a router.\<close>

lemma router_read_many_grows:
  assumes "pol_demote_displaced (rt_policy r)"
  shows "grows inv absorbs con (rt_tiers r) (rt_tiers (snd (router_read_many r ks)))"
proof -
  obtain res ts1 where l: "read_loop (rt_policy r) ks [0..<length (rt_tiers r)] (replicate (length ks) Status_Miss)
      [0..<length ks] [] (rt_tiers r) = (res, ts1)" by fastforce
  have g: "grows inv absorbs con (rt_tiers r) ts1"
    using read_loop_grows [OF upt_range, where ts = "rt_tiers r" and p = "rt_policy r" and ks = ks and fs = "[]" and
      sts = "replicate (length ks) Status_Miss" and un = "[0..<length ks]"] l by simp
  show ?thesis
    using g grows_trans [OF g promote_batch_grows [OF assms]]
    by (cases res) (auto simp: router_read_many_def l Let_def split: prod.split)
qed

lemma router_get_grows:
  assumes k: "kept inv absorbs (rt_tiers r)" and dm: "pol_demote_displaced (rt_policy r)"
  shows "\<exists>r'. router_get r k = Some (Ok (view con (rt_tiers r) k), r') \<and>
    grows inv absorbs con (rt_tiers r) (rt_tiers r') \<and> rt_policy r' = rt_policy r"
proof -
  let ?ts = "rt_tiers r"
  have iv: "slots_inv inv ?ts" using k by (simp add: kept_def)
  obtain sc ts' where s: "scan_tiers (rp_on_error (pol_read (rt_policy r))) (\<lambda>t s. t_get t s k)
      [0..<length ?ts] [] ?ts = (sc, ts')" by fastforce
  note spec = scan_spec [OF get_reader iv s]
  have ok: "\<forall>j < length ?ts. \<not> probe_fails (\<lambda>t s. t_get t s k) ?ts j"
    using get_ok slots_inv_nth [OF iv] by (simp add: probe_fails_def)
  note hit = read_answer_reliable [OF spec [THEN conjunct2, simplified] ok]
  have res: "scan_result Some None sc = Ok (view con ?ts k)"
    using hit view_first [of _ ?ts con k] by (auto simp: view_None_iff eq_commute [of None])
  have g: "grows inv absorbs con ?ts ts'"
    using scan_grows [OF get_reader get_absorbs upt_range] s by (metis snd_conv)
  have len: "length ts' = length ?ts" using g k by (simp add: grows_def)
  have "grows inv absorbs con ts' (promote_hit (rt_policy r) k sc ts')"
  proof (cases sc)
    case (Scan_Hit i v)
    then have "i < length ts'" using hit len by auto
    then have "set (promotion_targets (rp_promote (pol_read (rt_policy r))) i) \<subseteq> {..<length ts'}"
      by (cases "rp_promote (pol_read (rt_policy r))") auto
    with Scan_Hit show ?thesis by (simp add: fill_all_grows [OF dm])
  qed simp_all
  then show ?thesis
    using s res grows_trans [OF g] by (simp add: router_get_eq get_reference_def Let_def)
qed

lemma router_exists_grows:
  "\<exists>r'. map_option snd (router_exists r k) = Some r' \<and> rt_policy r' = rt_policy r \<and>
    grows inv absorbs con (rt_tiers r) (rt_tiers r')"
proof -
  have "absorbs t (snd (ask_exists k t s))" if "inv t s" "absorbs t s" for t s
    using exists_absorbs [OF that] by (simp add: ask_exists_def)
  from scan_grows [OF exists_reader this upt_range]
  show ?thesis by (simp add: router_exists_eq exists_reference_def Let_def split_def)
qed

text \<open>What a write-through of the entries \<open>m\<close> does.\<close>

lemma write_grows:
  assumes k: "kept inv absorbs (rt_tiers r)"
    and f: "frame (writables (rt_tiers r)) (rt_tiers r) (rt_tiers r')" "wslots_inv inv (rt_tiers r')"
      "absorbing_slot absorbs (length (rt_tiers r) - 1) (rt_tiers r')"
      "wview con (rt_tiers r') = wview con (rt_tiers r) ++ m"
  shows "grows inv absorbs con (rt_tiers r) (rt_tiers r') \<and> view con (rt_tiers r') = view con (rt_tiers r) ++ m"
proof -
  have k': "kept inv absorbs (rt_tiers r')" by (rule kept_frame [OF k f(1-3)])
  then have "view con (rt_tiers r') = view con (rt_tiers r) ++ m"
    using f(4) wview_kept [OF k, of con] wview_kept [OF k', of con] by simp
  then show ?thesis using k' frame_length [OF f(1)] by (simp add: grows_def)
qed

lemma router_put_grows:
  assumes k: "kept inv absorbs (rt_tiers r)" and p: "pol_demote_displaced (rt_policy r)"
    "pol_write (rt_policy r) = WriteThrough"
  shows "\<exists>r'. router_put r k v = (Ok [], r') \<and> grows inv absorbs con (rt_tiers r) (rt_tiers r') \<and>
      view con (rt_tiers r') = view con (rt_tiers r) ++ [k \<mapsto> v] \<and> rt_policy r' = rt_policy r"
    and "\<exists>r'. router_put_many r es = (Ok [], r') \<and> grows inv absorbs con (rt_tiers r) (rt_tiers r') \<and>
      view con (rt_tiers r') = view con (rt_tiers r) ++ pend es \<and> rt_policy r' = rt_policy r"
proof -
  let ?ts = "rt_tiers r"
  have b: "rposition_writable ?ts = Some (length ?ts - 1)" "absorbing_slot absorbs (length ?ts - 1) ?ts"
    using k rposition_all [OF _ kept_ne [OF k]] by (simp_all add: kept_def)
  note n = absorbing_never_evicts [OF absorbing_tiers_axioms kept_wslots [OF k] p(2,1) b]
  obtain r' where r': "router_put r k v = (Ok [], r')" "wslots_inv inv (rt_tiers r')"
      "absorbing_slot absorbs (length ?ts - 1) (rt_tiers r')" "wview con (rt_tiers r') = wview con ?ts ++ [k \<mapsto> v]"
    using n by blast
  then show "\<exists>r'. router_put r k v = (Ok [], r') \<and> grows inv absorbs con (rt_tiers r) (rt_tiers r') \<and>
      view con (rt_tiers r') = view con (rt_tiers r) ++ [k \<mapsto> v] \<and> rt_policy r' = rt_policy r"
    using write_grows [OF k _ r'(2-4)] put_frame [of r k v] router_policies(1) [of r k v] by simp
  obtain r' where r': "router_put_many r es = (Ok [], r')" "wslots_inv inv (rt_tiers r')"
      "absorbing_slot absorbs (length ?ts - 1) (rt_tiers r')" "wview con (rt_tiers r') = wview con ?ts ++ pend es"
    using n by blast
  then show "\<exists>r'. router_put_many r es = (Ok [], r') \<and> grows inv absorbs con (rt_tiers r) (rt_tiers r') \<and>
      view con (rt_tiers r') = view con (rt_tiers r) ++ pend es \<and> rt_policy r' = rt_policy r"
    using write_grows [OF k _ r'(2-4)] put_many_frame [of r es] router_policies(2) [of r es] by simp
qed

lemma router_read_policy: "rt_policy (snd (router_read_many r ks)) = rt_policy r"
  by (auto simp: router_read_many_def Let_def split: prod.split sum.split)

end

end
