(* ===== verification/Tiered_Store.thy ===== *)
theory Tiered_Store
  imports Router_Examples Router_Keeps
begin

text \<open>
  \<open>tierstore/src/store.rs\<close>: the authoritative store, a router with a preset policy and a stance on
  loss. Over reliable writable tiers it is a map: as long as no write reports evicted entries,
  every answer is that of a plain map, and a write that reports them hands over everything that
  the hierarchy no longer holds.
\<close>

section \<open>Operations\<close>

record ('s, 'k, 'v, 'x) tiered_store =
  st_router :: "('s, 'k, 'v, 'x) router"

datatype ('k, 'v, 'x) store_error = Store_Router "'x router_error" | Evicted "('k, 'v) displaced"

definition store_default_policy :: policy where
  "store_default_policy =
     \<lparr>pol_read = \<lparr>rp_promote = Never, rp_on_error = FailFast\<rparr>, pol_write = WriteThrough,
      pol_on_write_error = FailFastWrite, pol_demote_displaced = True\<rparr>"

definition store_builder :: "('s, 'k, 'v, 'x) router" where
  "store_builder = builder_policy store_default_policy builder_new"

definition store_builder_tier ::
  "('e \<Rightarrow> 'x) \<Rightarrow> ('s, 'k, 'v, 'e) tier_ops \<Rightarrow> 's \<Rightarrow> ('s, 'k, 'v, 'x) router \<Rightarrow> ('s, 'k, 'v, 'x) router" where
  "store_builder_tier into t s b = builder_tier into t s b"

definition store_builder_read_only_tier ::
  "('e \<Rightarrow> 'x) \<Rightarrow> (string \<Rightarrow> 'x) \<Rightarrow> ('s, 'k, 'v, 'e) tier_read \<Rightarrow> 's \<Rightarrow> ('s, 'k, 'v, 'x) router \<Rightarrow>
   ('s, 'k, 'v, 'x) router"
where
  "store_builder_read_only_tier into box t s b = builder_read_only_tier into box t s b"

definition store_builder_policy :: "policy \<Rightarrow> ('s, 'k, 'v, 'x) router \<Rightarrow> ('s, 'k, 'v, 'x) router" where
  "store_builder_policy p b = builder_policy p b"

definition store_build :: "('s, 'k, 'v, 'x) router \<Rightarrow> ('s, 'k, 'v, 'x) tiered_store option" where
  "store_build b = map_option (\<lambda>r. \<lparr>st_router = r\<rparr>) (builder_build b)"

text \<open>The \<open>?\<close> operator on a router result, and the return of the store around the new router.\<close>

definition lift_router ::
  "('a, 'x router_error) result \<times> ('s, 'k, 'v, 'x) router \<Rightarrow>
   ('a, ('k, 'v, 'x) store_error) result \<times> ('s, 'k, 'v, 'x) tiered_store"
where
  "lift_router p = (map_err Store_Router (fst p), \<lparr>st_router = snd p\<rparr>)"

definition store_get ::
  "('s, 'k, 'v, 'x) tiered_store \<Rightarrow> 'k \<Rightarrow>
   (('v option, ('k, 'v, 'x) store_error) result \<times> ('s, 'k, 'v, 'x) tiered_store) option"
where
  "store_get st k = map_option lift_router (router_get (st_router st) k)"

definition store_get_many ::
  "('s, 'k, 'v, 'x) tiered_store \<Rightarrow> 'k list \<Rightarrow>
   (('v, 'x) read_report, ('k, 'v, 'x) store_error) result \<times> ('s, 'k, 'v, 'x) tiered_store"
where
  "store_get_many st ks = lift_router (router_read_many (st_router st) ks)"

definition store_contains ::
  "('s, 'k, 'v, 'x) tiered_store \<Rightarrow> 'k \<Rightarrow>
   ((bool, ('k, 'v, 'x) store_error) result \<times> ('s, 'k, 'v, 'x) tiered_store) option"
where
  "store_contains st k = map_option lift_router (router_exists (st_router st) k)"

text \<open>Turning displaced entries into an error.\<close>

fun loss_is_loud ::
  "(('k, 'v) displaced, ('k, 'v, 'x) store_error) result \<Rightarrow> (unit, ('k, 'v, 'x) store_error) result" where
  "loss_is_loud (Err e) = Err e"
| "loss_is_loud (Ok d) = (if d = [] then Ok () else Err (Evicted d))"

definition store_put ::
  "('s, 'k, 'v, 'x) tiered_store \<Rightarrow> 'k \<Rightarrow> 'v \<Rightarrow>
   (unit, ('k, 'v, 'x) store_error) result \<times> ('s, 'k, 'v, 'x) tiered_store"
where
  "store_put st k v = apfst loss_is_loud (lift_router (router_put (st_router st) k v))"

definition store_put_many ::
  "('s, 'k, 'v, 'x) tiered_store \<Rightarrow> ('k \<times> 'v) list \<Rightarrow>
   (unit, ('k, 'v, 'x) store_error) result \<times> ('s, 'k, 'v, 'x) tiered_store"
where
  "store_put_many st es = apfst loss_is_loud (lift_router (router_put_many (st_router st) es))"

definition store_delete ::
  "('s, 'k, 'v, 'x) tiered_store \<Rightarrow> 'k \<Rightarrow>
   (bool, ('k, 'v, 'x) store_error) result \<times> ('s, 'k, 'v, 'x) tiered_store"
where
  "store_delete st k = lift_router (router_delete (st_router st) k)"

definition store_delete_many ::
  "('s, 'k, 'v, 'x) tiered_store \<Rightarrow> 'k list \<Rightarrow> 'x delete_report \<times> ('s, 'k, 'v, 'x) tiered_store" where
  "store_delete_many st ks = apsnd (\<lambda>r. \<lparr>st_router = r\<rparr>) (router_remove_many (st_router st) ks)"

definition store_stats :: "('s, 'k, 'v, 'x) tiered_store \<Rightarrow> tier_stats list" where
  "store_stats st = router_stats (st_router st)"

text \<open>The store as a tier: the router's trait methods under another name.\<close>

definition re_store ::
  "'a \<times> ('s, 'k, 'v, 'x) router \<Rightarrow> 'a \<times> ('s, 'k, 'v, 'x) tiered_store" where
  "re_store p = apsnd (\<lambda>r. \<lparr>st_router = r\<rparr>) p"

definition store_ops :: "(('s, 'k, 'v, 'x) tiered_store, 'k, 'v, 'x router_error) tier_ops" where
  "store_ops =
     \<lparr>t_name = (\<lambda>st. ''store''),
      t_get = (\<lambda>st k. re_store (the (router_get (st_router st) k))),
      t_exists = (\<lambda>st k. re_store (the (router_exists (st_router st) k))),
      t_get_many = (\<lambda>st ks. re_store (router_get_many (st_router st) ks)),
      t_put = (\<lambda>st k v. re_store (router_put (st_router st) k v)),
      t_delete = (\<lambda>st k. re_store (router_delete (st_router st) k)),
      t_put_many = (\<lambda>st es. re_store (router_put_many (st_router st) es)),
      t_delete_many = (\<lambda>st ks. re_store (router_delete_many (st_router st) ks))\<rparr>"

section \<open>A store is a reliable tier\<close>

definition store_inv ::
  "(('s, 'k, 'v, 'x) tier_ops \<Rightarrow> 's \<Rightarrow> bool) \<Rightarrow>
   (('s, 'k, 'v, 'x) tiered_store, 'k, 'v, 'x router_error) tier_ops \<Rightarrow> ('s, 'k, 'v, 'x) tiered_store \<Rightarrow> bool"
where
  "store_inv ivt ops st \<longleftrightarrow> ops = store_ops \<and> router_inv ivt router_ops (st_router st)"

definition store_view ::
  "(('s, 'k, 'v, 'x) tier_ops \<Rightarrow> 's \<Rightarrow> ('k \<rightharpoonup> 'v)) \<Rightarrow> ('s, 'k, 'v, 'x) tiered_store \<Rightarrow> ('k \<rightharpoonup> 'v)" where
  "store_view con st = view con (rt_tiers (st_router st))"

lemma fst_re_store [simp]: "fst (re_store p) = fst p"
  by (simp add: re_store_def)

lemma snd_re_store [simp]: "snd (re_store p) = \<lparr>st_router = snd p\<rparr>"
  by (simp add: re_store_def)

lemma store_ops_simps [simp]:
  "t_get store_ops st k = re_store (t_get router_ops (st_router st) k)"
  "t_exists store_ops st k = re_store (t_exists router_ops (st_router st) k)"
  "t_get_many store_ops st ks = re_store (t_get_many router_ops (st_router st) ks)"
  "t_put store_ops st k v = re_store (t_put router_ops (st_router st) k v)"
  "t_delete store_ops st k = re_store (t_delete router_ops (st_router st) k)"
  "t_put_many store_ops st es = re_store (t_put_many router_ops (st_router st) es)"
  "t_delete_many store_ops st ks = re_store (t_delete_many router_ops (st_router st) ks)"
  by (simp_all add: store_ops_def)

context reliable_tiers begin

lemma store_reliable: "reliable_tiers (store_inv inv) (\<lambda>_. store_view con)"
proof -
  note r = router_reliable
  note s = tier_laws.axioms(1) [OF reliable_tiers.axioms(1) [OF r]]
  note t = reliable_tiers.axioms(1) [OF r]
  note laws = single_laws.get_inv [OF s] single_laws.get_con [OF s] single_laws.get_res [OF s]
    single_laws.exists_inv [OF s] single_laws.exists_con [OF s] single_laws.exists_res [OF s]
    single_laws.put_inv [OF s] single_laws.put_con [OF s] single_laws.delete_inv [OF s]
    single_laws.delete_con [OF s] single_laws.delete_res [OF s]
    tier_laws.get_many_inv [OF t] tier_laws.get_many_con [OF t] tier_laws.get_many_res [OF t]
    tier_laws.put_many_inv [OF t] tier_laws.put_many_con [OF t] tier_laws.delete_many_inv [OF t]
    tier_laws.delete_many_con [OF t] tier_laws.delete_many_res [OF t]
    reliable_tiers.get_ok [OF r] reliable_tiers.exists_ok [OF r] reliable_tiers.get_many_ok [OF r]
    reliable_tiers.put_ok [OF r] reliable_tiers.put_many_ok [OF r] reliable_tiers.delete_ok [OF r]
    reliable_tiers.delete_many_ok [OF r]
  note laws' = laws [unfolded router_con_def]
  show ?thesis
    by unfold_locales
       (unfold store_inv_def store_view_def, (elim conjE, hypsubst,
         simp only: store_ops_simps fst_re_store snd_re_store tiered_store.simps simp_thms,
         (rule laws'; assumption)+)+)
qed

end

interpretation memory_store: reliable_tiers "store_inv memory_inv" "\<lambda>_. store_view (\<lambda>_. memory_con)"
  by (rule memory.store_reliable)

section \<open>A store is a map\<close>

definition store_ready ::
  "(('s, 'k, 'v, 'x) tier_ops \<Rightarrow> 's \<Rightarrow> bool) \<Rightarrow> ('s, 'k, 'v, 'x) tiered_store \<Rightarrow> bool" where
  "store_ready ivt st \<longleftrightarrow> router_inv ivt router_ops (st_router st)"

context reliable_tiers begin

lemma store_reads_keep:
  assumes "store_ready inv st" "same_contents inv con (rt_tiers (st_router st)) ts'"
  shows "store_ready inv \<lparr>st_router = (st_router st)\<lparr>rt_tiers := ts'\<rparr>\<rparr> \<and>
    store_view con \<lparr>st_router = (st_router st)\<lparr>rt_tiers := ts'\<rparr>\<rparr> = store_view con st"
  using router_inv_same [OF assms [unfolded store_ready_def]]
  by (simp add: store_ready_def store_view_def router_con_def)

lemma store_get_reliable:
  assumes "store_ready inv st"
  shows "\<exists>st'. store_get st k = Some (Ok (store_view con st k), st') \<and> store_ready inv st' \<and>
     store_view con st' = store_view con st"
proof -
  obtain ts' where g: "router_get (st_router st) k =
      Some (Ok (view con (rt_tiers (st_router st)) k), (st_router st)\<lparr>rt_tiers := ts'\<rparr>)"
      and same: "same_contents inv con (rt_tiers (st_router st)) ts'"
    using router_get_reliable assms unfolding store_ready_def by blast
  have "store_get st k =
      Some (Ok (store_view con st k), \<lparr>st_router = (st_router st)\<lparr>rt_tiers := ts'\<rparr>\<rparr>)"
    by (simp add: store_get_def g lift_router_def store_view_def)
  with store_reads_keep [OF assms same] show ?thesis by blast
qed

lemma store_contains_reliable:
  assumes "store_ready inv st"
  shows "\<exists>st'. store_contains st k = Some (Ok (store_view con st k \<noteq> None), st') \<and> store_ready inv st' \<and>
     store_view con st' = store_view con st"
proof -
  obtain ts' where g: "router_exists (st_router st) k =
      Some (Ok (view con (rt_tiers (st_router st)) k \<noteq> None), (st_router st)\<lparr>rt_tiers := ts'\<rparr>)"
      and same: "same_contents inv con (rt_tiers (st_router st)) ts'"
    using router_exists_reliable assms unfolding store_ready_def by blast
  have "store_contains st k =
      Some (Ok (store_view con st k \<noteq> None), \<lparr>st_router = (st_router st)\<lparr>rt_tiers := ts'\<rparr>\<rparr>)"
    by (simp add: store_contains_def g lift_router_def store_view_def)
  with store_reads_keep [OF assms same] show ?thesis by blast
qed

lemma store_put_reliable:
  "store_ready inv st \<Longrightarrow>
   \<exists>d st'. store_put st k v = (if d = [] then Ok () else Err (Evicted d), st') \<and> store_ready inv st' \<and>
     pend d ++ store_view con st' = store_view con st ++ [k \<mapsto> v]"
  using router_put_reliable [of router_ops "st_router st" k v]
  by (fastforce simp: store_ready_def store_put_def store_view_def lift_router_def)

lemma store_put_many_reliable:
  "store_ready inv st \<Longrightarrow>
   \<exists>d st'. store_put_many st es = (if d = [] then Ok () else Err (Evicted d), st') \<and> store_ready inv st' \<and>
     pend d ++ store_view con st' = store_view con st ++ pend es"
  using router_put_many_reliable [of router_ops "st_router st" es]
  by (fastforce simp: store_ready_def store_put_many_def store_view_def lift_router_def)

lemma store_delete_reliable:
  "store_ready inv st \<Longrightarrow>
   \<exists>st'. store_delete st k = (Ok (store_view con st k \<noteq> None), st') \<and> store_ready inv st' \<and>
     store_view con st' = (store_view con st)(k := None)"
  using router_delete_reliable [of router_ops "st_router st" k]
  by (auto simp: store_ready_def store_delete_def store_view_def lift_router_def)

end

text \<open>
  C5. Loss is loud. A put (or batch) into a store over reliable writable tiers either answers
  \<open>Ok\<close>, and then the store serves exactly what it served with the new entries on top, or it answers
  \<open>Evicted\<close> with a nonempty list that together with what is still served accounts for all of it.
\<close>

theorem store_loss_is_loud:
  assumes "reliable_tiers ivt con" "store_ready ivt st"
  shows "(case store_put st k v of
            (Ok _, st') \<Rightarrow> store_view con st' = store_view con st ++ [k \<mapsto> v]
          | (Err (Evicted d), st') \<Rightarrow>
              d \<noteq> [] \<and> pend d ++ store_view con st' = store_view con st ++ [k \<mapsto> v]
          | (Err (Store_Router e), st') \<Rightarrow> False) \<and>
         (case store_put_many st es of
            (Ok _, st') \<Rightarrow> store_view con st' = store_view con st ++ pend es
          | (Err (Evicted d), st') \<Rightarrow>
              d \<noteq> [] \<and> pend d ++ store_view con st' = store_view con st ++ pend es
          | (Err (Store_Router e), st') \<Rightarrow> False)"
proof
  obtain d st' where "store_put st k v = (if d = [] then Ok () else Err (Evicted d), st')"
      "pend d ++ store_view con st' = store_view con st ++ [k \<mapsto> v]"
    using reliable_tiers.store_put_reliable [OF assms] by blast
  then show "case store_put st k v of
            (Ok _, st') \<Rightarrow> store_view con st' = store_view con st ++ [k \<mapsto> v]
          | (Err (Evicted d), st') \<Rightarrow>
              d \<noteq> [] \<and> pend d ++ store_view con st' = store_view con st ++ [k \<mapsto> v]
          | (Err (Store_Router e), st') \<Rightarrow> False" by (cases "d = []") simp_all
  obtain d st' where "store_put_many st es = (if d = [] then Ok () else Err (Evicted d), st')"
      "pend d ++ store_view con st' = store_view con st ++ pend es"
    using reliable_tiers.store_put_many_reliable [OF assms] by blast
  then show "case store_put_many st es of
            (Ok _, st') \<Rightarrow> store_view con st' = store_view con st ++ pend es
          | (Err (Evicted d), st') \<Rightarrow>
              d \<noteq> [] \<and> pend d ++ store_view con st' = store_view con st ++ pend es
          | (Err (Store_Router e), st') \<Rightarrow> False" by (cases "d = []") simp_all
qed

text \<open>
  A store whose bottom tier never displaces never loses anything: over reliable writable tiers,
  when the last tier absorbs every put, \<open>put\<close> and \<open>put_many\<close> answer \<open>Ok\<close>, the store serves what it
  served with the new entries on top, and its bottom still absorbs, so the next write does too.
\<close>

theorem store_never_evicts:
  assumes "absorbing_tiers ivt con ab" "store_ready ivt st"
    and "absorbing_slot ab (length (rt_tiers (st_router st)) - 1) (rt_tiers (st_router st))"
  shows "(\<exists>st'. store_put st k v = (Ok (), st') \<and>
            store_view con st' = store_view con st ++ [k \<mapsto> v] \<and>
            absorbing_slot ab (length (rt_tiers (st_router st)) - 1) (rt_tiers (st_router st'))) \<and>
         (\<exists>st'. store_put_many st es = (Ok (), st') \<and>
            store_view con st' = store_view con st ++ pend es \<and>
            absorbing_slot ab (length (rt_tiers (st_router st)) - 1) (rt_tiers (st_router st')))"
proof -
  let ?r = "st_router st" and ?b = "length (rt_tiers (st_router st)) - 1"
  note ready = assms(2) [unfolded store_ready_def router_inv_def]
  have all: "list_all writable (rt_tiers ?r)" using ready by blast
  have b: "rposition_writable (rt_tiers ?r) = Some ?b" using ready by (intro rposition_all) auto
  have iv: "wslots_inv ivt (rt_tiers ?r)" using ready by (blast intro: slots_inv_wslots)
  have put: "pol_write (rt_policy ?r) = WriteThrough" "pol_demote_displaced (rt_policy ?r)"
    using ready by blast+
  note n = absorbing_never_evicts [OF assms(1) iv put b assms(3)]
  obtain r1 r2 where r: "router_put ?r k v = (Ok [], r1)" "absorbing_slot ab ?b (rt_tiers r1)"
      "wview con (rt_tiers r1) = wview con (rt_tiers ?r) ++ [k \<mapsto> v]"
      "router_put_many ?r es = (Ok [], r2)" "absorbing_slot ab ?b (rt_tiers r2)"
      "wview con (rt_tiers r2) = wview con (rt_tiers ?r) ++ pend es"
    using n [of k v es] by blast
  have "list_all writable (rt_tiers r1)" "list_all writable (rt_tiers r2)"
    using list_all_frame [OF put_frame [of ?r k v]] list_all_frame [OF put_many_frame [of ?r es]] all r(1,4)
    by simp_all
  with r all show ?thesis
    by (simp add: store_put_def store_put_many_def lift_router_def store_view_def wview_all_writable)
qed

text \<open>Histories of a store, and of a plain map.\<close>

datatype ('k, 'v) store_cmd =
    Do_Get 'k
  | Do_Contains 'k
  | Do_Put 'k 'v
  | Do_Put_Many "('k \<times> 'v) list"
  | Do_Delete 'k

datatype ('k, 'v, 'x) store_answer =
    Got "('v option, ('k, 'v, 'x) store_error) result"
  | Flag "(bool, ('k, 'v, 'x) store_error) result"
  | Wrote "(unit, ('k, 'v, 'x) store_error) result"

fun store_step ::
  "('s, 'k, 'v, 'x) tiered_store \<Rightarrow> ('k, 'v) store_cmd \<Rightarrow>
   ('k, 'v, 'x) store_answer \<times> ('s, 'k, 'v, 'x) tiered_store"
where
  "store_step st (Do_Get k) = map_prod Got id (the (store_get st k))"
| "store_step st (Do_Contains k) = map_prod Flag id (the (store_contains st k))"
| "store_step st (Do_Put k v) = map_prod Wrote id (store_put st k v)"
| "store_step st (Do_Put_Many es) = map_prod Wrote id (store_put_many st es)"
| "store_step st (Do_Delete k) = map_prod Flag id (store_delete st k)"

fun store_run ::
  "('s, 'k, 'v, 'x) tiered_store \<Rightarrow> ('k, 'v) store_cmd list \<Rightarrow>
   ('k, 'v, 'x) store_answer list \<times> ('s, 'k, 'v, 'x) tiered_store"
where
  "store_run st [] = ([], st)"
| "store_run st (c # cs) =
     (let (a, st1) = store_step st c; (as, st2) = store_run st1 cs in (a # as, st2))"

fun map_step :: "('k \<rightharpoonup> 'v) \<Rightarrow> ('k, 'v) store_cmd \<Rightarrow> ('k, 'v, 'x) store_answer \<times> ('k \<rightharpoonup> 'v)" where
  "map_step m (Do_Get k) = (Got (Ok (m k)), m)"
| "map_step m (Do_Contains k) = (Flag (Ok (m k \<noteq> None)), m)"
| "map_step m (Do_Put k v) = (Wrote (Ok ()), m(k \<mapsto> v))"
| "map_step m (Do_Put_Many es) = (Wrote (Ok ()), m ++ pend es)"
| "map_step m (Do_Delete k) = (Flag (Ok (m k \<noteq> None)), m(k := None))"

fun map_run :: "('k \<rightharpoonup> 'v) \<Rightarrow> ('k, 'v) store_cmd list \<Rightarrow> ('k, 'v, 'x) store_answer list \<times> ('k \<rightharpoonup> 'v)" where
  "map_run m [] = ([], m)"
| "map_run m (c # cs) =
     (let (a, m1) = map_step m c; (as, m2) = map_run m1 cs in (a # as, m2))"

text \<open>The answer reports evicted entries.\<close>

fun is_eviction :: "('k, 'v, 'x) store_answer \<Rightarrow> bool" where
  "is_eviction (Wrote (Err (Evicted d))) = True"
| "is_eviction _ = False"

context reliable_tiers begin

lemma store_step_map:
  assumes "store_ready inv st" "\<not> is_eviction (fst (store_step st c))"
  shows "store_ready inv (snd (store_step st c)) \<and>
    map_step (store_view con st) c = (fst (store_step st c), store_view con (snd (store_step st c)))"
proof (cases c)
  case (Do_Put k v)
  obtain d st' where p: "store_put st k v = (if d = [] then Ok () else Err (Evicted d), st')"
      "store_ready inv st'" "pend d ++ store_view con st' = store_view con st ++ [k \<mapsto> v]"
    using store_put_reliable [OF assms(1)] by blast
  then show ?thesis using assms(2) Do_Put by (cases "d = []") auto
next
  case (Do_Put_Many es)
  obtain d st' where p: "store_put_many st es = (if d = [] then Ok () else Err (Evicted d), st')"
      "store_ready inv st'" "pend d ++ store_view con st' = store_view con st ++ pend es"
    using store_put_many_reliable [OF assms(1)] by blast
  then show ?thesis using assms(2) Do_Put_Many by (cases "d = []") auto
next
  case (Do_Get k)
  then show ?thesis using store_get_reliable [OF assms(1), of k] by auto
next
  case (Do_Contains k)
  then show ?thesis using store_contains_reliable [OF assms(1), of k] by auto
next
  case (Do_Delete k)
  then show ?thesis using store_delete_reliable [OF assms(1), of k] by auto
qed

lemma store_run_map:
  assumes "store_ready inv st" "\<not> list_ex is_eviction (fst (store_run st cs))"
  shows "store_ready inv (snd (store_run st cs)) \<and>
    map_run (store_view con st) cs = (fst (store_run st cs), store_view con (snd (store_run st cs)))"
  using assms
proof (induction cs arbitrary: st)
  case (Cons c cs)
  have "\<not> is_eviction (fst (store_step st c))"
      "\<not> list_ex is_eviction (fst (store_run (snd (store_step st c)) cs))"
    using Cons.prems(2) by (simp_all add: Let_def split_def)
  with store_step_map [OF Cons.prems(1)] Cons.IH show ?case by (simp add: Let_def split_def)
qed simp

end

text \<open>
  C4. The store refines a map. Over reliable writable tiers, a history of reads, existence checks,
  puts, batches and deletes in which no write reports evicted entries gets exactly the answers of
  a plain map that starts with what the store served, and the store ends up serving that map.
\<close>

theorem store_refines_map:
  assumes "reliable_tiers ivt con" "store_ready ivt st"
    and "\<not> list_ex is_eviction (fst (store_run st cs))"
  shows "map_run (store_view con st) cs = (fst (store_run st cs), store_view con (snd (store_run st cs)))"
  using reliable_tiers.store_run_map [OF assms] by blast

text \<open>A store of one bounded memory tier over an unbounded one.\<close>

definition small_store :: "((string, nat) memory_tier, string, nat, string) tiered_store" where
  "small_store =
     the (store_build
       (store_builder_tier (\<lambda>e :: unit. ''never'') memory_ops memory_unbounded
         (store_builder_tier (\<lambda>e :: unit. ''never'') memory_ops (memory_bounded 1) store_builder)))"

lemma small_store_absorbs:
  "absorbing_slot memory_absorbs (length (rt_tiers (st_router small_store)) - 1) (rt_tiers (st_router small_store))"
  by (simp add: small_store_def store_build_def builder_build_def store_builder_tier_def builder_tier_def
        store_builder_def builder_policy_def builder_new_def absorbing_slot_def memory_absorbs_def
        memory_unbounded_def)

lemma small_store_ready: "store_ready memory_inv small_store"
  by (simp add: small_store_def store_build_def builder_build_def store_builder_tier_def builder_tier_def
        store_builder_def builder_policy_def builder_new_def adapter_memory store_ready_def router_inv_def
        store_default_policy_def slots_inv_def memory_inv_def memory_bounded_def memory_unbounded_def
        mem_inv_empty)

lemma put_unbounded: "fst (memory_put memory_unbounded k v) = Ok []"
  using unlimited_insert by (simp add: memory_put_def memory_unbounded_def tier_limits_def Let_def split_def)

lemma small_store_run: "fst (store_put small_store ''k'' v) = Ok ()"
  by (simp add: small_store_def store_build_def builder_build_def store_builder_tier_def builder_tier_def
      store_builder_def builder_policy_def builder_new_def adapter_memory store_put_def lift_router_def
      store_default_policy_def router_put_def write_through_def run_simps put_empty [unfolded One_nat_def]
      put_unbounded split_def)

theorem store_never_evicts_witness:
  "\<exists>st'. store_put small_store ''k'' 1 = (Ok (), st') \<and>
     store_view (\<lambda>_. memory_con) st' = store_view (\<lambda>_. memory_con) small_store ++ [''k'' \<mapsto> 1]"
  using store_never_evicts [OF memory.absorbing_tiers_axioms small_store_ready small_store_absorbs,
      of "''k''" 1 "[]"]
  by blast

theorem store_loss_is_loud_witness:
  "case store_put small_store ''k'' 1 of
     (Ok _, st') \<Rightarrow>
       store_view (\<lambda>_. memory_con) st' = store_view (\<lambda>_. memory_con) small_store ++ [''k'' \<mapsto> 1]
   | (Err (Evicted d), st') \<Rightarrow> d \<noteq> []
   | (Err (Store_Router e), st') \<Rightarrow> False"
  using store_loss_is_loud [OF memory.reliable_tiers_axioms small_store_ready, of "''k''" 1 "[]"]
  by (auto split: prod.splits sum.splits store_error.splits)

theorem store_refines_map_witness:
  "fst (store_run small_store [Do_Put ''k'' 1, Do_Get ''k'', Do_Delete ''k'', Do_Contains ''k'']) =
     [Wrote (Ok ()), Got (Ok (Some 1)), Flag (Ok True), Flag (Ok False)]"
proof -
  let ?cs = "[Do_Put ''k'' 1, Do_Get ''k'', Do_Delete ''k'', Do_Contains ''k'']"
  obtain d s1 where p: "store_put small_store ''k'' 1 = (if d = [] then Ok () else Err (Evicted d), s1)"
      "store_ready memory_inv s1"
    using memory.store_put_reliable [OF small_store_ready] by blast
  have "fst (store_put small_store ''k'' 1) = Ok ()"
    by (simp add: small_store_run)
  with p(1) have d: "d = []" by (cases "d = []") simp_all
  obtain s2 where g: "store_get s1 ''k'' = Some (Ok (store_view (\<lambda>_. memory_con) s1 ''k''), s2)"
      "store_ready memory_inv s2"
    using memory.store_get_reliable [OF p(2)] by blast
  obtain s3 where e: "store_delete s2 ''k'' = (Ok (store_view (\<lambda>_. memory_con) s2 ''k'' \<noteq> None), s3)"
      "store_ready memory_inv s3"
    using memory.store_delete_reliable [OF g(2)] by blast
  obtain s4 where c: "store_contains s3 ''k'' = Some (Ok (store_view (\<lambda>_. memory_con) s3 ''k'' \<noteq> None), s4)"
    using memory.store_contains_reliable [OF e(2)] by blast
  have "\<not> list_ex is_eviction (fst (store_run small_store ?cs))" using p(1) d g(1) e(1) c by simp
  from store_refines_map [OF memory.reliable_tiers_axioms small_store_ready this]
  show ?thesis by simp
qed

end
