(* ===== verification/Single_Flight.thy ===== *)
theory Single_Flight
  imports Wait_Queue
begin

text \<open>
  \<open>tierstore/src/single_flight.rs\<close>: per-key gates. A gate is allocated in a heap and shared by
  reference counting; the map of gates is under one lock and every gate under its own, so each
  critical section of the source is one atomic step here. Tasks are numbered; a task is idle, waits
  in \<open>acquire\<close>, holds a guard, or is inside the \<open>drop\<close> of its guard.

  Two kinds of steps: \<open>sf_step\<close> are the ones the code takes, \<open>sf_env\<close> what its callers and their
  executor may do at any time (drop a future that waits, poll a task that nobody woke).
\<close>

section \<open>Gates\<close>

record gate_state =
  g_held :: bool
  g_wakers :: "task list"

definition gate_default :: gate_state where
  "gate_default = \<lparr>g_held = False, g_wakers = []\<rparr>"

definition gate_try_acquire :: "gate_state \<Rightarrow> task \<Rightarrow> bool \<times> gate_state" where
  "gate_try_acquire g w =
     (if g_held g then (False, g\<lparr>g_wakers := register w (g_wakers g)\<rparr>)
      else (True, g\<lparr>g_held := True\<rparr>))"

definition gate_release :: "gate_state \<Rightarrow> task list \<times> gate_state" where
  "gate_release g = (g_wakers g, g\<lparr>g_held := False, g_wakers := []\<rparr>)"

lemma gate_release_default: "gate_release g = (g_wakers g, gate_default)"
  by (cases g) (simp add: gate_release_def gate_default_def)

definition gate_free :: "gate_state \<Rightarrow> nat" where
  "gate_free g = (if g_held g then 0 else 1)"

interpretation gate: wait_queue gate_try_acquire gate_release gate_free g_wakers 1
  by unfold_locales (auto simp: gate_try_acquire_def gate_release_def gate_free_def split: if_splits)

section \<open>The gate set and its tasks\<close>

text \<open>
  The number of references a task holds: while it waits, the local \<open>gate\<close> of \<open>acquire\<close> and the
  one inside the \<open>Acquire\<close> future, later the one in the guard (which is dropped after the guard's
  \<open>drop\<close> has run).
\<close>

datatype 'k sf_phase =
    Sf_Idle
  | Sf_Acquiring 'k nat
  | Sf_Holding 'k nat
  | Sf_Releasing 'k nat "task list"
  | Sf_Cleaned nat

record 'k single_flight =
  sf_map :: "('k, nat) fmap"
  sf_gates :: "nat \<Rightarrow> gate_state"
  sf_next :: nat
  sf_tasks :: "'k sf_phase list"
  sf_woken :: "task set"

fun arcs :: "nat \<Rightarrow> 'k sf_phase \<Rightarrow> nat" where
  "arcs g Sf_Idle = 0"
| "arcs g (Sf_Acquiring k h) = (if h = g then 2 else 0)"
| "arcs g (Sf_Holding k h) = (if h = g then 1 else 0)"
| "arcs g (Sf_Releasing k h ws) = (if h = g then 1 else 0)"
| "arcs g (Sf_Cleaned h) = (if h = g then 1 else 0)"

definition strong_count :: "'k single_flight \<Rightarrow> nat \<Rightarrow> nat" where
  "strong_count s g =
     fcard (ffilter (\<lambda>k. fmlookup (sf_map s) k = Some g) (fmdom (sf_map s))) +
     sum_list (map (arcs g) (sf_tasks s))"

definition sf_new :: "nat \<Rightarrow> 'k single_flight" where
  "sf_new n =
     \<lparr>sf_map = fmempty, sf_gates = (\<lambda>_. gate_default), sf_next = 0,
      sf_tasks = replicate n Sf_Idle, sf_woken = {}\<rparr>"

text \<open>\<open>map.entry(key).or_default()\<close> under the map lock; the future is then polled for the first time.\<close>

definition sf_acquire :: "task \<Rightarrow> 'k \<Rightarrow> 'k single_flight \<Rightarrow> 'k single_flight" where
  "sf_acquire i k s =
     (case fmlookup (sf_map s) k of
        Some g \<Rightarrow>
          s\<lparr>sf_tasks := (sf_tasks s)[i := Sf_Acquiring k g], sf_woken := insert i (sf_woken s)\<rparr>
      | None \<Rightarrow>
          s\<lparr>sf_map := fmupd k (sf_next s) (sf_map s),
            sf_gates := (sf_gates s)(sf_next s := gate_default), sf_next := Suc (sf_next s),
            sf_tasks := (sf_tasks s)[i := Sf_Acquiring k (sf_next s)],
            sf_woken := insert i (sf_woken s)\<rparr>)"

definition sf_poll :: "task \<Rightarrow> 'k \<Rightarrow> nat \<Rightarrow> 'k single_flight \<Rightarrow> 'k single_flight" where
  "sf_poll i k g s =
     (let (ready, st) = gate_try_acquire (sf_gates s g) i
      in s\<lparr>sf_gates := (sf_gates s)(g := st), sf_woken := sf_woken s - {i},
           sf_tasks := (sf_tasks s)[i := if ready then Sf_Holding k g else Sf_Acquiring k g]\<rparr>)"

text \<open>The \<open>drop\<close> of a guard: release, wake one by one, clean up under the map lock.\<close>

definition sf_release :: "task \<Rightarrow> 'k \<Rightarrow> nat \<Rightarrow> 'k single_flight \<Rightarrow> 'k single_flight" where
  "sf_release i k g s =
     (let (ws, st) = gate_release (sf_gates s g)
      in s\<lparr>sf_gates := (sf_gates s)(g := st), sf_tasks := (sf_tasks s)[i := Sf_Releasing k g ws]\<rparr>)"

definition sf_cleanup :: "task \<Rightarrow> 'k \<Rightarrow> nat \<Rightarrow> 'k single_flight \<Rightarrow> 'k single_flight" where
  "sf_cleanup i k g s =
     s\<lparr>sf_map := (if fmlookup (sf_map s) k = Some g \<and> strong_count s g = 2
                 then fmdrop k (sf_map s) else sf_map s),
       sf_tasks := (sf_tasks s)[i := Sf_Cleaned g]\<rparr>"

text \<open>
  What happens inside \<open>acquire\<close> and inside the \<open>drop\<close> of a guard, and the two calls themselves.
\<close>

inductive sf_inner :: "'k single_flight \<Rightarrow> 'k single_flight \<Rightarrow> bool" where
  poll: "i < length (sf_tasks s) \<Longrightarrow> sf_tasks s ! i = Sf_Acquiring k g \<Longrightarrow> i \<in> sf_woken s \<Longrightarrow>
     sf_inner s (sf_poll i k g s)"
| wake: "i < length (sf_tasks s) \<Longrightarrow> sf_tasks s ! i = Sf_Releasing k g (w # ws) \<Longrightarrow>
     sf_inner s (s\<lparr>sf_tasks := (sf_tasks s)[i := Sf_Releasing k g ws], sf_woken := insert w (sf_woken s)\<rparr>)"
| cleanup: "i < length (sf_tasks s) \<Longrightarrow> sf_tasks s ! i = Sf_Releasing k g [] \<Longrightarrow>
     sf_inner s (sf_cleanup i k g s)"
| finish: "i < length (sf_tasks s) \<Longrightarrow> sf_tasks s ! i = Sf_Cleaned g \<Longrightarrow>
     sf_inner s (s\<lparr>sf_tasks := (sf_tasks s)[i := Sf_Idle]\<rparr>)"

inductive sf_step :: "'k single_flight \<Rightarrow> 'k single_flight \<Rightarrow> bool" where
  acquire: "i < length (sf_tasks s) \<Longrightarrow> sf_tasks s ! i = Sf_Idle \<Longrightarrow> sf_step s (sf_acquire i k s)"
| release: "i < length (sf_tasks s) \<Longrightarrow> sf_tasks s ! i = Sf_Holding k g \<Longrightarrow>
     sf_step s (sf_release i k g s)"
| inner: "sf_inner s s' \<Longrightarrow> sf_step s s'"

inductive sf_env :: "'k single_flight \<Rightarrow> 'k single_flight \<Rightarrow> bool" where
  cancel: "i < length (sf_tasks s) \<Longrightarrow> sf_tasks s ! i = Sf_Acquiring k g \<Longrightarrow>
     sf_env s (s\<lparr>sf_tasks := (sf_tasks s)[i := Sf_Idle]\<rparr>)"
| spurious: "i < length (sf_tasks s) \<Longrightarrow> sf_env s (s\<lparr>sf_woken := insert i (sf_woken s)\<rparr>)"

inductive sf_reachable :: "nat \<Rightarrow> 'k single_flight \<Rightarrow> bool" for n where
  start: "sf_reachable n (sf_new n)"
| step: "sf_reachable n s \<Longrightarrow> sf_step s s' \<Longrightarrow> sf_reachable n s'"
| env: "sf_reachable n s \<Longrightarrow> sf_env s s' \<Longrightarrow> sf_reachable n s'"

section \<open>Invariant\<close>

text \<open>The gate a task refers to while the map has to keep it.\<close>

fun attached :: "'k sf_phase \<Rightarrow> ('k \<times> nat) option" where
  "attached (Sf_Acquiring k g) = Some (k, g)"
| "attached (Sf_Holding k g) = Some (k, g)"
| "attached (Sf_Releasing k g ws) = Some (k, g)"
| "attached _ = None"

fun holds_gate :: "nat \<Rightarrow> 'k sf_phase \<Rightarrow> bool" where
  "holds_gate g (Sf_Holding k h) = (h = g)"
| "holds_gate g _ = False"

fun waking :: "nat \<Rightarrow> task \<Rightarrow> 'k sf_phase \<Rightarrow> bool" where
  "waking g w (Sf_Releasing k h ws) = (h = g \<and> w \<in> set ws)"
| "waking g w _ = False"

definition sf_map_inv :: "'k single_flight \<Rightarrow> bool" where
  "sf_map_inv s \<longleftrightarrow>
     (\<forall>k g. fmlookup (sf_map s) k = Some g \<longrightarrow> g < sf_next s) \<and>
     (\<forall>k j g. fmlookup (sf_map s) k = Some g \<and> fmlookup (sf_map s) j = Some g \<longrightarrow> k = j) \<and>
     (\<forall>g. g \<ge> sf_next s \<longrightarrow> \<not> list_ex (\<lambda>t. arcs g t \<noteq> 0) (sf_tasks s)) \<and>
     (\<forall>t \<in> set (sf_tasks s). \<forall>k g. attached t = Some (k, g) \<longrightarrow> fmlookup (sf_map s) k = Some g)"

definition sf_hold_inv :: "'k single_flight \<Rightarrow> bool" where
  "sf_hold_inv s \<longleftrightarrow>
     (\<forall>g. length (filter (holds_gate g) (sf_tasks s)) = (if g_held (sf_gates s g) then 1 else 0))"

definition sf_wake_inv :: "'k single_flight \<Rightarrow> bool" where
  "sf_wake_inv s \<longleftrightarrow>
     (\<forall>g. quiet gate_free g_wakers (sf_gates s g)) \<and>
     (\<forall>i < length (sf_tasks s). \<forall>k g. sf_tasks s ! i = Sf_Acquiring k g \<and> i \<notin> sf_woken s \<longrightarrow>
        i \<in> set (g_wakers (sf_gates s g)) \<or> list_ex (waking g i) (sf_tasks s))"

definition sf_inv :: "'k single_flight \<Rightarrow> bool" where
  "sf_inv s \<longleftrightarrow> sf_map_inv s \<and> sf_hold_inv s \<and> sf_wake_inv s"

lemma arcs_attached: "attached t = Some (k, g) \<Longrightarrow> arcs g t \<noteq> 0"
  by (cases t) auto

lemma sf_map_invD:
  assumes "sf_map_inv s"
  shows "fmlookup (sf_map s) k = Some g \<Longrightarrow> g < sf_next s"
    and "fmlookup (sf_map s) k = Some g \<Longrightarrow> fmlookup (sf_map s) j = Some g \<Longrightarrow> k = j"
    and "g \<ge> sf_next s \<Longrightarrow> t \<in> set (sf_tasks s) \<Longrightarrow> arcs g t = 0"
    and "t \<in> set (sf_tasks s) \<Longrightarrow> attached t = Some (k, g) \<Longrightarrow> fmlookup (sf_map s) k = Some g"
  using assms by (auto simp: sf_map_inv_def list_ex_iff)

text \<open>Under the map lock, a count of two means that no other task refers to the gate.\<close>

lemma strong_count_two:
  assumes "fmlookup (sf_map s) k = Some g" "strong_count s g = 2"
    and "i < length (sf_tasks s)" "arcs g (sf_tasks s ! i) \<noteq> 0"
    and "j < length (sf_tasks s)" "j \<noteq> i"
  shows "arcs g (sf_tasks s ! j) = 0"
proof -
  have "k |\<in>| ffilter (\<lambda>k. fmlookup (sf_map s) k = Some g) (fmdom (sf_map s))"
    using assms(1) by (simp add: fmdomI)
  then have "fcard (ffilter (\<lambda>k. fmlookup (sf_map s) k = Some g) (fmdom (sf_map s))) \<noteq> 0"
    by (metis fcard_0_eq fempty_iff)
  moreover have "arcs g (sf_tasks s ! i) + arcs g (sf_tasks s ! j) \<le> sum_list (map (arcs g) (sf_tasks s))"
    using sum_list_two [of i "map (arcs g) (sf_tasks s)" j] assms by simp
  ultimately show ?thesis using assms(2,4) unfolding strong_count_def by linarith
qed


section \<open>Every step keeps the invariant\<close>

lemma sf_map_invI:
  assumes "\<And>k g. fmlookup (sf_map s) k = Some g \<Longrightarrow> g < sf_next s"
    and "\<And>k j g. fmlookup (sf_map s) k = Some g \<Longrightarrow> fmlookup (sf_map s) j = Some g \<Longrightarrow> k = j"
    and "\<And>g t. g \<ge> sf_next s \<Longrightarrow> t \<in> set (sf_tasks s) \<Longrightarrow> arcs g t = 0"
    and "\<And>t k g. t \<in> set (sf_tasks s) \<Longrightarrow> attached t = Some (k, g) \<Longrightarrow> fmlookup (sf_map s) k = Some g"
  shows "sf_map_inv s"
  unfolding sf_map_inv_def list_ex_iff
  by (intro conjI allI impI ballI; (elim conjE)?; (erule (1) assms | erule assms)?) (use assms(3) in auto)

lemma sf_poll_simps [simp]:
  "sf_map (sf_poll i k g s) = sf_map s" "sf_next (sf_poll i k g s) = sf_next s"
  "sf_gates (sf_poll i k g s) = (sf_gates s)(g := snd (gate_try_acquire (sf_gates s g) i))"
  "sf_tasks (sf_poll i k g s) =
     (sf_tasks s)[i := if g_held (sf_gates s g) then Sf_Acquiring k g else Sf_Holding k g]"
  "sf_woken (sf_poll i k g s) = sf_woken s - {i}"
  by (simp_all add: sf_poll_def gate_try_acquire_def)

lemma sf_release_simps [simp]:
  "sf_map (sf_release i k g s) = sf_map s" "sf_next (sf_release i k g s) = sf_next s"
  "sf_gates (sf_release i k g s) = (sf_gates s)(g := gate_default)"
  "sf_tasks (sf_release i k g s) = (sf_tasks s)[i := Sf_Releasing k g (g_wakers (sf_gates s g))]"
  "sf_woken (sf_release i k g s) = sf_woken s"
  by (simp_all add: sf_release_def gate_release_default)

lemma sf_cleanup_simps [simp]:
  "sf_next (sf_cleanup i k g s) = sf_next s" "sf_gates (sf_cleanup i k g s) = sf_gates s"
  "sf_tasks (sf_cleanup i k g s) = (sf_tasks s)[i := Sf_Cleaned g]"
  "sf_woken (sf_cleanup i k g s) = sf_woken s"
  by (simp_all add: sf_cleanup_def)

lemma sf_map_inv_update:
  assumes ivt: "sf_map_inv s" and i: "i < length (sf_tasks s)"
    and x: "\<And>k g. attached x = Some (k, g) \<Longrightarrow> fmlookup (sf_map s) k = Some g"
      "\<And>g. g \<ge> sf_next s \<Longrightarrow> arcs g x = 0"
    and s': "sf_map s' = sf_map s" "sf_next s' = sf_next s" "sf_tasks s' = (sf_tasks s)[i := x]"
  shows "sf_map_inv s'"
proof (rule sf_map_invI)
  fix t assume "t \<in> set (sf_tasks s')"
  then have t: "t = x \<or> t \<in> set (sf_tasks s)"
    using set_update_subset_insert [of "sf_tasks s" i x] unfolding s' by blast
  show "arcs g t = 0" if "g \<ge> sf_next s'" for g
    using t sf_map_invD(3) [OF ivt, of g t] x(2) [of g] that unfolding s' by auto
  show "fmlookup (sf_map s') k = Some g" if "attached t = Some (k, g)" for k g
    using t that x(1) [of k g] sf_map_invD(4) [OF ivt, of t k g] unfolding s' by auto
next
  show "g < sf_next s'" if "fmlookup (sf_map s') k = Some g" for k g
    using sf_map_invD(1) [OF ivt] that unfolding s' .
  show "k = j" if "fmlookup (sf_map s') k = Some g" "fmlookup (sf_map s') j = Some g" for k j g
    using sf_map_invD(2) [OF ivt] that unfolding s' .
qed

lemma sf_map_inv_acquire:
  assumes ivt: "sf_map_inv s" and i: "i < length (sf_tasks s)"
  shows "sf_map_inv (sf_acquire i k s)"
proof (cases "fmlookup (sf_map s) k")
  case None
  define s1 where "s1 = s\<lparr>sf_map := fmupd k (sf_next s) (sf_map s), sf_next := Suc (sf_next s)\<rparr>"
  have "sf_map_inv s1"
  proof (rule sf_map_invI)
    show "h < sf_next s1" if "fmlookup (sf_map s1) l = Some h" for l h
      using that sf_map_invD(1) [OF ivt, of l h] by (auto simp: s1_def split: if_splits)
    show "l = j" if "fmlookup (sf_map s1) l = Some h" "fmlookup (sf_map s1) j = Some h" for l j h
      using that sf_map_invD(1) [OF ivt, of l h] sf_map_invD(1) [OF ivt, of j h]
        sf_map_invD(2) [OF ivt, of l h j] by (auto simp: s1_def split: if_splits)
    fix t assume t: "t \<in> set (sf_tasks s1)"
    show "arcs h t = 0" if "h \<ge> sf_next s1" for h
      using that t sf_map_invD(3) [OF ivt, of h t] by (simp add: s1_def)
    show "fmlookup (sf_map s1) l = Some h" if "attached t = Some (l, h)" for l h
      using that t sf_map_invD(4) [OF ivt, of t l h] None by (auto simp: s1_def)
  qed
  then show ?thesis
    by (rule sf_map_inv_update [where i = i and x = "Sf_Acquiring k (sf_next s)"])
      (use i None in \<open>auto simp: s1_def sf_acquire_def\<close>)
next
  case (Some g)
  show ?thesis
    by (rule sf_map_inv_update [OF ivt i, where x = "Sf_Acquiring k g"])
      (use Some sf_map_invD(1) [OF ivt Some] in \<open>auto simp: sf_acquire_def\<close>)
qed

text \<open>A task that refers to an attached gate may move to any other phase with the same gate.\<close>

lemma sf_map_inv_move:
  assumes ivt: "sf_map_inv s" and i: "i < length (sf_tasks s)" "attached (sf_tasks s ! i) = Some (k, g)"
    and x: "attached x = Some (k, g) \<or> attached x = None" "\<And>h. h \<noteq> g \<Longrightarrow> arcs h x = 0"
    and s': "sf_map s' = sf_map s" "sf_next s' = sf_next s" "sf_tasks s' = (sf_tasks s)[i := x]"
  shows "sf_map_inv s'"
proof (rule sf_map_inv_update [OF ivt i(1) _ _ s'])
  have m: "fmlookup (sf_map s) k = Some g" using sf_map_invD(4) [OF ivt nth_mem [OF i(1)] i(2)] .
  show "fmlookup (sf_map s) l = Some h" if "attached x = Some (l, h)" for l h
    using that x(1) m by auto
  show "arcs h x = 0" if "h \<ge> sf_next s" for h
    using that x(2) sf_map_invD(1) [OF ivt m] by auto
qed

lemma sf_map_inv_cleanup:
  assumes ivt: "sf_map_inv s" and i: "i < length (sf_tasks s)" "sf_tasks s ! i = Sf_Releasing k g ws"
  shows "sf_map_inv (sf_cleanup i k g s)"
proof (cases "fmlookup (sf_map s) k = Some g \<and> strong_count s g = 2")
  case True
  have alone: "arcs g (sf_tasks s ! j) = 0" if "j < length (sf_tasks s)" "j \<noteq> i" for j
    using strong_count_two [of s k g i j] True i that by simp
  have g: "g < sf_next s" using sf_map_invD(1) [OF ivt] True by blast
  show ?thesis
  proof (rule sf_map_invI)
    fix t assume "t \<in> set (sf_tasks (sf_cleanup i k g s))"
    then consider "t = Sf_Cleaned g" | j where "j < length (sf_tasks s)" "j \<noteq> i" "t = sf_tasks s ! j"
      by (auto simp: in_set_update [OF i(1)])
    note t = this
    show "arcs h t = 0" if "h \<ge> sf_next (sf_cleanup i k g s)" for h
      using t by cases (use that g sf_map_invD(3) [OF ivt, of h t] in auto)
    show "fmlookup (sf_map (sf_cleanup i k g s)) l = Some h" if a: "attached t = Some (l, h)" for l h
      using t
    proof cases
      case (2 j)
      then have "fmlookup (sf_map s) l = Some h" "h \<noteq> g"
        using sf_map_invD(4) [OF ivt, of t l h] a alone [of j] arcs_attached [OF a] by auto
      then show ?thesis using True by (auto simp: sf_cleanup_def)
    qed (use a in simp)
  qed (use True sf_map_invD(1,2) [OF ivt] in \<open>auto simp: sf_cleanup_def split: if_splits\<close>)
next
  case False
  show ?thesis
    by (rule sf_map_inv_move [OF ivt i(1), where x = "Sf_Cleaned g"])
      (use False i(2) in \<open>auto simp: sf_cleanup_def\<close>)
qed


text \<open>Who holds a gate, and who is registered, after one task moved.\<close>

lemma sf_hold_inv_move:
  assumes "sf_hold_inv s" "i < length (sf_tasks s)"
    and "\<And>g. (if holds_gate g x then 1 else 0) + (if g_held (sf_gates s g) then 1 else (0 :: nat)) =
           (if holds_gate g (sf_tasks s ! i) then 1 else 0) + (if g_held (sf_gates s' g) then 1 else 0)"
    and "sf_tasks s' = (sf_tasks s)[i := x]"
  shows "sf_hold_inv s'"
  unfolding sf_hold_inv_def
proof
  fix g
  have "length (filter (holds_gate g) (sf_tasks s)) = (if g_held (sf_gates s g) then 1 else 0)"
    using assms(1) by (simp add: sf_hold_inv_def)
  then show "length (filter (holds_gate g) (sf_tasks s')) = (if g_held (sf_gates s' g) then 1 else 0)"
    using filter_update [OF assms(2), of "holds_gate g" x] assms(3) [of g] assms(4) by simp
qed

lemma sf_hold_iff:
  assumes "sf_hold_inv s"
  shows "(\<exists>i < length (sf_tasks s). holds_gate g (sf_tasks s ! i)) \<longleftrightarrow> g_held (sf_gates s g)"
proof -
  have "length (filter (holds_gate g) (sf_tasks s)) = (if g_held (sf_gates s g) then 1 else 0)"
    using assms by (simp add: sf_hold_inv_def)
  then have "g_held (sf_gates s g) \<longleftrightarrow> filter (holds_gate g) (sf_tasks s) \<noteq> []" by (auto split: if_splits)
  then show ?thesis by (auto simp: filter_empty_conv all_set_conv_all_nth)
qed

lemma sf_wake_inv_move:
  assumes "sf_wake_inv s" "i < length (sf_tasks s)"
    and "\<And>g. quiet gate_free g_wakers (sf_gates s' g)"
    and "\<And>k g. x = Sf_Acquiring k g \<Longrightarrow> i \<in> sf_woken s' \<or> i \<in> set (g_wakers (sf_gates s' g))"
    and "\<And>g j. j \<in> set (g_wakers (sf_gates s g)) \<Longrightarrow> j \<noteq> i \<Longrightarrow> list_ex (\<lambda>t. \<exists>k. t = Sf_Acquiring k g) (sf_tasks s) \<Longrightarrow>
           j \<in> set (g_wakers (sf_gates s' g)) \<or> waking g j x \<or> j \<in> sf_woken s'"
    and "\<And>g j. waking g j (sf_tasks s ! i) \<Longrightarrow> j \<noteq> i \<Longrightarrow> waking g j x \<or> j \<in> sf_woken s'"
    and "\<And>j. j \<noteq> i \<Longrightarrow> j \<in> sf_woken s \<Longrightarrow> j \<in> sf_woken s'"
    and "sf_tasks s' = (sf_tasks s)[i := x]"
  shows "sf_wake_inv s'"
  unfolding sf_wake_inv_def
proof (intro conjI allI impI; (elim conjE)?)
  fix j k g
  assume j: "j < length (sf_tasks s')" "sf_tasks s' ! j = Sf_Acquiring k g" "j \<notin> sf_woken s'"
  show "j \<in> set (g_wakers (sf_gates s' g)) \<or> list_ex (waking g j) (sf_tasks s')"
  proof (cases "j = i")
    case False
    then have "sf_tasks s ! j = Sf_Acquiring k g" "j < length (sf_tasks s)" "j \<notin> sf_woken s"
      using j assms(7,8) by auto
    then consider "j \<in> set (g_wakers (sf_gates s g))" | "list_ex (waking g j) (sf_tasks s)"
      using assms(1) unfolding sf_wake_inv_def by blast
    then show ?thesis
    proof cases
      case 1
      have "list_ex (\<lambda>t. \<exists>k. t = Sf_Acquiring k g) (sf_tasks s)"
        unfolding list_ex_length using \<open>sf_tasks s ! j = _\<close> \<open>j < length (sf_tasks s)\<close> by auto
      then show ?thesis using assms(5) [OF 1 False] j(3) list_ex_update_new [OF assms(2)] assms(8) by auto
    next
      case 2
      then show ?thesis
        using assms(2,8) assms(6) [of g j] j(3) False list_ex_update [OF _ 2, of i x]
          list_ex_update_new [OF assms(2), of "waking g j" x] by (cases "waking g j (sf_tasks s ! i)") auto
    qed
  qed (use j assms(2,4,8) in auto)
qed (rule assms(3))


lemma quiet_default [simp]: "quiet gate_free g_wakers gate_default"
  by (simp add: quiet_def gate_default_def)

lemma gate_default_simps [simp]: "\<not> g_held gate_default" "g_wakers gate_default = []"
  by (simp_all add: gate_default_def)

lemma sf_wake_invD:
  assumes "sf_wake_inv s"
  shows "quiet gate_free g_wakers (sf_gates s g)"
    and "i < length (sf_tasks s) \<Longrightarrow> sf_tasks s ! i = Sf_Acquiring k g \<Longrightarrow> i \<notin> sf_woken s \<Longrightarrow>
      i \<in> set (g_wakers (sf_gates s g)) \<or> list_ex (waking g i) (sf_tasks s)"
  using assms by (auto simp: sf_wake_inv_def)

lemma sf_acquire_simps:
  "sf_tasks (sf_acquire i k s) = (sf_tasks s)[i := Sf_Acquiring k
     (case fmlookup (sf_map s) k of None \<Rightarrow> sf_next s | Some g \<Rightarrow> g)]"
  "sf_woken (sf_acquire i k s) = insert i (sf_woken s)"
  "sf_gates (sf_acquire i k s) = (case fmlookup (sf_map s) k of
     None \<Rightarrow> (sf_gates s)(sf_next s := gate_default) | Some g \<Rightarrow> sf_gates s)"
  by (simp_all add: sf_acquire_def split: option.split)

lemma fresh_gate_free:
  assumes "sf_map_inv s" "sf_hold_inv s"
  shows "\<not> g_held (sf_gates s (sf_next s))"
proof
  assume "g_held (sf_gates s (sf_next s))"
  then obtain i where i: "i < length (sf_tasks s)" "holds_gate (sf_next s) (sf_tasks s ! i)"
    using sf_hold_iff [OF assms(2)] by auto
  then have "arcs (sf_next s) (sf_tasks s ! i) \<noteq> 0" by (cases "sf_tasks s ! i") auto
  then show False using sf_map_invD(3) [OF assms(1) order.refl nth_mem [OF i(1)]] by simp
qed

lemma sf_inv_acquire:
  assumes ivt: "sf_inv s" and i: "i < length (sf_tasks s)" "sf_tasks s ! i = Sf_Idle"
  shows "sf_inv (sf_acquire i k s)"
proof -
  note ivts = ivt [unfolded sf_inv_def, THEN conjunct1] ivt [unfolded sf_inv_def, THEN conjunct2, THEN conjunct1]
    ivt [unfolded sf_inv_def, THEN conjunct2, THEN conjunct2]
  have "sf_hold_inv (sf_acquire i k s)"
    by (rule sf_hold_inv_move [OF ivts(2) i(1) _ sf_acquire_simps(1)])
      (use i(2) fresh_gate_free [OF ivts(1,2)] in \<open>auto simp: sf_acquire_simps(3) split: option.split\<close>)
  moreover have "sf_wake_inv (sf_acquire i k s)"
  proof (rule sf_wake_inv_move [OF ivts(3) i(1) _ _ _ _ _ sf_acquire_simps(1)])
    show "quiet gate_free g_wakers (sf_gates (sf_acquire i k s) g)" for g
      using sf_wake_invD(1) [OF ivts(3)] by (simp add: sf_acquire_simps(3) split: option.split)
    fix g j
    assume "j \<in> set (g_wakers (sf_gates s g))" "list_ex (\<lambda>t. \<exists>k. t = Sf_Acquiring k g) (sf_tasks s)"
    then have "g \<noteq> sf_next s" using sf_map_invD(3) [OF ivts(1), of g] by (fastforce simp: list_ex_iff)
    with \<open>j \<in> _\<close> show "j \<in> set (g_wakers (sf_gates (sf_acquire i k s) g)) \<or>
        waking g j (Sf_Acquiring k (case fmlookup (sf_map s) k of None \<Rightarrow> sf_next s | Some g \<Rightarrow> g)) \<or>
        j \<in> sf_woken (sf_acquire i k s)"
      by (simp add: sf_acquire_simps(3) split: option.split)
  qed (use i(2) in \<open>auto simp: sf_acquire_simps(2)\<close>)
  ultimately show ?thesis using sf_map_inv_acquire [OF ivts(1) i(1)] by (simp add: sf_inv_def)
qed

lemma sf_inv_poll:
  assumes ivt: "sf_map_inv s" "sf_hold_inv s" "sf_wake_inv s"
    and i: "i < length (sf_tasks s)" "sf_tasks s ! i = Sf_Acquiring k g"
  shows "sf_inv (sf_poll i k g s)"
  unfolding sf_inv_def
proof (intro conjI)
  show "sf_map_inv (sf_poll i k g s)"
    by (rule sf_map_inv_move [OF ivt(1) i(1) _ _ _ _ _ sf_poll_simps(4)]) (use i(2) in auto)
  show "sf_hold_inv (sf_poll i k g s)"
    by (rule sf_hold_inv_move [OF ivt(2) i(1) _ sf_poll_simps(4)])
      (use i(2) in \<open>auto simp: gate_try_acquire_def\<close>)
  show "sf_wake_inv (sf_poll i k g s)"
    by (rule sf_wake_inv_move [OF ivt(3) i(1) _ _ _ _ _ sf_poll_simps(4)])
      (use i(2) gate.quiet_take [OF sf_wake_invD(1) [OF ivt(3)]] sf_wake_invD(1) [OF ivt(3)] in
        \<open>auto simp: gate_try_acquire_def split: if_splits\<close>)
qed

lemma sf_inv_release:
  assumes ivt: "sf_map_inv s" "sf_hold_inv s" "sf_wake_inv s"
    and i: "i < length (sf_tasks s)" "sf_tasks s ! i = Sf_Holding k g"
  shows "sf_inv (sf_release i k g s)"
  unfolding sf_inv_def
proof (intro conjI)
  have "g_held (sf_gates s g)" using sf_hold_iff [OF ivt(2), of g] i by force
  then show "sf_hold_inv (sf_release i k g s)"
    by (intro sf_hold_inv_move [OF ivt(2) i(1) _ sf_release_simps(4)]) (use i(2) in auto)
  show "sf_map_inv (sf_release i k g s)"
    by (rule sf_map_inv_move [OF ivt(1) i(1) _ _ _ _ _ sf_release_simps(4)]) (use i(2) in auto)
  show "sf_wake_inv (sf_release i k g s)"
    by (rule sf_wake_inv_move [OF ivt(3) i(1) _ _ _ _ _ sf_release_simps(4)])
      (use i(2) sf_wake_invD(1) [OF ivt(3)] in auto)
qed

lemma sf_inv_cleanup:
  assumes ivt: "sf_map_inv s" "sf_hold_inv s" "sf_wake_inv s"
    and i: "i < length (sf_tasks s)" "sf_tasks s ! i = Sf_Releasing k g []"
  shows "sf_inv (sf_cleanup i k g s)"
  unfolding sf_inv_def
proof (intro conjI)
  show "sf_map_inv (sf_cleanup i k g s)" by (rule sf_map_inv_cleanup [OF ivt(1) i])
  show "sf_hold_inv (sf_cleanup i k g s)"
    by (rule sf_hold_inv_move [OF ivt(2) i(1) _ sf_cleanup_simps(3)]) (use i(2) in auto)
  show "sf_wake_inv (sf_cleanup i k g s)"
    by (rule sf_wake_inv_move [OF ivt(3) i(1) _ _ _ _ _ sf_cleanup_simps(3)])
      (use i(2) sf_wake_invD(1) [OF ivt(3)] in auto)
qed

text \<open>The steps that leave the gates and the map alone: waking, returning, cancelling.\<close>

lemma sf_inv_local:
  assumes ivt: "sf_map_inv s" "sf_hold_inv s" "sf_wake_inv s" and i: "i < length (sf_tasks s)"
    and x: "attached x = attached (sf_tasks s ! i) \<or> attached x = None" "\<And>h. arcs h x \<le> arcs h (sf_tasks s ! i)"
      "\<And>g. holds_gate g x \<longleftrightarrow> holds_gate g (sf_tasks s ! i)" "\<And>k g. x \<noteq> Sf_Acquiring k g"
      "\<And>g j. waking g j (sf_tasks s ! i) \<Longrightarrow> waking g j x \<or> j \<in> W" "sf_woken s \<subseteq> W"
  shows "sf_inv (s\<lparr>sf_tasks := (sf_tasks s)[i := x], sf_woken := W\<rparr>)"
  unfolding sf_inv_def
proof (intro conjI)
  let ?s = "s\<lparr>sf_tasks := (sf_tasks s)[i := x], sf_woken := W\<rparr>"
  show "sf_map_inv ?s"
    by (rule sf_map_inv_update [OF ivt(1) i, where x = x])
      (use x(1) sf_map_invD(4) [OF ivt(1) nth_mem [OF i]] x(2) le_trans [OF x(2)]
        sf_map_invD(3) [OF ivt(1) _ nth_mem [OF i]] in \<open>auto simp flip: le_zero_eq\<close>)
  show "sf_hold_inv ?s" by (rule sf_hold_inv_move [OF ivt(2) i, where x = x]) (use x(3) in auto)
  show "sf_wake_inv ?s"
    by (rule sf_wake_inv_move [OF ivt(3) i, where x = x])
      (use x(4-6) sf_wake_invD(1) [OF ivt(3)] in auto)
qed


lemma sf_inv_inner: "sf_inner s s' \<Longrightarrow> sf_inv s \<Longrightarrow> sf_inv s'"
proof (induction rule: sf_inner.induct)
  case (poll i s k g)
  then show ?case by (intro sf_inv_poll) (auto simp: sf_inv_def)
next
  case (wake i s k g w ws)
  then show ?case by (intro sf_inv_local) (auto simp: sf_inv_def)
next
  case (cleanup i s k g)
  then show ?case by (intro sf_inv_cleanup) (auto simp: sf_inv_def)
next
  case (finish i s g)
  then show ?case using sf_inv_local [of s i Sf_Idle "sf_woken s"] by (auto simp: sf_inv_def)
qed

lemma sf_inv_step: "sf_step s s' \<Longrightarrow> sf_inv s \<Longrightarrow> sf_inv s'"
proof (induction rule: sf_step.induct)
  case (acquire i s k)
  then show ?case by (simp add: sf_inv_acquire)
next
  case (release i s k g)
  then show ?case by (intro sf_inv_release) (auto simp: sf_inv_def)
qed (rule sf_inv_inner)

lemma sf_inv_env: "sf_env s s' \<Longrightarrow> sf_inv s \<Longrightarrow> sf_inv s'"
proof (induction rule: sf_env.induct)
  case (cancel i s k g)
  then show ?case using sf_inv_local [of s i Sf_Idle "sf_woken s"] by (auto simp: sf_inv_def)
next
  case (spurious i s)
  then show ?case by (auto simp: sf_inv_def sf_map_inv_def sf_hold_inv_def sf_wake_inv_def)
qed

lemma sf_inv_new: "sf_inv (sf_new n)"
  by (auto simp: sf_inv_def sf_new_def sf_map_inv_def sf_hold_inv_def sf_wake_inv_def list_ex_iff)

lemma sf_reachable_inv: "sf_reachable n s \<Longrightarrow> sf_inv s"
  by (induction rule: sf_reachable.induct) (auto intro: sf_inv_new sf_inv_step sf_inv_env)

section \<open>No waiter is forgotten\<close>

lemma waking_drains:
  "j < length (sf_tasks s) \<Longrightarrow> sf_tasks s ! j = Sf_Releasing k g ws \<Longrightarrow>
   sf_step\<^sup>*\<^sup>* s (s\<lparr>sf_tasks := (sf_tasks s)[j := Sf_Releasing k g []], sf_woken := set ws \<union> sf_woken s\<rparr>)"
proof (induction ws arbitrary: s)
  case Nil
  then have "(sf_tasks s)[j := Sf_Releasing k g []] = sf_tasks s" by (metis list_update_id)
  then show ?case by simp
next
  case (Cons w ws)
  let ?s = "s\<lparr>sf_tasks := (sf_tasks s)[j := Sf_Releasing k g ws], sf_woken := insert w (sf_woken s)\<rparr>"
  have "sf_step s ?s" using Cons.prems by (intro sf_step.inner sf_inner.wake)
  moreover have "sf_step\<^sup>*\<^sup>* ?s (s\<lparr>sf_tasks := (sf_tasks s)[j := Sf_Releasing k g []],
      sf_woken := set (w # ws) \<union> sf_woken s\<rparr>)"
    using Cons.IH [of ?s] Cons.prems by simp
  ultimately show ?case by (rule converse_rtranclp_into_rtranclp)
qed

lemma woken_acquires:
  assumes "i < length (sf_tasks s)" "sf_tasks s ! i = Sf_Acquiring k g" "i \<in> sf_woken s"
    and "\<not> g_held (sf_gates s g)"
  shows "\<exists>s'. sf_step s s' \<and> sf_tasks s' ! i = Sf_Holding k g"
  using sf_step.inner [OF sf_inner.poll [OF assms(1-3)]] assms(1,4) by (intro exI [of _ "sf_poll i k g s"]) simp

lemma free_gate_acquires:
  assumes ivt: "sf_inv s" and i: "i < length (sf_tasks s)" "sf_tasks s ! i = Sf_Acquiring k g"
    and free: "\<not> g_held (sf_gates s g)"
  shows "\<exists>s'. sf_step\<^sup>*\<^sup>* s s' \<and> sf_tasks s' ! i = Sf_Holding k g"
proof (cases "i \<in> sf_woken s")
  case True
  then show ?thesis using woken_acquires [OF i True free] by blast
next
  case False
  have w: "sf_wake_inv s" using ivt by (simp add: sf_inv_def)
  have "g_wakers (sf_gates s g) = []"
    using sf_wake_invD(1) [OF w, of g] free by (simp add: quiet_def gate_free_def)
  then obtain j where j: "j < length (sf_tasks s)" "waking g i (sf_tasks s ! j)"
    using sf_wake_invD(2) [OF w i False] by (auto simp: list_ex_length)
  then obtain l ws where l: "sf_tasks s ! j = Sf_Releasing l g ws" "i \<in> set ws"
    by (cases "sf_tasks s ! j") auto
  let ?s = "s\<lparr>sf_tasks := (sf_tasks s)[j := Sf_Releasing l g []], sf_woken := set ws \<union> sf_woken s\<rparr>"
  have "j \<noteq> i" using i(2) l(1) by auto
  then obtain s' where "sf_step ?s s'" "sf_tasks s' ! i = Sf_Holding k g"
    using woken_acquires [of i ?s k g] i l(2) free by auto
  then show ?thesis using waking_drains [OF j(1) l(1)] by (meson rtranclp.rtrancl_into_rtrancl)
qed

lemma waiter_acquires:
  assumes ivt: "sf_inv s" and i: "i < length (sf_tasks s)" "sf_tasks s ! i = Sf_Acquiring k g"
  shows "\<exists>s'. sf_step\<^sup>*\<^sup>* s s' \<and> sf_tasks s' ! i = Sf_Holding k g"
proof (cases "g_held (sf_gates s g)")
  case True
  then obtain j where j: "j < length (sf_tasks s)" "holds_gate g (sf_tasks s ! j)"
    using sf_hold_iff [of s g] ivt by (auto simp: sf_inv_def)
  then obtain l where l: "sf_tasks s ! j = Sf_Holding l g" by (cases "sf_tasks s ! j") auto
  have "j \<noteq> i" using i(2) l by auto
  have step: "sf_step s (sf_release j l g s)" using j(1) l by (rule sf_step.release)
  moreover have "\<exists>s'. sf_step\<^sup>*\<^sup>* (sf_release j l g s) s' \<and> sf_tasks s' ! i = Sf_Holding k g"
    by (rule free_gate_acquires [OF sf_inv_step [OF step ivt]]) (use i l \<open>j \<noteq> i\<close> in auto)
  ultimately show ?thesis by (meson converse_rtranclp_into_rtranclp)
qed (use free_gate_acquires [OF ivt i] in blast)


section \<open>Properties\<close>

fun holds_key :: "'k \<Rightarrow> 'k sf_phase \<Rightarrow> bool" where
  "holds_key k (Sf_Holding j g) = (j = k)"
| "holds_key k _ = False"

fun on_live_gate :: "('k, nat) fmap \<Rightarrow> 'k sf_phase \<Rightarrow> bool" where
  "on_live_gate m (Sf_Acquiring k g) = (fmlookup m k = Some g)"
| "on_live_gate m (Sf_Holding k g) = (fmlookup m k = Some g)"
| "on_live_gate m (Sf_Releasing k g ws) = (fmlookup m k = Some g)"
| "on_live_gate m _ = True"

lemma sf_inv_live: "sf_map_inv s \<Longrightarrow> list_all (on_live_gate (sf_map s)) (sf_tasks s)"
  unfolding list_all_iff
proof
  fix t assume "sf_map_inv s" "t \<in> set (sf_tasks s)"
  then show "on_live_gate (sf_map s) t" using sf_map_invD(4) [of s t] by (cases t) auto
qed

lemma one_holder_per_key:
  assumes "sf_inv s"
  shows "length (filter (holds_key k) (sf_tasks s)) \<le> 1"
proof (cases "filter (holds_key k) (sf_tasks s)")
  case (Cons t ts)
  then have "t \<in> set (sf_tasks s)" "holds_key k t" by (auto simp: filter_eq_Cons_iff)
  obtain g where t: "t = Sf_Holding k g" using \<open>holds_key k t\<close> by (cases t) auto
  have m: "sf_map_inv s" and h: "sf_hold_inv s" using assms by (auto simp: sf_inv_def)
  have k: "fmlookup (sf_map s) k = Some g" using sf_map_invD(4) [OF m \<open>t \<in> _\<close>] t by simp
  have "filter (holds_key k) (sf_tasks s) = filter (holds_gate g) (sf_tasks s)"
  proof (rule filter_cong [OF refl])
    fix u assume "u \<in> set (sf_tasks s)"
    then show "holds_key k u = holds_gate g u"
      using sf_map_invD(4) [OF m, of u] k sf_map_invD(2) [OF m k, of "fst (the (attached u))"]
      by (cases u rule: sf_phase.exhaust) auto
  qed
  then show ?thesis using h by (simp add: sf_hold_inv_def split: if_splits)
qed simp

lemma sf_reachable_length: "sf_reachable n s \<Longrightarrow> length (sf_tasks s) = n"
  by (induction rule: sf_reachable.induct)
    (auto simp: sf_new_def sf_acquire_simps elim!: sf_step.cases sf_inner.cases sf_env.cases)

lemma sf_contended:
  "sf_reachable 2 (sf_acquire 1 k (sf_poll 0 k 0 (sf_acquire 0 k (sf_new 2))))"
proof -
  have "sf_reachable 2 (sf_acquire 0 k (sf_new 2))"
    by (rule sf_reachable.step [OF sf_reachable.start sf_step.acquire]) (simp_all add: sf_new_def)
  then have "sf_reachable 2 (sf_poll 0 k 0 (sf_acquire 0 k (sf_new 2)))"
    by (rule sf_reachable.step [OF _ sf_step.inner [OF sf_inner.poll]]) (simp_all add: sf_new_def sf_acquire_simps numeral_2_eq_2)
  then show ?thesis
    by (rule sf_reachable.step [OF _ sf_step.acquire])
      (simp_all add: sf_new_def sf_acquire_simps numeral_2_eq_2)
qed

lemma sf_contended_tasks:
  "sf_tasks (sf_acquire 1 k (sf_poll 0 k 0 (sf_acquire 0 k (sf_new 2)))) =
     [Sf_Holding k 0, Sf_Acquiring k 0]"
  by (simp add: sf_new_def sf_acquire_def gate_default_def numeral_2_eq_2)

text \<open>
  C11. Mutual exclusion of the single-flight gates: in every state that tasks reach by any
  interleaving of acquiring, polling (spurious polls included), cancelling and dropping guards, at
  most one task holds a key. The clean-up never detaches a gate that is in use: everyone who waits
  for, holds or releases a key does so on the gate that the map has for it.
\<close>

theorem single_flight_exclusive:
  assumes "sf_reachable n s"
  shows "length (filter (holds_key k) (sf_tasks s)) \<le> 1 \<and> list_all (on_live_gate (sf_map s)) (sf_tasks s)"
  using sf_reachable_inv [OF assms] one_holder_per_key [of s k] sf_inv_live [of s]
  by (simp add: sf_inv_def)

theorem single_flight_exclusive_witness:
  "sf_tasks (sf_acquire 1 ''a'' (sf_poll 0 ''a'' 0 (sf_acquire 0 ''a'' (sf_new 2)))) =
     [Sf_Holding ''a'' 0, Sf_Acquiring ''a'' 0] \<and>
   length (filter (holds_key ''a'')
     (sf_tasks (sf_acquire 1 ''a'' (sf_poll 0 ''a'' 0 (sf_acquire 0 ''a'' (sf_new 2)))))) \<le> 1"
  using single_flight_exclusive [OF sf_contended [of "''a''"], of "''a''"]
  unfolding sf_contended_tasks by simp

text \<open>
  C12. No lost wakeups: from every reachable state, whatever was cancelled before, a task that waits
  for a key gets it by steps that the code takes by itself (the holder drops its guard, wakers are
  called, woken tasks poll), with no poll that nobody asked for.
\<close>

theorem single_flight_progress:
  assumes "sf_reachable n s" "i < n" "sf_tasks s ! i = Sf_Acquiring k g"
  shows "\<exists>s'. sf_step\<^sup>*\<^sup>* s s' \<and> sf_tasks s' ! i = Sf_Holding k g"
  using waiter_acquires [OF sf_reachable_inv [OF assms(1)]] assms sf_reachable_length by blast

theorem single_flight_progress_witness:
  "\<exists>s'. sf_step\<^sup>*\<^sup>* (sf_acquire 1 ''a'' (sf_poll 0 ''a'' 0 (sf_acquire 0 ''a'' (sf_new 2)))) s' \<and>
     sf_tasks s' ! 1 = Sf_Holding ''a'' 0"
  using single_flight_progress [OF sf_contended [of "''a''"], of 1 "''a''" 0]
  unfolding sf_contended_tasks by simp

end
