(* ===== verification/Tiered_Cache.thy ===== *)
theory Tiered_Cache
  imports Router_Examples Router_Keeps Single_Flight
begin

text \<open>
  \<open>tierstore/src/cache.rs\<close>: the read-through cache, a router behind single-flight gates. The plain
  operations are functions. The gated ones, \<open>lookup\<close> and \<open>get_or_load\<close>, are programs: every task has
  a program counter, and each piece of the code between two points where it waits is one function.
  A call of the router is one step. The loader is the environment: it may answer anything, at any
  time. A caller may drop a future at any point where it waits.
\<close>

section \<open>The cache and its plain operations\<close>

record ('s, 'k, 'v, 'x) tiered_cache =
  tc_router :: "('s, 'k, 'v, 'x) router"
  tc_gates :: "'k single_flight"
  tc_single_flight :: bool

record ('s, 'k, 'v, 'x) cache_builder =
  cb_router :: "('s, 'k, 'v, 'x) router"
  cb_single_flight :: bool

definition cache_default_policy :: policy where
  "cache_default_policy =
     \<lparr>pol_read = \<lparr>rp_promote = TopOnly, rp_on_error = FallThrough\<rparr>, pol_write = WriteThrough,
      pol_on_write_error = BestEffort, pol_demote_displaced = True\<rparr>"

definition cache_builder_new :: "('s, 'k, 'v, 'x) cache_builder" where
  "cache_builder_new =
     \<lparr>cb_router = builder_policy cache_default_policy builder_new, cb_single_flight = True\<rparr>"

definition cache_builder_tier ::
  "('e \<Rightarrow> 'x) \<Rightarrow> ('s, 'k, 'v, 'e) tier_ops \<Rightarrow> 's \<Rightarrow> ('s, 'k, 'v, 'x) cache_builder \<Rightarrow>
   ('s, 'k, 'v, 'x) cache_builder"
where
  "cache_builder_tier into t s b = b\<lparr>cb_router := builder_tier into t s (cb_router b)\<rparr>"

definition cache_builder_read_only_tier ::
  "('e \<Rightarrow> 'x) \<Rightarrow> (string \<Rightarrow> 'x) \<Rightarrow> ('s, 'k, 'v, 'e) tier_read \<Rightarrow> 's \<Rightarrow> ('s, 'k, 'v, 'x) cache_builder \<Rightarrow>
   ('s, 'k, 'v, 'x) cache_builder"
where
  "cache_builder_read_only_tier into box t s b =
     b\<lparr>cb_router := builder_read_only_tier into box t s (cb_router b)\<rparr>"

definition cache_builder_policy ::
  "policy \<Rightarrow> ('s, 'k, 'v, 'x) cache_builder \<Rightarrow> ('s, 'k, 'v, 'x) cache_builder" where
  "cache_builder_policy p b = b\<lparr>cb_router := builder_policy p (cb_router b)\<rparr>"

definition cache_builder_single_flight ::
  "bool \<Rightarrow> ('s, 'k, 'v, 'x) cache_builder \<Rightarrow> ('s, 'k, 'v, 'x) cache_builder" where
  "cache_builder_single_flight enabled b = b\<lparr>cb_single_flight := enabled\<rparr>"

text \<open>The finished cache, for \<open>n\<close> tasks that will use it. Without tiers the build panics.\<close>

definition cache_build :: "nat \<Rightarrow> ('s, 'k, 'v, 'x) cache_builder \<Rightarrow> ('s, 'k, 'v, 'x) tiered_cache option" where
  "cache_build n b =
     map_option (\<lambda>r. \<lparr>tc_router = r, tc_gates = sf_new n, tc_single_flight = cb_single_flight b\<rparr>)
       (builder_build (cb_router b))"

definition re_cache ::
  "('s, 'k, 'v, 'x) tiered_cache \<Rightarrow> 'a \<times> ('s, 'k, 'v, 'x) router \<Rightarrow> 'a \<times> ('s, 'k, 'v, 'x) tiered_cache" where
  "re_cache c p = apsnd (\<lambda>r. c\<lparr>tc_router := r\<rparr>) p"

definition cache_contains ::
  "('s, 'k, 'v, 'x) tiered_cache \<Rightarrow> 'k \<Rightarrow>
   ((bool, 'x router_error) result \<times> ('s, 'k, 'v, 'x) tiered_cache) option"
where
  "cache_contains c k = map_option (re_cache c) (router_exists (tc_router c) k)"

definition cache_put ::
  "('s, 'k, 'v, 'x) tiered_cache \<Rightarrow> 'k \<Rightarrow> 'v \<Rightarrow>
   (('k, 'v) displaced, 'x router_error) result \<times> ('s, 'k, 'v, 'x) tiered_cache"
where
  "cache_put c k v = re_cache c (router_put (tc_router c) k v)"

definition cache_invalidate ::
  "('s, 'k, 'v, 'x) tiered_cache \<Rightarrow> 'k \<Rightarrow> (bool, 'x router_error) result \<times> ('s, 'k, 'v, 'x) tiered_cache" where
  "cache_invalidate c k = re_cache c (router_delete (tc_router c) k)"

definition cache_get_many ::
  "('s, 'k, 'v, 'x) tiered_cache \<Rightarrow> 'k list \<Rightarrow>
   (('v, 'x) read_report, 'x router_error) result \<times> ('s, 'k, 'v, 'x) tiered_cache"
where
  "cache_get_many c ks = re_cache c (router_read_many (tc_router c) ks)"

definition cache_put_many ::
  "('s, 'k, 'v, 'x) tiered_cache \<Rightarrow> ('k \<times> 'v) list \<Rightarrow>
   (('k, 'v) displaced, 'x router_error) result \<times> ('s, 'k, 'v, 'x) tiered_cache"
where
  "cache_put_many c es = re_cache c (router_put_many (tc_router c) es)"

definition cache_invalidate_many ::
  "('s, 'k, 'v, 'x) tiered_cache \<Rightarrow> 'k list \<Rightarrow> 'x delete_report \<times> ('s, 'k, 'v, 'x) tiered_cache" where
  "cache_invalidate_many c ks = re_cache c (router_remove_many (tc_router c) ks)"

definition cache_stats :: "('s, 'k, 'v, 'x) tiered_cache \<Rightarrow> tier_stats list" where
  "cache_stats c = router_stats (tc_router c)"

text \<open>What \<open>get\<close> makes of the report of its \<open>lookup\<close>.\<close>

fun cache_get_answer ::
  "(('v, 'x) read_one_report, 'x router_error) result \<Rightarrow> ('v option, 'x router_error) result" where
  "cache_get_answer (Err e) = Err e"
| "cache_get_answer (Ok rep) =
     (case one_status rep of
        Status_Hit t v \<Rightarrow> Ok (Some v)
      | Status_Miss \<Rightarrow> Ok None
      | Status_Inconclusive \<Rightarrow> Err (Inconclusive (one_failures rep)))"

section \<open>The gated operations\<close>

datatype ('k, 'v, 'x, 'e) cache_answer =
    Looked "(('v, 'x) read_one_report, 'x router_error) result"
  | Loaded "('v, 'e) result"
  | Dropped

datatype ('k, 'v, 'x, 'e) cache_pc =
    Pc_Idle
  | Pc_Lookup 'k
  | Pc_Wait 'k
  | Pc_Load 'k
  | Pc_Fill 'k "('v, 'e) result"
  | Pc_Leave "('k, 'v, 'x, 'e) cache_answer"
  | Pc_Done "('k, 'v, 'x, 'e) cache_answer"

text \<open>The log of the keys that loads filled is only there to state properties.\<close>

record ('s, 'k, 'v, 'x, 'e) cache_sys =
  cs_cache :: "('s, 'k, 'v, 'x) tiered_cache"
  cs_pcs :: "('k, 'v, 'x, 'e) cache_pc list"
  cs_fills :: "'k list"

definition set_pc ::
  "task \<Rightarrow> ('k, 'v, 'x, 'e) cache_pc \<Rightarrow> ('s, 'k, 'v, 'x, 'e) cache_sys \<Rightarrow> ('s, 'k, 'v, 'x, 'e) cache_sys" where
  "set_pc i pc s = s\<lparr>cs_pcs := (cs_pcs s)[i := pc]\<rparr>"

definition set_router ::
  "('s, 'k, 'v, 'x) router \<Rightarrow> ('s, 'k, 'v, 'x, 'e) cache_sys \<Rightarrow> ('s, 'k, 'v, 'x, 'e) cache_sys" where
  "set_router r s = s\<lparr>cs_cache := (cs_cache s)\<lparr>tc_router := r\<rparr>\<rparr>"

definition set_gates :: "'k single_flight \<Rightarrow> ('s, 'k, 'v, 'x, 'e) cache_sys \<Rightarrow> ('s, 'k, 'v, 'x, 'e) cache_sys" where
  "set_gates g s = s\<lparr>cs_cache := (cs_cache s)\<lparr>tc_gates := g\<rparr>\<rparr>"

abbreviation router_of :: "('s, 'k, 'v, 'x, 'e) cache_sys \<Rightarrow> ('s, 'k, 'v, 'x) router" where
  "router_of s \<equiv> tc_router (cs_cache s)"

abbreviation gates_of :: "('s, 'k, 'v, 'x, 'e) cache_sys \<Rightarrow> 'k single_flight" where
  "gates_of s \<equiv> tc_gates (cs_cache s)"

text \<open>\<open>lookup\<close>: up to the gate, and behind it. Without gates it reads at once.\<close>

definition lookup_call :: "task \<Rightarrow> 'k \<Rightarrow> ('s, 'k, 'v, 'x, 'e) cache_sys \<Rightarrow> ('s, 'k, 'v, 'x, 'e) cache_sys" where
  "lookup_call i k s =
     (if \<not> tc_single_flight (cs_cache s)
      then (let (res, r) = router_read_one (router_of s) k
            in set_pc i (Pc_Done (Looked res)) (set_router r s))
      else set_pc i (Pc_Lookup k) (set_gates (sf_acquire i k (gates_of s)) s))"

definition lookup_run ::
  "task \<Rightarrow> 'k \<Rightarrow> nat \<Rightarrow> ('s, 'k, 'v, 'x, 'e) cache_sys \<Rightarrow> ('s, 'k, 'v, 'x, 'e) cache_sys" where
  "lookup_run i k g s =
     (let (res, r) = router_read_one (router_of s) k
      in set_pc i (Pc_Leave (Looked res)) (set_gates (sf_release i k g (gates_of s)) (set_router r s)))"

text \<open>The pattern \<open>if let Ok(Some(value)) = self.router.get(key).await\<close>.\<close>

definition probe_hit ::
  "('s, 'k, 'v, 'x) router \<Rightarrow> 'k \<Rightarrow> 'v option \<times> ('s, 'k, 'v, 'x) router" where
  "probe_hit r k =
     (case the (router_get r k) of
        (Ok (Some v), r') \<Rightarrow> (Some v, r')
      | (_, r') \<Rightarrow> (None, r'))"

text \<open>\<open>get_or_load\<close>: the first probe, the probe under the gate, and the fill.\<close>

definition load_call :: "task \<Rightarrow> 'k \<Rightarrow> ('s, 'k, 'v, 'x, 'e) cache_sys \<Rightarrow> ('s, 'k, 'v, 'x, 'e) cache_sys" where
  "load_call i k s =
     (case probe_hit (router_of s) k of
        (Some v, r) \<Rightarrow> set_pc i (Pc_Done (Loaded (Ok v))) (set_router r s)
      | (None, r) \<Rightarrow>
          if \<not> tc_single_flight (cs_cache s) then set_pc i (Pc_Load k) (set_router r s)
          else set_pc i (Pc_Wait k) (set_gates (sf_acquire i k (gates_of s)) (set_router r s)))"

definition load_reprobe ::
  "task \<Rightarrow> 'k \<Rightarrow> nat \<Rightarrow> ('s, 'k, 'v, 'x, 'e) cache_sys \<Rightarrow> ('s, 'k, 'v, 'x, 'e) cache_sys" where
  "load_reprobe i k g s =
     (case probe_hit (router_of s) k of
        (Some v, r) \<Rightarrow>
          set_pc i (Pc_Leave (Loaded (Ok v))) (set_gates (sf_release i k g (gates_of s)) (set_router r s))
      | (None, r) \<Rightarrow> set_pc i (Pc_Load k) (set_router r s))"

definition store_loaded ::
  "'k \<Rightarrow> ('v, 'e) result \<Rightarrow> ('s, 'k, 'v, 'x, 'e) cache_sys \<Rightarrow> ('s, 'k, 'v, 'x, 'e) cache_sys" where
  "store_loaded k res s =
     (case res of
        Ok v \<Rightarrow> (set_router (snd (router_put (router_of s) k v)) s)\<lparr>cs_fills := cs_fills s @ [k]\<rparr>
      | Err e \<Rightarrow> s)"

definition load_fill ::
  "task \<Rightarrow> 'k \<Rightarrow> nat \<Rightarrow> ('v, 'e) result \<Rightarrow> ('s, 'k, 'v, 'x, 'e) cache_sys \<Rightarrow> ('s, 'k, 'v, 'x, 'e) cache_sys" where
  "load_fill i k g res s =
     set_pc i (Pc_Leave (Loaded res)) (set_gates (sf_release i k g (gates_of s)) (store_loaded k res s))"

definition load_fill_ungated ::
  "task \<Rightarrow> 'k \<Rightarrow> ('v, 'e) result \<Rightarrow> ('s, 'k, 'v, 'x, 'e) cache_sys \<Rightarrow> ('s, 'k, 'v, 'x, 'e) cache_sys" where
  "load_fill_ungated i k res s = set_pc i (Pc_Done (Loaded res)) (store_loaded k res s)"

text \<open>Dropping the future of a task: its guard or its place in the queue is dropped with it.\<close>

definition drop_future :: "task \<Rightarrow> ('s, 'k, 'v, 'x, 'e) cache_sys \<Rightarrow> ('s, 'k, 'v, 'x, 'e) cache_sys" where
  "drop_future i s =
     (case sf_tasks (gates_of s) ! i of
        Sf_Holding k g \<Rightarrow> set_pc i (Pc_Leave Dropped) (set_gates (sf_release i k g (gates_of s)) s)
      | Sf_Acquiring k g \<Rightarrow>
          set_pc i Pc_Idle (set_gates ((gates_of s)\<lparr>sf_tasks := (sf_tasks (gates_of s))[i := Sf_Idle]\<rparr>) s)
      | _ \<Rightarrow> set_pc i Pc_Idle s)"

fun can_drop :: "('k, 'v, 'x, 'e) cache_pc \<Rightarrow> bool" where
  "can_drop (Pc_Lookup k) = True"
| "can_drop (Pc_Wait k) = True"
| "can_drop (Pc_Load k) = True"
| "can_drop (Pc_Fill k res) = True"
| "can_drop _ = False"

text \<open>The steps, with \<open>oth\<close> for what other calls may do to the router in between.\<close>

inductive cache_step ::
  "(('s, 'k, 'v, 'x) router \<Rightarrow> ('s, 'k, 'v, 'x) router \<Rightarrow> bool) \<Rightarrow>
   ('s, 'k, 'v, 'x, 'e) cache_sys \<Rightarrow> ('s, 'k, 'v, 'x, 'e) cache_sys \<Rightarrow> bool"
  for oth
where
  lookup_call: "i < length (cs_pcs s) \<Longrightarrow> cs_pcs s ! i = Pc_Idle \<Longrightarrow> cache_step oth s (lookup_call i k s)"
| lookup_run: "i < length (cs_pcs s) \<Longrightarrow> cs_pcs s ! i = Pc_Lookup k \<Longrightarrow>
     sf_tasks (gates_of s) ! i = Sf_Holding k g \<Longrightarrow> cache_step oth s (lookup_run i k g s)"
| load_call: "i < length (cs_pcs s) \<Longrightarrow> cs_pcs s ! i = Pc_Idle \<Longrightarrow> cache_step oth s (load_call i k s)"
| load_reprobe: "i < length (cs_pcs s) \<Longrightarrow> cs_pcs s ! i = Pc_Wait k \<Longrightarrow>
     sf_tasks (gates_of s) ! i = Sf_Holding k g \<Longrightarrow> cache_step oth s (load_reprobe i k g s)"
| load_answer: "i < length (cs_pcs s) \<Longrightarrow> cs_pcs s ! i = Pc_Load k \<Longrightarrow>
     cache_step oth s (set_pc i (Pc_Fill k res) s)"
| load_fill: "i < length (cs_pcs s) \<Longrightarrow> cs_pcs s ! i = Pc_Fill k res \<Longrightarrow> tc_single_flight (cs_cache s) \<Longrightarrow>
     sf_tasks (gates_of s) ! i = Sf_Holding k g \<Longrightarrow> cache_step oth s (load_fill i k g res s)"
| load_fill_ungated: "i < length (cs_pcs s) \<Longrightarrow> cs_pcs s ! i = Pc_Fill k res \<Longrightarrow>
     \<not> tc_single_flight (cs_cache s) \<Longrightarrow> cache_step oth s (load_fill_ungated i k res s)"
| gate: "sf_inner (gates_of s) g' \<Longrightarrow> cache_step oth s (set_gates g' s)"
| left: "i < length (cs_pcs s) \<Longrightarrow> cs_pcs s ! i = Pc_Leave a \<Longrightarrow> sf_tasks (gates_of s) ! i = Sf_Idle \<Longrightarrow>
     cache_step oth s (set_pc i (Pc_Done a) s)"
| return: "i < length (cs_pcs s) \<Longrightarrow> cs_pcs s ! i = Pc_Done a \<Longrightarrow> cache_step oth s (set_pc i Pc_Idle s)"
| dropped: "i < length (cs_pcs s) \<Longrightarrow> can_drop (cs_pcs s ! i) \<Longrightarrow> cache_step oth s (drop_future i s)"
| spurious: "cache_step oth s (set_gates ((gates_of s)\<lparr>sf_woken := insert i (sf_woken (gates_of s))\<rparr>) s)"
| other: "oth (router_of s) r' \<Longrightarrow> cache_step oth s (set_router r' s)"

definition cache_start :: "nat \<Rightarrow> ('s, 'k, 'v, 'x) tiered_cache \<Rightarrow> ('s, 'k, 'v, 'x, 'e) cache_sys" where
  "cache_start n c = \<lparr>cs_cache = c, cs_pcs = replicate n Pc_Idle, cs_fills = []\<rparr>"

inductive cache_reachable ::
  "(('s, 'k, 'v, 'x) router \<Rightarrow> ('s, 'k, 'v, 'x) router \<Rightarrow> bool) \<Rightarrow> nat \<Rightarrow> ('s, 'k, 'v, 'x) cache_builder \<Rightarrow>
   ('s, 'k, 'v, 'x, 'e) cache_sys \<Rightarrow> bool"
  for oth n b
where
  start: "cache_build n b = Some c \<Longrightarrow> cache_reachable oth n b (cache_start n c)"
| step: "cache_reachable oth n b s \<Longrightarrow> cache_step oth s s' \<Longrightarrow> cache_reachable oth n b s'"


section \<open>Loads are under the gate\<close>

text \<open>What the gates know of a task at each point of its program.\<close>

fun agrees :: "('k, 'v, 'x, 'e) cache_pc \<Rightarrow> 'k sf_phase \<Rightarrow> bool" where
  "agrees (Pc_Lookup k) (Sf_Acquiring j g) = (j = k)"
| "agrees (Pc_Lookup k) (Sf_Holding j g) = (j = k)"
| "agrees (Pc_Wait k) (Sf_Acquiring j g) = (j = k)"
| "agrees (Pc_Wait k) (Sf_Holding j g) = (j = k)"
| "agrees (Pc_Load k) (Sf_Holding j g) = (j = k)"
| "agrees (Pc_Fill k res) (Sf_Holding j g) = (j = k)"
| "agrees (Pc_Leave a) (Sf_Releasing k g ws) = True"
| "agrees (Pc_Leave a) (Sf_Cleaned g) = True"
| "agrees (Pc_Leave a) Sf_Idle = True"
| "agrees Pc_Idle ph = (ph = Sf_Idle)"
| "agrees (Pc_Done a) ph = (ph = Sf_Idle)"
| "agrees _ _ = False"

definition cache_inv :: "('s, 'k, 'v, 'x, 'e) cache_sys \<Rightarrow> bool" where
  "cache_inv s \<longleftrightarrow> tc_single_flight (cs_cache s) \<and> sf_inv (gates_of s) \<and>
     list_all2 agrees (cs_pcs s) (sf_tasks (gates_of s))"

lemma set_simps [simp]:
  "cs_pcs (set_pc i pc s) = (cs_pcs s)[i := pc]" "cs_cache (set_pc i pc s) = cs_cache s"
  "cs_fills (set_pc i pc s) = cs_fills s"
  "router_of (set_router r s) = r" "gates_of (set_router r s) = gates_of s"
  "tc_single_flight (cs_cache (set_router r s)) = tc_single_flight (cs_cache s)"
  "cs_pcs (set_router r s) = cs_pcs s" "cs_fills (set_router r s) = cs_fills s"
  "router_of (set_gates g s) = router_of s" "gates_of (set_gates g s) = g"
  "tc_single_flight (cs_cache (set_gates g s)) = tc_single_flight (cs_cache s)"
  "cs_pcs (set_gates g s) = cs_pcs s" "cs_fills (set_gates g s) = cs_fills s"
  by (simp_all add: set_pc_def set_router_def set_gates_def)

lemma store_loaded_simps [simp]:
  "gates_of (store_loaded k res s) = gates_of s" "cs_pcs (store_loaded k res s) = cs_pcs s"
  "tc_single_flight (cs_cache (store_loaded k res s)) = tc_single_flight (cs_cache s)"
  by (simp_all add: store_loaded_def split: sum.split)

lemma cache_invD:
  assumes "cache_inv s"
  shows "tc_single_flight (cs_cache s)" "sf_inv (gates_of s)"
    "list_all2 agrees (cs_pcs s) (sf_tasks (gates_of s))"
    "length (sf_tasks (gates_of s)) = length (cs_pcs s)"
    "i < length (cs_pcs s) \<Longrightarrow> agrees (cs_pcs s ! i) (sf_tasks (gates_of s) ! i)"
  using assms by (auto simp: cache_inv_def dest: list_all2_lengthD list_all2_nthD)

text \<open>A task moves on, and its phase at the gates with it.\<close>

lemma cache_inv_move:
  assumes "cache_inv s" "agrees pc ph"
    and "cs_pcs s' = (cs_pcs s)[i := pc]" "sf_tasks (gates_of s') = (sf_tasks (gates_of s))[i := ph]"
    and "sf_inv (gates_of s')" "tc_single_flight (cs_cache s')"
  shows "cache_inv s'"
  using assms cache_invD(3) [OF assms(1)] by (simp add: cache_inv_def list_all2_update_cong)

lemma cache_inv_local:
  assumes "cache_inv s" "i < length (cs_pcs s)" "agrees pc (sf_tasks (gates_of s) ! i)"
    and "cs_pcs s' = (cs_pcs s)[i := pc]" "gates_of s' = gates_of s" "tc_single_flight (cs_cache s')"
  shows "cache_inv s'"
  by (rule cache_inv_move [OF assms(1,3,4)]) (use assms cache_invD(2) in \<open>auto\<close>)

lemma agrees_inner:
  assumes "sf_inner g g'" "list_all2 agrees pcs (sf_tasks g)"
  shows "list_all2 agrees pcs (sf_tasks g')"
proof -
  have upd: "list_all2 agrees pcs ((sf_tasks g)[i := ph])"
    if "i < length (sf_tasks g)" "agrees (pcs ! i) ph" for i ph
    using list_all2_update_cong [OF assms(2) that(2), of i] by simp
  have ag: "agrees (pcs ! i) (sf_tasks g ! i)" if "i < length (sf_tasks g)" for i
    using list_all2_nthD2 [OF assms(2) that] .
  show ?thesis
    using assms(1)
  proof cases
    case (poll i k h)
    then show ?thesis using ag [of i] by (auto intro!: upd) (cases "pcs ! i"; simp)
  next
    case (wake i k h w ws)
    then show ?thesis using ag [of i] by (auto intro!: upd) (cases "pcs ! i"; simp)
  next
    case (cleanup i k h)
    then show ?thesis using ag [of i] by (auto intro!: upd) (cases "pcs ! i"; simp)
  next
    case (finish i h)
    then show ?thesis using ag [of i] by (auto intro!: upd) (cases "pcs ! i"; simp)
  qed
qed

lemma sf_inv_acquire_idle:
  "cache_inv s \<Longrightarrow> i < length (cs_pcs s) \<Longrightarrow> cs_pcs s ! i = Pc_Idle \<Longrightarrow> sf_inv (sf_acquire i k (gates_of s))"
  using cache_invD(5) [of s i] by (intro sf_inv_acquire) (simp_all add: cache_invD)

lemma sf_inv_release_held:
  "cache_inv s \<Longrightarrow> i < length (cs_pcs s) \<Longrightarrow> sf_tasks (gates_of s) ! i = Sf_Holding k g \<Longrightarrow>
   sf_inv (sf_release i k g (gates_of s))"
  using cache_invD(2,4) [of s] by (intro sf_inv_release) (simp_all add: sf_inv_def)

lemma cache_inv_drop:
  assumes ivt: "cache_inv s" and i: "i < length (cs_pcs s)" "can_drop (cs_pcs s ! i)"
  shows "cache_inv (drop_future i s)"
proof -
  have len: "i < length (sf_tasks (gates_of s))" using cache_invD(4) [OF ivt] i by simp
  have a: "agrees (cs_pcs s ! i) (sf_tasks (gates_of s) ! i)" using cache_invD(5) [OF ivt i(1)] .
  then consider k g where "sf_tasks (gates_of s) ! i = Sf_Holding k g"
    | k g where "sf_tasks (gates_of s) ! i = Sf_Acquiring k g"
    using i(2) by (cases "cs_pcs s ! i"; cases "sf_tasks (gates_of s) ! i") auto
  then show ?thesis
  proof cases
    case (1 k g)
    then show ?thesis
      by (intro cache_inv_move [OF ivt, where i = i])
         (use i in \<open>auto simp: drop_future_def cache_invD [OF ivt] sf_inv_release_held [OF ivt]\<close>)
  next
    case (2 k g)
    have "sf_inv ((gates_of s)\<lparr>sf_tasks := (sf_tasks (gates_of s))[i := Sf_Idle]\<rparr>)"
      using sf_inv_env [OF sf_env.cancel [OF len 2] cache_invD(2) [OF ivt]] .
    with 2 show ?thesis
      by (intro cache_inv_move [OF ivt, where i = i])
         (use i in \<open>auto simp: drop_future_def cache_invD [OF ivt]\<close>)
  qed
qed

lemma cache_inv_step: "cache_step oth s s' \<Longrightarrow> cache_inv s \<Longrightarrow> cache_inv s'"
proof (induction rule: cache_step.induct)
  case (lookup_call i s k)
  then show ?case
    by (intro cache_inv_move [OF lookup_call.prems, where i = i])
       (auto simp: lookup_call_def sf_acquire_simps cache_invD sf_inv_acquire_idle)
next
  case (lookup_run i s k g)
  then show ?case
    by (intro cache_inv_move [OF lookup_run.prems, where i = i])
       (auto simp: lookup_run_def split_def Let_def cache_invD sf_inv_release_held)
next
  case (load_call i s k)
  obtain hit r where p: "probe_hit (router_of s) k = (hit, r)" by fastforce
  note a = cache_invD(5) [OF load_call.prems load_call.hyps(1)]
  show ?case
  proof (cases hit)
    case None
    then show ?thesis
      by (intro cache_inv_move [OF load_call.prems, where i = i])
         (use load_call p in \<open>auto simp: load_call_def sf_acquire_simps cache_invD sf_inv_acquire_idle\<close>)
  next
    case (Some v)
    then show ?thesis
      by (intro cache_inv_local [OF load_call.prems load_call.hyps(1)])
         (use load_call p a in \<open>auto simp: load_call_def cache_invD\<close>)
  qed
next
  case (load_reprobe i s k g)
  obtain hit r where p: "probe_hit (router_of s) k = (hit, r)" by fastforce
  show ?case
  proof (cases hit)
    case None
    then show ?thesis
      by (intro cache_inv_local [OF load_reprobe.prems load_reprobe.hyps(1)])
         (use load_reprobe p in \<open>auto simp: load_reprobe_def cache_invD\<close>)
  next
    case (Some v)
    then show ?thesis
      by (intro cache_inv_move [OF load_reprobe.prems, where i = i])
         (use load_reprobe p in \<open>auto simp: load_reprobe_def cache_invD sf_inv_release_held\<close>)
  qed
next
  case (load_answer i s k res)
  then show ?case
    using cache_invD(5) [OF load_answer.prems, of i]
    by (intro cache_inv_local [OF load_answer.prems, where i = i])
       (auto simp: cache_invD elim: agrees.elims)
next
  case (load_fill i s k res g)
  then show ?case
    by (intro cache_inv_move [OF load_fill.prems, where i = i])
       (auto simp: load_fill_def cache_invD sf_inv_release_held)
next
  case (load_fill_ungated i s k res)
  then show ?case by (simp add: cache_inv_def)
next
  case (gate s g')
  then show ?case
    using agrees_inner [OF gate.hyps cache_invD(3)] sf_inv_inner [OF gate.hyps] by (simp add: cache_inv_def)
next
  case (left i s a)
  then show ?case
    by (intro cache_inv_local [OF left.prems, where i = i]) (auto simp: cache_invD)
next
  case (return i s a)
  then show ?case
    using cache_invD(5) [OF return.prems, of i]
    by (intro cache_inv_local [OF return.prems, where i = i]) (auto simp: cache_invD)
next
  case (dropped i s)
  then show ?case by (intro cache_inv_drop)
next
  case (spurious s i)
  then show ?case
    by (auto simp: cache_inv_def sf_inv_def sf_map_inv_def sf_hold_inv_def sf_wake_inv_def)
next
  case (other s r')
  then show ?case by (simp add: cache_inv_def)
qed


lemma cache_inv_start:
  assumes "cache_build n b = Some c" "cb_single_flight b"
  shows "cache_inv (cache_start n c)"
  using assms sf_inv_new
  by (auto simp: cache_build_def cache_start_def cache_inv_def sf_new_def list_all2_conv_all_nth)

lemma cache_reachable_inv: "cache_reachable oth n b s \<Longrightarrow> cb_single_flight b \<Longrightarrow> cache_inv s"
  by (induction rule: cache_reachable.induct) (auto intro: cache_inv_start cache_inv_step)

fun loads_key :: "'k \<Rightarrow> ('k, 'v, 'x, 'e) cache_pc \<Rightarrow> bool" where
  "loads_key k (Pc_Load j) = (j = k)"
| "loads_key k (Pc_Fill j res) = (j = k)"
| "loads_key k _ = False"

lemma filter_list_all2:
  "list_all2 R xs ys \<Longrightarrow> (\<And>x y. R x y \<Longrightarrow> P x \<Longrightarrow> Q y) \<Longrightarrow> length (filter P xs) \<le> length (filter Q ys)"
  by (induction rule: list_all2_induct) (auto intro: le_SucI)

lemma agrees_loads: "agrees pc ph \<Longrightarrow> loads_key k pc \<Longrightarrow> holds_key k ph"
  by (cases pc; cases ph) auto

lemma one_load_per_key:
  assumes "cache_inv s"
  shows "length (filter (loads_key k) (cs_pcs s)) \<le> 1"
  using filter_list_all2 [OF cache_invD(3) [OF assms], of "loads_key k" "holds_key k"]
    one_holder_per_key [OF cache_invD(2) [OF assms], of k] agrees_loads
  by (meson le_trans)


section \<open>Every key is filled once\<close>

text \<open>The calls of other clients that do not invalidate.\<close>

inductive cache_other :: "('s, 'k, 'v, 'x) router \<Rightarrow> ('s, 'k, 'v, 'x) router \<Rightarrow> bool" where
  put: "cache_other r (snd (router_put r k v))"
| put_many: "cache_other r (snd (router_put_many r es))"
| get_many: "cache_other r (snd (router_read_many r ks))"
| contains: "map_option snd (router_exists r k) = Some r' \<Longrightarrow> cache_other r r'"

definition lasting_router ::
  "(('s, 'k, 'v, 'x) tier_ops \<Rightarrow> 's \<Rightarrow> bool) \<Rightarrow> (('s, 'k, 'v, 'x) tier_ops \<Rightarrow> 's \<Rightarrow> bool) \<Rightarrow>
   ('s, 'k, 'v, 'x) router \<Rightarrow> bool"
where
  "lasting_router ivt ab r \<longleftrightarrow> kept ivt ab (rt_tiers r) \<and> pol_demote_displaced (rt_policy r) \<and>
     pol_write (rt_policy r) = WriteThrough"

definition filled_inv ::
  "(('s, 'k, 'v, 'x) tier_ops \<Rightarrow> 's \<Rightarrow> bool) \<Rightarrow> (('s, 'k, 'v, 'x) tier_ops \<Rightarrow> 's \<Rightarrow> bool) \<Rightarrow>
   (('s, 'k, 'v, 'x) tier_ops \<Rightarrow> 's \<Rightarrow> ('k \<rightharpoonup> 'v)) \<Rightarrow> ('s, 'k, 'v, 'x, 'e) cache_sys \<Rightarrow> bool"
where
  "filled_inv ivt ab con s \<longleftrightarrow>
     lasting_router ivt ab (router_of s) \<and> distinct (cs_fills s) \<and>
     set (cs_fills s) \<subseteq> dom (view con (rt_tiers (router_of s))) \<and>
     (\<forall>pc \<in> set (cs_pcs s). \<forall>k. loads_key k pc \<longrightarrow> k \<notin> set (cs_fills s))"

text \<open>A router call that keeps the keys, as a relation between router states.\<close>

definition router_grows ::
  "(('s, 'k, 'v, 'x) tier_ops \<Rightarrow> 's \<Rightarrow> bool) \<Rightarrow> (('s, 'k, 'v, 'x) tier_ops \<Rightarrow> 's \<Rightarrow> bool) \<Rightarrow>
   (('s, 'k, 'v, 'x) tier_ops \<Rightarrow> 's \<Rightarrow> ('k \<rightharpoonup> 'v)) \<Rightarrow> ('s, 'k, 'v, 'x) router \<Rightarrow> ('s, 'k, 'v, 'x) router \<Rightarrow> bool"
where
  "router_grows ivt ab con r r' \<longleftrightarrow>
     rt_policy r' = rt_policy r \<and> grows ivt ab con (rt_tiers r) (rt_tiers r')"

lemma router_grows_refl [simp]: "router_grows ivt ab con r r"
  by (simp add: router_grows_def)

lemma filled_inv_move:
  assumes "filled_inv ivt ab con s" "router_grows ivt ab con (router_of s) (router_of s')"
    and "cs_fills s' = cs_fills s" "cs_pcs s' = (cs_pcs s)[i := pc]"
    and "\<And>k. loads_key k pc \<Longrightarrow> k \<notin> set (cs_fills s)"
  shows "filled_inv ivt ab con s'"
  using assms set_update_subset_insert [of "cs_pcs s" i pc]
  unfolding filled_inv_def lasting_router_def router_grows_def grows_def by (metis (no_types) insertE subsetD subset_trans)

lemma filled_inv_same:
  assumes "filled_inv ivt ab con s" "router_grows ivt ab con (router_of s) (router_of s')"
    and "cs_fills s' = cs_fills s" "cs_pcs s' = cs_pcs s"
  shows "filled_inv ivt ab con s'"
  using assms unfolding filled_inv_def lasting_router_def router_grows_def grows_def
  by (metis (no_types) subset_trans)

lemma snd_read_one: "snd (router_read_one r k) = snd (router_read_many r [k])"
  by (auto simp: router_read_one_def split: prod.split sum.split)

context lasting_tiers begin

lemma lasting_calls:
  assumes "lasting_router inv absorbs r"
  shows "router_grows inv absorbs con r (snd (router_read_one r k))"
    and "probe_hit r k = (x, r') \<Longrightarrow> x = view con (rt_tiers r) k \<and> router_grows inv absorbs con r r'"
    and "router_grows inv absorbs con r (snd (router_put r k v))"
    and "k \<in> dom (view con (rt_tiers (snd (router_put r k v))))"
    and "cache_other r r' \<Longrightarrow> router_grows inv absorbs con r r'"
proof -
  note l = assms [unfolded lasting_router_def]
  have rm: "router_grows inv absorbs con r (snd (router_read_many r ks))" for ks
    using router_read_many_grows [of r ks] router_read_policy [of r ks] l by (simp add: router_grows_def)
  then show "router_grows inv absorbs con r (snd (router_read_one r k))" by (simp add: snd_read_one)
  show "x = view con (rt_tiers r) k \<and> router_grows inv absorbs con r r'" if "probe_hit r k = (x, r')"
    using router_get_grows [of r k] l that
    by (cases "view con (rt_tiers r) k") (auto simp: router_grows_def probe_hit_def)
  have put: "router_grows inv absorbs con r (snd (router_put r k v)) \<and>
      k \<in> dom (view con (rt_tiers (snd (router_put r k v))))" for k v
    using router_put_grows(1) [of r k v] l by (auto simp: router_grows_def)
  then show "router_grows inv absorbs con r (snd (router_put r k v))"
    "k \<in> dom (view con (rt_tiers (snd (router_put r k v))))" by blast+
  have "router_grows inv absorbs con r (snd (router_put_many r es))" for es
    using router_put_grows(2) [of r es] l by (auto simp: router_grows_def)
  moreover have "router_grows inv absorbs con r r'" if "map_option snd (router_exists r k) = Some r'" for k
    using router_exists_grows [of r k] that by (auto simp: router_grows_def)
  ultimately have "cache_other r r' \<longrightarrow> router_grows inv absorbs con r r'"
    using put rm by (auto elim!: cache_other.cases) blast
  then show "cache_other r r' \<Longrightarrow> router_grows inv absorbs con r r'" by blast
qed

lemma filled_inv_fill:
  fixes s :: "('a, 'b, 'c, 'd, 'e) cache_sys"
  assumes ivt: "cache_inv s" "filled_inv inv absorbs con s"
    and i: "i < length (cs_pcs s)" "cs_pcs s ! i = Pc_Fill k res"
  shows "filled_inv inv absorbs con (load_fill i k g res s)"
proof -
  let ?s = "load_fill i k g res s"
  note f = ivt(2) [unfolded filled_inv_def]
  have pcs: "cs_pcs ?s = (cs_pcs s)[i := Pc_Leave (Loaded res)]" by (simp add: load_fill_def)
  have leave: "\<not> loads_key j (Pc_Leave a :: ('b, 'c, 'd, 'e) cache_pc)" for j a by simp
  show ?thesis
  proof (cases res)
    case (Inl e)
    show ?thesis
      by (rule filled_inv_move [OF ivt(2) _ _ pcs]) (use Inl in \<open>simp_all add: load_fill_def store_loaded_def\<close>)
  next
    case (Inr v)
    have r: "router_of ?s = snd (router_put (router_of s) k v)" "cs_fills ?s = cs_fills s @ [k]"
      using Inr by (simp_all add: load_fill_def store_loaded_def)
    have last: "lasting_router inv absorbs (router_of s)" using f by blast
    note put = lasting_calls(3,4) [OF last, of k v]
    have new: "k \<notin> set (cs_fills s)" using f i nth_mem [OF i(1)] by auto
    have other: "\<not> loads_key k pc" if mem: "pc \<in> set (cs_pcs ?s)" for pc
    proof -
      consider "pc = Pc_Leave (Loaded res)" | j where "j < length (cs_pcs s)" "j \<noteq> i" "pc = cs_pcs s ! j"
        using mem unfolding pcs in_set_update [OF i(1)] by blast
      then show ?thesis
        using filter_unique [OF one_load_per_key [OF ivt(1)] i(1), of _ k] i(2) by cases auto
    qed
    have grown: "kept inv absorbs (rt_tiers (router_of ?s))" "rt_policy (router_of ?s) = rt_policy (router_of s)"
        "dom (view con (rt_tiers (router_of s))) \<subseteq> dom (view con (rt_tiers (router_of ?s)))"
      using put(1) last unfolding r by (auto simp: router_grows_def grows_def lasting_router_def)
    have "set (cs_fills ?s) \<subseteq> dom (view con (rt_tiers (router_of ?s)))"
      using subset_trans [OF _ grown(3), of "set (cs_fills s)"] f put(2) unfolding r by simp
    moreover have "j \<notin> set (cs_fills ?s)" if "pc \<in> set (cs_pcs ?s)" "loads_key j pc" for pc j
    proof -
      have "pc \<in> set (cs_pcs s)"
        using that leave unfolding pcs in_set_update [OF i(1)] by auto
      with f that(2) have "j \<notin> set (cs_fills s)" by blast
      moreover have "j \<noteq> k" using other that by blast
      ultimately show ?thesis by (simp add: r(2))
    qed
    ultimately show ?thesis
      using f new grown last by (simp add: filled_inv_def lasting_router_def r(2))
  qed
qed

lemma filled_inv_step:
  fixes s :: "('a, 'b, 'c, 'd, 'e) cache_sys"
  assumes "cache_step cache_other s s'" "cache_inv s" "filled_inv inv absorbs con s"
  shows "filled_inv inv absorbs con s'"
proof -
  note f = assms(3) [unfolded filled_inv_def]
  have last: "lasting_router inv absorbs (router_of s)" using f by blast
  note calls = lasting_calls [OF last]
  have pc: "k \<notin> set (cs_fills s)" if "i < length (cs_pcs s)" "loads_key k (cs_pcs s ! i)" for i k
    using f nth_mem [OF that(1)] that(2) by blast
  note sf = cache_invD(1) [OF assms(2)]
  show ?thesis
    using assms(1)
  proof cases
    case (lookup_call i k)
    then show ?thesis using sf
      by (intro filled_inv_move [OF assms(3), where i = i]) (auto simp: lookup_call_def)
  next
    case (lookup_run i k g)
    then show ?thesis
      using calls(1) by (intro filled_inv_move [OF assms(3), where i = i]) (auto simp: lookup_run_def split_def Let_def)
  next
    case (load_call i k)
    obtain hit r where p: "probe_hit (router_of s) k = (hit, r)" by fastforce
    show ?thesis
      by (rule filled_inv_move [OF assms(3), where i = i and pc = "case hit of Some v \<Rightarrow> Pc_Done (Loaded (Ok v)) | None \<Rightarrow> Pc_Wait k"])
         (use load_call calls(2) [OF p] p sf in \<open>auto simp: load_call_def split: option.splits\<close>)
  next
    case (load_reprobe i k g)
    obtain hit r where p: "probe_hit (router_of s) k = (hit, r)" by fastforce
    have "k \<notin> set (cs_fills s)" if "hit = None" using calls(2) [OF p] that f by auto
    then show ?thesis
      by (intro filled_inv_move [OF assms(3), where i = i and pc = "case hit of Some v \<Rightarrow> Pc_Leave (Loaded (Ok v)) | None \<Rightarrow> Pc_Load k"])
         (use load_reprobe calls(2) [OF p] p in \<open>auto simp: load_reprobe_def split: option.splits\<close>)
  next
    case (load_answer i k res)
    then show ?thesis
      using pc [of i] by (intro filled_inv_move [OF assms(3), where i = i and pc = "Pc_Fill k res"]) auto
  next
    case (load_fill i k res g)
    then show ?thesis using filled_inv_fill [OF assms(2,3)] by simp
  next
    case (load_fill_ungated i k res)
    then show ?thesis using sf by simp
  next
    case (dropped i)
    then show ?thesis
      by (intro filled_inv_move [OF assms(3), where i = i and pc = "if \<exists>k g. sf_tasks (gates_of s) ! i = Sf_Holding k g then Pc_Leave Dropped else Pc_Idle"])
        (auto simp: drop_future_def split: sf_phase.split if_splits)
  next
    case (left i a)
    then show ?thesis by (intro filled_inv_move [OF assms(3), where i = i and pc = "Pc_Done a"]) auto
  next
    case (return i a)
    then show ?thesis by (intro filled_inv_move [OF assms(3), where i = i and pc = Pc_Idle]) auto
  next
    case (other r')
    then show ?thesis using calls(5) by (intro filled_inv_same [OF assms(3)]) auto
  qed (auto intro!: filled_inv_same [OF assms(3)])
qed


lemma filled_reachable:
  assumes "cache_reachable cache_other n b s" "cb_single_flight b" "lasting_router inv absorbs (cb_router b)"
  shows "filled_inv inv absorbs con s"
  using assms(1)
proof (induction rule: cache_reachable.induct)
  case (start c)
  then show ?case
    using assms(3)
    by (auto simp: cache_build_def builder_build_def cache_start_def filled_inv_def split: if_splits)
next
  case (step s s')
  then show ?case using filled_inv_step cache_reachable_inv [OF step.hyps(1) assms(2)] by blast
qed

end

section \<open>A run\<close>

text \<open>Two tasks ask an empty one-tier cache for the same key; the first one loads and fills.\<close>

definition unbounded_cache :: "((string, nat) memory_tier, string, nat, string) cache_builder" where
  "unbounded_cache = cache_builder_tier never_box memory_ops memory_unbounded cache_builder_new"


definition fresh_cache :: "((string, nat) memory_tier, string, nat, string) tiered_cache" where
  "fresh_cache = the (cache_build 2 unbounded_cache)"

definition one_slot :: "counters \<Rightarrow> ((string, nat) memory_tier, string, nat, string) router" where
  "one_slot c =
     \<lparr>rt_tiers = [\<lparr>slot_ops = memory_ops, slot_state = memory_unbounded, writable = True, slot_counters = c\<rparr>],
      rt_policy = cache_default_policy\<rparr>"

lemma unbounded_cache_simps:
  "cb_router unbounded_cache = one_slot counters_default" "cb_single_flight unbounded_cache"
  by (simp_all add: unbounded_cache_def cache_builder_tier_def cache_builder_new_def builder_tier_def
      builder_policy_def builder_new_def adapter_memory one_slot_def)

lemma fresh_cache: "cache_build 2 unbounded_cache = Some fresh_cache"
  "tc_router fresh_cache = one_slot counters_default" "tc_gates fresh_cache = sf_new 2"
  "tc_single_flight fresh_cache"
  by (simp_all add: fresh_cache_def cache_build_def builder_build_def unbounded_cache_simps)
     (simp_all add: one_slot_def)

lemma unbounded_lasting: "lasting_router memory_inv memory_absorbs (cb_router unbounded_cache)"
  by (simp add: unbounded_cache_simps one_slot_def lasting_router_def kept_def slots_inv_def
      absorbing_slot_def memory_absorbs_def memory_unbounded_def cache_default_policy_def)
     (simp add: memory_inv_def mem_inv_empty)

lemma get_unbounded: "memory_get memory_unbounded k = (Ok None, memory_unbounded)"
  by (simp add: memory_get_def memory_unbounded_def mem_fetch_def mem_touch_def mem_empty_def Let_def set_inner_def)

lemma probe_one_slot: "probe_hit (one_slot c) k = (None, one_slot (counter_add Misses 1 c))"
  by (simp add: probe_hit_def router_get_eq get_reference_def one_slot_def upt_rec call_def Let_def
      get_unbounded bump_def)

definition run_called :: "((string, nat) memory_tier, string, nat, string, string) cache_sys" where
  "run_called = load_call 1 ''a'' (load_call 0 ''a'' (cache_start 2 fresh_cache))"

definition run_loading :: "((string, nat) memory_tier, string, nat, string, string) cache_sys" where
  "run_loading =
     load_reprobe 0 ''a'' 0 (set_gates (sf_poll 0 ''a'' 0 (gates_of run_called)) run_called)"

definition run_filled :: "((string, nat) memory_tier, string, nat, string, string) cache_sys" where
  "run_filled = load_fill 0 ''a'' 0 (Ok 5) (set_pc 0 (Pc_Fill ''a'' (Ok 5)) run_loading)"

lemma run_called_simps:
  "cs_pcs run_called = [Pc_Wait ''a'', Pc_Wait ''a'']" "cs_fills run_called = []"
  "sf_tasks (gates_of run_called) = [Sf_Acquiring ''a'' 0, Sf_Acquiring ''a'' 0]"
  "\<not> g_held (sf_gates (gates_of run_called) 0)" "0 \<in> sf_woken (gates_of run_called)"
  "router_of run_called = one_slot (counter_add Misses 1 (counter_add Misses 1 counters_default))"
  by (simp_all add: run_called_def load_call_def cache_start_def fresh_cache probe_one_slot sf_new_def
      sf_acquire_def numeral_2_eq_2)

lemma run_loading_simps:
  "cs_pcs run_loading = [Pc_Load ''a'', Pc_Wait ''a'']" "cs_fills run_loading = []"
  "sf_tasks (gates_of run_loading) = [Sf_Holding ''a'' 0, Sf_Acquiring ''a'' 0]"
  "tc_single_flight (cs_cache run_loading)"
  by (simp_all add: run_loading_def load_reprobe_def run_called_simps probe_one_slot)
     (simp add: run_called_def load_call_def probe_one_slot cache_start_def fresh_cache)

lemma run_filled_simps: "cs_fills run_filled = [''a'']"
  by (simp add: run_filled_def load_fill_def store_loaded_def run_loading_simps)

lemma run_reachable:
  "cache_reachable oth 2 unbounded_cache run_loading" "cache_reachable oth 2 unbounded_cache run_filled"
proof -
  note st = cache_reachable.step
  have "cache_reachable oth 2 unbounded_cache (load_call 0 ''a'' (cache_start 2 fresh_cache))"
    by (rule st [OF cache_reachable.start [OF fresh_cache(1)] cache_step.load_call]) (simp_all add: cache_start_def)
  then have "cache_reachable oth 2 unbounded_cache run_called"
    unfolding run_called_def
    by (rule st [OF _ cache_step.load_call])
      (simp_all add: cache_start_def load_call_def fresh_cache probe_one_slot numeral_2_eq_2)
  then have "cache_reachable oth 2 unbounded_cache
      (set_gates (sf_poll 0 ''a'' 0 (gates_of run_called)) run_called)"
    by (rule st [OF _ cache_step.gate [OF sf_inner.poll]]) (simp_all add: run_called_simps)
  then show loading: "cache_reachable oth 2 unbounded_cache run_loading"
    unfolding run_loading_def
    by (rule st [OF _ cache_step.load_reprobe]) (simp_all add: run_called_simps)
  have "cache_reachable oth 2 unbounded_cache (set_pc 0 (Pc_Fill ''a'' (Ok 5)) run_loading)"
    by (rule st [OF loading cache_step.load_answer]) (simp_all add: run_loading_simps)
  then show "cache_reachable oth 2 unbounded_cache run_filled"
    unfolding run_filled_def
    by (rule st [OF _ cache_step.load_fill]) (simp_all add: run_loading_simps)
qed

section \<open>Properties\<close>

text \<open>
  No stampede: with single-flight enabled, in every state that concurrent calls of \<open>lookup\<close> and
  \<open>get_or_load\<close> reach, whatever the tiers answer, the loaders return, callers drop and other calls do
  to the router meanwhile, at most one task runs the loader of a key (or stores its result).
\<close>

theorem cache_single_load:
  assumes "cache_reachable oth n b s" "cb_single_flight b"
  shows "length (filter (loads_key k) (cs_pcs s)) \<le> 1"
  by (rule one_load_per_key [OF cache_reachable_inv [OF assms]])

theorem cache_single_load_witness:
  "cs_pcs run_loading = [Pc_Load ''a'', Pc_Wait ''a''] \<and>
   length (filter (loads_key ''a'') (cs_pcs run_loading)) \<le> 1"
  using cache_single_load [OF run_reachable(1) unbounded_cache_simps(2), of "''a''"] run_loading_simps(1)
  by simp

text \<open>
  C13. Followers reuse the leader's fill: over reliable writable tiers whose bottom absorbs every put,
  with write-through and demotion (any promotion), as long as nobody invalidates, concurrent calls
  of \<open>get_or_load\<close> store a loaded value for each key at most once, whatever the interleaving with
  lookups, puts, batched reads, existence checks and dropped calls, and what they stored stays served.
\<close>

theorem cache_fills_once:
  assumes "lasting_tiers ivt con ab" "lasting_router ivt ab (cb_router b)" "cb_single_flight b"
    and "cache_reachable cache_other n b s"
  shows "distinct (cs_fills s) \<and> set (cs_fills s) \<subseteq> dom (view con (rt_tiers (router_of s)))"
  using lasting_tiers.filled_reachable [OF assms(1,4,3,2)] by (simp add: filled_inv_def)

theorem cache_fills_once_witness:
  "cs_fills run_filled = [''a''] \<and>
   ''a'' \<in> dom (view (\<lambda>_. memory_con) (rt_tiers (router_of run_filled)))"
  using cache_fills_once [OF memory.lasting_tiers_axioms unbounded_lasting unbounded_cache_simps(2)
      run_reachable(2)] run_filled_simps by simp

end
