(* ===== verification/Hex_Names.thy ===== *)
theory Hex_Names
  imports Tier_Prelude
begin

text \<open>
  The file names of \<open>tierstore/src/disk.rs\<close>: a key is a Rust \<open>String\<close>, here the list of its UTF-8
  bytes as characters; its bytes are written as two lower-case hexadecimal digits each. Decoding
  is what \<open>u8::from_str_radix\<close> accepts on two bytes: digits of either case, or a plus sign and one
  digit.
\<close>

type_synonym u8 = "8 word"

section \<open>Strings and bytes\<close>

definition as_bytes :: "string \<Rightarrow> u8 list" where
  "as_bytes s = map (\<lambda>c. word_of_nat (of_char c)) s"

definition bytes_string :: "u8 list \<Rightarrow> string" where
  "bytes_string bs = map (\<lambda>b. char_of (unat b)) bs"

lemma bytes_string_as_bytes [simp]: "bytes_string (as_bytes s) = s"
  by (simp add: bytes_string_def as_bytes_def comp_def unat_of_nat take_bit_eq_mod)

lemma as_bytes_bytes_string [simp]: "as_bytes (bytes_string bs) = bs"
proof -
  have "unat (b :: u8) mod 256 = unat b" for b using unsigned_less [of b, where 'a = nat] by simp
  then show ?thesis by (simp add: bytes_string_def as_bytes_def comp_def)
qed

lemma as_bytes_inj: "as_bytes s = as_bytes t \<Longrightarrow> s = t"
  by (metis bytes_string_as_bytes)

lemma as_bytes_Nil [simp]: "as_bytes s = [] \<longleftrightarrow> s = []"
  by (simp add: as_bytes_def)

text \<open>Well-formed UTF-8, after the table of the Unicode standard.\<close>

definition between :: "nat \<Rightarrow> nat \<Rightarrow> u8 \<Rightarrow> bool" where
  "between a b x \<longleftrightarrow> a \<le> unat x \<and> unat x \<le> b"

abbreviation cont :: "u8 \<Rightarrow> bool" where
  "cont \<equiv> between 128 191"

fun utf8_valid :: "u8 list \<Rightarrow> bool" where
  "utf8_valid [] = True"
| "utf8_valid (a # bs) =
     (if between 0 127 a then utf8_valid bs
      else
        (case bs of
           b # cs \<Rightarrow>
             if between 194 223 a then cont b \<and> utf8_valid cs
             else
               (case cs of
                  c # ds \<Rightarrow>
                    if between 224 239 a
                    then between (if unat a = 224 then 160 else 128) (if unat a = 237 then 159 else 191) b \<and>
                      cont c \<and> utf8_valid ds
                    else
                      (case ds of
                         d # es \<Rightarrow>
                           between 240 244 a \<and>
                           between (if unat a = 240 then 144 else 128) (if unat a = 244 then 143 else 191) b \<and>
                           cont c \<and> cont d \<and> utf8_valid es
                       | [] \<Rightarrow> False)
                | [] \<Rightarrow> False)
         | [] \<Rightarrow> False))"

definition from_utf8 :: "u8 list \<Rightarrow> string option" where
  "from_utf8 bs = (if utf8_valid bs then Some (bytes_string bs) else None)"

section \<open>Hexadecimal names\<close>

definition hex_digit :: "nat \<Rightarrow> char" where
  "hex_digit n = ''0123456789abcdef'' ! n"

definition hex_encode :: "u8 list \<Rightarrow> string" where
  "hex_encode bs = fold (\<lambda>b out. out @ [hex_digit (unat b div 16), hex_digit (unat b mod 16)]) bs []"

text \<open>\<open>char::to_digit(16)\<close>.\<close>

definition to_digit :: "char \<Rightarrow> nat option" where
  "to_digit c =
     (let n = of_char c :: nat in
      if 48 \<le> n \<and> n \<le> 57 then Some (n - 48)
      else if 97 \<le> n \<and> n \<le> 102 then Some (n - 87)
      else if 65 \<le> n \<and> n \<le> 70 then Some (n - 55)
      else None)"

text \<open>\<open>u8::from_str_radix\<close> on a string of two bytes; with two digits it cannot overflow.\<close>

definition radix16 :: "char \<Rightarrow> char \<Rightarrow> u8 option" where
  "radix16 a b =
     (if a = CHR ''+'' then map_option word_of_nat (to_digit b)
      else
        (case (to_digit a, to_digit b) of
           (Some x, Some y) \<Rightarrow> Some (word_of_nat (16 * x + y))
         | _ \<Rightarrow> None))"

fun hex_pairs :: "string \<Rightarrow> u8 list option" where
  "hex_pairs (a # b # cs) =
     (case radix16 a b of
        None \<Rightarrow> None
      | Some x \<Rightarrow> (case hex_pairs cs of None \<Rightarrow> None | Some xs \<Rightarrow> Some (x # xs)))"
| "hex_pairs _ = Some []"

definition hex_decode :: "string \<Rightarrow> u8 list option" where
  "hex_decode name = (if odd (length name) then None else hex_pairs name)"

lemma fold_append: "fold (\<lambda>b out. out @ f b) bs acc = acc @ concat (map f bs)"
  by (induction bs arbitrary: acc) simp_all

lemma hex_encode_Nil [simp]: "hex_encode [] = []"
  by (simp add: hex_encode_def)

lemma hex_encode_Cons:
  "hex_encode (b # bs) = hex_digit (unat b div 16) # hex_digit (unat b mod 16) # hex_encode bs"
  by (simp add: hex_encode_def fold_append)

lemma less_16: "(n :: nat) < 16 \<longleftrightarrow> n \<in> {0, 1, 2, 3, 4, 5, 6, 7, 8, 9, 10, 11, 12, 13, 14, 15}"
  unfolding insert_iff empty_iff by presburger

lemma hex_digit_to_digit: "n < 16 \<Longrightarrow> to_digit (hex_digit n) = Some n \<and> hex_digit n \<noteq> CHR ''+'' \<and> hex_digit n \<noteq> CHR ''.''"
  unfolding less_16 by (auto simp: hex_digit_def to_digit_def)

lemma nibbles: "unat (b :: u8) div 16 < 16" "unat b mod 16 < 16"
  using unsigned_less [of b, where 'a = nat] by (simp_all add: less_mult_imp_div_less)

lemma radix16_digits: "radix16 (hex_digit (unat b div 16)) (hex_digit (unat b mod 16)) = Some (b :: u8)"
  using hex_digit_to_digit [OF nibbles(1) [of b]] hex_digit_to_digit [OF nibbles(2) [of b]]
  by (simp add: radix16_def)

lemma even_hex_encode [simp]: "even (length (hex_encode bs))"
  by (induction bs) (simp_all add: hex_encode_Cons)

lemma hex_pairs_encode: "hex_pairs (hex_encode bs) = Some bs"
  by (induction bs) (simp_all add: hex_encode_Cons radix16_digits)

lemma hex_decode_encode: "hex_decode (hex_encode bs) = Some bs"
  by (simp add: hex_decode_def hex_pairs_encode)

lemma hex_encode_inj: "hex_encode as = hex_encode bs \<Longrightarrow> as = bs"
  by (metis hex_decode_encode option.inject)

lemma hex_encode_no_dot: "CHR ''.'' \<notin> set (hex_encode bs)"
proof (induction bs)
  case (Cons b bs)
  then show ?case
    using hex_digit_to_digit [OF nibbles(1) [of b]] hex_digit_to_digit [OF nibbles(2) [of b]]
    by (auto simp: hex_encode_Cons eq_commute [of "CHR ''.''"])
qed simp

lemma hex_pairs_dot: "even (length xs) \<Longrightarrow> hex_pairs (xs @ CHR ''.'' # c # ys) = None"
proof (induction xs rule: hex_pairs.induct)
  case (1 a b cs)
  then show ?case by (simp split: option.split)
qed (simp_all add: radix16_def to_digit_def)

end
