(* ===== verification/Disk_Tier.thy ===== *)
theory Disk_Tier
  imports Hex_Names Router_Keeps "HOL-Library.List_Lexorder" "HOL-Library.Char_ord"
begin

text \<open>
  \<open>tierstore/src/disk.rs\<close>: one file per key under a root directory. The file system is the state: the
  files of the root by name, and the files beside the root, which the temporary file of one
  particular key reaches. Every system call may fail: the state carries the schedule of faults of
  the calls to come, and a faulty write may leave any prefix of its data behind. A fault is never
  \<open>NotFound\<close>: that kind is for paths that do not exist.
\<close>

section \<open>The file system\<close>

datatype io_error = Not_Found | Invalid_Input | Unexpected_Eof | Directory_Error | Fault string

text \<open>A faulty call: its message, and for a write how many bytes it got through, if it got that far.\<close>

record io_fault =
  fault_message :: string
  fault_written :: "nat option"

datatype location = In_Root string | Beside string

record disk =
  dk_stem :: "string option"
  dk_files :: "(string, u8 list) fmap"
  dk_beside :: "(string, u8 list) fmap"
  dk_faults :: "io_fault option list"

definition next_fault :: "disk \<Rightarrow> io_fault option \<times> disk" where
  "next_fault d =
     (case dk_faults d of
        [] \<Rightarrow> (None, d)
      | f # fs \<Rightarrow> (f, d\<lparr>dk_faults := fs\<rparr>))"

text \<open>A system call: \<open>bad\<close> is its effect when it is faulty.\<close>

definition syscall ::
  "(io_fault \<Rightarrow> disk \<Rightarrow> disk) \<Rightarrow> (disk \<Rightarrow> ('a, io_error) result \<times> disk) \<Rightarrow> disk \<Rightarrow> ('a, io_error) result \<times> disk"
where
  "syscall bad f d =
     (case next_fault d of
        (Some x, d1) \<Rightarrow> (Err (Fault (fault_message x)), bad x d1)
      | (None, d1) \<Rightarrow> f d1)"

text \<open>The empty name is the root itself, a directory.\<close>

definition fs_read :: "string \<Rightarrow> disk \<Rightarrow> (u8 list, io_error) result \<times> disk" where
  "fs_read name =
     syscall (\<lambda>_ d. d) (\<lambda>d.
       (if name = [] then Err Directory_Error
        else (case fmlookup (dk_files d) name of Some bs \<Rightarrow> Ok bs | None \<Rightarrow> Err Not_Found), d))"

definition fs_try_exists :: "string \<Rightarrow> disk \<Rightarrow> (bool, io_error) result \<times> disk" where
  "fs_try_exists name =
     syscall (\<lambda>_ d. d) (\<lambda>d. (Ok (name = [] \<or> fmlookup (dk_files d) name \<noteq> None), d))"

fun set_file :: "location \<Rightarrow> u8 list \<Rightarrow> disk \<Rightarrow> disk" where
  "set_file (In_Root n) bs d = d\<lparr>dk_files := fmupd n bs (dk_files d)\<rparr>"
| "set_file (Beside n) bs d = d\<lparr>dk_beside := fmupd n bs (dk_beside d)\<rparr>"

fun remove_at :: "location \<Rightarrow> disk \<Rightarrow> disk" where
  "remove_at (In_Root n) d = d\<lparr>dk_files := fmdrop n (dk_files d)\<rparr>"
| "remove_at (Beside n) d = d\<lparr>dk_beside := fmdrop n (dk_beside d)\<rparr>"

fun file_at :: "location \<Rightarrow> disk \<Rightarrow> u8 list option" where
  "file_at (In_Root n) d = fmlookup (dk_files d) n"
| "file_at (Beside n) d = fmlookup (dk_beside d) n"

definition fs_write :: "location \<Rightarrow> u8 list \<Rightarrow> disk \<Rightarrow> (unit, io_error) result \<times> disk" where
  "fs_write l bs =
     syscall
       (\<lambda>x d. if l = In_Root [] then d
              else (case fault_written x of None \<Rightarrow> d | Some n \<Rightarrow> set_file l (take n bs) d))
       (\<lambda>d. if l = In_Root [] then (Err Directory_Error, d) else (Ok (), set_file l bs d))"

definition fs_rename :: "location \<Rightarrow> string \<Rightarrow> disk \<Rightarrow> (unit, io_error) result \<times> disk" where
  "fs_rename src dst =
     syscall (\<lambda>_ d. d) (\<lambda>d.
       case file_at src d of
         None \<Rightarrow> (Err Not_Found, d)
       | Some bs \<Rightarrow>
           if dst = [] then (Err Directory_Error, d)
           else (Ok (), set_file (In_Root dst) bs (remove_at src d)))"

definition fs_remove_file :: "string \<Rightarrow> disk \<Rightarrow> (unit, io_error) result \<times> disk" where
  "fs_remove_file name =
     syscall (\<lambda>_ d. d) (\<lambda>d.
       if name = [] then (Err Directory_Error, d)
       else (case fmlookup (dk_files d) name of
               None \<Rightarrow> (Err Not_Found, d)
             | Some _ \<Rightarrow> (Ok (), remove_at (In_Root name) d)))"

text \<open>An open file; a directory can be opened, but not read.\<close>

datatype handle = File_Handle "u8 list" | Dir_Handle

definition fs_open :: "string \<Rightarrow> disk \<Rightarrow> (handle, io_error) result \<times> disk" where
  "fs_open name =
     syscall (\<lambda>_ d. d) (\<lambda>d.
       (if name = [] then Ok Dir_Handle
        else (case fmlookup (dk_files d) name of Some bs \<Rightarrow> Ok (File_Handle bs) | None \<Rightarrow> Err Not_Found), d))"

text \<open>Seeking takes a signed 64-bit offset.\<close>

definition fs_seek :: "nat \<Rightarrow> disk \<Rightarrow> (unit, io_error) result \<times> disk" where
  "fs_seek off =
     syscall (\<lambda>_ d. d) (\<lambda>d. (if off < 2 ^ 63 then Ok () else Err Invalid_Input, d))"

text \<open>\<open>read_exact\<close> at an offset; for an empty buffer it makes no call.\<close>

definition fs_read_exact :: "handle \<Rightarrow> nat \<Rightarrow> nat \<Rightarrow> disk \<Rightarrow> (u8 list, io_error) result \<times> disk" where
  "fs_read_exact h off len d =
     (if len = 0 then (Ok [], d)
      else syscall (\<lambda>_ d. d) (\<lambda>d.
        (case h of
           Dir_Handle \<Rightarrow> Err Directory_Error
         | File_Handle bs \<Rightarrow>
             if off + len \<le> length bs then Ok (take len (drop off bs)) else Err Unexpected_Eof, d)) d)"

section \<open>Operations\<close>

text \<open>
  \<open>open\<close> creates the root; \<open>stem\<close> is the root's file name without extension, \<open>None\<close> if it has no file
  name or the extension \<open>tmp\<close> already, so that replacing its extension gives the root again.
\<close>

definition disk_open :: "string option \<Rightarrow> (string, u8 list) fmap \<Rightarrow> (string, u8 list) fmap \<Rightarrow>
    io_fault option list \<Rightarrow> (disk, io_error) result" where
  "disk_open stem files beside faults =
     (let d = \<lparr>dk_stem = stem, dk_files = files, dk_beside = beside, dk_faults = faults\<rparr>
      in case next_fault d of
           (Some x, _) \<Rightarrow> Err (Fault (fault_message x))
         | (None, d1) \<Rightarrow> Ok d1)"

definition path_for :: "string \<Rightarrow> string" where
  "path_for key = hex_encode (as_bytes key)"

definition disk_get :: "disk \<Rightarrow> string \<Rightarrow> (u8 list option, io_error) result \<times> disk" where
  "disk_get d k =
     (case fs_read (path_for k) d of
        (Ok bs, d1) \<Rightarrow> (Ok (Some bs), d1)
      | (Err e, d1) \<Rightarrow> (if e = Not_Found then Ok None else Err e, d1))"

definition disk_exists :: "disk \<Rightarrow> string \<Rightarrow> (bool, io_error) result \<times> disk" where
  "disk_exists d k = fs_try_exists (path_for k) d"

text \<open>
  A ranged read, \<open>None\<close> where the allocation of the buffer panics. On a 64-bit target the
  conversion of the length to \<open>usize\<close> succeeds.
\<close>

definition disk_read_range ::
  "disk \<Rightarrow> string \<Rightarrow> u64 \<Rightarrow> u64 \<Rightarrow> ((u8 list option, io_error) result \<times> disk) option" where
  "disk_read_range d k start fin =
     (if start > fin then Some (Err Invalid_Input, d)
      else
        (case fs_open (path_for k) d of
           (Err e, d1) \<Rightarrow> Some (if e = Not_Found then Ok None else Err e, d1)
         | (Ok h, d1) \<Rightarrow>
             (let len = unat (fin - start) in
              case fs_seek (unat start) d1 of
                (Err e, d2) \<Rightarrow> Some (Err e, d2)
              | (Ok _, d2) \<Rightarrow>
                  if len \<ge> 2 ^ 63 then None
                  else Some (apfst (map_sum id Some) (fs_read_exact h (unat start) len d2)))))"

text \<open>
  \<open>with_extension("tmp")\<close>: a hexadecimal name gets the extension, the path of the root itself (the
  empty name) has its own extension replaced, and a root without a file name is left alone.
\<close>

definition tmp_for :: "disk \<Rightarrow> string \<Rightarrow> location" where
  "tmp_for d name =
     (if name \<noteq> [] then In_Root (name @ ''.tmp'')
      else (case dk_stem d of None \<Rightarrow> In_Root [] | Some stem \<Rightarrow> Beside (stem @ ''.tmp'')))"

definition disk_put :: "disk \<Rightarrow> string \<Rightarrow> u8 list \<Rightarrow> (('j, u8 list) displaced, io_error) result \<times> disk" where
  "disk_put d k v =
     (let path = path_for k; tmp = tmp_for d path in
      case fs_write tmp v d of
        (Err e, d1) \<Rightarrow> (Err e, d1)
      | (Ok _, d1) \<Rightarrow>
          (case fs_rename tmp path d1 of
             (Err e, d2) \<Rightarrow> (Err e, d2)
           | (Ok _, d2) \<Rightarrow> (Ok [], d2)))"

definition disk_delete :: "disk \<Rightarrow> string \<Rightarrow> (bool, io_error) result \<times> disk" where
  "disk_delete d k =
     (case fs_remove_file (path_for k) d of
        (Ok _, d1) \<Rightarrow> (Ok True, d1)
      | (Err e, d1) \<Rightarrow> (if e = Not_Found then Ok False else Err e, d1))"

text \<open>The listing: \<open>dir\<close> is the order in which the directory yields its entries.\<close>

definition listed_key :: "string \<Rightarrow> string option" where
  "listed_key name =
     (if \<not> utf8_valid (as_bytes name) then None
      else (case hex_decode name of None \<Rightarrow> None | Some bs \<Rightarrow> from_utf8 bs))"

fun list_entries :: "string list \<Rightarrow> string list \<Rightarrow> disk \<Rightarrow> (string list, io_error) result \<times> disk" where
  "list_entries [] all d = (Ok all, d)"
| "list_entries (name # dir) all d =
     (case syscall (\<lambda>_ d. d) (\<lambda>d. (Ok name, d)) d of
        (Err e, d1) \<Rightarrow> (Err e, d1)
      | (Ok n, d1) \<Rightarrow>
          (case listed_key n of
             None \<Rightarrow> list_entries dir all d1
           | Some k \<Rightarrow> list_entries dir (all @ [k]) d1))"

definition disk_list ::
  "string list \<Rightarrow> disk \<Rightarrow> nat option \<Rightarrow> nat \<Rightarrow> ((string, nat) page, io_error) result \<times> disk" where
  "disk_list dir d cursor limit =
     (case syscall (\<lambda>_ d. d) (\<lambda>d. (Ok (), d)) d of
        (Err e, d1) \<Rightarrow> (Err e, d1)
      | (Ok _, d1) \<Rightarrow>
          (case list_entries dir [] d1 of
             (Err e, d2) \<Rightarrow> (Err e, d2)
           | (Ok all, d2) \<Rightarrow> (Ok (page_of (sort all) cursor limit), d2)))"


section \<open>What a disk holds\<close>

definition disk_contents :: "disk \<Rightarrow> (string \<rightharpoonup> u8 list)" where
  "disk_contents d k = fmlookup (dk_files d) (path_for k)"

lemma path_for_inj [simp]: "path_for j = path_for k \<longleftrightarrow> j = k"
  by (auto simp: path_for_def dest: hex_encode_inj as_bytes_inj)

lemma path_for_Nil [simp]: "path_for k = [] \<longleftrightarrow> k = []"
proof
  assume "path_for k = []"
  then have "as_bytes k = []" unfolding path_for_def by (cases "as_bytes k") (simp_all add: hex_encode_Cons)
  then show "k = []" by simp
qed (simp add: path_for_def as_bytes_def)

lemma path_for_tmp [simp]: "path_for j \<noteq> path_for k @ ''.tmp''" "path_for k @ ''.tmp'' \<noteq> path_for j"
proof -
  have "CHR ''.'' \<notin> set (path_for j)" by (simp add: path_for_def hex_encode_no_dot)
  then show "path_for j \<noteq> path_for k @ ''.tmp''" by auto
  then show "path_for k @ ''.tmp'' \<noteq> path_for j" by metis
qed

definition head_fault :: "disk \<Rightarrow> io_fault option" where
  "head_fault d = (case dk_faults d of [] \<Rightarrow> None | f # _ \<Rightarrow> f)"

lemma syscall_eq:
  "syscall bad f d =
     (case head_fault d of
        Some x \<Rightarrow> (Err (Fault (fault_message x)), bad x (d\<lparr>dk_faults := tl (dk_faults d)\<rparr>))
      | None \<Rightarrow> f (d\<lparr>dk_faults := tl (dk_faults d)\<rparr>))"
  by (cases d) (auto simp: syscall_def next_fault_def head_fault_def split: list.split option.split)

text \<open>Reads: the state keeps its files, and the answer is exact unless a call was faulty.\<close>

lemma fs_reads:
  "dk_files (snd (fs_read n d)) = dk_files d"
  "fst (fs_read n d) = Ok bs \<Longrightarrow> fmlookup (dk_files d) n = Some bs"
  "fst (fs_read n d) = Err Not_Found \<Longrightarrow> fmlookup (dk_files d) n = None"
  "dk_files (snd (fs_try_exists n d)) = dk_files d"
  "fst (fs_try_exists n d) = Ok b \<Longrightarrow> b \<longleftrightarrow> n = [] \<or> fmlookup (dk_files d) n \<noteq> None"
  by (auto simp: fs_read_def fs_try_exists_def syscall_eq split: if_splits option.splits)

lemma disk_get_spec:
  "disk_contents (snd (disk_get d k)) = disk_contents d"
  "fst (disk_get d k) = Ok x \<Longrightarrow> x = disk_contents d k"
  using fs_reads(1-3) [of "path_for k" d]
  by (auto simp: disk_get_def disk_contents_def split: prod.splits sum.splits if_splits)

lemma disk_exists_spec:
  "disk_contents (snd (disk_exists d k)) = disk_contents d"
  "k \<noteq> [] \<Longrightarrow> fst (disk_exists d k) = Ok b \<Longrightarrow> b \<longleftrightarrow> disk_contents d k \<noteq> None"
  using fs_reads(4,5) [of "path_for k" d] by (auto simp: disk_exists_def disk_contents_def)

lemma fs_remove_spec:
  "fst (fs_remove_file n d) = Ok u \<Longrightarrow>
     n \<noteq> [] \<and> fmlookup (dk_files d) n \<noteq> None \<and> dk_files (snd (fs_remove_file n d)) = fmdrop n (dk_files d)"
  "fst (fs_remove_file n d) = Err e \<Longrightarrow> dk_files (snd (fs_remove_file n d)) = dk_files d"
  "fst (fs_remove_file n d) = Err Not_Found \<Longrightarrow> fmlookup (dk_files d) n = None"
  by (auto simp: fs_remove_file_def syscall_eq split: if_splits option.splits)

lemma disk_delete_spec:
  "fst (disk_delete d k) = Ok b \<Longrightarrow>
     disk_contents (snd (disk_delete d k)) = (disk_contents d)(k := None) \<and> (b \<longleftrightarrow> disk_contents d k \<noteq> None)"
  "fst (disk_delete d k) = Err e \<Longrightarrow> disk_contents (snd (disk_delete d k)) = disk_contents d"
  using fs_remove_spec [of "path_for k" d]
  by (auto simp: disk_delete_def disk_contents_def fun_eq_iff split: prod.splits sum.splits if_splits)

text \<open>Writing the temporary file, whether or not it succeeds, touches no entry.\<close>

lemma fs_write_tmp:
  assumes "fs_write (tmp_for d (path_for k)) v d = (r, d')"
  shows "disk_contents d' = disk_contents d \<and> dk_stem d' = dk_stem d \<and>
    (r = Ok () \<longrightarrow> file_at (tmp_for d (path_for k)) d' = Some v)"
  using assms
  by (auto simp: fs_write_def syscall_eq tmp_for_def disk_contents_def fun_eq_iff split: if_splits option.splits)

lemma fs_rename_tmp:
  assumes "fs_rename (tmp_for d (path_for k)) (path_for k) d1 = (r, d')"
    and "file_at (tmp_for d (path_for k)) d1 = Some v"
  shows "disk_contents d' = (if r = Ok () then (disk_contents d1)(k \<mapsto> v) else disk_contents d1)"
  using assms
  by (auto simp: fs_rename_def syscall_eq tmp_for_def disk_contents_def fun_eq_iff split: if_splits option.splits)

lemma disk_put_spec:
  "case disk_put d k v of
     (Ok ds, d') \<Rightarrow> ds = [] \<and> disk_contents d' = (disk_contents d)(k \<mapsto> v)
   | (Err e, d') \<Rightarrow> disk_contents d' = disk_contents d"
proof -
  let ?tmp = "tmp_for d (path_for k)"
  obtain r1 d1 where w: "fs_write ?tmp v d = (r1, d1)" by fastforce
  obtain r2 d2 where n: "fs_rename ?tmp (path_for k) d1 = (r2, d2)" by fastforce
  note c = fs_write_tmp [OF w]
  show ?thesis
    using c fs_rename_tmp [OF n] w n by (cases r1; cases r2) (simp_all add: disk_put_def Let_def)
qed

section \<open>The contract\<close>

text \<open>The keys of a disk tier that have a file: all but the empty one.\<close>

typedef file_key = "{k :: string. k \<noteq> []}"
  morphisms key_of file_key
  by (rule exI [of _ "''k''"]) simp

lemma key_of_nonempty [simp]: "key_of k \<noteq> []"
  using key_of [of k] by simp

text \<open>The trait methods; \<open>enc\<close> gives the string of a key of the model.\<close>

definition disk_ops_on :: "('k \<Rightarrow> string) \<Rightarrow> (disk, 'k, u8 list, io_error) tier_ops" where
  "disk_ops_on enc =
     \<lparr>t_name = (\<lambda>_. ''disk''),
      t_get = (\<lambda>d k. disk_get d (enc k)),
      t_exists = (\<lambda>d k. disk_exists d (enc k)),
      t_get_many = get_many_default (\<lambda>d k. disk_get d (enc k)),
      t_put = (\<lambda>d k v. disk_put d (enc k) v),
      t_delete = (\<lambda>d k. disk_delete d (enc k)),
      t_put_many = put_many_default (\<lambda>d k v. disk_put d (enc k) v),
      t_delete_many = delete_many_default (\<lambda>d k. disk_delete d (enc k))\<rparr>"

definition disk_ops :: "(disk, file_key, u8 list, io_error) tier_ops" where
  "disk_ops = disk_ops_on key_of"

lemma disk_ops_simps [simp]:
  "t_get disk_ops = (\<lambda>d k. disk_get d (key_of k))"
  "t_exists disk_ops = (\<lambda>d k. disk_exists d (key_of k))"
  "t_get_many disk_ops = get_many_default (\<lambda>d k. disk_get d (key_of k))"
  "t_put disk_ops = (\<lambda>d k v. disk_put d (key_of k) v)"
  "t_delete disk_ops = (\<lambda>d k. disk_delete d (key_of k))"
  "t_put_many disk_ops = put_many_default (\<lambda>d k v. disk_put d (key_of k) v)"
  "t_delete_many disk_ops = delete_many_default (\<lambda>d k. disk_delete d (key_of k))"
  by (simp_all add: disk_ops_def disk_ops_on_def)

definition disk_inv :: "(disk, file_key, u8 list, io_error) tier_ops \<Rightarrow> disk \<Rightarrow> bool" where
  "disk_inv ops d \<longleftrightarrow> ops = disk_ops"

definition disk_con :: "disk \<Rightarrow> (file_key \<rightharpoonup> u8 list)" where
  "disk_con d k = disk_contents d (key_of k)"

lemma disk_con_upd: "m = (disk_contents d)(key_of k := x) \<Longrightarrow> (\<lambda>j. m (key_of j)) = (disk_con d)(k := x)"
  by (auto simp: disk_con_def fun_eq_iff key_of_inject)

interpretation disk: default_batch disk_inv "\<lambda>_. disk_con"
proof
  fix t and d :: disk and k v
  assume t: "disk_inv t d"
  show "disk_con (snd (t_get t d k)) = disk_con d" "disk_con (snd (t_exists t d k)) = disk_con d"
    using t by (simp_all add: disk_inv_def disk_con_def fun_eq_iff disk_get_spec(1) disk_exists_spec(1))
  show "x = disk_con d k" if "fst (t_get t d k) = Ok x" for x
    using t that by (auto simp: disk_inv_def disk_con_def disk_get_spec(2))
  show "b \<longleftrightarrow> disk_con d k \<noteq> None" if "fst (t_exists t d k) = Ok b" for b
    using t that disk_exists_spec(2) [of "key_of k" d b] by (simp add: disk_inv_def disk_con_def)
  show "pend ds ++ disk_con (snd (t_put t d k v)) = disk_con d ++ [k \<mapsto> v]" if "fst (t_put t d k v) = Ok ds" for ds
    using t that disk_put_spec [of d "key_of k" v, where 'a = file_key] disk_con_upd [of _ d k "Some v"]
    by (auto simp: disk_inv_def disk_con_def [abs_def] split: prod.splits sum.splits)
  fix b
  assume "fst (t_delete t d k) = Ok b"
  then show "disk_con (snd (t_delete t d k)) = (disk_con d)(k := None)" "b \<longleftrightarrow> disk_con d k \<noteq> None"
    using t disk_delete_spec(1) [of d "key_of k" b] disk_con_upd [of _ d k None]
    by (auto simp: disk_inv_def disk_con_def [abs_def])
qed (simp_all add: disk_inv_def)


text \<open>While no call is faulty, the disk is a reliable tier that absorbs every put.\<close>

definition sound_disk :: "(disk, file_key, u8 list, io_error) tier_ops \<Rightarrow> disk \<Rightarrow> bool" where
  "sound_disk ops d \<longleftrightarrow> ops = disk_ops \<and> dk_faults d = []"

lemma head_fault_Nil [simp]: "dk_faults d = [] \<Longrightarrow> head_fault d = None"
  by (simp add: head_fault_def)

lemma spent_Nil [simp]: "dk_faults d = [] \<Longrightarrow> d\<lparr>dk_faults := []\<rparr> = d"
  by (cases d) simp

lemma sound_get:
  "dk_faults d = [] \<Longrightarrow> k \<noteq> [] \<Longrightarrow> disk_get d k = (Ok (disk_contents d k), d)"
  by (auto simp: disk_get_def fs_read_def syscall_eq disk_contents_def split: option.split)

lemma sound_exists:
  "dk_faults d = [] \<Longrightarrow> k \<noteq> [] \<Longrightarrow> disk_exists d k = (Ok (disk_contents d k \<noteq> None), d)"
  by (simp add: disk_exists_def fs_try_exists_def syscall_eq disk_contents_def)

lemma sound_put:
  assumes "dk_faults d = []" "k \<noteq> []"
  shows "\<exists>d'. disk_put d k v = (Ok [], d') \<and> dk_faults d' = []"
proof -
  let ?d1 = "set_file (tmp_for d (path_for k)) v d"
  have w: "fs_write (tmp_for d (path_for k)) v d = (Ok (), ?d1)"
    using assms by (simp add: fs_write_def syscall_eq tmp_for_def)
  have "dk_faults ?d1 = []" "file_at (tmp_for d (path_for k)) ?d1 = Some v"
    using assms by (simp_all add: tmp_for_def)
  then have "\<exists>d'. fs_rename (tmp_for d (path_for k)) (path_for k) ?d1 = (Ok (), d') \<and> dk_faults d' = []"
    using assms(2) by (simp add: fs_rename_def syscall_eq tmp_for_def)
  with w show ?thesis by (auto simp: disk_put_def Let_def)
qed

lemma sound_delete:
  assumes "dk_faults d = []" "k \<noteq> []"
  shows "\<exists>b d'. disk_delete d k = (Ok b, d') \<and> dk_faults d' = []"
  using assms
  by (auto simp: disk_delete_def fs_remove_file_def syscall_eq split: option.split)

lemma sound_get_many:
  "dk_faults d = [] \<Longrightarrow>
   get_many_default (\<lambda>d k. disk_get d (key_of k)) d ks = (Ok (map (disk_con d) ks), d)"
  by (induction ks) (simp_all add: sound_get disk_con_def)

lemma sound_put_many:
  "dk_faults d = [] \<Longrightarrow>
   \<exists>d'. put_many_default (\<lambda>d k v. disk_put d (key_of k) v) d es = (Ok [], d') \<and> dk_faults d' = []"
proof (induction es arbitrary: d)
  case (Cons e es)
  obtain k v where e: "e = (k, v)" by (cases e)
  obtain d1 where p: "disk_put d (key_of k) v = (Ok [] :: ((file_key, u8 list) displaced, io_error) result, d1)"
      "dk_faults d1 = []"
    using sound_put [OF Cons.prems key_of_nonempty] by blast
  then show ?case using Cons.IH [OF p(2)] by (auto simp: e)
qed simp

lemma sound_delete_many:
  "dk_faults d = [] \<Longrightarrow>
   \<exists>bs d'. delete_many_default (\<lambda>d k. disk_delete d (key_of k)) d ks = (Ok bs, d') \<and> dk_faults d' = []"
proof (induction ks arbitrary: d)
  case (Cons k ks)
  obtain b d1 where p: "disk_delete d (key_of k) = (Ok b, d1)" "dk_faults d1 = []"
    using sound_delete [OF Cons.prems key_of_nonempty] by blast
  then show ?case using Cons.IH [OF p(2)] by auto
qed simp

lemma sound_is_disk: "sound_disk t d \<Longrightarrow> disk_inv t d"
  by (simp add: sound_disk_def disk_inv_def)

lemma sound_ops:
  assumes "sound_disk t d"
  shows "t_get t d k = (Ok (disk_con d k), d)" "t_exists t d k = (Ok (disk_con d k \<noteq> None), d)"
    "t_get_many t d ks = (Ok (map (disk_con d) ks), d)"
    "\<exists>d'. t_put t d k v = (Ok [], d') \<and> sound_disk t d'"
    "\<exists>d'. t_put_many t d es = (Ok [], d') \<and> sound_disk t d'"
    "\<exists>b d'. t_delete t d k = (Ok b, d') \<and> sound_disk t d'"
    "\<exists>bs d'. t_delete_many t d ks = (Ok bs, d') \<and> sound_disk t d'"
  using assms sound_put [of d "key_of k" v] sound_put_many [of d es] sound_delete [of d "key_of k"]
    sound_delete_many [of d ks]
  by (auto simp: sound_disk_def sound_get sound_exists sound_get_many disk_con_def)

interpretation sound: lasting_tiers sound_disk "\<lambda>_. disk_con" "\<lambda>_ _. True"
proof
  fix t and d :: disk and k v ks es
  assume s: "sound_disk t d"
  note ops = sound_ops [OF s] and i = sound_is_disk [OF s]
  show "sound_disk t (snd (t_get t d k))" "disk_con (snd (t_get t d k)) = disk_con d"
    "sound_disk t (snd (t_exists t d k))" "disk_con (snd (t_exists t d k)) = disk_con d"
    "sound_disk t (snd (t_get_many t d ks))" "disk_con (snd (t_get_many t d ks)) = disk_con d"
    "is_ok (fst (t_get t d k))" "is_ok (fst (t_exists t d k))" "is_ok (fst (t_get_many t d ks))"
    using ops(1-3) s by simp_all
  show "sound_disk t (snd (t_put t d k v))" "is_ok (fst (t_put t d k v))" "fst (t_put t d k v) = Ok []"
    using ops(4) [of k v] by auto
  show "sound_disk t (snd (t_put_many t d es))" "is_ok (fst (t_put_many t d es))"
    "fst (t_put_many t d es) = Ok []"
    using ops(5) [of es] by auto
  show "sound_disk t (snd (t_delete t d k))" "is_ok (fst (t_delete t d k))" using ops(6) [of k] by auto
  show "sound_disk t (snd (t_delete_many t d ks))" "is_ok (fst (t_delete_many t d ks))"
    using ops(7) [of ks] by auto
  show "x = disk_con d k" if "fst (t_get t d k) = Ok x" for x using disk.get_res [OF i that] .
  show "b \<longleftrightarrow> disk_con d k \<noteq> None" if "fst (t_exists t d k) = Ok b" for b using disk.exists_res [OF i that] .
  show "vs = map (disk_con d) ks" if "fst (t_get_many t d ks) = Ok vs" for vs
    using disk.get_many_res [OF i that] .
  show "pend ds ++ disk_con (snd (t_put t d k v)) = disk_con d ++ [k \<mapsto> v]"
    if "fst (t_put t d k v) = Ok ds" for ds using disk.put_con [OF i that] .
  show "pend ds ++ disk_con (snd (t_put_many t d es)) = disk_con d ++ pend es"
    if "fst (t_put_many t d es) = Ok ds" for ds using disk.put_many_con [OF i that] .
  show "disk_con (snd (t_delete t d k)) = (disk_con d)(k := None)" "b \<longleftrightarrow> disk_con d k \<noteq> None"
    if "fst (t_delete t d k) = Ok b" for b
    using disk.delete_con [OF i that] disk.delete_res [OF i that] by blast+
  show "disk_con (snd (t_delete_many t d ks)) = disk_con d |` (- set ks)" "bs = delete_flags (disk_con d) ks"
    if "fst (t_delete_many t d ks) = Ok bs" for bs
    using disk.delete_many_con [OF i that] disk.delete_many_res [OF i that] by blast+
qed simp_all


section \<open>Names and listing\<close>

lemma hex_digit_ascii: "n < 16 \<Longrightarrow> of_char (hex_digit n) < (128 :: nat)"
  unfolding less_16 by (auto simp: hex_digit_def)

lemma ascii_utf8: "(\<forall>c \<in> set s. of_char c < (128 :: nat)) \<Longrightarrow> utf8_valid (as_bytes s)"
proof (induction s)
  case (Cons c s)
  then have "between 0 127 (word_of_nat (of_char c))"
    by (auto simp: between_def unat_of_nat take_bit_eq_mod)
  then show ?case using Cons by (simp add: as_bytes_def)
qed (simp add: as_bytes_def)

lemma path_ascii: "\<forall>c \<in> set (path_for k). of_char c < (128 :: nat)"
proof -
  have "\<forall>c \<in> set (hex_encode bs). of_char c < (128 :: nat)" for bs
    using hex_digit_ascii nibbles by (induction bs) (auto simp: hex_encode_Cons)
  then show ?thesis by (simp add: path_for_def)
qed

lemma listed_path: "utf8_valid (as_bytes k) \<Longrightarrow> listed_key (path_for k) = Some k"
  using ascii_utf8 [OF path_ascii [of k]]
  by (simp add: listed_key_def path_for_def hex_decode_encode from_utf8_def)

lemma listed_tmp: "listed_key (path_for k @ ''.tmp'') = None"
  using hex_pairs_dot [OF even_hex_encode, of "as_bytes k"]
  by (simp add: listed_key_def path_for_def hex_decode_def)

lemma set_map_filter: "set (List.map_filter f xs) = {x. \<exists>n \<in> set xs. f n = Some x}"
  by (induction xs) (auto split: option.split)

lemma list_entries_sound:
  "dk_faults d = [] \<Longrightarrow> list_entries dir all d = (Ok (all @ List.map_filter listed_key dir), d)"
  by (induction dir arbitrary: all) (auto simp: syscall_eq split: option.split)

text \<open>A root that only this tier writes: entries, and temporary files that a fault left behind.\<close>

definition own_files :: "disk \<Rightarrow> bool" where
  "own_files d \<longleftrightarrow> (\<forall>n. fmlookup (dk_files d) n \<noteq> None \<longrightarrow>
     (\<exists>k. utf8_valid (as_bytes k) \<and> (n = path_for k \<or> n = path_for k @ ''.tmp'')))"

lemma own_listed:
  assumes "own_files d" "distinct dir" "set dir = fset (fmdom (dk_files d))"
  shows "distinct (List.map_filter listed_key dir) \<and>
    set (List.map_filter listed_key dir) = {k. disk_contents d k \<noteq> None \<and> utf8_valid (as_bytes k)}"
proof
  have key: "listed_key n = Some k \<longleftrightarrow> n = path_for k" if "n \<in> set dir" "utf8_valid (as_bytes k) \<or> listed_key n = Some k" for n k
  proof -
    have "fmlookup (dk_files d) n \<noteq> None" using that(1) assms(3) by (auto simp: fmdom_notI)
    then obtain j where j: "utf8_valid (as_bytes j)" "n = path_for j \<or> n = path_for j @ ''.tmp''"
      using assms(1) by (auto simp: own_files_def)
    then show ?thesis using listed_path [OF j(1)] listed_tmp [of j] by auto
  qed
  have inj: "listed_key n = Some k \<Longrightarrow> listed_key m = Some k \<Longrightarrow> n = m" if "n \<in> set dir" "m \<in> set dir" for n m k
    using key that by metis
  then show "distinct (List.map_filter listed_key dir)"
    using assms(2)
  proof (induction dir)
    case (Cons n dir)
    then have "distinct (List.map_filter listed_key dir)" by (metis distinct.simps(2) list.set_intros(2))
    moreover have "k \<notin> set (List.map_filter listed_key dir)" if "listed_key n = Some k" for k
    proof
      assume "k \<in> set (List.map_filter listed_key dir)"
      then obtain m where "m \<in> set dir" "listed_key m = Some k" unfolding set_map_filter by blast
      then have "n = m" using Cons.prems(1) [of n m k] that by simp
      with \<open>m \<in> set dir\<close> Cons.prems(2) show False by simp
    qed
    ultimately show ?case by (simp split: option.split)
  qed simp
  have valid: "utf8_valid (as_bytes k)" if "listed_key n = Some k" for n k
    using that by (auto simp: listed_key_def from_utf8_def split: if_splits option.splits)
  show "set (List.map_filter listed_key dir) = {k. disk_contents d k \<noteq> None \<and> utf8_valid (as_bytes k)}"
  proof (rule set_eqI)
    fix k
    have dom: "path_for k \<in> set dir \<longleftrightarrow> disk_contents d k \<noteq> None"
      by (simp add: assms(3) disk_contents_def fmlookup_dom_iff)
    have "k \<in> set (List.map_filter listed_key dir) \<longleftrightarrow> path_for k \<in> set dir \<and> listed_key (path_for k) = Some k"
      using key unfolding set_map_filter by blast
    then show "k \<in> set (List.map_filter listed_key dir) \<longleftrightarrow>
        k \<in> {k. disk_contents d k \<noteq> None \<and> utf8_valid (as_bytes k)}"
      using dom valid listed_path by auto
  qed
qed


section \<open>Properties\<close>

text \<open>
  C21. Keys survive their file names: for every Rust string, decoding the name of its file gives the
  key back, different keys have different names, and the name of a temporary file decodes to none.
\<close>

theorem disk_names_roundtrip:
  assumes "utf8_valid (as_bytes k)"
  shows "listed_key (path_for k) = Some k \<and> (path_for j = path_for k \<longrightarrow> j = k) \<and>
    listed_key (path_for k @ ''.tmp'') = None \<and> path_for j \<noteq> path_for k @ ''.tmp''"
proof (intro conjI impI)
  show "listed_key (path_for k) = Some k" by (rule listed_path [OF assms])
  show "listed_key (path_for k @ ''.tmp'') = None" by (rule listed_tmp)
  show "path_for j \<noteq> path_for k @ ''.tmp''" by (rule path_for_tmp(1))
  show "path_for j = path_for k \<Longrightarrow> j = k" by simp
qed

theorem disk_names_roundtrip_witness:
  "path_for ''a/b'' = ''612f62'' \<and> listed_key ''612f62'' = Some ''a/b''"
proof -
  have p: "path_for ''a/b'' = ''612f62''"
    by (simp add: path_for_def as_bytes_def hex_encode_def hex_digit_def)
  have "utf8_valid (as_bytes ''a/b'')" by (simp add: as_bytes_def between_def)
  from disk_names_roundtrip [OF this, of "''a/b''", THEN conjunct1] p show ?thesis by simp
qed

text \<open>
  A put is all or nothing: whatever calls fail and however little of the temporary file gets
  written, an \<open>Ok\<close> means that the key has the whole new value and every other key is untouched, and
  an error means that every key has the value it had.
\<close>

theorem disk_put_atomic:
  "case disk_put d k v of
     (Ok ds, d') \<Rightarrow> ds = [] \<and> disk_contents d' = (disk_contents d)(k \<mapsto> v)
   | (Err e, d') \<Rightarrow> disk_contents d' = disk_contents d"
  by (rule disk_put_spec)

text \<open>
  Ranged reads, when no call fails: an inverted range is an error, a missing key is \<open>None\<close>, a
  range inside the value is exactly its bytes, and one that reaches past the end is an error. The
  exception is a range of \<open>2 ^ 63\<close> bytes or more, for which the allocation of the buffer panics
  before the length of the file is looked at.
\<close>

theorem disk_read_range_exact:
  assumes "dk_faults d = []" "k \<noteq> []" "unat start < 2 ^ 63"
  shows "disk_read_range d k start fin =
    (if fin < start then Some (Err Invalid_Input, d)
     else case disk_contents d k of
       None \<Rightarrow> Some (Ok None, d)
     | Some bs \<Rightarrow>
         if 2 ^ 63 \<le> unat (fin - start) then None
         else if start = fin then Some (Ok (Some []), d)
         else if unat fin \<le> length bs then Some (Ok (Some (take (unat fin - unat start) (drop (unat start) bs))), d)
         else Some (Err Unexpected_Eof, d))"
proof -
  have len: "unat (fin - start) = unat fin - unat start" if "\<not> fin < start"
    using that by (simp add: unat_sub not_less)
  have z: "unat fin - unat start = 0 \<longleftrightarrow> start = fin" if "\<not> fin < start"
    using that by (auto simp: not_less word_le_nat_alt word_unat_eq_iff)
  have le: "unat start \<le> unat fin" if "\<not> fin < start" using that by (simp add: not_less word_le_nat_alt)
  show ?thesis
    using assms len z le
    by (auto simp: disk_read_range_def fs_open_def fs_seek_def fs_read_exact_def syscall_eq
        disk_contents_def Let_def split: option.split)
qed

theorem disk_read_range_exact_witness:
  "fst (the (disk_read_range
     \<lparr>dk_stem = Some ''cache'', dk_files = fmupd ''6b'' [1, 2, 3, 4] fmempty, dk_beside = fmempty, dk_faults = []\<rparr>
     ''k'' 1 3)) = Ok (Some [2, 3])"
proof -
  let ?d = "\<lparr>dk_stem = Some ''cache'', dk_files = fmupd ''6b'' [1, 2, 3, 4] fmempty, dk_beside = fmempty,
    dk_faults = []\<rparr>"
  have "disk_contents ?d ''k'' = Some [1, 2, 3, 4]"
    by (simp add: disk_contents_def path_for_def as_bytes_def hex_encode_def hex_digit_def)
  with disk_read_range_exact [of ?d "''k''" 1 3] show ?thesis by simp
qed

text \<open>
  The empty key is not a key of the disk: its path is the root directory. A read of it fails
  although \<open>exists\<close> answers true, and a put fails after writing the value to a file outside the root.
\<close>

theorem disk_empty_key:
  assumes "dk_faults d = []" "dk_stem d = Some stem"
  shows "fst (disk_get d []) = Err Directory_Error \<and> fst (disk_exists d []) = Ok True \<and>
    disk_put d [] v = (Err Directory_Error, d\<lparr>dk_beside := fmupd (stem @ ''.tmp'') v (dk_beside d)\<rparr>)"
  using assms path_for_Nil [of "[]"]
  by (simp add: disk_get_def disk_exists_def disk_put_def fs_read_def fs_try_exists_def fs_write_def
      fs_rename_def syscall_eq tmp_for_def)

theorem disk_empty_key_witness:
  "disk_put \<lparr>dk_stem = Some ''cache'', dk_files = fmempty, dk_beside = fmempty, dk_faults = []\<rparr> [] [7] =
     (Err Directory_Error :: ((string, u8 list) displaced, io_error) result,
      \<lparr>dk_stem = Some ''cache'', dk_files = fmempty, dk_beside = fmupd ''cache.tmp'' [7] fmempty, dk_faults = []\<rparr>)"
  using disk_empty_key [of "\<lparr>dk_stem = Some ''cache'', dk_files = fmempty, dk_beside = fmempty, dk_faults = []\<rparr>"
      "''cache''" "[7]", where 'a = string] by simp

text \<open>
  Listing: over a root that only the tier writes, with no faulty call, the pages together list
  every stored key exactly once, in order, whatever order the directory has; leftover temporary
  files are skipped.
\<close>

theorem disk_list_complete:
  assumes "dk_faults d = []" "own_files d" "distinct dir" "set dir = fset (fmdom (dk_files d))"
  shows "\<exists>all. (\<forall>cursor limit. disk_list dir d cursor limit = (Ok (page_of all cursor limit), d)) \<and>
    sorted all \<and> distinct all \<and> set all = {k. disk_contents d k \<noteq> None \<and> utf8_valid (as_bytes k)}"
  using own_listed [OF assms(2-4)] assms(1)
  by (intro exI [of _ "sort (List.map_filter listed_key dir)"])
     (simp add: disk_list_def syscall_eq list_entries_sound)


theorem disk_list_complete_witness:
  "\<exists>all. disk_list [''6b.tmp'', ''6b'']
      \<lparr>dk_stem = None, dk_files = fmupd ''6b'' [1] (fmupd ''6b.tmp'' [] fmempty), dk_beside = fmempty, dk_faults = []\<rparr>
      None 1 = (Ok (page_of all None 1),
      \<lparr>dk_stem = None, dk_files = fmupd ''6b'' [1] (fmupd ''6b.tmp'' [] fmempty), dk_beside = fmempty, dk_faults = []\<rparr>) \<and>
    ''k'' \<in> set all \<and> distinct all"
proof -
  let ?d = "\<lparr>dk_stem = None, dk_files = fmupd ''6b'' [1] (fmupd ''6b.tmp'' [] fmempty), dk_beside = fmempty,
    dk_faults = []\<rparr>"
  have p: "path_for ''k'' = ''6b''"
    by (simp add: path_for_def as_bytes_def hex_encode_def hex_digit_def)
  have u: "utf8_valid (as_bytes ''k'')" by (simp add: as_bytes_def between_def)
  have "own_files ?d" using u p unfolding own_files_def by (auto intro!: exI [of _ "''k''"] split: if_splits)
  moreover have "disk_contents ?d ''k'' \<noteq> None" by (simp add: disk_contents_def p)
  ultimately show ?thesis
    using disk_list_complete [of ?d "[''6b.tmp'', ''6b'']"] u by (auto simp: insert_commute)
qed

end
