(* ===== verification/Mmap_Inner.thy ===== *)
theory Mmap_Inner
  imports Disk_Tier Policy
begin

text \<open>
  The in-memory index of \<open>tierstore-mmap/src/tier.rs\<close>: mappings, accounted sizes and the queue of
  eviction tickets. A ticket is live while its stamp is the current one of its key; stamps are
  64-bit words, and when they wrap the queue is rebuilt. Sizes are \<open>u64\<close> values as naturals with
  the saturating operations of the source. The invariant says what the accounting promises: every
  accounted key has a live ticket, so eviction can always make progress, and the total never
  exceeds the sum of the accounted sizes.
\<close>

section \<open>State\<close>

record mm_inner =
  mm_maps :: "(string, u8 list) fmap"
  mm_sizes :: "(string, nat) fmap"
  mm_order :: "(string \<times> u64) list"
  mm_stamps :: "(string, u64) fmap"
  mm_total :: nat
  mm_next_stamp :: u64
  mm_evictions :: nat
  mm_evicted_bytes :: nat

definition mm_default :: mm_inner where
  "mm_default =
     \<lparr>mm_maps = fmempty, mm_sizes = fmempty, mm_order = [], mm_stamps = fmempty, mm_total = 0,
      mm_next_stamp = 0, mm_evictions = 0, mm_evicted_bytes = 0\<rparr>"

definition mm_live :: "(string, u64) fmap \<Rightarrow> string \<times> u64 \<Rightarrow> bool" where
  "mm_live stamps e = (fmlookup stamps (fst e) = Some (snd e))"

section \<open>Operations\<close>

fun number_tickets :: "nat \<Rightarrow> string list \<Rightarrow> (string, u64) fmap \<Rightarrow> (string \<times> u64) list \<Rightarrow>
    (string, u64) fmap \<times> (string \<times> u64) list" where
  "number_tickets i [] stamps order = (stamps, order)"
| "number_tickets i (k # ks) stamps order =
     (let stamp = word_of_nat i + 1
      in number_tickets (Suc i) ks (fmupd k stamp stamps) (order @ [(k, stamp)]))"

definition mm_rebuild_tickets :: "mm_inner \<Rightarrow> mm_inner" where
  "mm_rebuild_tickets s =
     (let live = map fst (filter (mm_live (mm_stamps s)) (mm_order s));
          (stamps, order) = number_tickets 0 live fmempty []
      in s\<lparr>mm_order := order, mm_stamps := stamps, mm_next_stamp := word_of_nat (hm_len stamps)\<rparr>)"

definition mm_fresh_stamp :: "mm_inner \<Rightarrow> u64 \<times> mm_inner" where
  "mm_fresh_stamp s =
     (let s1 = s\<lparr>mm_next_stamp := mm_next_stamp s + 1\<rparr>;
          s2 = (if mm_next_stamp s1 = 0
                then (let r = mm_rebuild_tickets s1
                      in r\<lparr>mm_next_stamp := word_of_nat (hm_len (mm_stamps r)) + 1\<rparr>)
                else s1)
      in (mm_next_stamp s2, s2))"

definition mm_compact_tickets :: "mm_inner \<Rightarrow> mm_inner" where
  "mm_compact_tickets s =
     (if length (mm_order s) > max (saturating_mul (hm_len (mm_sizes s)) 2) 16
      then s\<lparr>mm_order := filter (mm_live (mm_stamps s)) (mm_order s)\<rparr>
      else s)"

definition mm_insert_ticket :: "string \<Rightarrow> mm_inner \<Rightarrow> mm_inner" where
  "mm_insert_ticket k s =
     (let (stamp, s1) = mm_fresh_stamp s
      in mm_compact_tickets
           (s1\<lparr>mm_stamps := fmupd k stamp (mm_stamps s1), mm_order := mm_order s1 @ [(k, stamp)]\<rparr>))"

definition mm_touch :: "string \<Rightarrow> mm_inner \<Rightarrow> mm_inner" where
  "mm_touch k s = (if hm_contains (mm_sizes s) k then mm_insert_ticket k s else s)"

definition mm_remove_accounting :: "string \<Rightarrow> mm_inner \<Rightarrow> nat option \<times> mm_inner" where
  "mm_remove_accounting k s =
     (let s1 = s\<lparr>mm_maps := fmdrop k (mm_maps s), mm_stamps := fmdrop k (mm_stamps s)\<rparr>
      in case fmlookup (mm_sizes s1) k of
           None \<Rightarrow> (None, s1)
         | Some sz \<Rightarrow>
             (Some sz, s1\<lparr>mm_sizes := fmdrop k (mm_sizes s1), mm_total := saturating_sub (mm_total s1) sz\<rparr>))"

fun pop_live :: "(string, u64) fmap \<Rightarrow> (string \<times> u64) list \<Rightarrow> string option \<times> (string \<times> u64) list" where
  "pop_live stamps [] = (None, [])"
| "pop_live stamps (e # es) = (if mm_live stamps e then (Some (fst e), es) else pop_live stamps es)"

definition mm_pop_oldest :: "mm_inner \<Rightarrow> string option \<times> mm_inner" where
  "mm_pop_oldest s =
     (let (k, order) = pop_live (mm_stamps s) (mm_order s) in (k, s\<lparr>mm_order := order\<rparr>))"

section \<open>Invariant\<close>

definition sum_sizes :: "(string, nat) fmap \<Rightarrow> nat" where
  "sum_sizes m = (\<Sum>k \<in> fmdom' m. the (fmlookup m k))"

definition tickets_ok :: "mm_inner \<Rightarrow> bool" where
  "tickets_ok s \<longleftrightarrow> (\<forall>k stamp. fmlookup (mm_stamps s) k = Some stamp \<longrightarrow> (k, stamp) \<in> set (mm_order s))"

definition mm_inv :: "mm_inner \<Rightarrow> bool" where
  "mm_inv s \<longleftrightarrow> fmdom (mm_stamps s) = fmdom (mm_sizes s) \<and> fmdom (mm_maps s) |\<subseteq>| fmdom (mm_sizes s) \<and>
     tickets_ok s \<and> mm_total s \<le> sum_sizes (mm_sizes s)"

lemma finite_fmdom' [simp]: "finite (fmdom' m)"
  by (simp add: fmdom'_alt_def)

lemma sum_sizes_empty [simp]: "sum_sizes fmempty = 0"
  by (simp add: sum_sizes_def)

lemma sum_sizes_drop:
  "sum_sizes m = sum_sizes (fmdrop k m) + (case fmlookup m k of None \<Rightarrow> 0 | Some n \<Rightarrow> n)"
proof -
  have d: "fmdom' (fmdrop k m) = fmdom' m - {k}" by simp
  have s: "sum_sizes (fmdrop k m) = (\<Sum>j \<in> fmdom' m - {k}. the (fmlookup m j))"
    unfolding sum_sizes_def d by (rule sum.cong) auto
  show ?thesis
  proof (cases "fmlookup m k")
    case None
    then have "k \<notin> fmdom' m" by (simp add: fmdom'_notI)
    then show ?thesis using None s by (simp add: sum_sizes_def)
  next
    case (Some n)
    then have "k \<in> fmdom' m" by (rule fmdom'I)
    then show ?thesis using Some s by (simp add: sum_sizes_def sum.remove [of "fmdom' m" k])
  qed
qed

lemma sum_sizes_upd: "sum_sizes (fmupd k n m) = sum_sizes (fmdrop k m) + n"
proof -
  have "fmdrop k (fmupd k n m) = fmdrop k m" by (rule fmap_ext) simp
  then show ?thesis using sum_sizes_drop [of "fmupd k n m" k] by simp
qed

lemma mm_inv_default: "mm_inv mm_default"
  by (simp add: mm_inv_def mm_default_def tickets_ok_def)

lemma number_tickets_spec:
  assumes "number_tickets i ks stamps order = (stamps', order')"
    and "\<forall>k st. fmlookup stamps k = Some st \<longrightarrow> (k, st) \<in> set order"
  shows "(\<forall>k st. fmlookup stamps' k = Some st \<longrightarrow> (k, st) \<in> set order') \<and>
    fset (fmdom stamps') = fset (fmdom stamps) \<union> set ks"
  using assms
proof (induction i ks stamps order rule: number_tickets.induct)
  case (2 i k ks stamps order)
  have "\<forall>j st. fmlookup (fmupd k (word_of_nat i + 1) stamps) j = Some st \<longrightarrow>
      (j, st) \<in> set (order @ [(k, word_of_nat i + 1)])"
    using "2.prems"(2) by auto
  with 2 show ?case by (simp add: Let_def)
qed simp

lemma rebuild_spec:
  assumes "tickets_ok s"
  shows "tickets_ok (mm_rebuild_tickets s) \<and> fmdom (mm_stamps (mm_rebuild_tickets s)) = fmdom (mm_stamps s)"
proof -
  let ?live = "map fst (filter (mm_live (mm_stamps s)) (mm_order s))"
  obtain st ord where n: "number_tickets 0 ?live fmempty [] = (st, ord)" by fastforce
  have "set ?live = fset (fmdom (mm_stamps s))"
    using assms by (force simp: mm_live_def tickets_ok_def fmlookup_dom_iff image_iff)
  then have "fmdom st = fmdom (mm_stamps s)"
    using number_tickets_spec [OF n] by (simp add: fset_inject)
  then show ?thesis
    using number_tickets_spec [OF n] n by (simp add: mm_rebuild_tickets_def tickets_ok_def)
qed

text \<open>The fields a ticket operation leaves alone.\<close>

definition same_accounts :: "mm_inner \<Rightarrow> mm_inner \<Rightarrow> bool" where
  "same_accounts s s' \<longleftrightarrow> mm_maps s' = mm_maps s \<and> mm_sizes s' = mm_sizes s \<and> mm_total s' = mm_total s"

lemma fresh_stamp_spec:
  assumes "tickets_ok s" "mm_fresh_stamp s = (st, s')"
  shows "tickets_ok s' \<and> fmdom (mm_stamps s') = fmdom (mm_stamps s) \<and> same_accounts s s'"
proof -
  let ?s1 = "s\<lparr>mm_next_stamp := mm_next_stamp s + 1\<rparr>"
  have t: "tickets_ok ?s1" using assms(1) by (simp add: tickets_ok_def)
  have r: "same_accounts s (mm_rebuild_tickets ?s1)"
    by (simp add: same_accounts_def mm_rebuild_tickets_def split_def Let_def)
  show ?thesis
    using assms(2) t rebuild_spec [OF t] r
    by (auto simp: mm_fresh_stamp_def Let_def tickets_ok_def same_accounts_def split: if_splits)
qed

lemma compact_spec:
  "tickets_ok s \<Longrightarrow> tickets_ok (mm_compact_tickets s) \<and> mm_stamps (mm_compact_tickets s) = mm_stamps s \<and>
     same_accounts s (mm_compact_tickets s)"
  by (auto simp: mm_compact_tickets_def tickets_ok_def mm_live_def same_accounts_def)

lemma insert_ticket_spec:
  assumes "tickets_ok s"
  shows "tickets_ok (mm_insert_ticket k s) \<and> fmdom (mm_stamps (mm_insert_ticket k s)) = finsert k (fmdom (mm_stamps s)) \<and>
    same_accounts s (mm_insert_ticket k s)"
proof -
  obtain st s1 where f: "mm_fresh_stamp s = (st, s1)" by fastforce
  note fs = fresh_stamp_spec [OF assms f]
  let ?s2 = "s1\<lparr>mm_stamps := fmupd k st (mm_stamps s1), mm_order := mm_order s1 @ [(k, st)]\<rparr>"
  have "tickets_ok ?s2" using fs by (auto simp: tickets_ok_def)
  from compact_spec [OF this] fs show ?thesis by (simp add: mm_insert_ticket_def f same_accounts_def)
qed

lemma mm_inv_insert_ticket:
  "mm_inv s \<Longrightarrow> k |\<in>| fmdom (mm_sizes s) \<Longrightarrow> mm_inv (mm_insert_ticket k s)"
  using insert_ticket_spec [of s k] by (auto simp: mm_inv_def same_accounts_def)

lemma mm_inv_touch: "mm_inv s \<Longrightarrow> mm_inv (mm_touch k s)"
  by (simp add: mm_touch_def mm_inv_insert_ticket hm_contains_iff)

lemma mm_inv_remove:
  assumes "mm_inv s"
  shows "mm_inv (snd (mm_remove_accounting k s))"
proof -
  have t: "fmlookup (fmdrop k (mm_stamps s)) j = Some st \<Longrightarrow> (j, st) \<in> set (mm_order s)" for j st
    using assms by (auto simp: mm_inv_def tickets_ok_def split: if_splits)
  show ?thesis
  proof (cases "fmlookup (mm_sizes s) k")
    case None
    then have "fmdom (mm_sizes s) |-| {|k|} = fmdom (mm_sizes s)" by (auto simp: fmdom_notI)
    then show ?thesis
      using assms t None by (auto simp: mm_remove_accounting_def mm_inv_def tickets_ok_def)
  next
    case (Some n)
    then show ?thesis
      using assms t sum_sizes_drop [of "mm_sizes s" k]
      by (auto simp: mm_remove_accounting_def mm_inv_def tickets_ok_def saturating_sub_def)
  qed
qed

lemma mm_inv_compact: "mm_inv s \<Longrightarrow> mm_inv (mm_compact_tickets s)"
  using compact_spec [of s] by (auto simp: mm_inv_def same_accounts_def)

section \<open>Popping\<close>

lemma pop_live_cases:
  "pop_live stamps es = (x, es') \<Longrightarrow>
   case x of
     None \<Rightarrow> es' = [] \<and> (\<forall>e \<in> set es. \<not> mm_live stamps e)
   | Some k \<Rightarrow> length es' < length es \<and> (\<exists>st. fmlookup stamps k = Some st) \<and>
       set es \<subseteq> insert (k, the (fmlookup stamps k)) (set es') \<union> {e. \<not> mm_live stamps e}"
  by (induction stamps es rule: pop_live.induct) (auto simp: mm_live_def split: if_splits option.splits)

lemma pop_oldest_shorter: "mm_pop_oldest s = (Some k, s') \<Longrightarrow> length (mm_order s') < length (mm_order s)"
  using pop_live_cases [of "mm_stamps s" "mm_order s"]
  by (auto simp: mm_pop_oldest_def split: prod.splits)

lemma pop_oldest_None:
  assumes "mm_inv s" "mm_pop_oldest s = (None, s')"
  shows "mm_total s' = 0 \<and> mm_inv s'"
proof -
  have "\<forall>e \<in> set (mm_order s). \<not> mm_live (mm_stamps s) e" "mm_order s' = []"
      "s' = s\<lparr>mm_order := []\<rparr>"
    using pop_live_cases [of "mm_stamps s" "mm_order s"] assms(2)
    by (auto simp: mm_pop_oldest_def split: prod.splits)
  moreover from this(1) have "fmlookup (mm_stamps s) k = None" for k
    using assms(1) by (cases "fmlookup (mm_stamps s) k") (force simp: mm_inv_def tickets_ok_def mm_live_def)+
  then have "mm_stamps s = fmempty" by (intro fmap_ext) simp
  ultimately show ?thesis
    using assms(1) by (auto simp: mm_inv_def tickets_ok_def sum_sizes_def fmdom'_alt_def)
qed

text \<open>Popping a key and dropping its accounting keeps the invariant.\<close>

lemma mm_inv_pop:
  assumes "mm_inv s" "mm_pop_oldest s = (Some k, s')"
  shows "mm_inv (snd (mm_remove_accounting k s')) \<and> fmlookup (mm_sizes s) k \<noteq> None \<and>
    same_accounts s s' \<and> mm_stamps s' = mm_stamps s"
proof -
  obtain es where p: "pop_live (mm_stamps s) (mm_order s) = (Some k, es)" "s' = s\<lparr>mm_order := es\<rparr>"
    using assms(2) by (auto simp: mm_pop_oldest_def split: prod.splits)
  note c = pop_live_cases [OF p(1), simplified]
  have dom: "fmdom (mm_stamps s) = fmdom (mm_sizes s)" using assms(1) by (simp add: mm_inv_def)
  have k: "fmlookup (mm_sizes s) k \<noteq> None" using c dom by (metis fmdomI fmdom_notI)
  have t: "(j, st) \<in> set es" if "fmlookup (mm_stamps s) j = Some st" "j \<noteq> k" for j st
  proof -
    have "(j, st) \<in> set (mm_order s)" using assms(1) that(1) by (simp add: mm_inv_def tickets_ok_def)
    moreover have "mm_live (mm_stamps s) (j, st)" using that(1) by (simp add: mm_live_def)
    ultimately show ?thesis using c that(2) by blast
  qed
  have "mm_inv (snd (mm_remove_accounting k s'))"
    using k t assms(1) sum_sizes_drop [of "mm_sizes s" k]
    by (auto simp: p(2) mm_remove_accounting_def mm_inv_def tickets_ok_def saturating_sub_def split: option.splits)
  with k p(2) show ?thesis by (simp add: same_accounts_def)
qed

section \<open>Exact accounting\<close>

text \<open>
  The saturating sum of the sizes is their sum, as long as it never had to saturate.
\<close>

definition mm_exact :: "mm_inner \<Rightarrow> bool" where
  "mm_exact s \<longleftrightarrow> mm_total s = sum_sizes (mm_sizes s)"

lemma mm_exact_default: "mm_exact mm_default"
  by (simp add: mm_exact_def mm_default_def)

lemma mm_exact_same: "same_accounts s s' \<Longrightarrow> mm_exact s' = mm_exact s"
  by (simp add: mm_exact_def same_accounts_def)

lemma mm_exact_remove: "mm_exact s \<Longrightarrow> mm_exact (snd (mm_remove_accounting k s))"
  using sum_sizes_drop [of "mm_sizes s" k]
  by (auto simp: mm_exact_def mm_remove_accounting_def Let_def saturating_sub_def split: option.split)

lemma sum_sizes_drop_le: "sum_sizes (fmdrop k m) \<le> sum_sizes m"
  using sum_sizes_drop [of m k] by simp

end
