(* ===== verification/Mmap_Tier.thy ===== *)
theory Mmap_Tier
  imports Mmap_Inner
begin

text \<open>
  \<open>tierstore-mmap/src/tier.rs\<close>: the tier of memory-mapped files. Its state is the file system of the
  disk tier and the index. A mapping of a file is the bytes it had when it was mapped (files are
  replaced, never changed in place), so \<open>Bytes\<close> is a list of bytes; opening, asking for the length
  and mapping are three calls that may fail. Operations run one at a time.
\<close>

section \<open>Files\<close>

text \<open>
  \<open>map_file\<close>; a directory opens and has a length, but cannot be mapped.
\<close>

definition map_file :: "string \<Rightarrow> disk \<Rightarrow> (u8 list option, io_error) result \<times> disk" where
  "map_file name d =
     (case fs_open name d of
        (Err e, d1) \<Rightarrow> (if e = Not_Found then Ok None else Err e, d1)
      | (Ok h, d1) \<Rightarrow>
          (case syscall (\<lambda>_ d. d) (\<lambda>d. (Ok (), d)) d1 of
             (Err e, d2) \<Rightarrow> (Err e, d2)
           | (Ok _, d2) \<Rightarrow>
               (if h = File_Handle [] then (Ok (Some []), d2)
                else syscall (\<lambda>_ d. d) (\<lambda>d.
                  (case h of Dir_Handle \<Rightarrow> Err Directory_Error | File_Handle bs \<Rightarrow> Ok (Some bs), d)) d2)))"

section \<open>The tier\<close>

record mmap_tier =
  mm_disk :: disk
  mm_budget :: "nat option"
  mm_eviction :: eviction
  mm_in :: mm_inner

record mmap_stats =
  ms_entries :: nat
  ms_mapped_entries :: nat
  ms_disk_bytes :: nat
  ms_budget_bytes :: "nat option"
  ms_evictions :: nat
  ms_evicted_bytes :: nat

text \<open>
  The scan of the root: \<open>dir\<close> gives its entries in directory order, each with its modification time.
  Entries with a length are files; the tier's root holds no others here.
\<close>

fun scan_entries :: "(string \<times> nat) list \<Rightarrow> (string \<times> nat \<times> nat) list \<Rightarrow> disk \<Rightarrow>
    ((string \<times> nat \<times> nat) list, io_error) result \<times> disk" where
  "scan_entries [] found d = (Ok found, d)"
| "scan_entries ((name, modified) # dir) found d =
     (case syscall (\<lambda>_ d. d) (\<lambda>d. (Ok (), d)) d of
        (Err e, d1) \<Rightarrow> (Err e, d1)
      | (Ok _, d1) \<Rightarrow>
          (case listed_key name of
             None \<Rightarrow> scan_entries dir found d1
           | Some k \<Rightarrow>
               (case syscall (\<lambda>_ d. d) (\<lambda>d. (Ok (), d)) d1 of
                  (Err e, d2) \<Rightarrow> (Err e, d2)
                | (Ok _, d2) \<Rightarrow>
                    (case fmlookup (dk_files d2) name of
                       None \<Rightarrow> scan_entries dir found d2
                     | Some bs \<Rightarrow> scan_entries dir (found @ [(k, length bs, modified)]) d2))))"

definition account_found :: "string \<times> nat \<times> nat \<Rightarrow> mm_inner \<Rightarrow> mm_inner" where
  "account_found e s =
     (case e of (k, len, _) \<Rightarrow>
        mm_insert_ticket k
          (s\<lparr>mm_total := saturating_add (mm_total s) len, mm_sizes := fmupd k len (mm_sizes s)\<rparr>))"

definition mm_scan :: "(string \<times> nat) list \<Rightarrow> disk \<Rightarrow> (mm_inner, io_error) result \<times> disk" where
  "mm_scan dir d =
     (case syscall (\<lambda>_ d. d) (\<lambda>d. (Ok (), d)) d of
        (Err e, d1) \<Rightarrow> (Err e, d1)
      | (Ok _, d1) \<Rightarrow>
          (case scan_entries dir [] d1 of
             (Err e, d2) \<Rightarrow> (Err e, d2)
           | (Ok found, d2) \<Rightarrow> (Ok (fold account_found (sort_key (\<lambda>e. snd (snd e)) found) mm_default), d2)))"

definition mmap_open_inner :: "(string \<times> nat) list \<Rightarrow> disk \<Rightarrow> nat option \<Rightarrow> (mmap_tier, io_error) result" where
  "mmap_open_inner dir d budget =
     (case syscall (\<lambda>_ d. d) (\<lambda>d. (Ok (), d)) d of
        (Err e, _) \<Rightarrow> Err e
      | (Ok _, d1) \<Rightarrow>
          (case mm_scan dir d1 of
             (Err e, _) \<Rightarrow> Err e
           | (Ok s, d2) \<Rightarrow> Ok \<lparr>mm_disk = d2, mm_budget = budget, mm_eviction = Fifo, mm_in = s\<rparr>))"

definition mmap_open :: "(string \<times> nat) list \<Rightarrow> disk \<Rightarrow> (mmap_tier, io_error) result" where
  "mmap_open dir d = mmap_open_inner dir d None"

definition mmap_open_bounded :: "(string \<times> nat) list \<Rightarrow> disk \<Rightarrow> nat \<Rightarrow> (mmap_tier, io_error) result" where
  "mmap_open_bounded dir d budget = mmap_open_inner dir d (Some budget)"

definition mmap_with_eviction :: "eviction \<Rightarrow> mmap_tier \<Rightarrow> mmap_tier" where
  "mmap_with_eviction ev t = t\<lparr>mm_eviction := ev\<rparr>"

definition mmap_disk_usage :: "mmap_tier \<Rightarrow> nat" where
  "mmap_disk_usage t = mm_total (mm_in t)"

definition mmap_stats_of :: "mmap_tier \<Rightarrow> mmap_stats" where
  "mmap_stats_of t =
     \<lparr>ms_entries = hm_len (mm_sizes (mm_in t)), ms_mapped_entries = hm_len (mm_maps (mm_in t)),
      ms_disk_bytes = mm_total (mm_in t), ms_budget_bytes = mm_budget t,
      ms_evictions = mm_evictions (mm_in t), ms_evicted_bytes = mm_evicted_bytes (mm_in t)\<rparr>"

text \<open>\<open>clear\<close>: the accounting is dropped first, then the files, whose removal may fail silently.\<close>

fun clear_entries :: "string list \<Rightarrow> disk \<Rightarrow> (unit, io_error) result \<times> disk" where
  "clear_entries [] d = (Ok (), d)"
| "clear_entries (name # dir) d =
     (case syscall (\<lambda>_ d. d) (\<lambda>d. (Ok (), d)) d of
        (Err e, d1) \<Rightarrow> (Err e, d1)
      | (Ok _, d1) \<Rightarrow>
          (case syscall (\<lambda>_ d. d) (\<lambda>d. (Ok (), d)) d1 of
             (Err e, d2) \<Rightarrow> (Err e, d2)
           | (Ok _, d2) \<Rightarrow> clear_entries dir (snd (fs_remove_file name d2))))"

definition mmap_clear :: "string list \<Rightarrow> mmap_tier \<Rightarrow> (unit, io_error) result \<times> mmap_tier" where
  "mmap_clear dir t =
     (let s = (mm_in t)\<lparr>mm_maps := fmempty, mm_sizes := fmempty, mm_order := [], mm_stamps := fmempty,
            mm_total := 0\<rparr>
      in case syscall (\<lambda>_ d. d) (\<lambda>d. (Ok (), d)) (mm_disk t) of
           (Err e, d1) \<Rightarrow> (Err e, t\<lparr>mm_in := s, mm_disk := d1\<rparr>)
         | (Ok _, d1) \<Rightarrow>
             (let (r, d2) = clear_entries dir d1 in (r, t\<lparr>mm_in := s, mm_disk := d2\<rparr>)))"

section \<open>The tier operations\<close>

definition mmap_get :: "mmap_tier \<Rightarrow> string \<Rightarrow> (u8 list option, io_error) result \<times> mmap_tier" where
  "mmap_get t k =
     (case fmlookup (mm_maps (mm_in t)) k of
        Some bs \<Rightarrow> (Ok (Some bs), if mm_eviction t = Lru then t\<lparr>mm_in := mm_touch k (mm_in t)\<rparr> else t)
      | None \<Rightarrow>
          (case map_file (path_for k) (mm_disk t) of
             (Err e, d1) \<Rightarrow> (Err e, t\<lparr>mm_disk := d1\<rparr>)
           | (Ok None, d1) \<Rightarrow> (Ok None, t\<lparr>mm_disk := d1\<rparr>)
           | (Ok (Some bs), d1) \<Rightarrow>
               (let t1 = t\<lparr>mm_disk := d1\<rparr>; s = mm_in t1 in
                if \<not> hm_contains (mm_sizes s) k then (Ok (Some bs), t1)
                else
                  (let s1 = s\<lparr>mm_maps := fmupd k bs (mm_maps s)\<rparr>
                   in (Ok (Some bs), t1\<lparr>mm_in := if mm_eviction t = Lru then mm_touch k s1 else s1\<rparr>)))))"

definition mmap_exists :: "mmap_tier \<Rightarrow> string \<Rightarrow> (bool, io_error) result \<times> mmap_tier" where
  "mmap_exists t k =
     (if hm_contains (mm_maps (mm_in t)) k then (Ok True, t)
      else apsnd (\<lambda>d. t\<lparr>mm_disk := d\<rparr>) (fs_try_exists (path_for k) (mm_disk t)))"

definition mmap_read_range ::
  "mmap_tier \<Rightarrow> string \<Rightarrow> u64 \<Rightarrow> u64 \<Rightarrow> (u8 list option, io_error) result \<times> mmap_tier" where
  "mmap_read_range t k start fin =
     (case mmap_get t k of
        (Err e, t1) \<Rightarrow> (Err e, t1)
      | (Ok None, t1) \<Rightarrow> (Ok None, t1)
      | (Ok (Some bs), t1) \<Rightarrow>
          if unat start > unat fin \<or> unat fin > length bs then (Err Invalid_Input, t1)
          else (Ok (Some (take (unat fin - unat start) (drop (unat start) bs))), t1))"

text \<open>One eviction: the value is mapped before the file is unlinked; failures are ignored.\<close>

definition evict_one :: "string \<Rightarrow> mm_inner \<Rightarrow> disk \<Rightarrow> u8 list option \<times> mm_inner \<times> disk" where
  "evict_one k s d =
     (let old_path = path_for k;
          (bytes, d1) =
            (case fmlookup (mm_maps s) k of
               Some bs \<Rightarrow> (Some bs, d)
             | None \<Rightarrow> (case map_file old_path d of (Ok x, d1) \<Rightarrow> (x, d1) | (Err e, d1) \<Rightarrow> (None, d1)));
          (size_of, s1) = mm_remove_accounting k (s\<lparr>mm_maps := fmdrop k (mm_maps s)\<rparr>);
          s2 = (case size_of of
                  None \<Rightarrow> s1
                | Some n \<Rightarrow> s1\<lparr>mm_evictions := saturating_add (mm_evictions s1) 1,
                     mm_evicted_bytes := saturating_add (mm_evicted_bytes s1) n\<rparr>)
      in (bytes, s2, snd (fs_remove_file old_path d1)))"

lemma remove_order: "mm_order (snd (mm_remove_accounting k s)) = mm_order s"
  by (simp add: mm_remove_accounting_def Let_def split: option.split)

lemma evict_one_order: "mm_order (fst (snd (evict_one k s d))) = mm_order s"
  using remove_order [of k "s\<lparr>mm_maps := fmdrop k (mm_maps s)\<rparr>"]
  by (auto simp: evict_one_def Let_def split: prod.split option.split sum.split)

text \<open>The loop over the budget.\<close>

function mm_evict ::
  "nat \<Rightarrow> mm_inner \<Rightarrow> disk \<Rightarrow> (string, u8 list) displaced \<Rightarrow> (string, u8 list) displaced \<times> mm_inner \<times> disk"
where
  "mm_evict budget s d out =
     (if mm_total s \<le> budget then (out, s, d)
      else
        (case mm_pop_oldest s of
           (None, s1) \<Rightarrow> (out, s1, d)
         | (Some k, s1) \<Rightarrow>
             (let (bytes, s2, d2) = evict_one k s1 d
              in mm_evict budget s2 d2 (case bytes of None \<Rightarrow> out | Some bs \<Rightarrow> out @ [(k, bs)]))))"
  by pat_completeness auto
termination
proof (relation "measure (\<lambda>(b, s, d, out). length (mm_order s))", goal_cases)
  case (2 budget s d out k' s1 k x bytes y s2 d2)
  then show ?case
    using pop_oldest_shorter [of s k s1] evict_one_order [of k s1 d] by auto (metis fst_conv snd_conv)
qed simp

declare mm_evict.simps [simp del]


text \<open>The accounting of a put, up to the budget.\<close>

definition mm_account_put :: "eviction \<Rightarrow> string \<Rightarrow> nat \<Rightarrow> u8 list option \<Rightarrow> mm_inner \<Rightarrow> mm_inner" where
  "mm_account_put ev k len mapped s =
     (let s1 = (case mapped of None \<Rightarrow> s | Some bs \<Rightarrow> s\<lparr>mm_maps := fmupd k bs (mm_maps s)\<rparr>);
          old = fmlookup (mm_sizes s1) k;
          s2 = s1\<lparr>mm_sizes := fmupd k len (mm_sizes s1),
                  mm_total := (case old of None \<Rightarrow> mm_total s1 | Some o' \<Rightarrow> saturating_sub (mm_total s1) o')\<rparr>;
          s3 = (if old = None \<or> ev = Lru then mm_insert_ticket k s2 else s2)
      in s3\<lparr>mm_total := saturating_add (mm_total s3) len\<rparr>)"

definition mmap_put ::
  "mmap_tier \<Rightarrow> string \<Rightarrow> u8 list \<Rightarrow> ((string, u8 list) displaced, io_error) result \<times> mmap_tier" where
  "mmap_put t k v =
     (let path = path_for k; tmp = tmp_for (mm_disk t) path in
      case fs_write tmp v (mm_disk t) of
        (Err e, d1) \<Rightarrow> (Err e, t\<lparr>mm_disk := d1\<rparr>)
      | (Ok _, d1) \<Rightarrow>
          (case fs_rename tmp path d1 of
             (Err e, d2) \<Rightarrow> (Err e, t\<lparr>mm_disk := d2\<rparr>)
           | (Ok _, d2) \<Rightarrow>
               (case map_file path d2 of
                  (Err e, d3) \<Rightarrow> (Err e, t\<lparr>mm_disk := d3\<rparr>)
                | (Ok mapped, d3) \<Rightarrow>
                    (let s = mm_account_put (mm_eviction t) k (length v) mapped (mm_in t) in
                     case mm_budget t of
                       None \<Rightarrow> (Ok [], t\<lparr>mm_disk := d3, mm_in := s\<rparr>)
                     | Some budget \<Rightarrow>
                         (let (out, s', d4) = mm_evict budget s d3 []
                          in (Ok out, t\<lparr>mm_disk := d4, mm_in := s'\<rparr>))))))"

definition mmap_delete :: "mmap_tier \<Rightarrow> string \<Rightarrow> (bool, io_error) result \<times> mmap_tier" where
  "mmap_delete t k =
     (let s = mm_compact_tickets (snd (mm_remove_accounting k (mm_in t))) in
      case fs_remove_file (path_for k) (mm_disk t) of
        (Ok _, d1) \<Rightarrow> (Ok True, t\<lparr>mm_in := s, mm_disk := d1\<rparr>)
      | (Err e, d1) \<Rightarrow> (if e = Not_Found then Ok False else Err e, t\<lparr>mm_in := s, mm_disk := d1\<rparr>))"

fun mmap_list_entries :: "string list \<Rightarrow> string list \<Rightarrow> disk \<Rightarrow> (string list, io_error) result \<times> disk" where
  "mmap_list_entries [] all d = (Ok all, d)"
| "mmap_list_entries (name # dir) all d =
     (case syscall (\<lambda>_ d. d) (\<lambda>d. (Ok (), d)) d of
        (Err e, d1) \<Rightarrow> (Err e, d1)
      | (Ok _, d1) \<Rightarrow>
          (case syscall (\<lambda>_ d. d) (\<lambda>d. (Ok (), d)) d1 of
             (Err e, d2) \<Rightarrow> (Err e, d2)
           | (Ok _, d2) \<Rightarrow>
               (case listed_key name of
                  None \<Rightarrow> mmap_list_entries dir all d2
                | Some k \<Rightarrow> mmap_list_entries dir (all @ [k]) d2)))"

definition mmap_list ::
  "string list \<Rightarrow> mmap_tier \<Rightarrow> nat option \<Rightarrow> nat \<Rightarrow> ((string, nat) page, io_error) result \<times> mmap_tier" where
  "mmap_list dir t cursor limit =
     (case syscall (\<lambda>_ d. d) (\<lambda>d. (Ok (), d)) (mm_disk t) of
        (Err e, d1) \<Rightarrow> (Err e, t\<lparr>mm_disk := d1\<rparr>)
      | (Ok _, d1) \<Rightarrow>
          (case mmap_list_entries dir [] d1 of
             (Err e, d2) \<Rightarrow> (Err e, t\<lparr>mm_disk := d2\<rparr>)
           | (Ok all, d2) \<Rightarrow> (Ok (page_of (sort all) cursor limit), t\<lparr>mm_disk := d2\<rparr>)))"

section \<open>The accounting is kept\<close>

lemma mm_inv_counters [simp]:
  "mm_inv (s\<lparr>mm_evictions := a, mm_evicted_bytes := b\<rparr>) = mm_inv s"
  by (simp add: mm_inv_def tickets_ok_def)

lemma remove_dropped: "mm_remove_accounting k (s\<lparr>mm_maps := fmdrop k (mm_maps s)\<rparr>) = mm_remove_accounting k s"
proof -
  have "fmdrop k (fmdrop k m) = fmdrop k m" for m :: "(string, u8 list) fmap" by (rule fmap_ext) simp
  then show ?thesis by (simp add: mm_remove_accounting_def Let_def)
qed

lemma evict_one_inner:
  "\<exists>a b. fst (snd (evict_one k s d)) = (snd (mm_remove_accounting k s))\<lparr>mm_evictions := a, mm_evicted_bytes := b\<rparr>"
proof -
  obtain x s1 where r: "mm_remove_accounting k s = (x, s1)" by fastforce
  show ?thesis
  proof (cases x)
    case None
    then show ?thesis
      by (intro exI [of _ "mm_evictions s1"] exI [of _ "mm_evicted_bytes s1"])
         (simp add: evict_one_def remove_dropped r Let_def split_def)
  next
    case (Some n)
    then show ?thesis by (auto simp: evict_one_def remove_dropped r Let_def split_def)
  qed
qed

lemma mm_evict_inv:
  assumes "mm_inv s"
  shows "mm_inv (fst (snd (mm_evict budget s d out))) \<and> mm_total (fst (snd (mm_evict budget s d out))) \<le> budget"
  using assms
proof (induction budget s d out rule: mm_evict.induct)
  case (1 budget s d out)
  show ?case
  proof (cases "mm_total s \<le> budget")
    case True
    then show ?thesis using "1.prems" by (simp add: mm_evict.simps)
  next
    case False
    obtain x s1 where p: "mm_pop_oldest s = (x, s1)" by fastforce
    show ?thesis
    proof (cases x)
      case None
      then show ?thesis using pop_oldest_None [OF "1.prems"] p False by (simp add: mm_evict.simps [of budget s])
    next
      case (Some k)
      obtain bytes s2 d2 where e: "evict_one k s1 d = (bytes, s2, d2)" by (metis prod_cases3)
      have "mm_inv s2"
        using mm_inv_pop [OF "1.prems", of k s1] p Some evict_one_inner [of k s1 d] e by auto
      then show ?thesis
        using "1.IH" [OF False p [symmetric] Some _ e [symmetric]] p Some e False
        by (simp add: mm_evict.simps [of budget s])
    qed
  qed
qed

lemma mm_inv_account_put:
  assumes "mm_inv s"
  shows "mm_inv (mm_account_put ev k len mapped s)"
proof -
  define s1 where "s1 = (case mapped of None \<Rightarrow> s | Some bs \<Rightarrow> s\<lparr>mm_maps := fmupd k bs (mm_maps s)\<rparr>)"
  have s1: "mm_sizes s1 = mm_sizes s" "mm_stamps s1 = mm_stamps s" "mm_order s1 = mm_order s" "mm_total s1 = mm_total s"
      "fmdom (mm_maps s1) |\<subseteq>| finsert k (fmdom (mm_maps s))"
    by (auto simp: s1_def split: option.split)
  define old where "old = fmlookup (mm_sizes s) k"
  define s2 where "s2 = s1\<lparr>mm_sizes := fmupd k len (mm_sizes s1),
      mm_total := (case old of None \<Rightarrow> mm_total s1 | Some o' \<Rightarrow> saturating_sub (mm_total s1) o')\<rparr>"
  define s3 where "s3 = (if old = None \<or> ev = Lru then mm_insert_ticket k s2 else s2)"
  have put: "mm_account_put ev k len mapped s = s3\<lparr>mm_total := saturating_add (mm_total s3) len\<rparr>"
    by (simp add: mm_account_put_def Let_def s1_def [symmetric] old_def s2_def s3_def s1(1))
  have t2: "tickets_ok s2" using assms by (simp add: s2_def s1 mm_inv_def tickets_ok_def)
  have dom: "fmdom (mm_stamps s3) = finsert k (fmdom (mm_stamps s))"
  proof (cases "old = None \<or> ev = Lru")
    case True
    then show ?thesis using insert_ticket_spec [OF t2, of k] by (simp add: s3_def s2_def s1)
  next
    case False
    then have "k |\<in>| fmdom (mm_sizes s)" by (cases old) (auto simp: old_def intro: fmdomI)
    then have "k |\<in>| fmdom (mm_stamps s)" using assms by (simp add: mm_inv_def)
    then show ?thesis using False by (auto simp: s3_def s2_def s1 finsert_absorb)
  qed
  have acc: "same_accounts s2 s3" using insert_ticket_spec [OF t2, of k] by (simp add: s3_def same_accounts_def)
  have t3: "tickets_ok s3" using insert_ticket_spec [OF t2, of k] t2 by (simp add: s3_def)
  have "mm_total s2 \<le> sum_sizes (fmdrop k (mm_sizes s))"
    using assms sum_sizes_drop [of "mm_sizes s" k]
    by (auto simp: s2_def s1 mm_inv_def old_def saturating_sub_def split: option.split)
  then have "saturating_add (mm_total s3) len \<le> sum_sizes (mm_sizes s3)"
    using acc saturating_add_le [of "mm_total s2" len] by (simp add: same_accounts_def s2_def s1 sum_sizes_upd)
  moreover have "fmdom (mm_maps s3) |\<subseteq>| fmdom (mm_sizes s3)" "fmdom (mm_stamps s3) = fmdom (mm_sizes s3)"
    using acc dom s1 assms by (auto simp: same_accounts_def s2_def mm_inv_def)
  ultimately show ?thesis using t3 unfolding put mm_inv_def by (simp add: tickets_ok_def)
qed

lemma mmap_get_inv: "mm_inv (mm_in t) \<Longrightarrow> mm_inv (mm_in (snd (mmap_get t k)))"
proof -
  assume ivt: "mm_inv (mm_in t)"
  have "mm_inv ((mm_in t)\<lparr>mm_maps := fmupd k bs (mm_maps (mm_in t))\<rparr>)" if "hm_contains (mm_sizes (mm_in t)) k" for bs
    using ivt that by (auto simp: mm_inv_def tickets_ok_def hm_contains_iff)
  then show ?thesis
    using ivt by (auto simp: mmap_get_def mm_inv_touch Let_def split: option.split prod.split sum.split)
qed

lemma mmap_put_inv:
  assumes "mm_inv (mm_in t)"
  shows "mm_inv (mm_in (snd (mmap_put t k v))) \<and> mm_budget (snd (mmap_put t k v)) = mm_budget t \<and>
    (\<forall>b ds. mm_budget t = Some b \<and> fst (mmap_put t k v) = Ok ds \<longrightarrow> mmap_disk_usage (snd (mmap_put t k v)) \<le> b)"
  using assms mm_inv_account_put [OF assms] mm_evict_inv [OF mm_inv_account_put [OF assms]]
  by (auto simp: mmap_put_def Let_def split_def mmap_disk_usage_def split: option.split prod.split sum.split)

lemma mmap_delete_inv: "mm_inv (mm_in t) \<Longrightarrow> mm_inv (mm_in (snd (mmap_delete t k)))"
  by (auto simp: mmap_delete_def Let_def mm_inv_compact mm_inv_remove split: prod.split sum.split)

lemma mmap_clear_inv: "mm_inv (mm_in (snd (mmap_clear dir t)))"
  by (auto simp: mmap_clear_def Let_def mm_inv_def tickets_ok_def split: prod.split sum.split)

section \<open>The accounting is exact\<close>

lemma account_put_fields:
  assumes "mm_inv s"
  shows "mm_sizes (mm_account_put ev k len mapped s) = fmupd k len (mm_sizes s)"
    and "mm_total (mm_account_put ev k len mapped s) =
      saturating_add (mm_total s - (case fmlookup (mm_sizes s) k of None \<Rightarrow> 0 | Some n \<Rightarrow> n)) len"
    and "mm_maps (mm_account_put ev k len mapped s) =
      (case mapped of None \<Rightarrow> mm_maps s | Some bs \<Rightarrow> fmupd k bs (mm_maps s))"
proof -
  let ?m = "case mapped of None \<Rightarrow> mm_maps s | Some bs \<Rightarrow> fmupd k bs (mm_maps s)"
  let ?s2 = "\<lambda>x. s\<lparr>mm_maps := ?m, mm_sizes := fmupd k len (mm_sizes s), mm_total := x\<rparr>"
  have "tickets_ok (?s2 x)" for x using assms by (simp add: mm_inv_def tickets_ok_def)
  then have i: "same_accounts (?s2 x) (mm_insert_ticket k (?s2 x))" for x
    using insert_ticket_spec [of "?s2 x" k] by blast
  show "mm_sizes (mm_account_put ev k len mapped s) = fmupd k len (mm_sizes s)"
    using i by (cases mapped) (auto simp: mm_account_put_def Let_def same_accounts_def)
  show "mm_total (mm_account_put ev k len mapped s) =
      saturating_add (mm_total s - (case fmlookup (mm_sizes s) k of None \<Rightarrow> 0 | Some n \<Rightarrow> n)) len"
    using i by (cases mapped) (auto simp: mm_account_put_def Let_def same_accounts_def saturating_sub_def split: option.split)
  show "mm_maps (mm_account_put ev k len mapped s) = ?m"
    using i by (cases mapped) (auto simp: mm_account_put_def Let_def same_accounts_def)
qed

lemma mm_exact_account_put:
  assumes "mm_inv s" "mm_exact s" "sum_sizes (mm_sizes s) + len \<le> usize_max"
  shows "mm_exact (mm_account_put ev k len mapped s)"
proof -
  let ?rest = "sum_sizes (fmdrop k (mm_sizes s))"
  have "mm_total s - (case fmlookup (mm_sizes s) k of None \<Rightarrow> 0 | Some n \<Rightarrow> n) = ?rest"
    using assms(2) sum_sizes_drop [of "mm_sizes s" k] by (simp add: mm_exact_def)
  moreover have "?rest + len \<le> usize_max" using assms(3) sum_sizes_drop_le [of k "mm_sizes s"] by simp
  ultimately show ?thesis
    using account_put_fields [OF assms(1)] by (simp add: mm_exact_def sum_sizes_upd saturating_add_exact)
qed

lemma mm_evict_exact:
  "mm_inv s \<Longrightarrow> mm_exact s \<Longrightarrow> mm_exact (fst (snd (mm_evict budget s d out)))"
proof (induction budget s d out rule: mm_evict.induct)
  case (1 budget s d out)
  show ?case
  proof (cases "mm_total s \<le> budget")
    case True
    then show ?thesis using "1.prems" by (simp add: mm_evict.simps)
  next
    case False
    obtain x s1 where p: "mm_pop_oldest s = (x, s1)" by fastforce
    show ?thesis
    proof (cases x)
      case None
      moreover have "same_accounts s s1"
        using p None by (auto simp: mm_pop_oldest_def same_accounts_def split: prod.splits)
      ultimately show ?thesis using p False "1.prems" by (simp add: mm_evict.simps [of budget s] mm_exact_same)
    next
      case (Some k)
      obtain bytes s2 d2 where e: "evict_one k s1 d = (bytes, s2, d2)" by (metis prod_cases3)
      obtain a b where s2: "s2 = (snd (mm_remove_accounting k s1))\<lparr>mm_evictions := a, mm_evicted_bytes := b\<rparr>"
        using evict_one_inner [of k s1 d] e by auto
      note pop = mm_inv_pop [OF "1.prems"(1), of k s1, unfolded p Some, OF refl]
      have "mm_exact s1" using pop "1.prems"(2) mm_exact_same by blast
      then have "mm_exact s2" using mm_exact_remove [of s1 k] by (simp add: s2 mm_exact_def)
      moreover have "mm_inv s2" using pop by (simp add: s2)
      ultimately show ?thesis
        using "1.IH" [OF False p [symmetric] Some _ e [symmetric]] p Some e False
        by (simp add: mm_evict.simps [of budget s])
    qed
  qed
qed

lemma mm_exact_get:
  assumes "mm_inv (mm_in t)" "mm_exact (mm_in t)"
  shows "mm_exact (mm_in (snd (mmap_get t k)))"
proof -
  have touch: "mm_exact (mm_touch k s) = mm_exact s" if "tickets_ok s" for s
    using insert_ticket_spec [OF that, of k] mm_exact_same by (auto simp: mm_touch_def)
  have "tickets_ok ((mm_in t)\<lparr>mm_maps := m\<rparr>)" for m using assms(1) by (simp add: mm_inv_def tickets_ok_def)
  then have "mm_exact (mm_touch k ((mm_in t)\<lparr>mm_maps := m\<rparr>))" for m
    using touch assms(2) by (simp add: mm_exact_def)
  moreover have "mm_exact (mm_touch k (mm_in t))" using touch assms by (simp add: mm_inv_def)
  ultimately show ?thesis
    using assms(2) by (auto simp: mmap_get_def Let_def mm_exact_def split: option.split prod.split sum.split)
qed

lemma mm_exact_put:
  assumes "mm_inv (mm_in t)" "mm_exact (mm_in t)" "sum_sizes (mm_sizes (mm_in t)) + length v \<le> usize_max"
  shows "mm_exact (mm_in (snd (mmap_put t k v)))"
  using assms(2) mm_exact_account_put [OF assms] mm_evict_exact [OF mm_inv_account_put [OF assms(1)] mm_exact_account_put [OF assms]]
  by (auto simp: mmap_put_def Let_def split_def split: option.split prod.split sum.split)

lemma mm_exact_delete: "mm_inv (mm_in t) \<Longrightarrow> mm_exact (mm_in t) \<Longrightarrow> mm_exact (mm_in (snd (mmap_delete t k)))"
proof -
  assume a: "mm_inv (mm_in t)" "mm_exact (mm_in t)"
  let ?s = "snd (mm_remove_accounting k (mm_in t))"
  have "same_accounts ?s (mm_compact_tickets ?s)"
    using compact_spec [of ?s] mm_inv_remove [OF a(1), of k] by (simp add: mm_inv_def)
  then have "mm_exact (mm_compact_tickets ?s)" using mm_exact_same mm_exact_remove [OF a(2)] by blast
  with a(2) show "mm_exact (mm_in (snd (mmap_delete t k)))"
    by (auto simp: mmap_delete_def Let_def split: prod.split sum.split)
qed

lemma mm_exact_clear: "mm_exact (mm_in (snd (mmap_clear dir t)))"
  by (auto simp: mmap_clear_def Let_def mm_exact_def split: prod.split sum.split)

end
