(* ===== verification/Mmap_Contract.thy ===== *)
theory Mmap_Contract
  imports Mmap_Tier
begin

text \<open>
  The tier of memory-mapped files keeps the tier contract: while no system call fails, it is a
  reliable tier whose contents are its files. Every overflow of the budget comes back as displaced
  entries. The invariant adds to the accounting that a retained mapping is what its file holds and
  that the accounted size of a key is the length of its file.
\<close>

section \<open>Operations without faults\<close>

definition sizes_match :: "mm_inner \<Rightarrow> disk \<Rightarrow> bool" where
  "sizes_match s d \<longleftrightarrow> disk_contents d [] = None \<and>
     (\<forall>k. fmlookup (mm_sizes s) k = map_option length (disk_contents d k))"

lemma sizes_match_Nil: "sizes_match s d \<Longrightarrow> fmlookup (mm_sizes s) [] = None"
  by (simp add: sizes_match_def)

definition mm_sound :: "mmap_tier \<Rightarrow> bool" where
  "mm_sound t \<longleftrightarrow> dk_faults (mm_disk t) = [] \<and> mm_inv (mm_in t) \<and> sizes_match (mm_in t) (mm_disk t) \<and>
     (\<forall>k bs. fmlookup (mm_maps (mm_in t)) k = Some bs \<longrightarrow> disk_contents (mm_disk t) k = Some bs)"

definition mm_contents :: "mmap_tier \<Rightarrow> (string \<rightharpoonup> u8 list)" where
  "mm_contents t = disk_contents (mm_disk t)"

lemma map_file_sound:
  "dk_faults d = [] \<Longrightarrow> k \<noteq> [] \<Longrightarrow> map_file (path_for k) d = (Ok (disk_contents d k), d)"
  by (auto simp: map_file_def fs_open_def syscall_eq disk_contents_def split: option.split handle.split)

lemma remove_file_sound:
  assumes "dk_faults d = []" "k \<noteq> []"
  shows "dk_faults (snd (fs_remove_file (path_for k) d)) = [] \<and>
    disk_contents (snd (fs_remove_file (path_for k) d)) = (disk_contents d)(k := None) \<and>
    fst (fs_remove_file (path_for k) d) = (if disk_contents d k = None then Err Not_Found else Ok ())"
  using assms
  by (auto simp: fs_remove_file_def syscall_eq disk_contents_def fun_eq_iff split: option.splits)

lemma mm_touch_accounts: "tickets_ok s \<Longrightarrow> same_accounts s (mm_touch k s)"
  using insert_ticket_spec [of s k] by (simp add: mm_touch_def same_accounts_def)

lemma mm_sound_in:
  assumes "mm_sound t" "same_accounts (mm_in t) s" "mm_inv s"
  shows "mm_sound (t\<lparr>mm_in := s\<rparr>)"
  using assms by (simp add: mm_sound_def same_accounts_def sizes_match_def)

lemma mmap_get_sound:
  assumes "mm_sound t" "k \<noteq> []"
  shows "fst (mmap_get t k) = Ok (mm_contents t k) \<and> mm_sound (snd (mmap_get t k)) \<and>
    mm_contents (snd (mmap_get t k)) = mm_contents t"
proof (cases "fmlookup (mm_maps (mm_in t)) k")
  case (Some bs)
  have t: "tickets_ok (mm_in t)" "mm_inv (mm_in t)" using assms(1) by (simp_all add: mm_sound_def mm_inv_def)
  then show ?thesis
    using assms(1) Some mm_sound_in [OF assms(1) mm_touch_accounts [OF t(1), of k] mm_inv_touch [OF t(2)]]
    by (auto simp: mmap_get_def mm_contents_def mm_sound_def)
next
  case None
  have f: "dk_faults (mm_disk t) = []" using assms(1) by (simp add: mm_sound_def)
  note m = map_file_sound [OF f assms(2)]
  have dk: "t\<lparr>mm_disk := mm_disk t\<rparr> = t" by simp
  show ?thesis
  proof (cases "disk_contents (mm_disk t) k")
    case None
    with m \<open>fmlookup (mm_maps (mm_in t)) k = None\<close> assms(1) show ?thesis
      by (simp add: mmap_get_def mm_contents_def)
  next
    case (Some bs)
    let ?s = "(mm_in t)\<lparr>mm_maps := fmupd k bs (mm_maps (mm_in t))\<rparr>"
    have s: "mm_sound (t\<lparr>mm_in := ?s\<rparr>)" if "hm_contains (mm_sizes (mm_in t)) k"
      using assms(1) that Some by (auto simp: mm_sound_def sizes_match_def mm_inv_def tickets_ok_def hm_contains_iff)
    then have "mm_sound (t\<lparr>mm_in := mm_touch k ?s\<rparr>)" if "hm_contains (mm_sizes (mm_in t)) k"
      using mm_sound_in [OF s [OF that], of "mm_touch k ?s"] that mm_touch_accounts [of ?s k] mm_inv_touch [of ?s k]
      by (auto simp: mm_sound_def mm_inv_def)
    with m Some None s assms(1) show ?thesis
      by (auto simp: mmap_get_def mm_contents_def Let_def)
  qed
qed

lemma mmap_exists_sound:
  assumes "mm_sound t" "k \<noteq> []"
  shows "mmap_exists t k = (Ok (mm_contents t k \<noteq> None), t)"
  using assms
  by (auto simp: mmap_exists_def mm_sound_def mm_contents_def disk_contents_def hm_contains_def
      fs_try_exists_def syscall_eq)

lemma mmap_delete_sound:
  assumes "mm_sound t" "k \<noteq> []"
  shows "fst (mmap_delete t k) = Ok (mm_contents t k \<noteq> None) \<and> mm_sound (snd (mmap_delete t k)) \<and>
    mm_contents (snd (mmap_delete t k)) = (mm_contents t)(k := None)"
proof -
  let ?s = "mm_compact_tickets (snd (mm_remove_accounting k (mm_in t)))"
  have f: "dk_faults (mm_disk t) = []" and ivt: "mm_inv (mm_in t)" using assms(1) by (simp_all add: mm_sound_def)
  note r = remove_file_sound [OF f assms(2)]
  have i: "mm_inv ?s" by (rule mm_inv_compact [OF mm_inv_remove [OF ivt]])
  have a: "mm_maps ?s = fmdrop k (mm_maps (mm_in t))"
      "fmlookup (mm_sizes ?s) j = (if j = k then None else fmlookup (mm_sizes (mm_in t)) j)" for j
    by (auto simp: mm_compact_tickets_def mm_remove_accounting_def Let_def split: option.split)
  have "mm_sound (t\<lparr>mm_in := ?s, mm_disk := snd (fs_remove_file (path_for k) (mm_disk t))\<rparr>)"
    using r i a assms(1) by (auto simp: mm_sound_def sizes_match_def split: if_splits)
  with r show ?thesis
    by (cases "fs_remove_file (path_for k) (mm_disk t)")
       (auto simp: mmap_delete_def Let_def mm_contents_def split: if_splits sum.split)
qed

section \<open>Eviction gives everything back\<close>

text \<open>The state of the loop: index and disk, with no faults and consistent mappings.\<close>

definition mm_pair :: "mm_inner \<Rightarrow> disk \<Rightarrow> bool" where
  "mm_pair s d \<longleftrightarrow> dk_faults d = [] \<and> mm_inv s \<and> sizes_match s d \<and>
     (\<forall>k bs. fmlookup (mm_maps s) k = Some bs \<longrightarrow> disk_contents d k = Some bs)"

lemma mm_sound_pair: "mm_sound t \<longleftrightarrow> mm_pair (mm_in t) (mm_disk t)"
  by (simp add: mm_sound_def mm_pair_def)

lemma evict_one_sound:
  assumes p: "mm_pair s d" and k: "mm_pop_oldest s = (Some k, s1)" and e: "evict_one k s1 d = (bytes, s2, d2)"
  shows "bytes = disk_contents d k \<and> disk_contents d2 = (disk_contents d)(k := None) \<and> mm_pair s2 d2 \<and> k \<noteq> []"
proof -
  have ivt: "mm_inv s" and f: "dk_faults d = []" using p by (simp_all add: mm_pair_def)
  note pop = mm_inv_pop [OF ivt k]
  have ne: "k \<noteq> []" using pop p sizes_match_Nil by (auto simp: mm_pair_def)
  note m = map_file_sound [OF f ne] and r = remove_file_sound [OF f ne]
  have maps: "fmlookup (mm_maps s1) k = Some bs \<Longrightarrow> disk_contents d k = Some bs" for bs
    using p pop by (simp add: mm_pair_def same_accounts_def)
  have b: "bytes = disk_contents d k" and d2: "d2 = snd (fs_remove_file (path_for k) d)"
    using e m maps by (auto simp: evict_one_def Let_def split_def split: option.splits)
  obtain x y where s2: "s2 = (snd (mm_remove_accounting k s1))\<lparr>mm_evictions := x, mm_evicted_bytes := y\<rparr>"
    using evict_one_inner [of k s1 d] e by auto
  have maps2: "mm_maps s2 = fmdrop k (mm_maps s1)"
      "fmlookup (mm_sizes s2) j = (if j = k then None else fmlookup (mm_sizes s) j)" for j
    using pop unfolding s2 by (auto simp: mm_remove_accounting_def same_accounts_def Let_def split: option.split)
  have "mm_pair s2 d2"
    using r pop maps2 p s2 unfolding d2 by (auto simp: mm_pair_def sizes_match_def same_accounts_def split: if_splits)
  with b d2 r ne show ?thesis by simp
qed

lemma mm_evict_conserves:
  assumes "mm_pair s d" "mm_evict budget s d out = (out', s', d')" "[] \<notin> fst ` set out"
  shows "mm_pair s' d' \<and> pend out' ++ disk_contents d' = pend out ++ disk_contents d \<and> [] \<notin> fst ` set out'"
  using assms
proof (induction budget s d out rule: mm_evict.induct)
  case (1 budget s d out)
  show ?case
  proof (cases "mm_total s \<le> budget")
    case True
    then show ?thesis using "1.prems" by (simp add: mm_evict.simps)
  next
    case False
    obtain x s1 where p: "mm_pop_oldest s = (x, s1)" by fastforce
    show ?thesis
    proof (cases x)
      case None
      then have "mm_inv s1" "same_accounts s s1"
        using pop_oldest_None [of s s1] "1.prems"(1) p
        by (auto simp: mm_pair_def mm_pop_oldest_def same_accounts_def split: prod.splits)
      then show ?thesis
        using None p False "1.prems" by (auto simp: mm_evict.simps [of budget s] mm_pair_def same_accounts_def sizes_match_def)
    next
      case (Some k)
      obtain bytes s2 d2 where e: "evict_one k s1 d = (bytes, s2, d2)" by (metis prod_cases3)
      let ?out = "case bytes of None \<Rightarrow> out | Some bs \<Rightarrow> out @ [(k, bs)]"
      have v: "bytes = disk_contents d k" "disk_contents d2 = (disk_contents d)(k := None)" "mm_pair s2 d2" "k \<noteq> []"
        using evict_one_sound [OF "1.prems"(1), of k s1] p Some e by blast+
      have step: "mm_evict budget s d out = mm_evict budget s2 d2 ?out"
        using p Some e False by (simp add: mm_evict.simps [of budget s])
      have ne: "[] \<notin> fst ` set ?out" using "1.prems"(3) v(4) by (auto split: option.split)
      have "pend ?out ++ disk_contents d2 = pend out ++ disk_contents d"
        using v(1,2) by (cases bytes) (auto simp: fun_eq_iff map_add_def pend_def split: option.split)
      then show ?thesis
        using "1.IH" [OF False p [symmetric] Some _ e [symmetric] _ v(3)] "1.prems"(2) step ne by simp
    qed
  qed
qed


lemma write_rename_sound:
  assumes "dk_faults d = []" "k \<noteq> []"
  obtains d1 d2 where "fs_write (tmp_for d (path_for k)) v d = (Ok (), d1)"
    "fs_rename (tmp_for d (path_for k)) (path_for k) d1 = (Ok (), d2)" "dk_faults d2 = []"
    "disk_contents d2 = (disk_contents d)(k \<mapsto> v)"
proof -
  let ?d1 = "set_file (tmp_for d (path_for k)) v d"
  have w: "fs_write (tmp_for d (path_for k)) v d = (Ok (), ?d1)"
    using assms by (simp add: fs_write_def syscall_eq tmp_for_def)
  obtain d2 where n: "fs_rename (tmp_for d (path_for k)) (path_for k) ?d1 = (Ok (), d2)" "dk_faults d2 = []"
    using assms by (simp add: fs_rename_def syscall_eq tmp_for_def)
  have "disk_contents d2 = (disk_contents d)(k \<mapsto> v)"
    using fs_rename_tmp [OF n(1)] fs_write_tmp [OF w] by simp
  with w n show thesis by (rule that)
qed

lemma account_put_accounts:
  assumes "mm_inv s"
  shows "mm_maps (mm_account_put ev k len (Some v) s) = fmupd k v (mm_maps s)"
    and "mm_sizes (mm_account_put ev k len (Some v) s) = fmupd k len (mm_sizes s)"
proof -
  let ?s2 = "\<lambda>x. s\<lparr>mm_maps := fmupd k v (mm_maps s), mm_sizes := fmupd k len (mm_sizes s), mm_total := x\<rparr>"
  have t: "tickets_ok (?s2 x)" for x using assms by (simp add: mm_inv_def tickets_ok_def)
  have i: "same_accounts (?s2 x) (mm_insert_ticket k (?s2 x))" for x
    using insert_ticket_spec [OF t [of x], of k] by blast
  show "mm_maps (mm_account_put ev k len (Some v) s) = fmupd k v (mm_maps s)"
    using i by (auto simp: mm_account_put_def Let_def same_accounts_def)
qed (rule account_put_fields(1) [OF assms])

lemma mmap_put_sound:
  assumes "mm_sound t" "k \<noteq> []"
  shows "\<exists>out t'. mmap_put t k v = (Ok out, t') \<and> mm_sound t' \<and> [] \<notin> fst ` set out \<and>
    pend out ++ mm_contents t' = (mm_contents t)(k \<mapsto> v)"
proof -
  let ?d = "mm_disk t" and ?s = "mm_account_put (mm_eviction t) k (length v) (Some v) (mm_in t)"
  have f: "dk_faults ?d = []" and ivt: "mm_inv (mm_in t)" using assms(1) by (simp_all add: mm_sound_def)
  obtain d1 d2 where w: "fs_write (tmp_for ?d (path_for k)) v ?d = (Ok (), d1)"
      "fs_rename (tmp_for ?d (path_for k)) (path_for k) d1 = (Ok (), d2)" "dk_faults d2 = []"
      "disk_contents d2 = (disk_contents ?d)(k \<mapsto> v)"
    by (rule write_rename_sound [OF f assms(2)])
  have m: "map_file (path_for k) d2 = (Ok (Some v), d2)" using map_file_sound [OF w(3) assms(2)] w(4) by simp
  have p: "mm_pair ?s d2"
    using assms w(3,4) mm_inv_account_put [OF ivt] account_put_accounts [OF ivt]
    by (auto simp: mm_pair_def mm_sound_def sizes_match_def)
  show ?thesis
  proof (cases "mm_budget t")
    case None
    then show ?thesis
      using w m p by (simp add: mmap_put_def Let_def mm_sound_pair mm_contents_def)
  next
    case (Some b)
    obtain out s' d' where e: "mm_evict b ?s d2 [] = (out, s', d')" by (metis prod_cases3)
    from mm_evict_conserves [OF p e] Some w m e show ?thesis
      by (simp add: mmap_put_def Let_def mm_sound_pair mm_contents_def)
  qed
qed

section \<open>The contract\<close>

definition named_displaced :: "(string, 'v) displaced \<Rightarrow> (file_key, 'v) displaced" where
  "named_displaced d = map (apfst file_key) d"

lemma pend_named:
  assumes "[] \<notin> fst ` set d"
  shows "pend (named_displaced d) k = pend d (key_of k)"
proof -
  have "\<forall>e \<in> set d. fst e \<noteq> []" using assms by force
  then have "map_of (map (apfst file_key) (rev d)) k = map_of (rev d) (key_of k)"
  proof (induction d rule: rev_induct)
    case (snoc e d)
    then have "file_key (fst e) = k \<longleftrightarrow> fst e = key_of k"
      using file_key_inverse [of "fst e"] key_of_inverse [of k] by auto
    with snoc show ?case by (cases e) auto
  qed simp
  then show ?thesis by (simp add: pend_def named_displaced_def rev_map)
qed

definition mmap_ops :: "(mmap_tier, file_key, u8 list, io_error) tier_ops" where
  "mmap_ops =
     \<lparr>t_name = (\<lambda>_. ''mmap-disk''),
      t_get = (\<lambda>t k. mmap_get t (key_of k)),
      t_exists = (\<lambda>t k. mmap_exists t (key_of k)),
      t_get_many = get_many_default (\<lambda>t k. mmap_get t (key_of k)),
      t_put = (\<lambda>t k v. apfst (map_sum id named_displaced) (mmap_put t (key_of k) v)),
      t_delete = (\<lambda>t k. mmap_delete t (key_of k)),
      t_put_many = put_many_default (\<lambda>t k v. apfst (map_sum id named_displaced) (mmap_put t (key_of k) v)),
      t_delete_many = delete_many_default (\<lambda>t k. mmap_delete t (key_of k))\<rparr>"

definition sound_mmap :: "(mmap_tier, file_key, u8 list, io_error) tier_ops \<Rightarrow> mmap_tier \<Rightarrow> bool" where
  "sound_mmap ops t \<longleftrightarrow> ops = mmap_ops \<and> mm_sound t"

definition mmap_con :: "mmap_tier \<Rightarrow> (file_key \<rightharpoonup> u8 list)" where
  "mmap_con t k = mm_contents t (key_of k)"

lemma mmap_put_ops:
  assumes "sound_mmap t s"
  shows "\<exists>d s'. t_put t s k v = (Ok d, s') \<and> sound_mmap t s' \<and> pend d ++ mmap_con s' = mmap_con s ++ [k \<mapsto> v]"
proof -
  have t: "t = mmap_ops" "mm_sound s" using assms by (simp_all add: sound_mmap_def)
  obtain out s' where p: "mmap_put s (key_of k) v = (Ok out, s')" "mm_sound s'" "[] \<notin> fst ` set out"
      "pend out ++ mm_contents s' = (mm_contents s)(key_of k \<mapsto> v)"
    using mmap_put_sound [OF t(2) key_of_nonempty] by blast
  have "(pend (named_displaced out) ++ mmap_con s') j = (mmap_con s ++ [k \<mapsto> v]) j" for j
    using fun_cong [OF p(4), of "key_of j"] pend_named [OF p(3), of j]
    by (auto simp: map_add_def mmap_con_def key_of_inject split: option.splits)
  then have "pend (named_displaced out) ++ mmap_con s' = mmap_con s ++ [k \<mapsto> v]" by (rule ext)
  with p t show ?thesis by (simp add: mmap_ops_def sound_mmap_def)
qed

interpretation mmap: reliable_default sound_mmap "\<lambda>_. mmap_con"
proof
  fix t and s :: mmap_tier and k v
  assume i: "sound_mmap t s"
  then have t: "t = mmap_ops" "mm_sound s" by (simp_all add: sound_mmap_def)
  note get = mmap_get_sound [OF t(2) key_of_nonempty, of k]
  note ex = mmap_exists_sound [OF t(2) key_of_nonempty, of k]
  note del = mmap_delete_sound [OF t(2) key_of_nonempty, of k]
  note put = mmap_put_ops [OF i, of k v]
  show "sound_mmap t (snd (t_get t s k))" "mmap_con (snd (t_get t s k)) = mmap_con s" "is_ok (fst (t_get t s k))"
    using get t by (auto simp: sound_mmap_def mmap_ops_def mmap_con_def)
  show "x = mmap_con s k" if "fst (t_get t s k) = Ok x" for x
    using get t that by (simp add: mmap_ops_def mmap_con_def)
  show "sound_mmap t (snd (t_exists t s k))" "mmap_con (snd (t_exists t s k)) = mmap_con s"
    "is_ok (fst (t_exists t s k))"
    using ex i t by (simp_all add: mmap_ops_def)
  show "b \<longleftrightarrow> mmap_con s k \<noteq> None" if "fst (t_exists t s k) = Ok b" for b
    using ex t that by (auto simp: mmap_ops_def mmap_con_def)
  show "sound_mmap t (snd (t_put t s k v))" "is_ok (fst (t_put t s k v))" using put by auto
  show "pend d ++ mmap_con (snd (t_put t s k v)) = mmap_con s ++ [k \<mapsto> v]" if "fst (t_put t s k v) = Ok d" for d
    using put that by auto
  show "sound_mmap t (snd (t_delete t s k))" "is_ok (fst (t_delete t s k))"
    using del t by (auto simp: sound_mmap_def mmap_ops_def)
  fix b assume b: "fst (t_delete t s k) = Ok b"
  show "mmap_con (snd (t_delete t s k)) = (mmap_con s)(k := None)"
    using del t by (auto simp: mmap_ops_def mmap_con_def fun_eq_iff key_of_inject)
  show "b \<longleftrightarrow> mmap_con s k \<noteq> None" using del t b by (auto simp: mmap_ops_def mmap_con_def)
qed (simp_all add: sound_mmap_def mmap_ops_def)

section \<open>Histories\<close>

lemma mm_inv_account_found:
  assumes "mm_inv s" "fmlookup (mm_sizes s) k = None"
  shows "mm_inv (account_found (k, len, m) s)"
    and "fmdom (mm_sizes (account_found (k, len, m) s)) = finsert k (fmdom (mm_sizes s))"
    and "sum_sizes (mm_sizes (account_found (k, len, m) s)) = sum_sizes (mm_sizes s) + len"
    and "mm_exact s \<Longrightarrow> sum_sizes (mm_sizes s) + len \<le> usize_max \<Longrightarrow> mm_exact (account_found (k, len, m) s)"
proof -
  let ?s = "s\<lparr>mm_total := saturating_add (mm_total s) len, mm_sizes := fmupd k len (mm_sizes s)\<rparr>"
  have t: "tickets_ok ?s" using assms(1) by (simp add: mm_inv_def tickets_ok_def)
  note i = insert_ticket_spec [OF t, of k]
  have "fmdrop k (mm_sizes s) = mm_sizes s" using assms(2) by (intro fmap_ext) simp
  then have sum: "sum_sizes (fmupd k len (mm_sizes s)) = sum_sizes (mm_sizes s) + len"
    by (simp add: sum_sizes_upd)
  then have "saturating_add (mm_total s) len \<le> sum_sizes (fmupd k len (mm_sizes s))"
    using assms(1) saturating_add_le [of "mm_total s" len] by (simp add: mm_inv_def)
  then show "mm_inv (account_found (k, len, m) s)"
    "fmdom (mm_sizes (account_found (k, len, m) s)) = finsert k (fmdom (mm_sizes s))"
    using i assms(1) by (auto simp: account_found_def mm_inv_def same_accounts_def)
  show "sum_sizes (mm_sizes (account_found (k, len, m) s)) = sum_sizes (mm_sizes s) + len"
    using i sum by (simp add: account_found_def same_accounts_def)
  show "mm_exact (account_found (k, len, m) s)" if "mm_exact s" "sum_sizes (mm_sizes s) + len \<le> usize_max"
    using i sum that by (simp add: account_found_def same_accounts_def mm_exact_def saturating_add_exact)
qed

lemma mm_inv_scan:
  assumes "distinct (map fst found)" "mm_inv s" "\<forall>k \<in> set (map fst found). fmlookup (mm_sizes s) k = None"
  shows "mm_inv (fold account_found found s) \<and>
    sum_sizes (mm_sizes s) \<le> sum_sizes (mm_sizes (fold account_found found s)) \<and>
    (mm_exact s \<longrightarrow> sum_sizes (mm_sizes (fold account_found found s)) \<le> usize_max \<longrightarrow>
      mm_exact (fold account_found found s))"
  using assms
proof (induction found arbitrary: s)
  case (Cons e found)
  obtain k len m where e: "e = (k, len, m)" by (metis prod_cases3)
  have fresh: "fmlookup (mm_sizes s) k = None" using Cons.prems by (simp add: e)
  note a = mm_inv_account_found [OF Cons.prems(2) fresh, of len m]
  have "\<forall>j \<in> set (map fst found). fmlookup (mm_sizes (account_found e s)) j = None"
  proof
    fix j assume "j \<in> set (map fst found)"
    then have "j \<noteq> k" "fmlookup (mm_sizes s) j = None" using Cons.prems by (auto simp: e)
    then have "j |\<notin>| fmdom (mm_sizes (account_found e s))" using a(2) by (simp add: e fmdom_notI)
    then show "fmlookup (mm_sizes (account_found e s)) j = None" by (rule fmdom_notD)
  qed
  then have "mm_inv (fold account_found found (account_found e s)) \<and>
    sum_sizes (mm_sizes (account_found e s)) \<le> sum_sizes (mm_sizes (fold account_found found (account_found e s))) \<and>
    (mm_exact (account_found e s) \<longrightarrow>
      sum_sizes (mm_sizes (fold account_found found (account_found e s))) \<le> usize_max \<longrightarrow>
      mm_exact (fold account_found found (account_found e s)))"
    using Cons.IH [of "account_found e s"] Cons.prems a(1) by (simp add: e)
  then show ?case using a(3,4) by (auto simp: e)
qed simp

text \<open>The keys a scan finds are among those that the directory's names decode to.\<close>

lemma scan_entries_keys:
  "scan_entries dir found d = (Ok found', d') \<Longrightarrow> distinct (map fst found @ List.map_filter (listed_key \<circ> fst) dir) \<Longrightarrow>
   distinct (map fst found')"
proof (induction dir found d rule: scan_entries.induct)
  case (2 name modified dir found d)
  let ?c = "\<lambda>d. syscall (\<lambda>_ d. d) (\<lambda>d. (Ok (), d)) d"
  obtain d1 where c1: "?c d = (Ok (), d1)" using "2.prems"(1) by (auto split: prod.splits sum.splits)
  show ?case
  proof (cases "listed_key name")
    case None
    then show ?thesis using "2.IH"(1) [OF c1 [symmetric] refl None] "2.prems" c1 by simp
  next
    case (Some k)
    obtain d2 where c2: "?c d1 = (Ok (), d2)"
      using "2.prems"(1) c1 Some by (auto split: prod.splits sum.splits)
    show ?thesis
    proof (cases "fmlookup (dk_files d2) name")
      case None
      then show ?thesis
        using "2.IH"(2) [OF c1 [symmetric] refl Some c2 [symmetric] refl None] "2.prems" c1 c2 Some by simp
    next
      case (Some bs)
      then show ?thesis
        using "2.IH"(3) [OF c1 [symmetric] refl \<open>listed_key name = Some k\<close> c2 [symmetric] refl Some]
          "2.prems" c1 c2 \<open>listed_key name = Some k\<close> by simp
    qed
  qed
qed simp

text \<open>
  The states of a bounded tier: opened over any directory whose entries decode to distinct keys, and
  used in any way, with any faults. The files together never have more than \<open>usize::MAX\<close> bytes.
\<close>

inductive mmap_reachable :: "nat \<Rightarrow> mmap_tier \<Rightarrow> bool" for budget where
  opened: "mmap_open_bounded dir d budget = Ok t \<Longrightarrow> distinct (List.map_filter (listed_key \<circ> fst) dir) \<Longrightarrow>
     sum_sizes (mm_sizes (mm_in t)) \<le> usize_max \<Longrightarrow> mmap_reachable budget t"
| eviction: "mmap_reachable budget t \<Longrightarrow> mmap_reachable budget (mmap_with_eviction ev t)"
| get: "mmap_reachable budget t \<Longrightarrow> mmap_reachable budget (snd (mmap_get t k))"
| exists: "mmap_reachable budget t \<Longrightarrow> mmap_reachable budget (snd (mmap_exists t k))"
| read_range: "mmap_reachable budget t \<Longrightarrow> mmap_reachable budget (snd (mmap_read_range t k a b))"
| put: "mmap_reachable budget t \<Longrightarrow> sum_sizes (mm_sizes (mm_in t)) + length v \<le> usize_max \<Longrightarrow>
     mmap_reachable budget (snd (mmap_put t k v))"
| delete: "mmap_reachable budget t \<Longrightarrow> mmap_reachable budget (snd (mmap_delete t k))"
| list: "mmap_reachable budget t \<Longrightarrow> mmap_reachable budget (snd (mmap_list dir t cursor limit))"
| clear: "mmap_reachable budget t \<Longrightarrow> mmap_reachable budget (snd (mmap_clear dir t))"

lemma mm_inv_opened:
  assumes "mmap_open_bounded dir d budget = Ok t" "distinct (List.map_filter (listed_key \<circ> fst) dir)"
  shows "mm_inv (mm_in t) \<and> mm_budget t = Some budget \<and>
    (sum_sizes (mm_sizes (mm_in t)) \<le> usize_max \<longrightarrow> mm_exact (mm_in t))"
proof -
  obtain d1 d2 s where s: "mm_scan dir d1 = (Ok s, d2)" "mm_in t = s" "mm_budget t = Some budget"
    using assms(1) by (auto simp: mmap_open_bounded_def mmap_open_inner_def split: prod.splits sum.splits)
  obtain d3 d4 found where f: "scan_entries dir [] d3 = (Ok found, d4)"
      "s = fold account_found (sort_key (\<lambda>e. snd (snd e)) found) mm_default"
    using s(1) by (auto simp: mm_scan_def split: prod.splits sum.splits)
  have "distinct (map fst found)" using scan_entries_keys [OF f(1)] assms(2) by simp
  then have "distinct (map fst (sort_key (\<lambda>e. snd (snd e)) found))"
    by (simp add: distinct_map)
  then show ?thesis
    using mm_inv_scan [OF _ mm_inv_default] mm_exact_default s f(2) by (simp add: mm_default_def)
qed

lemma mmap_reachable_inv:
  "mmap_reachable budget t \<Longrightarrow> mm_inv (mm_in t) \<and> mm_budget t = Some budget \<and> mm_exact (mm_in t)"
proof (induction rule: mmap_reachable.induct)
  case (opened dir d t)
  then show ?case using mm_inv_opened by blast
next
  case (eviction t ev)
  then show ?case by (simp add: mmap_with_eviction_def)
next
  case (get t k)
  moreover have "mm_budget (snd (mmap_get t k)) = mm_budget t"
    by (auto simp: mmap_get_def Let_def split: option.split prod.split sum.split)
  ultimately show ?case by (simp add: mmap_get_inv mm_exact_get)
next
  case (exists t k)
  then show ?case by (simp add: mmap_exists_def apsnd_def map_prod_def split_def)
next
  case (read_range t k a b)
  moreover have "mm_budget (snd (mmap_get t k)) = mm_budget t"
    by (auto simp: mmap_get_def Let_def split: option.split prod.split sum.split)
  moreover have "snd (mmap_read_range t k a b) = snd (mmap_get t k)"
    by (auto simp: mmap_read_range_def split: prod.split sum.split option.split)
  ultimately show ?case by (simp add: mmap_get_inv mm_exact_get)
next
  case (put t k v)
  then show ?case using mmap_put_inv mm_exact_put by simp
next
  case (delete t k)
  moreover have "mm_budget (snd (mmap_delete t k)) = mm_budget t"
    by (auto simp: mmap_delete_def Let_def split: prod.split sum.split)
  ultimately show ?case by (simp add: mmap_delete_inv mm_exact_delete)
next
  case (list t dir cursor limit)
  then show ?case by (auto simp: mmap_list_def split: prod.split sum.split)
next
  case (clear t dir)
  moreover have "mm_budget (snd (mmap_clear dir t)) = mm_budget t"
    by (auto simp: mmap_clear_def Let_def split: prod.split sum.split)
  ultimately show ?case by (simp add: mmap_clear_inv mm_exact_clear)
qed


section \<open>Properties\<close>

definition fresh_mmap :: "nat \<Rightarrow> mmap_tier" where
  "fresh_mmap budget =
     \<lparr>mm_disk = \<lparr>dk_stem = Some ''cache'', dk_files = fmempty, dk_beside = fmempty, dk_faults = []\<rparr>,
      mm_budget = Some budget, mm_eviction = Fifo, mm_in = mm_default\<rparr>"

lemma fresh_mmap_open:
  "mmap_open_bounded []
     \<lparr>dk_stem = Some ''cache'', dk_files = fmempty, dk_beside = fmempty, dk_faults = []\<rparr> b = Ok (fresh_mmap b)"
  by (simp add: mmap_open_bounded_def mmap_open_inner_def mm_scan_def syscall_eq fresh_mmap_def)

lemma fresh_mmap_reachable: "mmap_reachable b (fresh_mmap b)"
  by (rule mmap_reachable.opened [OF fresh_mmap_open]) (simp_all add: fresh_mmap_def mm_default_def)

lemma fresh_mmap_sound: "mm_sound (fresh_mmap b)" "mm_contents (fresh_mmap b) = Map.empty"
  using mm_inv_default
  by (auto simp: mm_sound_def sizes_match_def fresh_mmap_def mm_contents_def mm_default_def disk_contents_def)

lemma fresh_mmap_in: "mm_budget (fresh_mmap b) = Some b" "mm_in (fresh_mmap b) = mm_default"
  by (simp_all add: fresh_mmap_def)

definition stored_bytes :: "mmap_tier \<Rightarrow> nat" where
  "stored_bytes t = (\<Sum>k \<in> dom (mm_contents t). length (the (mm_contents t k)))"

lemma stored_bytes_sizes: "mm_sound t \<Longrightarrow> stored_bytes t = sum_sizes (mm_sizes (mm_in t))"
proof -
  assume "mm_sound t"
  then have m: "fmlookup (mm_sizes (mm_in t)) k = map_option length (mm_contents t k)" for k
    by (simp add: mm_sound_def sizes_match_def mm_contents_def)
  then have "fmdom' (mm_sizes (mm_in t)) = dom (mm_contents t)" by (auto simp: fmlookup_dom'_iff)
  then show ?thesis using m by (auto simp: stored_bytes_def sum_sizes_def intro!: sum.cong)
qed

text \<open>
  The byte budget is kept: for a tier opened over a directory of its own and used in any way,
  with any system calls failing, the accounted total is the sum of the accounted sizes, and every
  put that succeeds leaves it within the budget, whatever the stamps do when they wrap. Eviction
  never gets stuck, because every accounted key keeps a live ticket. The files are assumed never to
  have more than \<open>usize::MAX\<close> bytes in total.
\<close>

theorem mmap_within_budget:
  assumes "mmap_reachable budget t" "sum_sizes (mm_sizes (mm_in t)) + length v \<le> usize_max"
    and "mmap_put t k v = (Ok ds, t')"
  shows "mmap_disk_usage t' = sum_sizes (mm_sizes (mm_in t')) \<and> mmap_disk_usage t' \<le> budget \<and>
    (\<forall>j. fmlookup (mm_sizes (mm_in t')) j \<noteq> None \<longrightarrow> (\<exists>st. (j, st) \<in> set (filter (mm_live (mm_stamps (mm_in t'))) (mm_order (mm_in t')))))"
proof -
  note ivt = mmap_reachable_inv [OF assms(1)] mmap_reachable_inv [OF mmap_reachable.put [OF assms(1,2), of k]]
  then have usage: "mmap_disk_usage t' \<le> budget" using mmap_put_inv [of t k v] assms(3) by auto
  have i: "mm_inv (mm_in t')" and e: "mm_exact (mm_in t')" using ivt(2) assms(3) by simp_all
  have "\<exists>st. (j, st) \<in> set (mm_order (mm_in t')) \<and> mm_live (mm_stamps (mm_in t')) (j, st)"
    if "fmlookup (mm_sizes (mm_in t')) j \<noteq> None" for j
  proof -
    have "fmlookup (mm_stamps (mm_in t')) j \<noteq> None" using i that by (metis fmdomI fmdom_notI mm_inv_def fmdom_notD not_None_eq)
    then show ?thesis using i by (auto simp: mm_inv_def tickets_ok_def mm_live_def)
  qed
  with usage e show ?thesis by (simp add: mm_exact_def mmap_disk_usage_def)
qed

theorem mmap_within_budget_witness:
  "\<exists>ds t'. mmap_put (fresh_mmap 2) ''k'' [1, 2, 3] = (Ok ds, t') \<and> mmap_disk_usage t' \<le> 2"
proof -
  obtain ds t' where "mmap_put (fresh_mmap 2) ''k'' [1, 2, 3] = (Ok ds, t')"
    using mmap_put_sound [OF fresh_mmap_sound(1), of "''k''" 2 "[1, 2, 3]"] by auto
  with mmap_within_budget [OF fresh_mmap_reachable _ this] show ?thesis
    by (auto simp: fresh_mmap_in mm_default_def usize_max_def)
qed

text \<open>
  C14. A put into a tier whose calls do not fail is lossless: it answers the entries that the budget
  pushed out, and together with the files that remain they are exactly what the tier held with the
  new entry on top. While the accounting has not saturated it stays exact, and the bytes of the
  remaining files are within the budget.
\<close>

theorem mmap_put_lossless:
  assumes "mm_sound t" "k \<noteq> []"
  shows "\<exists>out t'. mmap_put t k v = (Ok out, t') \<and> mm_sound t' \<and>
    pend out ++ mm_contents t' = mm_contents t ++ [k \<mapsto> v] \<and>
    (mm_exact (mm_in t) \<and> stored_bytes t + length v \<le> usize_max \<longrightarrow>
      mm_exact (mm_in t') \<and> (case mm_budget t of None \<Rightarrow> True | Some b \<Rightarrow> stored_bytes t' \<le> b))"
proof -
  have ivt: "mm_inv (mm_in t)" using assms(1) by (simp add: mm_sound_def)
  obtain out t' where p: "mmap_put t k v = (Ok out, t')" "mm_sound t'"
      "pend out ++ mm_contents t' = (mm_contents t)(k \<mapsto> v)"
    using mmap_put_sound [OF assms] by blast
  have "mm_total (mm_in t') \<le> b" if "mm_budget t = Some b" for b
    using mmap_put_inv [OF ivt, of k v] p(1) that by (simp add: mmap_disk_usage_def)
  moreover have "mm_exact (mm_in t')" if "mm_exact (mm_in t)" "stored_bytes t + length v \<le> usize_max"
    using mm_exact_put [OF ivt that(1)] that(2) p(1) stored_bytes_sizes [OF assms(1)] by (metis snd_conv)
  ultimately show ?thesis
    using p stored_bytes_sizes [OF p(2)]
    by (intro exI [of _ out] exI [of _ t']) (auto simp: mm_exact_def split: option.split)
qed

theorem mmap_put_lossless_witness:
  "\<exists>out t'. mmap_put (fresh_mmap 2) ''k'' [1, 2, 3] = (Ok out, t') \<and>
     pend out ++ mm_contents t' = [''k'' \<mapsto> [1, 2, 3]] \<and> stored_bytes t' \<le> 2"
proof -
  have "stored_bytes (fresh_mmap 2) = 0" by (simp add: stored_bytes_def fresh_mmap_sound)
  then show ?thesis
    using mmap_put_lossless [OF fresh_mmap_sound(1), of "''k''" 2 "[1, 2, 3]"]
    by (auto simp: fresh_mmap_sound fresh_mmap_in mm_exact_default usize_max_def)
qed

end
