(* ===== verification/Slot_Record.thy ===== *)
theory Slot_Record
  imports Hex_Names "HOL-Library.Monad_Syntax"
begin

text \<open>
  The byte layout of \<open>rollover-demo/src/slot_mmap.rs\<close>: a mapping of fixed-size slots, each with one
  record \<open>used | key_len | val_len | key | value\<close>. A slice out of range panics; a panic is the
  \<open>None\<close> of the outer option, and \<open>None\<close> inside is the answer \<open>None\<close> of the source. The last
  section shows that what is written to a slot is read back from it and from no other.
\<close>

section \<open>Slices\<close>

text \<open>\<open>&bytes[a..b]\<close> and \<open>bytes[a..a + n].copy_from_slice(..)\<close>.\<close>

definition sub_bytes :: "u8 list \<Rightarrow> nat \<Rightarrow> nat \<Rightarrow> u8 list option" where
  "sub_bytes m a b = (if a \<le> b \<and> b \<le> length m then Some (take (b - a) (drop a m)) else None)"

definition blit :: "u8 list \<Rightarrow> nat \<Rightarrow> u8 list \<Rightarrow> u8 list option" where
  "blit m a xs = (if a + length xs \<le> length m then Some (take a m @ xs @ drop (a + length xs) m) else None)"

lemma blit_blit:
  assumes "a + length xs + length ys \<le> length m" "b = a + length xs"
  shows "(blit m a xs \<bind> (\<lambda>m1. blit m1 b ys)) = blit m a (xs @ ys)"
proof -
  have a: "length (take a m) = a" using assms(1) by simp
  then show ?thesis using assms by (simp add: blit_def a ac_simps)
qed

section \<open>Integers as bytes\<close>

definition HEADER :: nat where "HEADER = 7"

text \<open>\<open>u16::to_le_bytes\<close>, \<open>u32::to_le_bytes\<close> and back.\<close>

definition le16 :: "16 word \<Rightarrow> u8 list" where
  "le16 w = [ucast w, ucast (drop_bit 8 w)]"

definition le32 :: "32 word \<Rightarrow> u8 list" where
  "le32 w = [ucast w, ucast (drop_bit 8 w), ucast (drop_bit 16 w), ucast (drop_bit 24 w)]"

definition from_le16 :: "u8 \<Rightarrow> u8 \<Rightarrow> nat" where
  "from_le16 a b = unat a + 256 * unat b"

definition from_le32 :: "u8 \<Rightarrow> u8 \<Rightarrow> u8 \<Rightarrow> u8 \<Rightarrow> nat" where
  "from_le32 a b c d = unat a + 256 * (unat b + 256 * (unat c + 256 * unat d))"

lemma length_le [simp]: "length (le16 w) = 2" "length (le32 x) = 4"
  by (simp_all add: le16_def le32_def)

lemma unat_byte: "unat (ucast w :: u8) = unat (w :: 'a::len word) mod 256"
  by (simp add: unsigned_ucast_eq take_bit_eq_mod)

lemma unat_drop: "unat (drop_bit n w) = unat (w :: 'a::len word) div 2 ^ n"
  using unsigned_less [of w, where 'a = nat]
  unfolding unsigned_drop_bit_eq by (simp add: drop_bit_eq_div take_bit_eq_mod)

lemma le16_roundtrip: "from_le16 (le16 w ! 0) (le16 w ! 1) = unat w"
proof -
  have "unat w div 256 < 256" using unsigned_less [of w, where 'a = nat] by simp
  then show ?thesis by (simp add: from_le16_def le16_def unat_byte unat_drop)
qed

lemma le32_roundtrip: "from_le32 (le32 w ! 0) (le32 w ! 1) (le32 w ! 2) (le32 w ! 3) = unat w"
proof -
  let ?n = "unat w"
  have "?n div 16777216 < 256" using unsigned_less [of w, where 'a = nat] by simp
  then have "?n div 16777216 mod 256 = ?n div 256 div 256 div 256"
    by (simp add: div_mult2_eq [symmetric])
  then have "from_le32 (le32 w ! 0) (le32 w ! 1) (le32 w ! 2) (le32 w ! 3) =
      ?n mod 256 + 256 * (?n div 256 mod 256 + 256 * (?n div 256 div 256 mod 256 + 256 * (?n div 256 div 256 div 256)))"
    by (simp add: from_le32_def le32_def unat_byte unat_drop div_mult2_eq [symmetric])
  also have "\<dots> = ?n" by simp
  finally show ?thesis .
qed

section \<open>Reading and writing a slot\<close>

definition value_range :: "u8 list \<Rightarrow> nat \<Rightarrow> nat \<Rightarrow> (nat \<times> nat) option option" where
  "value_range m slot_size slot =
     (let base = slot * slot_size in do {
        header \<leftarrow> sub_bytes m base (base + HEADER);
        Some
          (if header ! 0 \<noteq> 1 then None
           else
             (let key_len = from_le16 (header ! 1) (header ! 2);
                  val_len = from_le32 (header ! 3) (header ! 4) (header ! 5) (header ! 6);
                  start = base + HEADER + key_len
              in if start + val_len > base + slot_size then None else Some (start, val_len)))
      })"

definition read_slot :: "u8 list \<Rightarrow> nat \<Rightarrow> nat \<Rightarrow> (string \<times> u8 list) option option" where
  "read_slot m slot_size slot = do {
     range \<leftarrow> value_range m slot_size slot;
     (case range of
        None \<Rightarrow> Some None
      | Some (start, len) \<Rightarrow> do {
          key_bytes \<leftarrow> sub_bytes m (slot * slot_size + HEADER) start;
          (case from_utf8 key_bytes of
             None \<Rightarrow> Some None
           | Some key \<Rightarrow> do {
               v \<leftarrow> sub_bytes m start (start + len);
               Some (Some (key, v))
             })
        })
   }"

text \<open>The bytes that \<open>write_slot\<close> stores, field by field.\<close>

definition write_record :: "u8 list \<Rightarrow> nat \<Rightarrow> nat \<Rightarrow> string \<Rightarrow> u8 list \<Rightarrow> u8 list option" where
  "write_record m slot_size slot key v =
     (let base = slot * slot_size; key_start = base + HEADER; val_start = key_start + length (as_bytes key) in do {
        m1 \<leftarrow> blit m base [1];
        m2 \<leftarrow> blit m1 (base + 1) (le16 (word_of_nat (length (as_bytes key))));
        m3 \<leftarrow> blit m2 (base + 3) (le32 (word_of_nat (length v)));
        m4 \<leftarrow> blit m3 key_start (as_bytes key);
        blit m4 val_start v
      })"

definition slot_record :: "string \<Rightarrow> u8 list \<Rightarrow> u8 list" where
  "slot_record key v =
     [1] @ le16 (word_of_nat (length (as_bytes key))) @ le32 (word_of_nat (length v)) @ as_bytes key @ v"

lemma length_slot_record [simp]: "length (slot_record key v) = HEADER + length (as_bytes key) + length v"
  by (simp add: slot_record_def HEADER_def)

lemma write_record_blit:
  assumes "slot * slot_size + length (slot_record key v) \<le> length m"
  shows "write_record m slot_size slot key v = blit m (slot * slot_size) (slot_record key v)"
proof -
  let ?b = "slot * slot_size"
  let ?f1 = "le16 (word_of_nat (length (as_bytes key)))" and ?f2 = "le32 (word_of_nat (length v))"
  have len: "?b + 7 + length (as_bytes key) + length v \<le> length m"
    using assms by (simp add: HEADER_def)
  have "write_record m slot_size slot key v =
      ((((blit m ?b [1] \<bind> (\<lambda>m1. blit m1 (?b + 1) ?f1)) \<bind> (\<lambda>m2. blit m2 (?b + 3) ?f2))
         \<bind> (\<lambda>m3. blit m3 (?b + 7) (as_bytes key))) \<bind> (\<lambda>m4. blit m4 (?b + 7 + length (as_bytes key)) v))"
    by (simp add: write_record_def HEADER_def Let_def)
  also have "\<dots> = blit m ?b (slot_record key v)"
    using len by (simp add: blit_blit slot_record_def)
  finally show ?thesis .
qed

section \<open>What is written is read back\<close>

definition slot_bytes :: "u8 list \<Rightarrow> nat \<Rightarrow> nat \<Rightarrow> u8 list" where
  "slot_bytes m slot_size slot = take slot_size (drop (slot * slot_size) m)"

definition record_of :: "u8 list \<Rightarrow> (string \<times> u8 list) option" where
  "record_of s =
     (if s ! 0 \<noteq> 1 then None
      else
        (let kl = from_le16 (s ! 1) (s ! 2); vl = from_le32 (s ! 3) (s ! 4) (s ! 5) (s ! 6)
         in if length s < HEADER + kl + vl then None
            else map_option (\<lambda>key. (key, take vl (drop (HEADER + kl) s))) (from_utf8 (take kl (drop HEADER s)))))"

lemma in_range: "slot < (n :: nat) \<Longrightarrow> slot * sz + sz \<le> n * sz"
  by (metis Suc_leI add.commute mult_Suc mult_le_mono1)

lemma length_slot_bytes: "slot < n \<Longrightarrow> length m = n * sz \<Longrightarrow> length (slot_bytes m sz slot) = sz"
  using in_range [of slot n sz] by (simp add: slot_bytes_def)

lemma sub_bytes_slot:
  assumes "slot * sz + sz \<le> length m" "a \<le> b" "b \<le> sz"
  shows "sub_bytes m (slot * sz + a) (slot * sz + b) = Some (take (b - a) (drop a (slot_bytes m sz slot)))"
  using assms by (simp add: sub_bytes_def slot_bytes_def drop_take min_def ac_simps)

lemma value_range_slot:
  assumes "slot * sz + sz \<le> length m" "HEADER < sz"
  shows "value_range m sz slot =
    (let s = slot_bytes m sz slot;
         kl = from_le16 (s ! 1) (s ! 2); vl = from_le32 (s ! 3) (s ! 4) (s ! 5) (s ! 6)
     in Some (if s ! 0 \<noteq> 1 \<or> sz < HEADER + kl + vl then None else Some (slot * sz + HEADER + kl, vl)))"
  using sub_bytes_slot [OF assms(1), of 0 HEADER] assms(2)
  by (simp add: value_range_def Let_def HEADER_def)

lemma read_slot_record:
  assumes "slot < n" "length m = n * sz" "HEADER < sz"
  shows "read_slot m sz slot = Some (record_of (slot_bytes m sz slot))"
proof -
  have r: "slot * sz + sz \<le> length m" using in_range assms(1,2) by simp
  let ?s = "slot_bytes m sz slot"
  let ?kl = "from_le16 (?s ! 1) (?s ! 2)" and ?vl = "from_le32 (?s ! 3) (?s ! 4) (?s ! 5) (?s ! 6)"
  have len: "length ?s = sz" using length_slot_bytes assms by simp
  show ?thesis
  proof (cases "?s ! 0 \<noteq> 1 \<or> sz < HEADER + ?kl + ?vl")
    case True
    then show ?thesis using len by (auto simp: read_slot_def value_range_slot [OF r assms(3)] Let_def record_of_def)
  next
    case False
    have k: "sub_bytes m (slot * sz + HEADER) (slot * sz + HEADER + ?kl) = Some (take ?kl (drop HEADER ?s))"
      using sub_bytes_slot [OF r, of HEADER "HEADER + ?kl"] False by (simp add: add.assoc)
    have v: "sub_bytes m (slot * sz + HEADER + ?kl) (slot * sz + HEADER + ?kl + ?vl) =
        Some (take ?vl (drop (HEADER + ?kl) ?s))"
      using sub_bytes_slot [OF r, of "HEADER + ?kl" "HEADER + ?kl + ?vl"] False by (simp add: add.assoc)
    show ?thesis
      using False k v len
      by (simp add: read_slot_def value_range_slot [OF r assms(3)] Let_def record_of_def split: option.split)
  qed
qed

lemma record_of_written:
  assumes "utf8_valid (as_bytes key)" "length (as_bytes key) < 2 ^ 16" "length v < 2 ^ 32"
  shows "record_of (slot_record key v @ rest) = Some (key, v)"
proof -
  let ?kw = "word_of_nat (length (as_bytes key)) :: 16 word" and ?vw = "word_of_nat (length v) :: 32 word"
  have w: "unat ?kw = length (as_bytes key)" "unat ?vw = length v"
    using assms(2,3) by (simp_all add: unat_of_nat)
  let ?s = "slot_record key v @ rest"
  have i: "?s ! 0 = 1" "?s ! 1 = le16 ?kw ! 0" "?s ! 2 = le16 ?kw ! 1"
      "?s ! 3 = le32 ?vw ! 0" "?s ! 4 = le32 ?vw ! 1" "?s ! 5 = le32 ?vw ! 2" "?s ! 6 = le32 ?vw ! 3"
    by (simp_all add: slot_record_def le16_def le32_def)
  have kl: "from_le16 (?s ! 1) (?s ! 2) = length (as_bytes key)"
    by (simp only: i le16_roundtrip w)
  have vl: "from_le32 (?s ! 3) (?s ! 4) (?s ! 5) (?s ! 6) = length v"
    by (simp only: i le32_roundtrip w)
  have d: "drop HEADER ?s = as_bytes key @ v @ rest"
    by (simp add: slot_record_def HEADER_def le16_def le32_def)
  then have "drop (HEADER + length (as_bytes key)) ?s = v @ rest"
    by (metis add.commute append_eq_conv_conj drop_drop)
  with d show ?thesis
    using assms(1) i(1) unfolding record_of_def kl vl Let_def by (simp add: from_utf8_def HEADER_def)
qed

lemma slot_bytes_blit:
  assumes "blit m (i * sz) xs = Some m'" "length xs \<le> sz" "i < n" "j < n" "length m = n * sz"
  shows "length m' = n * sz"
    and "slot_bytes m' sz j = (if j = i then xs @ drop (length xs) (slot_bytes m sz i) else slot_bytes m sz j)"
proof -
  have m': "m' = take (i * sz) m @ xs @ drop (i * sz + length xs) m" and
    le: "i * sz + length xs \<le> length m"
    using assms(1) by (auto simp: blit_def split: if_splits)
  have r: "i * sz + sz \<le> n * sz" "j * sz + sz \<le> n * sz"
    using in_range assms(3,4) by blast+
  show "length m' = n * sz" using le assms(5) by (simp add: m')
  consider "j < i" | "j = i" | "i < j" by linarith
  then show "slot_bytes m' sz j = (if j = i then xs @ drop (length xs) (slot_bytes m sz i) else slot_bytes m sz j)"
  proof cases
    case 1
    then have "j * sz + sz \<le> i * sz" by (rule in_range)
    then show ?thesis using 1 r assms(5) by (simp add: m' slot_bytes_def drop_take)
  next
    case 2
    have "min (i * sz) (n * sz) = i * sz" using r by simp
    then show ?thesis using 2 r assms(2,5) by (simp add: m' slot_bytes_def drop_take ac_simps)
  next
    case 3
    then have "i * sz + sz \<le> j * sz" by (rule in_range)
    moreover have "min (i * sz) (n * sz) = i * sz" using r by simp
    ultimately show ?thesis using 3 r assms(2,5) by (simp add: m' slot_bytes_def ac_simps)
  qed
qed

end
