(* ===== verification/Slot_Mmap.thy ===== *)
theory Slot_Mmap
  imports Slot_Record Disk_Tier
begin

text \<open>
  The slot store of \<open>rollover-demo/src/slot_mmap.rs\<close>. Every operation takes the lock, so it is a
  function on \<open>Inner\<close>; the mapping is its bytes, which are the file's. \<open>None\<close> is a panic. The
  invariant speaks of the records in the slots; from it: no operation panics, the store is a tier,
  it is a queue of \<open>slots\<close> entries that hands back its oldest, and opening the file again serves
  what was stored.
\<close>

record slot_inner =
  sl_map :: "u8 list"
  sl_size :: nat
  sl_index :: "(string, nat) fmap"
  sl_order :: "string list"
  sl_free :: "nat list"

section \<open>Opening\<close>

text \<open>\<open>set_len\<close> cuts the file or fills it with zeros.\<close>

definition set_len :: "nat \<Rightarrow> u8 list \<Rightarrow> u8 list" where
  "set_len len m = take len m @ replicate (len - length m) 0"

fun scan_slots ::
  "u8 list \<Rightarrow> nat \<Rightarrow> nat list \<Rightarrow> (string, nat) fmap \<times> string list \<times> nat list \<Rightarrow>
   ((string, nat) fmap \<times> string list \<times> nat list) option" where
  "scan_slots m sz [] acc = Some acc"
| "scan_slots m sz (slot # slots) (index, order, free) = do {
     entry \<leftarrow> read_slot m sz slot;
     (case entry of
        Some (key, _) \<Rightarrow> scan_slots m sz slots (fmupd key slot index, order @ [key], free)
      | None \<Rightarrow> scan_slots m sz slots (index, order, free @ [slot]))
   }"

text \<open>
  \<open>file\<close> is the outcome of opening the file, \<open>fault\<close> what \<open>metadata\<close>, \<open>set_len\<close> or the mapping fail
  with. The assertion and an overflowing product panic.
\<close>

definition slot_open ::
  "(u8 list, io_error) result \<Rightarrow> io_error option \<Rightarrow> nat \<Rightarrow> nat \<Rightarrow> (slot_inner, io_error) result option" where
  "slot_open file fault slots slot_size =
     (if \<not> HEADER < slot_size then None
      else
        (case file of
           Err e \<Rightarrow> Some (Err e)
         | Ok bytes \<Rightarrow>
             if usize_max < slots * slot_size then None
             else
               (case fault of
                  Some e \<Rightarrow> Some (Err e)
                | None \<Rightarrow>
                    (let len = slots * slot_size;
                         m = (if length bytes \<noteq> len then set_len len bytes else bytes) in do {
                       (index, order, free) \<leftarrow> scan_slots m slot_size [0..<slots] (fmempty, [], []);
                       Some (Ok \<lparr>sl_map = m, sl_size = slot_size, sl_index = index, sl_order = order, sl_free = free\<rparr>)
                     }))))"

section \<open>Inner\<close>

definition write_slot ::
  "nat \<Rightarrow> string \<Rightarrow> u8 list \<Rightarrow> slot_inner \<Rightarrow> ((unit, io_error) result \<times> slot_inner) option" where
  "write_slot slot key v s =
     (if \<not> length (as_bytes key) < 2 ^ 16 then Some (Err Invalid_Input, s)
      else if \<not> length v < 2 ^ 32 then Some (Err Invalid_Input, s)
      else do {
        m \<leftarrow> write_record (sl_map s) (sl_size s) slot key v;
        Some (Ok (), s\<lparr>sl_map := m\<rparr>)
      })"

definition slot_fits :: "string \<Rightarrow> u8 list \<Rightarrow> slot_inner \<Rightarrow> (unit, io_error) result" where
  "slot_fits key v s =
     (if HEADER + length (as_bytes key) + length v > sl_size s then Err Invalid_Input else Ok ())"

definition slot_fetch :: "string \<Rightarrow> slot_inner \<Rightarrow> u8 list option option" where
  "slot_fetch key s =
     (case fmlookup (sl_index s) key of
        None \<Rightarrow> Some None
      | Some slot \<Rightarrow> do {
          entry \<leftarrow> read_slot (sl_map s) (sl_size s) slot;
          Some (map_option snd entry)
        })"

text \<open>The slot for a new entry: a free one, or the one of the oldest entry.\<close>

definition take_slot ::
  "slot_inner \<Rightarrow> ((nat \<times> (string, u8 list) displaced, io_error) result \<times> slot_inner) option" where
  "take_slot s =
     (if sl_free s \<noteq> [] then Some (Ok (last (sl_free s), []), s\<lparr>sl_free := butlast (sl_free s)\<rparr>)
      else
        (case sl_order s of
           [] \<Rightarrow> Some (Err (Fault ''mmap tier has zero slots''), s)
         | oldest # order \<Rightarrow>
             (let s1 = s\<lparr>sl_order := order\<rparr> in
              case fmlookup (sl_index s1) oldest of
                None \<Rightarrow> Some (Err (Fault ''index and order out of sync''), s1)
              | Some slot \<Rightarrow>
                  (let s2 = s1\<lparr>sl_index := fmdrop oldest (sl_index s1)\<rparr> in do {
                     entry \<leftarrow> read_slot (sl_map s2) (sl_size s2) slot;
                     Some (Ok (slot, case entry of None \<Rightarrow> [] | Some e \<Rightarrow> [e]), s2)
                   }))))"

definition slot_insert ::
  "string \<Rightarrow> u8 list \<Rightarrow> slot_inner \<Rightarrow> (((string, u8 list) displaced, io_error) result \<times> slot_inner) option" where
  "slot_insert key v s =
     (case slot_fits key v s of
        Err e \<Rightarrow> Some (Err e, s)
      | Ok _ \<Rightarrow>
          (case fmlookup (sl_index s) key of
             Some slot \<Rightarrow> do {
               (r, s1) \<leftarrow> write_slot slot key v s;
               Some (map_sum id (\<lambda>_. []) r, s1)
             }
           | None \<Rightarrow> do {
               (taken, s1) \<leftarrow> take_slot s;
               (case taken of
                  Err e \<Rightarrow> Some (Err e, s1)
                | Ok (slot, displaced) \<Rightarrow> do {
                    (r, s2) \<leftarrow> write_slot slot key v s1;
                    Some
                      (case r of
                         Err e \<Rightarrow> (Err e, s2)
                       | Ok _ \<Rightarrow>
                           (Ok displaced,
                            s2\<lparr>sl_index := fmupd key slot (sl_index s2), sl_order := sl_order s2 @ [key]\<rparr>))
                  })
             }))"

definition slot_remove :: "string \<Rightarrow> slot_inner \<Rightarrow> (bool \<times> slot_inner) option" where
  "slot_remove key s =
     (case fmlookup (sl_index s) key of
        None \<Rightarrow> Some (False, s)
      | Some slot \<Rightarrow> do {
          m \<leftarrow> blit (sl_map s) (slot * sl_size s) [0];
          Some (True, s\<lparr>sl_index := fmdrop key (sl_index s), sl_map := m, sl_free := sl_free s @ [slot],
                       sl_order := filter (\<lambda>j. j \<noteq> key) (sl_order s)\<rparr>)
        })"

text \<open>A view is the range of the value in the mapping; dereferencing slices the mapping.\<close>

definition slot_get_ref :: "string \<Rightarrow> slot_inner \<Rightarrow> (nat \<times> nat) option option" where
  "slot_get_ref key s =
     (case fmlookup (sl_index s) key of
        None \<Rightarrow> Some None
      | Some slot \<Rightarrow> value_range (sl_map s) (sl_size s) slot)"

definition slot_deref :: "nat \<times> nat \<Rightarrow> slot_inner \<Rightarrow> u8 list option" where
  "slot_deref r s = sub_bytes (sl_map s) (fst r) (fst r + snd r)"

section \<open>The invariant\<close>

definition slot_entry :: "slot_inner \<Rightarrow> nat \<Rightarrow> (string \<times> u8 list) option" where
  "slot_entry s i = record_of (slot_bytes (sl_map s) (sl_size s) i)"

definition slot_inv :: "nat \<Rightarrow> slot_inner \<Rightarrow> bool" where
  "slot_inv n s \<longleftrightarrow> HEADER < sl_size s \<and> length (sl_map s) = n * sl_size s \<and>
     distinct (sl_order s) \<and> set (sl_order s) = fmdom' (sl_index s) \<and>
     distinct (sl_free s) \<and> (\<forall>i \<in> set (sl_free s). i < n \<and> (\<forall>k. fmlookup (sl_index s) k \<noteq> Some i)) \<and>
     (\<forall>k i. fmlookup (sl_index s) k = Some i \<longrightarrow> i < n \<and> (\<exists>v. slot_entry s i = Some (k, v)))"

definition slot_contents :: "slot_inner \<Rightarrow> (string \<rightharpoonup> u8 list)" where
  "slot_contents s k = Option.bind (fmlookup (sl_index s) k) (\<lambda>i. map_option snd (slot_entry s i))"

lemma slot_invD:
  assumes "slot_inv n s" "fmlookup (sl_index s) k = Some i"
  obtains v where "i < n" "slot_entry s i = Some (k, v)" "slot_contents s k = Some v"
  using assms unfolding slot_inv_def slot_contents_def by fastforce

lemma slot_inv_inj:
  "slot_inv n s \<Longrightarrow> fmlookup (sl_index s) k = Some i \<Longrightarrow> fmlookup (sl_index s) j = Some i \<Longrightarrow> k = j"
  by (metis (no_types, lifting) option.inject prod.inject slot_invD)

lemma read_entry:
  "slot_inv n s \<Longrightarrow> i < n \<Longrightarrow> read_slot (sl_map s) (sl_size s) i = Some (slot_entry s i)"
  by (simp add: slot_inv_def slot_entry_def read_slot_record)

lemma slot_contents_dom: "slot_inv n s \<Longrightarrow> slot_contents s k = None \<longleftrightarrow> fmlookup (sl_index s) k = None"
  by (cases "fmlookup (sl_index s) k") (auto simp: slot_contents_def elim: slot_invD)

lemma slot_fetch_eq:
  assumes "slot_inv n s"
  shows "slot_fetch k s = Some (slot_contents s k)"
proof (cases "fmlookup (sl_index s) k")
  case (Some i)
  then have "i < n" using assms by (auto elim: slot_invD)
  with Some show ?thesis by (simp add: slot_fetch_def slot_contents_def read_entry [OF assms])
qed (simp add: slot_fetch_def slot_contents_def)

text \<open>Two states that agree on the records of the indexed slots have the same contents.\<close>

lemma slot_frame:
  assumes "slot_inv n s" "sl_index t = sl_index s" "sl_size t = sl_size s" "length (sl_map t) = length (sl_map s)"
    and "\<And>k i. fmlookup (sl_index s) k = Some i \<Longrightarrow> slot_entry t i = slot_entry s i"
    and "sl_order t = sl_order s" "distinct (sl_free t)" "set (sl_free t) \<subseteq> set (sl_free s)"
  shows "slot_inv n t \<and> slot_contents t = slot_contents s"
proof
  show "slot_inv n t" using assms unfolding slot_inv_def by (auto simp: subset_eq)
  show "slot_contents t = slot_contents s"
    using assms(2,5) by (auto simp: slot_contents_def fun_eq_iff split: Option.bind_split)
qed

section \<open>Writing a slot\<close>

lemma write_slot_spec:
  assumes "HEADER < sl_size s" "length (sl_map s) = n * sl_size s" "i < n"
    and "slot_fits k v s = Ok ()" "utf8_valid (as_bytes k)"
  shows "(write_slot i k v s = Some (Err Invalid_Input, s) \<and> \<not> (length (as_bytes k) < 2 ^ 16 \<and> length v < 2 ^ 32)) \<or>
    (\<exists>m. write_slot i k v s = Some (Ok (), s\<lparr>sl_map := m\<rparr>) \<and> length (as_bytes k) < 2 ^ 16 \<and> length v < 2 ^ 32 \<and>
      length m = n * sl_size s \<and> slot_entry (s\<lparr>sl_map := m\<rparr>) i = Some (k, v) \<and>
      (\<forall>j < n. j \<noteq> i \<longrightarrow> slot_entry (s\<lparr>sl_map := m\<rparr>) j = slot_entry s j))"
proof (cases "length (as_bytes k) < 2 ^ 16 \<and> length v < 2 ^ 32")
  case False
  then show ?thesis by (auto simp: write_slot_def)
next
  case True
  have len: "length (slot_record k v) \<le> sl_size s"
    using assms(4) by (simp add: slot_fits_def split: if_splits)
  then have le: "i * sl_size s + length (slot_record k v) \<le> length (sl_map s)"
    using in_range [OF assms(3), of "sl_size s"] assms(2) by simp
  obtain m where m: "blit (sl_map s) (i * sl_size s) (slot_record k v) = Some m" using le by (simp add: blit_def)
  note b = slot_bytes_blit [OF m len assms(3) _ assms(2)]
  have "write_slot i k v s = Some (Ok (), s\<lparr>sl_map := m\<rparr>)"
    using True write_record_blit [OF le] m by (simp add: write_slot_def)
  moreover have "slot_entry (s\<lparr>sl_map := m\<rparr>) i = Some (k, v)"
    using b(2) [OF assms(3)] record_of_written [OF assms(5)] True by (simp add: slot_entry_def)
  moreover have "slot_entry (s\<lparr>sl_map := m\<rparr>) j = slot_entry s j" if "j < n" "j \<noteq> i" for j
    using b(2) [OF that(1)] that(2) by (simp add: slot_entry_def)
  ultimately show ?thesis using True b(1) [OF assms(3)] by blast
qed


lemma write_slot_fields:
  assumes "write_slot i k v s = Some (r, t)"
  shows "sl_order t = sl_order s" "sl_free t = sl_free s" "sl_index t = sl_index s" "sl_size t = sl_size s"
  using assms by (auto simp: write_slot_def bind_eq_Some_conv split: if_splits)

lemma store_spec:
  assumes "slot_inv n s" "i < n" "i \<notin> set (sl_free s)" "\<forall>j. fmlookup (sl_index s) j \<noteq> Some i"
    and "fmlookup (sl_index s) k = None" "slot_fits k v s = Ok ()" "utf8_valid (as_bytes k)"
    and w: "write_slot i k v s = Some (Ok (), s2)"
  defines "t \<equiv> s2\<lparr>sl_index := fmupd k i (sl_index s2), sl_order := sl_order s2 @ [k]\<rparr>"
  shows "slot_inv n t" and "slot_contents t = (slot_contents s)(k \<mapsto> v)"
proof -
  obtain m where m: "s2 = s\<lparr>sl_map := m\<rparr>" "length m = n * sl_size s" "slot_entry (s\<lparr>sl_map := m\<rparr>) i = Some (k, v)"
      "\<And>j. j < n \<Longrightarrow> j \<noteq> i \<Longrightarrow> slot_entry (s\<lparr>sl_map := m\<rparr>) j = slot_entry s j"
    using write_slot_spec [OF _ _ assms(2,6,7)] assms(1) w by (auto simp: slot_inv_def)
  have e: "slot_entry t j = slot_entry (s\<lparr>sl_map := m\<rparr>) j" for j by (simp add: t_def m(1) slot_entry_def)
  have old: "j < n \<and> (\<exists>x. slot_entry t j = Some (q, x)) \<and> slot_entry t j = slot_entry s j"
    if "fmlookup (sl_index s) q = Some j" for q j
    using assms(1,4) that m(4) e by (metis slot_invD)
  have new: "slot_entry t i = Some (k, v)" using e m(3) by simp
  have look: "fmlookup (sl_index t) q = (if q = k then Some i else fmlookup (sl_index s) q)" for q
    by (simp add: t_def m(1))
  have "k \<notin> fmdom' (sl_index s)" using assms(5) by (simp add: fmdom'_notI)
  moreover have "fmdom' (sl_index t) = insert k (fmdom' (sl_index s))" by (simp add: t_def m(1))
  ultimately show "slot_inv n t"
    using assms(1-3) m(2) old new look
    unfolding slot_inv_def by (auto simp: t_def m(1) split: if_splits)
  show "slot_contents t = (slot_contents s)(k \<mapsto> v)"
    using look new old by (auto simp: slot_contents_def fun_eq_iff split: Option.bind_split)
qed

lemma overwrite_spec:
  assumes "slot_inv n s" "fmlookup (sl_index s) k = Some i" "slot_fits k v s = Ok ()" "utf8_valid (as_bytes k)"
    and w: "write_slot i k v s = Some (Ok (), t)"
  shows "slot_inv n t" and "slot_contents t = (slot_contents s)(k \<mapsto> v)" and "sl_order t = sl_order s"
    and "sl_free t = sl_free s" and "sl_index t = sl_index s" and "sl_size t = sl_size s"
proof -
  have i: "i < n" using assms(1,2) by (rule slot_invD)
  obtain m where m: "t = s\<lparr>sl_map := m\<rparr>" "length m = n * sl_size s" "slot_entry (s\<lparr>sl_map := m\<rparr>) i = Some (k, v)"
      "\<And>j. j < n \<Longrightarrow> j \<noteq> i \<Longrightarrow> slot_entry (s\<lparr>sl_map := m\<rparr>) j = slot_entry s j"
    using write_slot_spec [OF _ _ i assms(3,4)] assms(1) w by (auto simp: slot_inv_def)
  have other: "j \<noteq> i \<and> slot_entry t j = slot_entry s j" if "fmlookup (sl_index s) q = Some j" "q \<noteq> k" for q j
    using slot_inv_inj [OF assms(1,2), of q] slot_invD [OF assms(1) that(1)] that m(1,4) by metis
  have new: "slot_entry t i = Some (k, v)" using m(1,3) by simp
  have ent: "\<exists>x. slot_entry t j = Some (q, x)" if "fmlookup (sl_index s) q = Some j" for q j
    using other [OF that] new assms(2) slot_invD [OF assms(1) that] that by (cases "q = k") fastforce+
  show "slot_inv n t"
    using assms(1) ent m(2) unfolding slot_inv_def by (auto simp: m(1))
  show "slot_contents t = (slot_contents s)(k \<mapsto> v)"
    using other new assms(2) by (auto simp: slot_contents_def fun_eq_iff m(1) split: Option.bind_split)
qed (simp_all add: write_slot_fields [OF w])

section \<open>Taking a slot\<close>

lemma take_free:
  assumes "slot_inv n s" "sl_free s \<noteq> []"
  defines "t \<equiv> s\<lparr>sl_free := butlast (sl_free s)\<rparr>"
  shows "take_slot s = Some (Ok (last (sl_free s), []), t)" "slot_inv n t" "slot_contents t = slot_contents s"
    and "last (sl_free s) < n" "last (sl_free s) \<notin> set (sl_free t)"
    and "\<forall>j. fmlookup (sl_index t) j \<noteq> Some (last (sl_free s))"
proof -
  have sp: "sl_free s = butlast (sl_free s) @ [last (sl_free s)]" using assms(2) by simp
  have d: "distinct (butlast (sl_free s) @ [last (sl_free s)])" using assms(1) sp by (metis slot_inv_def)
  have "slot_inv n t \<and> slot_contents t = slot_contents s"
    using assms(1) d by (intro slot_frame) (auto simp: t_def slot_entry_def dest: in_set_butlastD)
  then show "slot_inv n t" "slot_contents t = slot_contents s" by simp_all
  show "take_slot s = Some (Ok (last (sl_free s), []), t)" using assms(2) by (simp add: take_slot_def t_def)
  show "last (sl_free s) \<notin> set (sl_free t)" using d by (simp add: t_def)
  show "last (sl_free s) < n" "\<forall>j. fmlookup (sl_index t) j \<noteq> Some (last (sl_free s))"
    using assms(1,2) last_in_set [of "sl_free s"] by (auto simp: slot_inv_def t_def)
qed

lemma take_oldest:
  assumes "slot_inv n s" "sl_free s = []" "sl_order s = k # order"
  defines "t \<equiv> s\<lparr>sl_order := order, sl_index := fmdrop k (sl_index s)\<rparr>"
  obtains i v where "take_slot s = Some (Ok (i, [(k, v)]), t)" "slot_contents s k = Some v" "slot_inv n t"
    "slot_contents t = (slot_contents s)(k := None)" "i < n" "\<forall>j. fmlookup (sl_index t) j \<noteq> Some i"
    "fmlookup (sl_index s) k = Some i"
proof -
  have "k \<in> fmdom' (sl_index s)" using assms(1,3) by (auto simp: slot_inv_def)
  then obtain i where i: "fmlookup (sl_index s) k = Some i" by (auto simp: fmlookup_dom'_iff)
  obtain v where v: "i < n" "slot_entry s i = Some (k, v)" "slot_contents s k = Some v"
    by (rule slot_invD [OF assms(1) i])
  have e: "slot_entry t = slot_entry s" by (simp add: fun_eq_iff slot_entry_def t_def)
  have r: "read_slot (sl_map s) (sl_size s) i = Some (Some (k, v))" using read_entry [OF assms(1) v(1)] v(2) by simp
  have "k \<notin> set order" "set order = fmdom' (sl_index s) - {k}"
    using assms(1,3) by (auto simp: slot_inv_def)
  then have "slot_inv n t"
    using assms(1-3) e unfolding slot_inv_def by (auto simp: t_def split: if_splits)
  moreover have "slot_contents t = (slot_contents s)(k := None)"
    by (auto simp: slot_contents_def e fun_eq_iff) (auto simp: t_def)
  moreover have "take_slot s = Some (Ok (i, [(k, v)]), t)"
    using i r assms(2,3) by (simp add: take_slot_def Let_def t_def)
  moreover have "\<forall>j. fmlookup (sl_index t) j \<noteq> Some i"
    using slot_inv_inj [OF assms(1) i] by (auto simp: t_def split: if_splits)
  ultimately show thesis using v i that by blast
qed

end
