(* ===== verification/Slot_Queue.thy ===== *)
theory Slot_Queue
  imports Slot_Mmap
begin

text \<open>
  The slot store as a bounded queue: with every slot either free or in use, a put appends an entry,
  replaces the value of a key in its place, or hands back the oldest entry. The other sections are
  on the file: opening it again finds the same entries, in the order of their slots.
\<close>

section \<open>Tidy states\<close>

definition slot_tidy :: "nat \<Rightarrow> slot_inner \<Rightarrow> bool" where
  "slot_tidy n s \<longleftrightarrow> slot_inv n s \<and>
     (\<forall>i < n. i \<in> set (sl_free s) \<and> slot_entry s i = None \<or> (\<exists>k. fmlookup (sl_index s) k = Some i))"

definition slot_entries :: "slot_inner \<Rightarrow> (string \<times> u8 list) list" where
  "slot_entries s = map (\<lambda>k. (k, the (slot_contents s k))) (sl_order s)"

lemma slot_tidy_inv: "slot_tidy n s \<Longrightarrow> slot_inv n s"
  by (simp add: slot_tidy_def)

lemma slot_order_index: "slot_inv n s \<Longrightarrow> k \<in> set (sl_order s) \<longleftrightarrow> fmlookup (sl_index s) k \<noteq> None"
  by (auto simp: slot_inv_def fmlookup_dom'_iff)

lemma slot_tidy_length:
  assumes "slot_tidy n s"
  shows "length (sl_order s) + length (sl_free s) = n"
proof -
  have ivt: "slot_inv n s" using assms by (rule slot_tidy_inv)
  then have "distinct (sl_order s)" "distinct (sl_free s)" by (simp_all add: slot_inv_def)
  let ?f = "\<lambda>k. the (fmlookup (sl_index s) k)"
  have at: "k \<in> set (sl_order s) \<Longrightarrow> fmlookup (sl_index s) k = Some (?f k)" for k
    using slot_order_index [OF ivt] by fastforce
  have inj: "inj_on ?f (set (sl_order s))"
    by (rule inj_onI) (metis at slot_inv_inj [OF ivt])
  have un: "?f ` set (sl_order s) \<union> set (sl_free s) = {..<n}"
  proof
    show "?f ` set (sl_order s) \<union> set (sl_free s) \<subseteq> {..<n}"
      using at ivt by (auto simp: slot_inv_def)
    show "{..<n} \<subseteq> ?f ` set (sl_order s) \<union> set (sl_free s)"
    proof
      fix i assume "i \<in> {..<n}"
      then consider "i \<in> set (sl_free s)" | k where "fmlookup (sl_index s) k = Some i"
        using assms by (auto simp: slot_tidy_def)
      then show "i \<in> ?f ` set (sl_order s) \<union> set (sl_free s)"
      proof cases
        case 2
        then have "k \<in> set (sl_order s)" using slot_order_index [OF ivt] by simp
        with 2 show ?thesis by force
      qed simp
    qed
  qed
  have disj: "?f ` set (sl_order s) \<inter> set (sl_free s) = {}"
    using at ivt by (force simp: slot_inv_def)
  have "n = card (?f ` set (sl_order s) \<union> set (sl_free s))" using un by simp
  also have "\<dots> = card (?f ` set (sl_order s)) + card (set (sl_free s))"
    using disj by (simp add: card_Un_disjoint)
  also have "\<dots> = length (sl_order s) + length (sl_free s)"
    using inj \<open>distinct (sl_order s)\<close> \<open>distinct (sl_free s)\<close> by (simp add: card_image distinct_card)
  finally show ?thesis by simp
qed

lemma map_of_slot_entries: "slot_inv n s \<Longrightarrow> map_of (slot_entries s) k = slot_contents s k"
proof -
  assume ivt: "slot_inv n s"
  have "map_of (map (\<lambda>k. (k, the (slot_contents s k))) ks) k =
      (if k \<in> set ks then Some (the (slot_contents s k)) else None)" for ks
    by (induction ks) auto
  moreover have "slot_contents s k = None \<longleftrightarrow> k \<notin> set (sl_order s)"
    using slot_order_index [OF ivt] slot_contents_dom [OF ivt] by simp
  ultimately show ?thesis by (cases "slot_contents s k") (auto simp: slot_entries_def)
qed

lemma slot_entries_cong:
  "sl_order t = sl_order s \<Longrightarrow> slot_contents t = slot_contents s \<Longrightarrow> slot_entries t = slot_entries s"
  by (simp add: slot_entries_def)

lemma slot_entries_keys: "map fst (slot_entries s) = sl_order s"
  by (simp add: slot_entries_def comp_def)

section \<open>The queue\<close>

definition fifo_put ::
  "nat \<Rightarrow> 'k \<Rightarrow> 'v \<Rightarrow> ('k \<times> 'v) list \<Rightarrow> ('k \<times> 'v) list \<times> ('k \<times> 'v) list" where
  "fifo_put n k v es =
     (if k \<in> fst ` set es then ([], map (\<lambda>(j, w). (j, if j = k then v else w)) es)
      else if length es < n then ([], es @ [(k, v)])
      else (take 1 es, drop 1 es @ [(k, v)]))"

lemma tidy_overwrite:
  assumes "slot_tidy n s" "fmlookup (sl_index s) k = Some i" "slot_fits k v s = Ok ()" "utf8_valid (as_bytes k)"
    and "write_slot i k v s = Some (Ok (), t)"
  shows "slot_tidy n t \<and> fifo_put n k v (slot_entries s) = ([], slot_entries t)"
proof -
  note ivt = slot_tidy_inv [OF assms(1)]
  note o = overwrite_spec [OF ivt assms(2-5)]
  have i: "i < n" using ivt assms(2) by (rule slot_invD)
  have "slot_entry t j = slot_entry s j" if "j < n" "j \<noteq> i" for j
    using write_slot_spec [OF _ _ i assms(3,4)] ivt assms(5) that by (auto simp: slot_inv_def)
  moreover have "i \<notin> set (sl_free s)" using ivt assms(2) by (auto simp: slot_inv_def)
  ultimately have "slot_tidy n t" using assms(1) o unfolding slot_tidy_def by metis
  moreover have "k \<in> fst ` set (slot_entries s)"
    using slot_order_index [OF ivt, of k] assms(2) slot_entries_keys [of s] by (metis list.set_map option.distinct(1))
  then have "fifo_put n k v (slot_entries s) = ([], slot_entries t)"
    by (auto simp: fifo_put_def slot_entries_def o)
  ultimately show ?thesis by simp
qed

lemma tidy_store:
  assumes "slot_inv n s" "i < n" "i \<notin> set (sl_free s)" "\<forall>j. fmlookup (sl_index s) j \<noteq> Some i"
    and "\<forall>j < n. j \<noteq> i \<longrightarrow> j \<in> set (sl_free s) \<and> slot_entry s j = None \<or> (\<exists>k. fmlookup (sl_index s) k = Some j)"
    and "fmlookup (sl_index s) k = None" "slot_fits k v s = Ok ()" "utf8_valid (as_bytes k)"
    and w: "write_slot i k v s = Some (Ok (), s2)"
  defines "t \<equiv> s2\<lparr>sl_index := fmupd k i (sl_index s2), sl_order := sl_order s2 @ [k]\<rparr>"
  shows "slot_tidy n t \<and> slot_entries t = slot_entries s @ [(k, v)]"
proof
  note st = store_spec [OF assms(1-4,6-9), folded t_def]
  note f = write_slot_fields [OF w]
  obtain m where m: "s2 = s\<lparr>sl_map := m\<rparr>"
      "\<And>j. j < n \<Longrightarrow> j \<noteq> i \<Longrightarrow> slot_entry (s\<lparr>sl_map := m\<rparr>) j = slot_entry s j"
    using write_slot_spec [OF _ _ assms(2,7,8)] assms(1) w by (auto simp: slot_inv_def)
  have "slot_entry t j = slot_entry s j" if "j < n" "j \<noteq> i" for j
    using m(2) [OF that] by (simp add: t_def m(1) slot_entry_def)
  moreover have "fmlookup (sl_index t) q = Some j" if "fmlookup (sl_index s) q = Some j" for q j
    using that assms(6) f by (auto simp: t_def)
  moreover have "fmlookup (sl_index t) k = Some i" "sl_free t = sl_free s" using f by (simp_all add: t_def)
  ultimately show "slot_tidy n t"
    using st(1) assms(5) unfolding slot_tidy_def by metis
  have "k \<notin> set (sl_order s)" using slot_order_index [OF assms(1)] assms(6) by simp
  then show "slot_entries t = slot_entries s @ [(k, v)]"
    using f by (auto simp: slot_entries_def st(2)) (auto simp: t_def slot_entries_def)
qed

text \<open>Records that the length fields can describe: then a write that fits does not fail.\<close>

lemma fits_writes:
  assumes "slot_fits k v s = Ok ()" "length (as_bytes k) < 2 ^ 16" "length v < 2 ^ 32"
    and "HEADER < sl_size s" "length (sl_map s) = n * sl_size s" "i < n" "utf8_valid (as_bytes k)"
  obtains t where "write_slot i k v s = Some (Ok (), t)"
  using write_slot_spec [OF assms(4-6,1,7)] assms(2,3) that by blast

lemma slot_insert_new:
  assumes "slot_fits k v s = Ok ()" "fmlookup (sl_index s) k = None" "take_slot s = Some (Ok (i, d), s1)"
    and "write_slot i k v s1 = Some (Ok (), s2)"
  shows "slot_insert k v s =
    Some (Ok d, s2\<lparr>sl_index := fmupd k i (sl_index s2), sl_order := sl_order s2 @ [k]\<rparr>)"
  using assms by (simp add: slot_insert_def)

lemma slot_insert_fifo:
  assumes tidy: "slot_tidy n s" and small: "length (as_bytes k) < 2 ^ 16" "length v < 2 ^ 32" and fits: "slot_fits k v s = Ok ()"
    and utf8: "utf8_valid (as_bytes k)" and "0 < n"
  obtains d t where "slot_insert k v s = Some (Ok d, t)" "slot_tidy n t" "sl_size t = sl_size s"
    "fifo_put n k v (slot_entries s) = (d, slot_entries t)"
proof -
  note ivt = slot_tidy_inv [OF tidy]
  have sz: "HEADER < sl_size s" "length (sl_map s) = n * sl_size s" using ivt by (simp_all add: slot_inv_def)
  note len = slot_tidy_length [OF tidy]
  show thesis
  proof (cases "fmlookup (sl_index s) k")
    case (Some i)
    then have i: "i < n" using ivt by (auto elim: slot_invD)
    obtain t where w: "write_slot i k v s = Some (Ok (), t)" by (rule fits_writes [OF fits small sz i utf8])
    then have "slot_insert k v s = Some (Ok [], t)" using fits Some by (simp add: slot_insert_def)
    with that show ?thesis
      using tidy_overwrite [OF tidy Some fits utf8 w] write_slot_fields(4) [OF w] by blast
  next
    case new: None
    have fresh: "k \<notin> fst ` set (slot_entries s)"
      using slot_order_index [OF ivt, of k] new slot_entries_keys [of s] by (metis list.set_map)
    show ?thesis
    proof (cases "sl_free s = []")
      case False
      let ?i = "last (sl_free s)" and ?s = "s\<lparr>sl_free := butlast (sl_free s)\<rparr>"
      note tk = take_free [OF ivt False]
      have fits': "slot_fits k v ?s = Ok ()" using fits by (simp add: slot_fits_def)
      obtain s2 where w: "write_slot ?i k v ?s = Some (Ok (), s2)"
        using fits_writes [OF fits', of n ?i] small sz tk(4) utf8 by auto
      have rest: "\<forall>j < n. j \<noteq> ?i \<longrightarrow> j \<in> set (sl_free ?s) \<and> slot_entry ?s j = None \<or>
          (\<exists>k. fmlookup (sl_index ?s) k = Some j)"
      proof (intro allI impI)
        fix j assume "j < n" "j \<noteq> ?i"
        moreover have "set (sl_free s) = insert ?i (set (butlast (sl_free s)))"
          using append_butlast_last_id [OF False] by (metis Un_insert_right append_Nil2 empty_set list.simps(15) set_append sup_bot.right_neutral)
        ultimately show "j \<in> set (sl_free ?s) \<and> slot_entry ?s j = None \<or> (\<exists>k. fmlookup (sl_index ?s) k = Some j)"
          using tidy unfolding slot_tidy_def slot_entry_def by auto
      qed
      note st = tidy_store [OF tk(2,4,5,6) rest _ fits' utf8 w]
      have e: "slot_entries ?s = slot_entries s" using tk(3) by (simp add: slot_entries_def)
      have "length (slot_entries s) < n" using len False by (simp add: slot_entries_def) (metis length_greater_0_conv less_add_same_cancel1)
      then have "fifo_put n k v (slot_entries s) = ([], slot_entries s @ [(k, v)])"
        using fresh by (simp add: fifo_put_def)
      with that [OF slot_insert_new [OF fits new tk(1) w]] st e new write_slot_fields(4) [OF w]
      show ?thesis by simp
    next
      case True
      then obtain o' order where o': "sl_order s = o' # order" using len \<open>0 < n\<close> by (cases "sl_order s") auto
      let ?s = "s\<lparr>sl_order := order, sl_index := fmdrop o' (sl_index s)\<rparr>"
      obtain i x where tk: "take_slot s = Some (Ok (i, [(o', x)]), ?s)" "slot_contents s o' = Some x" "slot_inv n ?s"
          "slot_contents ?s = (slot_contents s)(o' := None)" "i < n" "\<forall>j. fmlookup (sl_index ?s) j \<noteq> Some i"
          "fmlookup (sl_index s) o' = Some i"
        by (rule take_oldest [OF ivt True o'])
      have fits': "slot_fits k v ?s = Ok ()" using fits by (simp add: slot_fits_def)
      obtain s2 where w: "write_slot i k v ?s = Some (Ok (), s2)"
        using fits_writes [OF fits', of n i] small sz tk(5) utf8 by auto
      have rest: "\<forall>j < n. j \<noteq> i \<longrightarrow> j \<in> set (sl_free ?s) \<and> slot_entry ?s j = None \<or>
          (\<exists>k. fmlookup (sl_index ?s) k = Some j)"
      proof (intro allI impI)
        fix j assume j: "j < n" "j \<noteq> i"
        then obtain q where q: "fmlookup (sl_index s) q = Some j" using tidy True by (auto simp: slot_tidy_def)
        then have "q \<noteq> o'" using tk(7) j(2) by auto
        then show "j \<in> set (sl_free ?s) \<and> slot_entry ?s j = None \<or> (\<exists>k. fmlookup (sl_index ?s) k = Some j)"
          using q by auto
      qed
      note st = tidy_store [OF tk(3,5) _ tk(6) rest _ fits' utf8 w]
      have no: "o' \<notin> set order" using ivt o' by (auto simp: slot_inv_def)
      have e: "slot_entries s = (o', x) # slot_entries ?s"
        using tk(2,4) no by (auto simp: slot_entries_def o')
      have "length (slot_entries s) = n" using len True by (simp add: slot_entries_def)
      then have "fifo_put n k v (slot_entries s) = ([(o', x)], slot_entries ?s @ [(k, v)])"
        using fresh e by (simp add: fifo_put_def)
      with that [OF slot_insert_new [OF fits new tk(1) w]] st True new write_slot_fields(4) [OF w]
      show ?thesis by (simp add: e)
    qed
  qed
qed

end
