(* ===== verification/Slot_File.thy ===== *)
theory Slot_File
  imports Slot_Queue
begin

text \<open>
  Removal from the slot store, and its file: opening a file finds the records in its slots. A store
  opened on a fresh file is empty and tidy; one opened on the file of a tidy store serves the same
  entries.
\<close>

section \<open>Removal\<close>

lemma slot_remove_spec:
  assumes "slot_inv n s" "fmlookup (sl_index s) k = Some i"
  obtains t where "slot_remove k s = Some (True, t)" "slot_inv n t" "slot_contents t = (slot_contents s)(k := None)"
    "sl_order t = filter (\<lambda>j. j \<noteq> k) (sl_order s)" "sl_free t = sl_free s @ [i]" "slot_entry t i = None"
    "sl_index t = fmdrop k (sl_index s)" "\<And>j. j < n \<Longrightarrow> j \<noteq> i \<Longrightarrow> slot_entry t j = slot_entry s j"
    "sl_size t = sl_size s"
proof -
  have i: "i < n" using assms by (auto elim: slot_invD)
  have sz: "HEADER < sl_size s" "length (sl_map s) = n * sl_size s" using assms(1) by (simp_all add: slot_inv_def)
  have "i * sl_size s + length [0 :: u8] \<le> length (sl_map s)"
    using in_range [OF i, of "sl_size s"] sz by simp
  then obtain m where m: "blit (sl_map s) (i * sl_size s) [0] = Some m" unfolding blit_def by (metis (full_types))
  have one: "length [0 :: u8] \<le> sl_size s" using sz by simp
  note b = slot_bytes_blit [OF m one i _ sz(2)]
  define t where "t = s\<lparr>sl_index := fmdrop k (sl_index s), sl_map := m, sl_free := sl_free s @ [i],
                       sl_order := filter (\<lambda>j. j \<noteq> k) (sl_order s)\<rparr>"
  have e: "slot_entry t j = slot_entry s j" if "j < n" "j \<noteq> i" for j
    using b(2) [OF that(1)] that(2) by (simp add: slot_entry_def t_def)
  have "slot_entry t i = None" using b(2) [OF i] by (simp add: slot_entry_def t_def record_of_def)
  have ne: "j \<noteq> i" if "fmlookup (sl_index s) q = Some j" "q \<noteq> k" for q j
    using slot_inv_inj [OF assms(1,2)] that by blast
  have ent: "j < n \<and> j \<noteq> i \<and> slot_entry t j = slot_entry s j \<and> (\<exists>x. slot_entry s j = Some (q, x))"
    if "fmlookup (sl_index s) q = Some j" "q \<noteq> k" for q j
    using ne [OF that] slot_invD [OF assms(1) that(1)] e by metis
  have "i \<notin> set (sl_free s)" using assms by (auto simp: slot_inv_def)
  then have "slot_inv n t"
    using assms(1) ent i b(1) [OF i] unfolding slot_inv_def by (auto simp: t_def split: if_splits)
  moreover have "slot_contents t = (slot_contents s)(k := None)"
    using ent by (auto simp: slot_contents_def fun_eq_iff t_def split: Option.bind_split)
  moreover have "slot_remove k s = Some (True, t)" using assms(2) m by (simp add: slot_remove_def t_def)
  ultimately show thesis using that [of t] \<open>slot_entry t i = None\<close> e by (simp add: t_def)
qed

lemma slot_remove_fifo:
  assumes "slot_tidy n s"
  obtains t where "slot_remove k s = Some (k \<in> fst ` set (slot_entries s), t)" "slot_tidy n t" "sl_size t = sl_size s"
    "slot_entries t = filter (\<lambda>e. fst e \<noteq> k) (slot_entries s)"
proof -
  note ivt = slot_tidy_inv [OF assms]
  have mem: "k \<in> fst ` set (slot_entries s) \<longleftrightarrow> fmlookup (sl_index s) k \<noteq> None"
    using slot_order_index [OF ivt, of k] slot_entries_keys [of s] by (metis list.set_map)
  show thesis
  proof (cases "fmlookup (sl_index s) k")
    case None
    then have r: "slot_remove k s = Some (False, s)" by (simp add: slot_remove_def)
    have "\<forall>e \<in> set (slot_entries s). fst e \<noteq> k" using None mem by force
    then have "slot_entries s = filter (\<lambda>e. fst e \<noteq> k) (slot_entries s)" by simp
    with that [of s] r None mem assms show ?thesis by simp
  next
    case (Some i)
    obtain t where t: "slot_remove k s = Some (True, t)" "slot_inv n t" "slot_contents t = (slot_contents s)(k := None)"
        "sl_order t = filter (\<lambda>j. j \<noteq> k) (sl_order s)" "sl_free t = sl_free s @ [i]" "slot_entry t i = None"
        "sl_index t = fmdrop k (sl_index s)" "\<And>j. j < n \<Longrightarrow> j \<noteq> i \<Longrightarrow> slot_entry t j = slot_entry s j"
        "sl_size t = sl_size s"
      by (rule slot_remove_spec [OF ivt Some]) blast
    have "j \<in> set (sl_free t) \<and> slot_entry t j = None \<or> (\<exists>q. fmlookup (sl_index t) q = Some j)" if "j < n" for j
    proof (cases "j = i")
      case True
      then show ?thesis using t(5,6) by simp
    next
      case False
      consider "j \<in> set (sl_free s)" "slot_entry s j = None" | q where "fmlookup (sl_index s) q = Some j"
        using assms \<open>j < n\<close> by (auto simp: slot_tidy_def)
      then show ?thesis
      proof cases
        case 1
        then show ?thesis using t(5) t(8) [OF that False] by simp
      next
        case (2 q)
        then have "q \<noteq> k" using Some False by auto
        with 2 show ?thesis using t(7) by auto
      qed
    qed
    then have "slot_tidy n t" using t(2) by (simp add: slot_tidy_def)
    moreover have "slot_entries t = filter (\<lambda>e. fst e \<noteq> k) (slot_entries s)"
      by (simp add: slot_entries_def t(3,4) filter_map comp_def)
    ultimately show ?thesis using that t(1,9) Some mem by simp
  qed
qed

section \<open>Opening a file\<close>


lemma scan_slots_spec:
  assumes "\<forall>i \<in> set slots. read_slot m sz i = Some (e i)" "distinct slots"
    and "\<forall>i \<in> set slots. \<forall>j \<in> set slots. \<forall>k v w. e i = Some (k, v) \<longrightarrow> e j = Some (k, w) \<longrightarrow> i = j"
  shows "\<exists>index'. scan_slots m sz slots (index, order, free) =
      Some (index', order @ map (fst \<circ> the \<circ> e) (filter (\<lambda>i. e i \<noteq> None) slots), free @ filter (\<lambda>i. e i = None) slots) \<and>
    (\<forall>i \<in> set slots. \<forall>k v. e i = Some (k, v) \<longrightarrow> fmlookup index' k = Some i) \<and>
    (\<forall>k. (\<forall>i \<in> set slots. \<forall>v. e i \<noteq> Some (k, v)) \<longrightarrow> fmlookup index' k = fmlookup index k)"
  using assms
proof (induction slots arbitrary: index order free)
  case (Cons slot slots)
  show ?case
  proof (cases "e slot")
    case None
    then show ?thesis
      using Cons.IH [of index order "free @ [slot]"] Cons.prems by simp
  next
    case (Some x)
    obtain k v where x: "x = (k, v)" by (cases x)
    have fresh: "\<forall>i \<in> set slots. \<forall>w. e i \<noteq> Some (k, w)"
      using Cons.prems(2,3) Some x by (metis distinct.simps(2) list.set_intros(1,2))
    from Cons.IH [of "fmupd k slot index" "order @ [k]" free] Cons.prems Some x fresh
    show ?thesis by auto
  qed
qed simp

text \<open>A file whose slots name every key once opens to a tidy store.\<close>

lemma slot_open_tidy:
  assumes "HEADER < sz" "n * sz \<le> usize_max" "m = (if length bytes \<noteq> n * sz then set_len (n * sz) bytes else bytes)"
    and "\<forall>i < n. \<forall>j < n. \<forall>k v w. record_of (slot_bytes m sz i) = Some (k, v) \<longrightarrow>
      record_of (slot_bytes m sz j) = Some (k, w) \<longrightarrow> i = j"
  obtains t where "slot_open (Ok bytes) None n sz = Some (Ok t)" "slot_tidy n t" "sl_map t = m" "sl_size t = sz"
    "sl_order t = map (fst \<circ> the \<circ> slot_entry t) (filter (\<lambda>i. slot_entry t i \<noteq> None) [0..<n])"
    "\<And>k i. fmlookup (sl_index t) k = Some i \<longleftrightarrow> i < n \<and> (\<exists>v. record_of (slot_bytes m sz i) = Some (k, v))"
proof -
  let ?e = "\<lambda>i. record_of (slot_bytes m sz i)"
  have len: "length m = n * sz" by (simp add: assms(3) set_len_def min_def)
  let ?keys = "map (fst \<circ> the \<circ> ?e) (filter (\<lambda>i. ?e i \<noteq> None) [0..<n])"
  have "\<forall>i \<in> set [0..<n]. read_slot m sz i = Some (?e i)"
    using read_slot_record [OF _ len assms(1)] by simp
  moreover have "\<forall>i \<in> set [0..<n]. \<forall>j \<in> set [0..<n]. \<forall>k v w. ?e i = Some (k, v) \<longrightarrow> ?e j = Some (k, w) \<longrightarrow> i = j"
    using assms(4) by simp
  ultimately obtain index where scan: "scan_slots m sz [0..<n] (fmempty, [], []) =
        Some (index, [] @ ?keys, [] @ filter (\<lambda>i. ?e i = None) [0..<n])"
      and s: "\<forall>i \<in> set [0..<n]. \<forall>k v. ?e i = Some (k, v) \<longrightarrow> fmlookup index k = Some i"
      and z: "\<forall>k. (\<forall>i \<in> set [0..<n]. \<forall>v. ?e i \<noteq> Some (k, v)) \<longrightarrow> fmlookup index k = fmlookup fmempty k"
    using scan_slots_spec [of "[0..<n]" m sz ?e fmempty "[]" "[]"] distinct_upt by blast
  have some: "fmlookup index k = Some i" if "i < n" "?e i = Some (k, v)" for i k v using s that by simp
  have none: "fmlookup index k = None" if "\<forall>i < n. \<forall>v. ?e i \<noteq> Some (k, v)" for k using z that by simp
  define t where "t = \<lparr>sl_map = m, sl_size = sz, sl_index = index,
    sl_order = map (fst \<circ> the \<circ> ?e) (filter (\<lambda>i. ?e i \<noteq> None) [0..<n]), sl_free = filter (\<lambda>i. ?e i = None) [0..<n]\<rparr>"
  have e: "slot_entry t = ?e" by (simp add: t_def fun_eq_iff slot_entry_def)
  have index: "fmlookup index k = Some i \<longleftrightarrow> i < n \<and> (\<exists>v. ?e i = Some (k, v))" for k i
    using some none [of k] by (metis option.distinct(1) option.inject)
  have dist: "distinct (sl_order t)"
    using assms(4) by (auto simp: t_def distinct_map inj_on_def)
  have "set (sl_order t) = fmdom' index"
  proof (rule set_eqI)
    fix k show "k \<in> set (sl_order t) \<longleftrightarrow> k \<in> fmdom' index"
      using index [of k] by (force simp: t_def fmlookup_dom'_iff image_iff)
  qed
  then have "slot_inv n t"
    using assms(1) len dist index unfolding slot_inv_def e by (auto simp: t_def)
  moreover have "i \<in> set (sl_free t) \<and> ?e i = None \<or> (\<exists>k. fmlookup (sl_index t) k = Some i)" if "i < n" for i
    using that index by (cases "?e i") (auto simp: t_def)
  ultimately have tidy: "slot_tidy n t" by (simp add: slot_tidy_def e)
  have "slot_open (Ok bytes) None n sz = Some (Ok t)"
    using assms(1-3) scan by (simp add: slot_open_def Let_def t_def not_less)
  then show thesis using that tidy index e by (simp add: t_def)
qed

lemma slot_entry_tidy:
  assumes "slot_tidy n s" "i < n"
  shows "slot_entry s i = Some (k, v) \<longleftrightarrow> fmlookup (sl_index s) k = Some i \<and> slot_contents s k = Some v"
proof
  note ivt = slot_tidy_inv [OF assms(1)]
  show "slot_entry s i = Some (k, v)" if "fmlookup (sl_index s) k = Some i \<and> slot_contents s k = Some v"
    using that slot_invD [OF ivt] by (metis option.inject)
  assume e: "slot_entry s i = Some (k, v)"
  then obtain j where "fmlookup (sl_index s) j = Some i" using assms by (auto simp: slot_tidy_def)
  then show "fmlookup (sl_index s) k = Some i \<and> slot_contents s k = Some v"
    using slot_invD [OF ivt, of j i] e by (metis option.inject prod.inject)
qed

lemma slot_reopen_tidy:
  assumes "slot_tidy n s" "n * sl_size s \<le> usize_max"
  obtains t where "slot_open (Ok (sl_map s)) None n (sl_size s) = Some (Ok t)" "slot_tidy n t"
    "slot_contents t = slot_contents s" "sl_size t = sl_size s"
    "sl_order t = map (fst \<circ> the \<circ> slot_entry t) (filter (\<lambda>i. slot_entry t i \<noteq> None) [0..<n])"
proof -
  have ivt: "slot_inv n s" using assms(1) by (rule slot_tidy_inv)
  then have sz: "HEADER < sl_size s" and len: "length (sl_map s) = n * sl_size s" by (simp_all add: slot_inv_def)
  have m: "sl_map s = (if length (sl_map s) \<noteq> n * sl_size s then set_len (n * sl_size s) (sl_map s) else sl_map s)"
    using len by simp
  have e: "record_of (slot_bytes (sl_map s) (sl_size s) i) = slot_entry s i" for i by (simp add: slot_entry_def)
  have inj: "\<forall>i < n. \<forall>j < n. \<forall>k v w. slot_entry s i = Some (k, v) \<longrightarrow> slot_entry s j = Some (k, w) \<longrightarrow> i = j"
    using slot_entry_tidy [OF assms(1)] by fastforce
  obtain t where t: "slot_open (Ok (sl_map s)) None n (sl_size s) = Some (Ok t)" "slot_tidy n t" "sl_map t = sl_map s"
      "sl_size t = sl_size s"
      "sl_order t = map (fst \<circ> the \<circ> slot_entry t) (filter (\<lambda>i. slot_entry t i \<noteq> None) [0..<n])"
      "\<And>k i. fmlookup (sl_index t) k = Some i \<longleftrightarrow> i < n \<and> (\<exists>v. slot_entry s i = Some (k, v))"
    using slot_open_tidy [OF sz assms(2) m] inj unfolding e by blast
  have te: "slot_entry t = slot_entry s" using t(3,4) by (simp add: slot_entry_def fun_eq_iff)
  have "fmlookup (sl_index t) k = Some i \<longleftrightarrow> fmlookup (sl_index s) k = Some i" for k i
    using t(6) [of k i] slot_entry_tidy [OF assms(1)] slot_invD [OF ivt, of k i] by metis
  then have "fmlookup (sl_index t) k = fmlookup (sl_index s) k" for k
    by (metis not_None_eq)
  then have "slot_contents t = slot_contents s" by (simp add: slot_contents_def te fun_eq_iff)
  then show thesis using that t(1,2,4,5) by simp
qed

end
