(* ===== verification/Slot_Tier.thy ===== *)
theory Slot_Tier
  imports Slot_File Tier_Traits "HOL-Library.Multiset"
begin

text \<open>
  The slot store as a tier: the contract of the tier traits, and the properties. Keys are Rust
  strings, so their bytes are UTF-8; a key that is not would not be read back.
\<close>

section \<open>The contract\<close>

lemma slot_fits_cases: "slot_fits k v s = Ok () \<or> slot_fits k v s = Err Invalid_Input"
  by (simp add: slot_fits_def)

text \<open>A put on any state, failing writes included.\<close>

lemma slot_contents_utf8: "slot_inv n s \<Longrightarrow> slot_contents s k = Some v \<Longrightarrow> utf8_valid (as_bytes k)"
proof -
  assume ivt: "slot_inv n s" and k: "slot_contents s k = Some v"
  then obtain i where "fmlookup (sl_index s) k = Some i" by (auto simp: slot_contents_def bind_eq_Some_conv)
  then have "slot_entry s i = Some (k, v)" using slot_invD [OF ivt] k by (metis option.inject)
  then show "utf8_valid (as_bytes k)"
    by (auto simp: slot_entry_def record_of_def from_utf8_def Let_def split: if_splits)
qed

lemma slot_insert_contract:
  assumes "slot_inv n s" "utf8_valid (as_bytes k)"
  shows "\<exists>r t. slot_insert k v s = Some (r, t) \<and> slot_inv n t \<and>
    (\<forall>d. r = Ok d \<longrightarrow> (\<forall>e \<in> set d. utf8_valid (as_bytes (fst e))) \<and>
       pend d ++ slot_contents t = (slot_contents s)(k \<mapsto> v))"
proof (cases "slot_fits k v s = Ok ()")
  case False
  then have "slot_insert k v s = Some (Err Invalid_Input, s)"
    using slot_fits_cases [of k v s] by (simp add: slot_insert_def)
  with assms(1) show ?thesis by blast
next
  case fits: True
  have sz: "HEADER < sl_size s" "length (sl_map s) = n * sl_size s" using assms(1) by (simp_all add: slot_inv_def)
  show ?thesis
  proof (cases "fmlookup (sl_index s) k")
    case (Some i)
    then have i: "i < n" using assms(1) by (auto elim: slot_invD)
    consider "write_slot i k v s = Some (Err Invalid_Input, s)" | t where "write_slot i k v s = Some (Ok (), t)"
      using write_slot_spec [OF sz i fits assms(2)] by blast
    then show ?thesis
    proof cases
      case 1
      then have "slot_insert k v s = Some (Err Invalid_Input, s)" using fits Some by (simp add: slot_insert_def)
      with assms(1) show ?thesis by blast
    next
      case (2 t)
      then have "slot_insert k v s = Some (Ok [], t)" using fits Some by (simp add: slot_insert_def)
      with overwrite_spec(1,2) [OF assms(1) Some fits assms(2) 2] show ?thesis by simp
    qed
  next
    case new: None
    have step: ?thesis
      if tk: "take_slot s = Some (Ok (i, d), s1)" "slot_inv n s1" "i < n" "i \<notin> set (sl_free s1)"
        "\<forall>j. fmlookup (sl_index s1) j \<noteq> Some i" "sl_size s1 = sl_size s" "fmlookup (sl_index s1) k = None"
        "\<forall>e \<in> set d. utf8_valid (as_bytes (fst e))"
        "pend d ++ (slot_contents s1)(k \<mapsto> v) = (slot_contents s)(k \<mapsto> v)"
      for i d s1
    proof -
      have sz1: "HEADER < sl_size s1" "length (sl_map s1) = n * sl_size s1" using tk(2) by (simp_all add: slot_inv_def)
      have fits1: "slot_fits k v s1 = Ok ()" using fits tk(6) by (simp add: slot_fits_def)
      consider "write_slot i k v s1 = Some (Err Invalid_Input, s1)" | t where "write_slot i k v s1 = Some (Ok (), t)"
        using write_slot_spec [OF sz1 tk(3) fits1 assms(2)] by blast
      then show ?thesis
      proof cases
        case 1
        then have "slot_insert k v s = Some (Err Invalid_Input, s1)"
          using fits new tk(1) by (simp add: slot_insert_def)
        with tk(2) show ?thesis by blast
      next
        case (2 t)
        from slot_insert_new [OF fits new tk(1) 2] store_spec [OF tk(2-5,7) fits1 assms(2) 2] tk(8,9)
        show ?thesis by simp
      qed
    qed
    show ?thesis
    proof (cases "sl_free s = []")
      case False
      note tk = take_free [OF assms(1) False]
      show ?thesis by (rule step [OF tk(1,2,4,5,6)]) (use tk(3) new in simp_all)
    next
      case free: True
      show ?thesis
      proof (cases "sl_order s")
        case Nil
        then have "slot_insert k v s = Some (Err (Fault ''mmap tier has zero slots''), s)"
          using fits new free by (simp add: slot_insert_def take_slot_def)
        with assms(1) show ?thesis by blast
      next
        case (Cons j order)
        have "j \<noteq> k" using slot_order_index [OF assms(1), of j] new Cons by auto
        moreover obtain i x where tk: "take_slot s = Some (Ok (i, [(j, x)]), s\<lparr>sl_order := order, sl_index := fmdrop j (sl_index s)\<rparr>)"
            "slot_contents s j = Some x" "slot_inv n (s\<lparr>sl_order := order, sl_index := fmdrop j (sl_index s)\<rparr>)"
            "slot_contents (s\<lparr>sl_order := order, sl_index := fmdrop j (sl_index s)\<rparr>) = (slot_contents s)(j := None)"
            "i < n" "\<forall>q. fmlookup (sl_index (s\<lparr>sl_order := order, sl_index := fmdrop j (sl_index s)\<rparr>)) q \<noteq> Some i"
          by (rule take_oldest [OF assms(1) free Cons]) blast
        moreover have "utf8_valid (as_bytes j)" using slot_contents_utf8 [OF assms(1) tk(2)] .
        ultimately show ?thesis
          by (intro step [OF tk(1,3,5) _ tk(6)]) (use new free in \<open>auto simp: fun_eq_iff map_add_def pend_def split: option.split\<close>)
      qed
    qed
  qed
qed

typedef rust_string = "{s :: string. utf8_valid (as_bytes s)}" morphisms str_of rust_string
  by (rule exI [of _ "[]"]) (simp add: as_bytes_def)

text \<open>The trait methods; \<open>enc\<close> and \<open>dec\<close> turn the keys of the model into strings and back.\<close>

definition slot_ops_on :: "('k \<Rightarrow> string) \<Rightarrow> (string \<Rightarrow> 'k) \<Rightarrow> (slot_inner, 'k, u8 list, io_error) tier_ops" where
  "slot_ops_on enc dec =
     (let put = (\<lambda>s k v. apfst (map_sum id (map (apfst dec))) (the (slot_insert (enc k) v s)));
          get = (\<lambda>s k. (Ok (the (slot_fetch (enc k) s)), s));
          del = (\<lambda>s k. apfst Ok (the (slot_remove (enc k) s)))
      in \<lparr>t_name = (\<lambda>_. ''mmap''), t_get = get,
          t_exists = (\<lambda>s k. (Ok (hm_contains (sl_index s) (enc k)), s)),
          t_get_many = get_many_default get, t_put = put, t_delete = del,
          t_put_many = put_many_default put, t_delete_many = delete_many_default del\<rparr>)"

definition slot_mmap_ops :: "(slot_inner, rust_string, u8 list, io_error) tier_ops" where
  "slot_mmap_ops = slot_ops_on str_of rust_string"

lemma str_of_utf8 [simp]: "utf8_valid (as_bytes (str_of k))"
  using str_of [of k] by simp

lemma pend_rust:
  assumes "\<forall>e \<in> set d. utf8_valid (as_bytes (fst e))"
  shows "pend (map (apfst rust_string) d) k = pend d (str_of k)"
proof -
  have "map_of (map (apfst rust_string) (rev d)) k = map_of (rev d) (str_of k)"
    using assms
  proof (induction d rule: rev_induct)
    case (snoc e d)
    then have "rust_string (fst e) = k \<longleftrightarrow> fst e = str_of k"
      using rust_string_inverse [of "fst e"] str_of_inverse [of k] by auto
    with snoc show ?case by (cases e) auto
  qed simp
  then show ?thesis by (simp add: pend_def rev_map)
qed

definition slot_mmap_state :: "nat \<Rightarrow> (slot_inner, rust_string, u8 list, io_error) tier_ops \<Rightarrow> slot_inner \<Rightarrow> bool" where
  "slot_mmap_state n ops s \<longleftrightarrow> ops = slot_mmap_ops \<and> slot_inv n s"

definition slot_con :: "slot_inner \<Rightarrow> (rust_string \<rightharpoonup> u8 list)" where
  "slot_con s k = slot_contents s (str_of k)"

lemma slot_mmap_ops_simps:
  "t_get slot_mmap_ops s k = (Ok (the (slot_fetch (str_of k) s)), s)"
  "t_exists slot_mmap_ops s k = (Ok (hm_contains (sl_index s) (str_of k)), s)"
  "t_put slot_mmap_ops s k v = apfst (map_sum id (map (apfst rust_string))) (the (slot_insert (str_of k) v s))"
  "t_delete slot_mmap_ops s k = apfst Ok (the (slot_remove (str_of k) s))"
  by (simp_all add: slot_mmap_ops_def slot_ops_on_def Let_def)

lemma slot_remove_contract:
  assumes "slot_inv n s"
  shows "\<exists>t. slot_remove k s = Some (slot_contents s k \<noteq> None, t) \<and> slot_inv n t \<and>
    slot_contents t = (slot_contents s)(k := None)"
proof (cases "fmlookup (sl_index s) k")
  case None
  then have "slot_contents s k = None" using slot_contents_dom [OF assms] by simp
  then show ?thesis using None assms by (auto simp: slot_remove_def)
next
  case (Some i)
  then have "slot_contents s k \<noteq> None" using slot_contents_dom [OF assms] by simp
  then show ?thesis using slot_remove_spec [OF assms Some] by (metis (full_types))
qed

lemma slot_mmap_put:
  assumes "slot_inv n s"
  obtains r t where "t_put slot_mmap_ops s k v = (r, t)" "slot_inv n t"
    "\<And>d. r = Ok d \<Longrightarrow> pend d ++ slot_con t = slot_con s ++ [k \<mapsto> v]"
proof -
  obtain r t where i: "slot_insert (str_of k) v s = Some (r, t)" "slot_inv n t"
      "\<And>d. r = Ok d \<Longrightarrow> (\<forall>e \<in> set d. utf8_valid (as_bytes (fst e))) \<and>
        pend d ++ slot_contents t = (slot_contents s)(str_of k \<mapsto> v)"
    using slot_insert_contract [OF assms str_of_utf8, of k v] by blast
  have "pend (map (apfst rust_string) d) ++ slot_con t = slot_con s ++ [k \<mapsto> v]" if "r = Ok d" for d
  proof
    fix j
    have "(pend d ++ slot_contents t) (str_of j) = ((slot_contents s)(str_of k \<mapsto> v)) (str_of j)"
      using i(3) [OF that] by simp
    then show "(pend (map (apfst rust_string) d) ++ slot_con t) j = (slot_con s ++ [k \<mapsto> v]) j"
      unfolding map_add_def slot_con_def pend_rust [OF conjunct1 [OF i(3) [OF that]]]
      by (auto simp: str_of_inject)
  qed
  then show thesis
    using that [of "map_sum id (map (apfst rust_string)) r" t] i(1,2)
    by (cases r) (auto simp: slot_mmap_ops_simps)
qed

interpretation slot: default_batch "slot_mmap_state n" "\<lambda>_. slot_con" for n
proof
  fix t and s :: slot_inner and k v
  assume i: "slot_mmap_state n t s"
  then have t: "t = slot_mmap_ops" "slot_inv n s" by (simp_all add: slot_mmap_state_def)
  show "slot_mmap_state n t (snd (t_get t s k))" "slot_con (snd (t_get t s k)) = slot_con s"
    "slot_mmap_state n t (snd (t_exists t s k))" "slot_con (snd (t_exists t s k)) = slot_con s"
    using i t by (simp_all add: slot_mmap_ops_simps)
  show "x = slot_con s k" if "fst (t_get t s k) = Ok x" for x
    using that t slot_fetch_eq [OF t(2)] by (simp add: slot_mmap_ops_simps slot_con_def)
  show "b \<longleftrightarrow> slot_con s k \<noteq> None" if "fst (t_exists t s k) = Ok b" for b
    using that t slot_contents_dom [OF t(2)] by (auto simp: slot_mmap_ops_simps slot_con_def hm_contains_iff)
  obtain r s' where p: "t_put slot_mmap_ops s k v = (r, s')" "slot_inv n s'"
      "\<And>d. r = Ok d \<Longrightarrow> pend d ++ slot_con s' = slot_con s ++ [k \<mapsto> v]"
    by (rule slot_mmap_put [OF t(2)]) blast
  show "slot_mmap_state n t (snd (t_put t s k v))" using p t by (simp add: slot_mmap_state_def)
  show "pend d ++ slot_con (snd (t_put t s k v)) = slot_con s ++ [k \<mapsto> v]" if "fst (t_put t s k v) = Ok d" for d
    using p t that by simp
  obtain s' where d: "slot_remove (str_of k) s = Some (slot_contents s (str_of k) \<noteq> None, s')" "slot_inv n s'"
      "slot_contents s' = (slot_contents s)(str_of k := None)"
    using slot_remove_contract [OF t(2)] by blast
  show "slot_mmap_state n t (snd (t_delete t s k))" using d t by (simp add: slot_mmap_ops_simps slot_mmap_state_def)
  fix b assume "fst (t_delete t s k) = Ok b"
  then show "b \<longleftrightarrow> slot_con s k \<noteq> None" using d t by (simp add: slot_mmap_ops_simps slot_con_def)
  show "slot_con (snd (t_delete t s k)) = (slot_con s)(k := None)"
    using d t by (auto simp: slot_mmap_ops_simps slot_con_def fun_eq_iff str_of_inject)
qed (simp_all add: slot_mmap_state_def slot_mmap_ops_def slot_ops_on_def Let_def)

section \<open>Properties\<close>

lemma slot_view:
  assumes "slot_inv n s"
  shows "\<exists>r. slot_get_ref k s = Some r \<and> (case r of None \<Rightarrow> None | Some x \<Rightarrow> slot_deref x s) = slot_contents s k"
proof (cases "fmlookup (sl_index s) k")
  case None
  then show ?thesis by (simp add: slot_get_ref_def slot_contents_def)
next
  case (Some i)
  obtain v where v: "i < n" "slot_entry s i = Some (k, v)" "slot_contents s k = Some v"
    by (rule slot_invD [OF assms Some])
  have sz: "HEADER < sl_size s" "length (sl_map s) = n * sl_size s" using assms by (simp_all add: slot_inv_def)
  then have r: "i * sl_size s + sl_size s \<le> length (sl_map s)" using in_range [OF v(1)] by simp
  let ?s = "slot_bytes (sl_map s) (sl_size s) i"
  let ?kl = "from_le16 (?s ! 1) (?s ! 2)" and ?vl = "from_le32 (?s ! 3) (?s ! 4) (?s ! 5) (?s ! 6)"
  have rec: "\<not> (?s ! 0 \<noteq> 1 \<or> sl_size s < HEADER + ?kl + ?vl) \<and> v = take ?vl (drop (HEADER + ?kl) ?s)"
    using v(2) length_slot_bytes [OF v(1) sz(2)] unfolding slot_entry_def record_of_def Let_def
    by (auto split: if_splits)
  then have view: "slot_get_ref k s = Some (Some (i * sl_size s + HEADER + ?kl, ?vl))"
    using Some value_range_slot [OF r sz(1)] by (simp add: slot_get_ref_def Let_def)
  have "slot_deref (i * sl_size s + HEADER + ?kl, ?vl) s = Some v"
    using sub_bytes_slot [OF r, of "HEADER + ?kl" "HEADER + ?kl + ?vl"] rec by (simp add: slot_deref_def add.assoc)
  with view v(3) show ?thesis by simp
qed

lemma slot_fresh:
  assumes "HEADER < sz" "n * sz \<le> usize_max"
  obtains t where "slot_open (Ok []) None n sz = Some (Ok t)" "slot_tidy n t" "slot_entries t = []" "sl_size t = sz"
proof -
  let ?m = "set_len (n * sz) []"
  have m: "?m = (if length ([] :: u8 list) \<noteq> n * sz then set_len (n * sz) [] else [])" by (simp add: set_len_def)
  have z: "record_of (slot_bytes ?m sz i) = None" if "i < n" for i
  proof -
    have "i * sz + sz \<le> n * sz" using that by (rule in_range)
    then show ?thesis using assms(1) by (simp add: record_of_def slot_bytes_def set_len_def)
  qed
  then have inj: "\<forall>i < n. \<forall>j < n. \<forall>k v w. record_of (slot_bytes ?m sz i) = Some (k, v) \<longrightarrow>
      record_of (slot_bytes ?m sz j) = Some (k, w) \<longrightarrow> i = j" by simp
  obtain t where t: "slot_open (Ok []) None n sz = Some (Ok t)" "slot_tidy n t" "sl_map t = ?m" "sl_size t = sz"
      "sl_order t = map (fst \<circ> the \<circ> slot_entry t) (filter (\<lambda>i. slot_entry t i \<noteq> None) [0..<n])"
    by (rule slot_open_tidy [OF assms m inj]) (rule that, assumption+)
  have "slot_entry t i = None" if "i < n" for i using z [OF that] t(3,4) by (simp add: slot_entry_def)
  then have "sl_order t = []" using t(5) by simp
  with that t show thesis by (simp add: slot_entries_def)
qed

text \<open>
  C30. The slot store is a bounded first-in-first-out queue: on a tidy store, with a key below 64 KiB
  and a value below 4 GiB, no operation panics; a read or a borrowed view shows the value of the
  entry, a removal takes out exactly the entry, and a put that does not fit its slot changes
  nothing; any other put replaces the value in place, appends, or, when every slot is used, hands
  back exactly the oldest entry.
\<close>

theorem slot_refines_fifo:
  assumes "slot_tidy n s" "0 < n" "utf8_valid (as_bytes k)" "length (as_bytes k) < 2 ^ 16" "length v < 2 ^ 32"
  shows "slot_fetch k s = Some (map_of (slot_entries s) k) \<and>
    (\<exists>r. slot_get_ref k s = Some r \<and> (case r of None \<Rightarrow> None | Some x \<Rightarrow> slot_deref x s) = map_of (slot_entries s) k) \<and>
    (\<exists>t. slot_remove k s = Some (k \<in> fst ` set (slot_entries s), t) \<and> slot_tidy n t \<and>
       slot_entries t = filter (\<lambda>e. fst e \<noteq> k) (slot_entries s)) \<and>
    (if sl_size s < HEADER + length (as_bytes k) + length v then slot_insert k v s = Some (Err Invalid_Input, s)
     else \<exists>d t. slot_insert k v s = Some (Ok d, t) \<and> slot_tidy n t \<and> sl_size t = sl_size s \<and>
       fifo_put n k v (slot_entries s) = (d, slot_entries t))"
proof (intro conjI)
  note ivt = slot_tidy_inv [OF assms(1)]
  show "slot_fetch k s = Some (map_of (slot_entries s) k)"
    using slot_fetch_eq [OF ivt] map_of_slot_entries [OF ivt] by simp
  show "\<exists>r. slot_get_ref k s = Some r \<and> (case r of None \<Rightarrow> None | Some x \<Rightarrow> slot_deref x s) = map_of (slot_entries s) k"
    using slot_view [OF ivt] map_of_slot_entries [OF ivt] by simp
  show "\<exists>t. slot_remove k s = Some (k \<in> fst ` set (slot_entries s), t) \<and> slot_tidy n t \<and>
      slot_entries t = filter (\<lambda>e. fst e \<noteq> k) (slot_entries s)"
    by (rule slot_remove_fifo [OF assms(1), of k]) blast
  show "if sl_size s < HEADER + length (as_bytes k) + length v then slot_insert k v s = Some (Err Invalid_Input, s)
     else \<exists>d t. slot_insert k v s = Some (Ok d, t) \<and> slot_tidy n t \<and> sl_size t = sl_size s \<and>
       fifo_put n k v (slot_entries s) = (d, slot_entries t)"
  proof (cases "sl_size s < HEADER + length (as_bytes k) + length v")
    case True
    then show ?thesis by (simp add: slot_insert_def slot_fits_def)
  next
    case False
    then have "slot_fits k v s = Ok ()" by (simp add: slot_fits_def)
    then obtain d t where "slot_insert k v s = Some (Ok d, t)" "slot_tidy n t" "sl_size t = sl_size s"
        "fifo_put n k v (slot_entries s) = (d, slot_entries t)"
      by (rule slot_insert_fifo [OF assms(1,4,5) _ assms(3,2)])
    with False show ?thesis by auto
  qed
qed

theorem slot_refines_fifo_witness:
  "\<exists>s t u. slot_open (Ok []) None 1 16 = Some (Ok s) \<and> slot_insert ''a'' [1] s = Some (Ok [], t) \<and>
     slot_insert ''b'' [2] t = Some (Ok [(''a'', [1])], u) \<and> slot_entries u = [(''b'', [2])]"
proof -
  obtain s where s: "slot_open (Ok []) None 1 16 = Some (Ok s)" "slot_tidy 1 s" "slot_entries s = []" "sl_size s = 16"
    by (rule slot_fresh [of 16 1]) (simp_all add: HEADER_def usize_max_def)
  have key: "utf8_valid (as_bytes ''a'')" "utf8_valid (as_bytes ''b'')"
    by (simp_all add: as_bytes_def between_def)
  have small: "length (as_bytes ''a'') < 2 ^ 16" "length (as_bytes ''b'') < 2 ^ 16"
    "length ([1] :: u8 list) < 2 ^ 32" "length ([2] :: u8 list) < 2 ^ 32" by (simp_all add: as_bytes_def)
  have one: "0 < (1 :: nat)" by simp
  obtain t where t: "slot_insert ''a'' [1] s = Some (Ok [], t)" "slot_tidy 1 t" "slot_entries t = [(''a'', [1])]" "sl_size t = 16"
    using slot_refines_fifo [OF s(2) one key(1) small(1,3)] s(3,4)
    by (auto simp: HEADER_def as_bytes_def fifo_put_def split: if_splits)
  obtain u where "slot_insert ''b'' [2] t = Some (Ok [(''a'', [1])], u)" "slot_entries u = [(''b'', [2])]"
    using slot_refines_fifo [OF t(2) one key(2) small(2,4)] t(3,4)
    by (auto simp: HEADER_def as_bytes_def fifo_put_def split: if_splits)
  with s(1) t(1) show ?thesis by blast
qed

text \<open>
  C31. Restarts: opening the file that a tidy store has written, with the same geometry, neither
  panics nor fails and serves exactly the same entries. Their eviction order is the order of the
  slots they lie in, which need not be the order they were inserted in.
\<close>

theorem slot_reopens:
  assumes "slot_tidy n s" "n * sl_size s \<le> usize_max"
  shows "\<exists>t. slot_open (Ok (sl_map s)) None n (sl_size s) = Some (Ok t) \<and> slot_tidy n t \<and>
    slot_contents t = slot_contents s \<and> mset (slot_entries t) = mset (slot_entries s) \<and>
    sorted (map (\<lambda>k. the (fmlookup (sl_index t) k)) (sl_order t))"
proof -
  obtain t where t: "slot_open (Ok (sl_map s)) None n (sl_size s) = Some (Ok t)" "slot_tidy n t"
      "slot_contents t = slot_contents s" "sl_size t = sl_size s"
      "sl_order t = map (fst \<circ> the \<circ> slot_entry t) (filter (\<lambda>i. slot_entry t i \<noteq> None) [0..<n])"
    by (rule slot_reopen_tidy [OF assms])
  note ivt = slot_tidy_inv [OF t(2)] slot_tidy_inv [OF assms(1)]
  have "the (fmlookup (sl_index t) (fst (the (slot_entry t i)))) = i" if "i < n" "slot_entry t i \<noteq> None" for i
    using that slot_entry_tidy [OF t(2) that(1)] by (metis option.collapse option.sel prod.collapse)
  then have "map (\<lambda>k. the (fmlookup (sl_index t) k)) (sl_order t) = filter (\<lambda>i. slot_entry t i \<noteq> None) [0..<n]"
    by (auto simp: t(5) comp_def intro: map_idI)
  then have sorted: "sorted (map (\<lambda>k. the (fmlookup (sl_index t) k)) (sl_order t))"
    by (simp add: sorted_wrt_filter)
  have "k \<in> set (sl_order t) \<longleftrightarrow> k \<in> set (sl_order s)" for k
    using slot_order_index ivt slot_contents_dom t(3) by metis
  moreover have "distinct (sl_order t)" "distinct (sl_order s)" using ivt by (simp_all add: slot_inv_def)
  ultimately have "mset (sl_order t) = mset (sl_order s)"
    by (intro set_eq_iff_mset_eq_distinct [THEN iffD1]) auto
  then have "mset (slot_entries t) = mset (slot_entries s)"
    by (simp add: slot_entries_def t(3))
  with t sorted show ?thesis by blast
qed

theorem slot_reopens_witness:
  "\<exists>s t u. slot_open (Ok []) None 2 16 = Some (Ok s) \<and> slot_insert ''a'' [1] s = Some (Ok [], t) \<and>
     slot_open (Ok (sl_map t)) None 2 16 = Some (Ok u) \<and> slot_entries u = [(''a'', [1])]"
proof -
  obtain s where s: "slot_open (Ok []) None 2 16 = Some (Ok s)" "slot_tidy 2 s" "slot_entries s = []" "sl_size s = 16"
    by (rule slot_fresh [of 16 2]) (simp_all add: HEADER_def usize_max_def)
  have fits: "slot_fits ''a'' [1] s = Ok ()" using s(4) by (simp add: slot_fits_def HEADER_def as_bytes_def)
  obtain d t where t: "slot_insert ''a'' [1] s = Some (Ok d, t)" "slot_tidy 2 t" "sl_size t = sl_size s"
      "fifo_put 2 ''a'' [1] (slot_entries s) = (d, slot_entries t)"
    by (rule slot_insert_fifo [OF s(2) _ _ fits]) (simp_all add: as_bytes_def between_def)
  have e: "d = []" "slot_entries t = [(''a'', [1])]" using t(4) s(3) by (simp_all add: fifo_put_def)
  have "2 * sl_size t \<le> usize_max" using t(3) s(4) by (simp add: usize_max_def)
  from slot_reopens [OF t(2) this] obtain u where "slot_open (Ok (sl_map t)) None 2 16 = Some (Ok u)"
      "mset (slot_entries u) = mset (slot_entries t)"
    using t(3) s(4) by auto
  then have "slot_entries u = [(''a'', [1])]" using e(2) by (simp add: mset_single_iff)
  with \<open>slot_open (Ok (sl_map t)) None 2 16 = Some (Ok u)\<close> s(1) t(1) e(1) show ?thesis by blast
qed

text \<open>
  C32. A full store loses an entry to a key of 64 KiB or more that fits its slot: the put evicts the
  oldest entry, then fails because the length field cannot hold the length of the key, and answers
  the error alone. The evicted entry is gone and is not returned, although the source validates
  first so that an entry that cannot be stored costs no other its slot.
\<close>

theorem slot_long_key_evicts:
  assumes "slot_inv n s" "sl_free s = []" "sl_order s = j # order" "fmlookup (sl_index s) k = None"
    and "slot_fits k v s = Ok ()" "2 ^ 16 \<le> length (as_bytes k)"
  shows "\<exists>t. slot_insert k v s = Some (Err Invalid_Input, t) \<and> slot_contents s j \<noteq> None \<and>
    slot_contents t = (slot_contents s)(j := None)"
proof -
  obtain i v' where tk: "take_slot s = Some (Ok (i, [(j, v')]), s\<lparr>sl_order := order, sl_index := fmdrop j (sl_index s)\<rparr>)"
      "slot_contents s j = Some v'"
      "slot_contents (s\<lparr>sl_order := order, sl_index := fmdrop j (sl_index s)\<rparr>) = (slot_contents s)(j := None)"
    by (rule take_oldest [OF assms(1-3)])
  then have "slot_insert k v s = Some (Err Invalid_Input, s\<lparr>sl_order := order, sl_index := fmdrop j (sl_index s)\<rparr>)"
    using assms(4-6) by (simp add: slot_insert_def write_slot_def)
  with tk show ?thesis by blast
qed

theorem slot_long_key_evicts_witness:
  "\<exists>s t u. slot_open (Ok []) None 1 70000 = Some (Ok s) \<and> slot_insert ''a'' [1] s = Some (Ok [], t) \<and>
     slot_insert (replicate 65536 CHR ''b'') [] t = Some (Err Invalid_Input, u) \<and>
     slot_contents t ''a'' \<noteq> None \<and> slot_contents u ''a'' = None"
proof -
  obtain s where s: "slot_open (Ok []) None 1 70000 = Some (Ok s)" "slot_tidy 1 s" "slot_entries s = []" "sl_size s = 70000"
    by (rule slot_fresh [of 70000 1]) (simp_all add: HEADER_def usize_max_def)
  have fits: "slot_fits ''a'' [1] s = Ok ()" using s(4) by (simp add: slot_fits_def HEADER_def as_bytes_def)
  obtain d t where t: "slot_insert ''a'' [1] s = Some (Ok d, t)" "slot_tidy 1 t" "sl_size t = sl_size s"
      "fifo_put 1 ''a'' [1] (slot_entries s) = (d, slot_entries t)"
    by (rule slot_insert_fifo [OF s(2) _ _ fits]) (simp_all add: as_bytes_def between_def)
  have e: "d = []" "slot_entries t = [(''a'', [1])]" using t(4) s(3) by (simp_all add: fifo_put_def)
  let ?k = "replicate 65536 CHR ''b''"
  have order: "sl_order t = [''a'']" using slot_entries_keys [of t] e(2) by simp
  then have free: "sl_free t = []" using slot_tidy_length [OF t(2)] by simp
  have len: "length (as_bytes ?k) = 65536" by (simp add: as_bytes_def)
  have "hd ?k \<noteq> CHR ''a''" by simp
  then have "?k \<noteq> ''a''" by (metis list.sel(1))
  then have "fmlookup (sl_index t) ?k = None"
    using slot_order_index [OF slot_tidy_inv [OF t(2)], of ?k] order by (metis empty_iff empty_set set_ConsD)
  moreover have "slot_fits ?k [] t = Ok ()" unfolding slot_fits_def len using t(3) s(4) by (simp add: HEADER_def)
  moreover have "2 ^ 16 \<le> length (as_bytes ?k)" unfolding len by simp
  ultimately obtain u where "slot_insert ?k [] t = Some (Err Invalid_Input, u)" "slot_contents t ''a'' \<noteq> None"
      "slot_contents u = (slot_contents t)(''a'' := None)"
    using slot_long_key_evicts [OF slot_tidy_inv [OF t(2)] free order] by blast
  with s(1) t(1) e show ?thesis by auto
qed

end
