(* ===== verification/Remote_Store.thy ===== *)
theory Remote_Store
  imports Disk_Tier
begin

text \<open>
  The stand-in for a remote store of \<open>rollover-demo/src/remote.rs\<close>: a map behind a lock and a counter
  of the reads. The artificial latency only takes time. It never fails and never displaces, so it can
  be the bottom of a hierarchy that evicts nothing.
\<close>

record 'k remote_store =
  rs_data :: "('k, u8 list) fmap"
  rs_fetches :: u64
  rs_latency :: nat

definition remote_new :: "nat \<Rightarrow> 'k remote_store" where
  "remote_new latency = \<lparr>rs_data = fmempty, rs_fetches = 0, rs_latency = latency\<rparr>"

definition remote_fetches :: "'k remote_store \<Rightarrow> u64" where
  "remote_fetches r = rs_fetches r"

definition remote_get :: "'k remote_store \<Rightarrow> 'k \<Rightarrow> (u8 list option, 'e) result \<times> 'k remote_store" where
  "remote_get r k = (let r1 = r\<lparr>rs_fetches := rs_fetches r + 1\<rparr> in (Ok (fmlookup (rs_data r1) k), r1))"

definition remote_exists :: "'k remote_store \<Rightarrow> 'k \<Rightarrow> (bool, 'e) result \<times> 'k remote_store" where
  "remote_exists r k = (Ok (hm_contains (rs_data r) k), r)"

definition remote_put ::
  "'k remote_store \<Rightarrow> 'k \<Rightarrow> u8 list \<Rightarrow> (('k, u8 list) displaced, 'e) result \<times> 'k remote_store" where
  "remote_put r k v = (Ok [], r\<lparr>rs_data := fmupd k v (rs_data r)\<rparr>)"

definition remote_delete :: "'k remote_store \<Rightarrow> 'k \<Rightarrow> (bool, 'e) result \<times> 'k remote_store" where
  "remote_delete r k = (Ok (hm_contains (rs_data r) k), r\<lparr>rs_data := fmdrop k (rs_data r)\<rparr>)"

definition remote_ops :: "('k remote_store, 'k, u8 list, 'e) tier_ops" where
  "remote_ops =
     \<lparr>t_name = (\<lambda>_. ''remote''), t_get = remote_get, t_exists = remote_exists,
      t_get_many = get_many_default remote_get, t_put = remote_put, t_delete = remote_delete,
      t_put_many = put_many_default remote_put, t_delete_many = delete_many_default remote_delete\<rparr>"

definition remote_con :: "'k remote_store \<Rightarrow> ('k \<rightharpoonup> u8 list)" where
  "remote_con r = fmlookup (rs_data r)"

definition is_remote :: "('k remote_store, 'k, u8 list, 'e) tier_ops \<Rightarrow> 'k remote_store \<Rightarrow> bool" where
  "is_remote t r \<longleftrightarrow> t = remote_ops"

lemmas remote_defs =
  is_remote_def remote_ops_def remote_con_def remote_get_def remote_exists_def remote_put_def remote_delete_def Let_def

interpretation remote: reliable_default is_remote "\<lambda>_. remote_con"
  by unfold_locales (auto simp: remote_defs hm_contains_iff fmlookup_dom_iff)

lemma remote_put_many:
  "fst (put_many_default remote_put r es :: (('k, u8 list) displaced, 'e) result \<times> 'k remote_store) = Ok []"
proof (induction es arbitrary: r)
  case (Cons e es)
  obtain k v where e: "e = (k, v)" by (cases e)
  obtain r1 where p: "remote_put r k v = (Ok [] :: (('k, u8 list) displaced, 'e) result, r1)"
    by (simp add: remote_put_def)
  obtain x r2 where m: "put_many_default remote_put r1 es = (x :: (('k, u8 list) displaced, 'e) result, r2)"
    by fastforce
  then have "x = Ok []" using Cons [of r1] by simp
  then show ?case by (simp add: e p m)
qed simp

interpretation remote: lasting_tiers is_remote "\<lambda>_. remote_con" "\<lambda>_ _. True"
proof
  fix t :: "('k remote_store, 'k, u8 list, 'e) tier_ops" and r es k v
  assume t: "is_remote t r"
  show "fst (t_put t r k v) = Ok []" using t by (simp add: remote_defs)
  show "fst (t_put_many t r es) = Ok []"
    using t remote_put_many [of r es] by (simp add: is_remote_def remote_ops_def)
qed simp_all

end
