(* ===== verification/Offload_Pool.thy ===== *)
theory Offload_Pool
  imports Wait_Queue "HOL-Library.Multiset"
begin

text \<open>
  The thread pool of \<open>tierstore/src/offload.rs\<close>: callers submit jobs to a channel and await one-shot
  cells, worker threads take the jobs, run them and wake the callers. A job is the closure the code
  boxes: a program of actions on the inner tier's state, which all workers share, that ends with a
  value or a caught panic. A worker runs its job without the receiver's lock, so the actions of jobs on
  different workers interleave in any order. A step is what happens between two accesses to shared
  state; callers can be polled spuriously and dropped at any time. Shown: the invariant of the pool,
  which says where every job is and how far it has come.

  A oneshot cell is identified with the number of its job, a waker with the task it wakes. The log,
  the trace and the list of submitted jobs are kept for the statements; no step reads them.
\<close>

section \<open>Oneshot cells\<close>

text \<open>\<open>std::thread::Result\<close>: what \<open>catch_unwind\<close> returns.\<close>

datatype 'r outcome = Returned 'r | Unwound string

record 'r oneshot =
  os_outcome :: "'r outcome option"
  os_waker :: "task option"

definition oneshot_default :: "'r oneshot" where
  "oneshot_default = \<lparr>os_outcome = None, os_waker = None\<rparr>"

definition take_or_register :: "task \<Rightarrow> 'r oneshot \<Rightarrow> 'r outcome option \<times> 'r oneshot" where
  "take_or_register w st =
     (let outcome = os_outcome st; st1 = st\<lparr>os_outcome := None\<rparr>
      in (outcome,
          if outcome = None \<and> \<not> (case os_waker st1 of None \<Rightarrow> False | Some current \<Rightarrow> current = w)
          then st1\<lparr>os_waker := Some w\<rparr> else st1))"

section \<open>The pool and its callers\<close>

text \<open>
  An action reads and replaces the inner tier's state in one step (a critical section of a memory
  tier, a system call of a disk tier), and goes on as what it read says. Between two actions of a job
  those of other jobs can come. Every job ends, after however many actions.
\<close>

datatype ('s, 'r) job = Done "'r outcome" | Act "'s \<Rightarrow> 's" "'s \<Rightarrow> ('s, 'r) job"

text \<open>
  A worker receives, is at some point of a job, has run it, has published the outcome and holds the
  waker it took from the cell, or has left its loop. A caller that is ready has its outcome: the value, or
  the panic that it resumes.
\<close>

datatype ('s, 'r) worker =
    Wk_Recv
  | Wk_Job nat "('s, 'r) job"
  | Wk_Ran nat "'r outcome"
  | Wk_Wake "task option"
  | Wk_Exited

datatype 'r caller = Cl_Idle | Cl_Awaiting nat | Cl_Ready nat "'r outcome"

record ('s, 'r) pool =
  pl_sender :: bool
  pl_queue :: "(nat \<times> ('s, 'r) job) list"
  pl_workers :: "('s, 'r) worker list"
  pl_cells :: "nat \<Rightarrow> 'r oneshot"
  pl_inner :: 's
  pl_callers :: "'r caller list"
  pl_woken :: "task set"
  pl_submitted :: "(task \<times> ('s, 'r) job) list"
  pl_trace :: "nat list"
  pl_log :: "(nat \<times> 'r outcome) list"

definition pool_spawn :: "nat \<Rightarrow> nat \<Rightarrow> 's \<Rightarrow> ('s, 'r) pool" where
  "pool_spawn threads tasks s =
     \<lparr>pl_sender = True, pl_queue = [], pl_workers = replicate threads Wk_Recv,
      pl_cells = (\<lambda>_. oneshot_default), pl_inner = s, pl_callers = replicate tasks Cl_Idle,
      pl_woken = {}, pl_submitted = [], pl_trace = [], pl_log = []\<rparr>"

text \<open>\<open>Pool::run\<close>; the future that it returns is polled next.\<close>

definition pool_run :: "task \<Rightarrow> ('s, 'r) job \<Rightarrow> ('s, 'r) pool \<Rightarrow> ('s, 'r) pool" where
  "pool_run i job p =
     (let c = length (pl_submitted p)
      in p\<lparr>pl_cells := (pl_cells p)(c := oneshot_default),
           pl_queue := (if pl_sender p then pl_queue p @ [(c, job)] else pl_queue p),
           pl_callers := (pl_callers p)[i := Cl_Awaiting c], pl_woken := insert i (pl_woken p),
           pl_submitted := pl_submitted p @ [(i, job)]\<rparr>)"

text \<open>
  The loop of a worker: \<open>recv\<close>, the next action of its job or the end of it, publishing the outcome,
  waking.
\<close>

definition worker_recv :: "nat \<Rightarrow> ('s, 'r) pool \<Rightarrow> ('s, 'r) pool option" where
  "worker_recv j p =
     (case pl_queue p of
        (c, job) # rest \<Rightarrow> Some (p\<lparr>pl_queue := rest, pl_workers := (pl_workers p)[j := Wk_Job c job]\<rparr>)
      | [] \<Rightarrow> if pl_sender p then None else Some (p\<lparr>pl_workers := (pl_workers p)[j := Wk_Exited]\<rparr>))"

definition worker_work :: "nat \<Rightarrow> nat \<Rightarrow> ('s, 'r) job \<Rightarrow> ('s, 'r) pool \<Rightarrow> ('s, 'r) pool" where
  "worker_work j c job p =
     (case job of
        Act act next \<Rightarrow>
          p\<lparr>pl_inner := act (pl_inner p), pl_workers := (pl_workers p)[j := Wk_Job c (next (pl_inner p))],
            pl_trace := pl_trace p @ [c]\<rparr>
      | Done r \<Rightarrow> p\<lparr>pl_workers := (pl_workers p)[j := Wk_Ran c r], pl_log := pl_log p @ [(c, r)]\<rparr>)"

definition worker_publish :: "nat \<Rightarrow> nat \<Rightarrow> 'r outcome \<Rightarrow> ('s, 'r) pool \<Rightarrow> ('s, 'r) pool" where
  "worker_publish j c r p =
     (let shared = (pl_cells p c)\<lparr>os_outcome := Some r\<rparr>
      in p\<lparr>pl_cells := (pl_cells p)(c := shared\<lparr>os_waker := None\<rparr>),
           pl_workers := (pl_workers p)[j := Wk_Wake (os_waker shared)]\<rparr>)"

definition worker_wake :: "nat \<Rightarrow> task option \<Rightarrow> ('s, 'r) pool \<Rightarrow> ('s, 'r) pool" where
  "worker_wake j w p =
     p\<lparr>pl_woken := (case w of None \<Rightarrow> pl_woken p | Some i \<Rightarrow> insert i (pl_woken p)),
       pl_workers := (pl_workers p)[j := Wk_Recv]\<rparr>"

text \<open>\<open>Oneshot::poll\<close>, and dropping a future or what it returned.\<close>

definition call_poll :: "task \<Rightarrow> nat \<Rightarrow> ('s, 'r) pool \<Rightarrow> ('s, 'r) pool" where
  "call_poll i c p =
     (let (outcome, st) = take_or_register i (pl_cells p c)
      in p\<lparr>pl_cells := (pl_cells p)(c := st), pl_woken := pl_woken p - {i},
           pl_callers := (pl_callers p)[i := case outcome of None \<Rightarrow> Cl_Awaiting c | Some r \<Rightarrow> Cl_Ready c r]\<rparr>)"

definition call_drop :: "task \<Rightarrow> ('s, 'r) pool \<Rightarrow> ('s, 'r) pool" where
  "call_drop i p = p\<lparr>pl_callers := (pl_callers p)[i := Cl_Idle], pl_woken := pl_woken p - {i}\<rparr>"

text \<open>\<open>Pool::drop\<close> takes the sender, then joins the workers: it returns when all of them have exited.\<close>

definition pool_drop :: "('s, 'r) pool \<Rightarrow> ('s, 'r) pool" where
  "pool_drop p = p\<lparr>pl_sender := False\<rparr>"

definition pool_joined :: "('s, 'r) pool \<Rightarrow> bool" where
  "pool_joined p \<longleftrightarrow> \<not> pl_sender p \<and> (\<forall>w \<in> set (pl_workers p). w = Wk_Exited)"

text \<open>
  The steps of the pool itself: the workers, and the polls of the callers they woke.
\<close>

inductive pool_step :: "('s, 'r) pool \<Rightarrow> ('s, 'r) pool \<Rightarrow> bool" where
  recv: "j < length (pl_workers p) \<Longrightarrow> pl_workers p ! j = Wk_Recv \<Longrightarrow> worker_recv j p = Some q \<Longrightarrow> pool_step p q"
| work: "j < length (pl_workers p) \<Longrightarrow> pl_workers p ! j = Wk_Job c job \<Longrightarrow> pool_step p (worker_work j c job p)"
| publish: "j < length (pl_workers p) \<Longrightarrow> pl_workers p ! j = Wk_Ran c r \<Longrightarrow> pool_step p (worker_publish j c r p)"
| wake: "j < length (pl_workers p) \<Longrightarrow> pl_workers p ! j = Wk_Wake w \<Longrightarrow> pool_step p (worker_wake j w p)"
| poll: "i < length (pl_callers p) \<Longrightarrow> pl_callers p ! i = Cl_Awaiting c \<Longrightarrow> i \<in> pl_woken p \<Longrightarrow>
     pool_step p (call_poll i c p)"

text \<open>
  What the rest of the program does: calls while the tier is alive, spurious polls, dropped futures,
  and dropping the tier, which needs that no future borrows it.
\<close>

inductive pool_env :: "('s, 'r) pool \<Rightarrow> ('s, 'r) pool \<Rightarrow> bool" where
  call: "i < length (pl_callers p) \<Longrightarrow> pl_callers p ! i = Cl_Idle \<Longrightarrow> pl_sender p \<Longrightarrow> pool_env p (pool_run i job p)"
| spurious: "i < length (pl_callers p) \<Longrightarrow> pl_callers p ! i = Cl_Awaiting c \<Longrightarrow> pool_env p (call_poll i c p)"
| cancel: "i < length (pl_callers p) \<Longrightarrow> pool_env p (call_drop i p)"
| close: "\<forall>c. Cl_Awaiting c \<notin> set (pl_callers p) \<Longrightarrow> pool_env p (pool_drop p)"

inductive pool_reachable :: "nat \<Rightarrow> nat \<Rightarrow> 's \<Rightarrow> ('s, 'r) pool \<Rightarrow> bool" for threads tasks s where
  start: "pool_reachable threads tasks s (pool_spawn threads tasks s)"
| step: "pool_reachable threads tasks s p \<Longrightarrow> pool_step p q \<Longrightarrow> pool_reachable threads tasks s q"
| env: "pool_reachable threads tasks s p \<Longrightarrow> pool_env p q \<Longrightarrow> pool_reachable threads tasks s q"

inductive_cases pool_stepE: "pool_step p q"
inductive_cases pool_envE: "pool_env p q"

section \<open>Schedules\<close>

text \<open>
  Jobs under a schedule, a list that says whose turn it is: every turn is the next action of that job.
  A turn of a job that does not exist or has ended is not allowed. The result is what is left of the
  jobs, and the state.
\<close>

fun run_schedule :: "('s, 'r) job list \<Rightarrow> nat list \<Rightarrow> 's \<Rightarrow> (('s, 'r) job list \<times> 's) option" where
  "run_schedule jobs [] s = Some (jobs, s)"
| "run_schedule jobs (c # cs) s =
     (if c < length jobs
      then (case jobs ! c of
              Act act next \<Rightarrow> run_schedule (jobs[c := next s]) cs (act s)
            | Done r \<Rightarrow> None)
      else None)"

lemma run_schedule_length: "run_schedule jobs cs s = Some (js, t) \<Longrightarrow> length js = length jobs"
  by (induction jobs cs s rule: run_schedule.induct) (auto split: if_splits job.splits)

lemma run_schedule_snoc:
  "run_schedule jobs cs s = Some (js, t) \<Longrightarrow> c < length jobs \<Longrightarrow> js ! c = Act act next \<Longrightarrow>
   run_schedule jobs (cs @ [c]) s = Some (js[c := next t], act t)"
  by (induction jobs cs s rule: run_schedule.induct) (auto split: if_splits job.splits)

lemma run_schedule_more:
  "run_schedule jobs cs s = Some (js, t) \<Longrightarrow> run_schedule (jobs @ [job]) cs s = Some (js @ [job], t)"
  by (induction jobs cs s rule: run_schedule.induct) (auto simp: nth_append list_update_append split: if_splits job.splits)

lemma run_schedule_ids: "run_schedule jobs cs s = Some (js, t) \<Longrightarrow> set cs \<subseteq> {..<length jobs}"
  by (induction jobs cs s rule: run_schedule.induct) (auto split: if_splits job.splits)

text \<open>A job alone, and jobs one after the other.\<close>

primrec run_job :: "('s, 'r) job \<Rightarrow> 's \<Rightarrow> 'r outcome \<times> 's" where
  "run_job (Done r) s = (r, s)"
| "run_job (Act act next) s = run_job (next s) (act s)"

fun run_jobs :: "('s, 'r) job list \<Rightarrow> 's \<Rightarrow> 'r outcome list \<times> 's" where
  "run_jobs [] s = ([], s)"
| "run_jobs (job # jobs) s = (let (r, t) = run_job job s; (rs, u) = run_jobs jobs t in (r # rs, u))"

lemma run_jobs_snoc:
  "run_jobs jobs s = (rs, t) \<Longrightarrow> run_job job t = (r, u) \<Longrightarrow> run_jobs (jobs @ [job]) s = (rs @ [r], u)"
  by (induction jobs arbitrary: s rs) (auto simp: Let_def split: prod.splits)

section \<open>Where every job is\<close>

fun taken :: "('s, 'r) worker \<Rightarrow> nat multiset" where
  "taken (Wk_Job c job) = {#c#}"
| "taken _ = {#}"

definition job_ids :: "('s, 'r) pool \<Rightarrow> nat multiset" where
  "job_ids p = mset (map fst (pl_queue p)) + sum_list (map taken (pl_workers p)) + mset (map fst (pl_log p))"

lemma sum_list_update:
  fixes f :: "'a \<Rightarrow> 'b :: comm_monoid_add"
  shows "j < length xs \<Longrightarrow> sum_list (map f (xs[j := y])) + f (xs ! j) = sum_list (map f xs) + f y"
proof (induction xs arbitrary: j)
  case (Cons x xs)
  then show ?case by (cases j) (auto simp: ac_simps)
qed simp

lemma taken_step:
  assumes "j < length ws"
  shows "sum_list (map taken (ws[j := w])) + taken (ws ! j) = sum_list (map taken ws) + taken w"
  using assms by (rule sum_list_update)

text \<open>
  Every submitted job is once in the channel, with a worker, or in the log. The jobs in the channel
  are the last ones, in order, and have not begun. What is left of the jobs that have begun is what
  the trace, as a schedule, leaves of them.
\<close>

definition progress :: "'s \<Rightarrow> ('s, 'r) pool \<Rightarrow> ('s, 'r) job list \<Rightarrow> bool" where
  "progress s p js \<longleftrightarrow> run_schedule (map snd (pl_submitted p)) (pl_trace p) s = Some (js, pl_inner p) \<and>
     (\<forall>c job. Wk_Job c job \<in> set (pl_workers p) \<longrightarrow> js ! c = job) \<and>
     (\<forall>(c, r) \<in> set (pl_log p). js ! c = Done r) \<and>
     (\<forall>(c, job) \<in> set (pl_queue p). snd (pl_submitted p ! c) = job \<and> js ! c = job \<and> c \<notin> set (pl_trace p))"

definition each_once :: "('s, 'r) pool \<Rightarrow> bool" where
  "each_once p \<longleftrightarrow> job_ids p = mset [0..<length (pl_submitted p)]"

definition queue_last :: "('s, 'r) pool \<Rightarrow> bool" where
  "queue_last p \<longleftrightarrow> (\<exists>k \<le> length (pl_submitted p). map fst (pl_queue p) = [k..<length (pl_submitted p)])"

definition inv_jobs :: "'s \<Rightarrow> ('s, 'r) pool \<Rightarrow> bool" where
  "inv_jobs s p \<longleftrightarrow> each_once p \<and> queue_last p \<and> (\<exists>js. progress s p js)"

lemma taken_in: "Wk_Job c job \<in> set ws \<Longrightarrow> c \<in># sum_list (map taken ws)"
proof (induction ws)
  case (Cons w ws)
  then show ?case by (cases "w = Wk_Job c job") auto
qed simp

lemma one_place:
  assumes "inv_jobs s p"
  shows "count (mset (map fst (pl_queue p))) c + count (sum_list (map taken (pl_workers p))) c +
    count (mset (map fst (pl_log p))) c = (if c < length (pl_submitted p) then 1 else 0)"
proof -
  have "count (job_ids p) c = count (mset [0..<length (pl_submitted p)]) c" using assms by (simp add: inv_jobs_def each_once_def)
  moreover have "count (mset [0..<n]) c = (if c < n then 1 else 0)" for n by (induction n) auto
  ultimately show ?thesis by (simp add: job_ids_def)
qed

lemma count_none: "count (mset (map fst xs)) c = 0 \<longleftrightarrow> c \<notin> fst ` set xs"
  by (simp add: count_eq_zero_iff)

lemma inv_jobs_ids:
  assumes "inv_jobs s p"
  shows "(c, job) \<in> set (pl_queue p) \<Longrightarrow> c < length (pl_submitted p)"
    and "Wk_Job c job \<in> set (pl_workers p) \<Longrightarrow>
      c < length (pl_submitted p) \<and> c \<notin> fst ` set (pl_log p) \<and> c \<notin> fst ` set (pl_queue p)"
    and "distinct (map fst (pl_log p))" and "(c, r) \<in> set (pl_log p) \<Longrightarrow> c < length (pl_submitted p)"
    and "j < length (pl_workers p) \<Longrightarrow> j' < length (pl_workers p) \<Longrightarrow> pl_workers p ! j = Wk_Job c job \<Longrightarrow>
      pl_workers p ! j' = Wk_Job c job' \<Longrightarrow> j = j'"
proof -
  note one = one_place [OF assms]
  have none: "c \<notin> fst ` set (pl_queue p)" "c \<notin> fst ` set (pl_log p)" if "\<not> c < length (pl_submitted p)" for c
    using one [of c] that count_none [of "pl_queue p" c] count_none [of "pl_log p" c] by auto
  show "c < length (pl_submitted p)" if "(c, job) \<in> set (pl_queue p)" using none(1) [of c] that by force
  show "c < length (pl_submitted p)" if "(c, r) \<in> set (pl_log p)" using none(2) [of c] that by force
  have "count (mset (map fst (pl_log p))) x \<le> 1" for x using one [of x] by (simp split: if_splits)
  then show "distinct (map fst (pl_log p))"
    by (metis distinct_count_atmost_1 count_mset_0_iff le_antisym less_one linorder_not_le)
  show "c < length (pl_submitted p) \<and> c \<notin> fst ` set (pl_log p) \<and> c \<notin> fst ` set (pl_queue p)"
    if "Wk_Job c job \<in> set (pl_workers p)"
  proof -
    have "0 < count (sum_list (map taken (pl_workers p))) c" using taken_in [OF that] by (simp add: count_greater_zero_iff)
    then have "c < length (pl_submitted p)" "count (mset (map fst (pl_queue p))) c = 0" "count (mset (map fst (pl_log p))) c = 0"
      using one [of c] by (simp_all only: split: if_splits)
    then show ?thesis by (simp only: count_none simp_thms)
  qed
  assume j: "j < length (pl_workers p)" "j' < length (pl_workers p)" "pl_workers p ! j = Wk_Job c job"
    "pl_workers p ! j' = Wk_Job c job'"
  show "j = j'"
  proof (rule ccontr)
    assume "j \<noteq> j'"
    then have "Wk_Job c job' \<in> set ((pl_workers p)[j := Wk_Recv])"
      using j by (metis length_list_update nth_list_update_neq nth_mem)
    from taken_in [OF this] have "0 < count (sum_list (map taken ((pl_workers p)[j := Wk_Recv]))) c"
      by (simp add: count_greater_zero_iff)
    moreover have "count (sum_list (map taken ((pl_workers p)[j := Wk_Recv]))) c + 1 = count (sum_list (map taken (pl_workers p))) c"
      using arg_cong [OF taken_step [OF j(1), of Wk_Recv], of "\<lambda>m. count m c"] j(3) by simp
    moreover have "(if c < length (pl_submitted p) then 1 else 0) \<le> (1 :: nat)" by simp
    ultimately show False using one [of c] by linarith
  qed
qed

lemma inv_jobs_spawn: "inv_jobs s (pool_spawn n m s)"
proof -
  have "sum_list (map taken (replicate n Wk_Recv)) = {#}" by (induction n) auto
  then show ?thesis
    by (auto simp: inv_jobs_def each_once_def queue_last_def pool_spawn_def job_ids_def progress_def)
qed

text \<open>Steps that leave the channel, the log, the trace and the jobs in work alone.\<close>

lemma inv_jobs_frame:
  assumes "inv_jobs s p" "pl_queue q = pl_queue p" "pl_log q = pl_log p" "pl_submitted q = pl_submitted p"
    and "pl_inner q = pl_inner p" "pl_trace q = pl_trace p"
    and "sum_list (map taken (pl_workers q)) = sum_list (map taken (pl_workers p))"
    and "\<And>c job. Wk_Job c job \<in> set (pl_workers q) \<Longrightarrow> Wk_Job c job \<in> set (pl_workers p)"
  shows "inv_jobs s q"
proof -
  obtain js where "progress s p js" using assms(1) by (auto simp: inv_jobs_def)
  then have "progress s q js" using assms(2-6,8) by (simp add: progress_def)
  moreover have "each_once q = each_once p" "queue_last q = queue_last p"
    by (simp_all only: each_once_def queue_last_def job_ids_def assms(2-4,7))
  ultimately show ?thesis using assms(1) by (auto simp: inv_jobs_def)
qed

lemma in_update: "w \<in> set (ws[j := x]) \<Longrightarrow> w = x \<or> w \<in> set ws"
  using set_update_subset_insert by fastforce

lemma inv_jobs_worker:
  assumes "inv_jobs s p" "j < length (pl_workers p)" "taken (pl_workers p ! j) = {#}" "taken w = {#}"
    and "pl_queue q = pl_queue p" "pl_log q = pl_log p" "pl_submitted q = pl_submitted p"
    "pl_inner q = pl_inner p" "pl_trace q = pl_trace p" "pl_workers q = (pl_workers p)[j := w]"
  shows "inv_jobs s q"
proof (rule inv_jobs_frame [OF assms(1,5-9)])
  show "sum_list (map taken (pl_workers q)) = sum_list (map taken (pl_workers p))"
    using taken_step [OF assms(2), of w] assms(3,4,10) by simp
  show "Wk_Job c job \<in> set (pl_workers p)" if "Wk_Job c job \<in> set (pl_workers q)" for c job
    using that assms(4,10) in_update by fastforce
qed

lemma inv_jobs_run:
  assumes "inv_jobs s p" "pl_sender p"
  shows "inv_jobs s (pool_run i job p)"
proof -
  let ?q = "pool_run i job p" and ?n = "length (pl_submitted p)"
  note ids = inv_jobs_ids [OF assms(1)]
  obtain js where js: "progress s p js" using assms(1) by (auto simp: inv_jobs_def)
  have q: "pl_queue ?q = pl_queue p @ [(?n, job)]" "pl_submitted ?q = pl_submitted p @ [(i, job)]" "pl_log ?q = pl_log p"
      "pl_workers ?q = pl_workers p" "pl_inner ?q = pl_inner p" "pl_trace ?q = pl_trace p"
    using assms(2) by (simp_all add: pool_run_def Let_def)
  have len: "length js = ?n" using js run_schedule_length by (fastforce simp: progress_def)
  have old: "c \<notin> set (pl_trace p)" if "?n \<le> c" for c
    using js run_schedule_ids that by (fastforce simp: progress_def)
  have "progress s ?q (js @ [job])"
    unfolding progress_def q
  proof (intro conjI allI impI ballI)
    show "run_schedule (map snd (pl_submitted p @ [(i, job)])) (pl_trace p) s = Some (js @ [job], pl_inner p)"
      using js run_schedule_more by (fastforce simp: progress_def)
    show "(js @ [job]) ! c = job'" if "Wk_Job c job' \<in> set (pl_workers p)" for c job'
      using js ids(2) [OF that] that len by (simp add: progress_def nth_append)
    show "case e of (c, r) \<Rightarrow> (js @ [job]) ! c = Done r" if "e \<in> set (pl_log p)" for e
      using js ids(4) that len by (auto simp: progress_def nth_append)
    show "case e of (c, job') \<Rightarrow> snd ((pl_submitted p @ [(i, job)]) ! c) = job' \<and> (js @ [job]) ! c = job' \<and> c \<notin> set (pl_trace p)"
      if "e \<in> set (pl_queue p @ [(?n, job)])" for e
      using js ids(1) that len old by (auto simp: progress_def nth_append)
  qed
  moreover have "each_once ?q"
    using assms(1) by (simp add: inv_jobs_def each_once_def job_ids_def q)
  moreover have "queue_last ?q"
    using assms(1) by (auto simp: inv_jobs_def queue_last_def q)
  ultimately show ?thesis by (auto simp: inv_jobs_def)
qed

lemma inv_jobs_recv:
  assumes "inv_jobs s p" "j < length (pl_workers p)" "pl_workers p ! j = Wk_Recv" "worker_recv j p = Some q"
  shows "inv_jobs s q"
proof (cases "pl_queue p")
  case Nil
  then have "q = p\<lparr>pl_workers := (pl_workers p)[j := Wk_Exited]\<rparr>"
    using assms(4) by (simp add: worker_recv_def split: if_splits)
  then show ?thesis by - (rule inv_jobs_worker [OF assms(1,2), of Wk_Exited], simp_all add: assms(3))
next
  case (Cons e rest)
  obtain c job where e: "e = (c, job)" by (cases e)
  have q: "q = p\<lparr>pl_queue := rest, pl_workers := (pl_workers p)[j := Wk_Job c job]\<rparr>"
    using assms(4) Cons e by (simp add: worker_recv_def)
  have "job_ids q = job_ids p"
    using taken_step [OF assms(2), of "Wk_Job c job"] assms(3) by (simp add: job_ids_def q Cons e)
  then have "each_once q" using assms(1) by (simp add: inv_jobs_def each_once_def q)
  moreover have "queue_last q"
  proof -
    obtain k where k: "map fst (pl_queue p) = [k..<length (pl_submitted p)]"
      using assms(1) by (auto simp: inv_jobs_def queue_last_def)
    then have "k < length (pl_submitted p)" using Cons by (cases "k < length (pl_submitted p)") auto
    with k Cons show ?thesis by (auto simp: queue_last_def q upt_conv_Cons intro!: exI [of _ "Suc k"])
  qed
  moreover obtain js where js: "progress s p js" using assms(1) by (auto simp: inv_jobs_def)
  then have "progress s q js" using Cons e by (auto simp: progress_def q dest!: in_update)
  ultimately show ?thesis by (auto simp: inv_jobs_def)
qed

lemma inv_jobs_work:
  assumes "inv_jobs s p" "j < length (pl_workers p)" "pl_workers p ! j = Wk_Job c job"
  shows "inv_jobs s (worker_work j c job p)"
proof -
  let ?q = "worker_work j c job p"
  have w: "Wk_Job c job \<in> set (pl_workers p)" using assms(2,3) nth_mem by metis
  note ids = inv_jobs_ids(2) [OF assms(1) w]
  obtain js where js: "progress s p js" using assms(1) by (auto simp: inv_jobs_def)
  have len: "length js = length (pl_submitted p)" using js run_schedule_length by (fastforce simp: progress_def)
  have working: "js ! c' = job'" if "Wk_Job c' job' \<in> set (pl_workers p)" for c' job'
    using js that by (simp add: progress_def)
  have logged: "js ! c' = Done r" if "(c', r) \<in> set (pl_log p)" for c' r
    using js that by (auto simp: progress_def)
  have queued: "snd (pl_submitted p ! c') = job' \<and> js ! c' = job' \<and> c' \<notin> set (pl_trace p)"
    if "(c', job') \<in> set (pl_queue p)" for c' job'
    using js that by (auto simp: progress_def)
  have at: "js ! c = job" using working [OF w] .
  have other: "Wk_Job c' job' \<in> set (pl_workers p) \<and> c' \<noteq> c"
    if u: "Wk_Job c' job' \<in> set ((pl_workers p)[j := x])" "x \<noteq> Wk_Job c' job'" for c' job' x
  proof -
    obtain i where i: "i < length (pl_workers p)" "(pl_workers p)[j := x] ! i = Wk_Job c' job'"
      using u(1) unfolding in_set_conv_nth by auto
    then have "i \<noteq> j" using u(2) assms(2) by auto
    then have "pl_workers p ! i = Wk_Job c' job'" using i by simp
    then show ?thesis
      using inv_jobs_ids(5) [OF assms(1) i(1) assms(2) _ assms(3)] \<open>i \<noteq> j\<close> nth_mem [OF i(1)] by auto
  qed
  have "\<exists>js'. progress s ?q js'"
  proof (cases job)
    case (Done r)
    have "progress s ?q js"
      using js at Done other [of _ _ "Wk_Ran c r"] by (auto simp: progress_def worker_work_def)
    then show ?thesis ..
  next
    case (Act act cont)
    have "progress s ?q (js[c := cont (pl_inner p)])"
      unfolding progress_def
    proof (intro conjI allI impI ballI)
      show "run_schedule (map snd (pl_submitted ?q)) (pl_trace ?q) s = Some (js[c := cont (pl_inner p)], pl_inner ?q)"
        using run_schedule_snoc [of "map snd (pl_submitted p)" "pl_trace p" s js "pl_inner p" c act cont] js at ids
        by (simp add: progress_def worker_work_def Act)
      show "js[c := cont (pl_inner p)] ! c' = job'" if "Wk_Job c' job' \<in> set (pl_workers ?q)" for c' job'
      proof (cases "Wk_Job c' job' = Wk_Job c (cont (pl_inner p))")
        case True
        then show ?thesis using ids len by simp
      next
        case False
        moreover have "Wk_Job c' job' \<in> set ((pl_workers p)[j := Wk_Job c (cont (pl_inner p))])"
          using that by (simp add: worker_work_def Act)
        ultimately have "Wk_Job c' job' \<in> set (pl_workers p)" "c' \<noteq> c" using other by metis+
        then show ?thesis using working by simp
      qed
      show "case e of (c', r) \<Rightarrow> js[c := cont (pl_inner p)] ! c' = Done r" if "e \<in> set (pl_log ?q)" for e
      proof -
        have e: "e \<in> set (pl_log p)" using that by (simp add: worker_work_def Act)
        then have "fst e \<noteq> c" using ids by blast
        then show ?thesis using logged [of "fst e" "snd e"] e by (simp add: case_prod_beta)
      qed
      show "case e of (c', job') \<Rightarrow> snd (pl_submitted ?q ! c') = job' \<and> js[c := cont (pl_inner p)] ! c' = job' \<and> c' \<notin> set (pl_trace ?q)"
        if "e \<in> set (pl_queue ?q)" for e
      proof -
        have e: "e \<in> set (pl_queue p)" using that by (simp add: worker_work_def Act)
        then have "fst e \<noteq> c" using ids by blast
        then show ?thesis using queued [of "fst e" "snd e"] e by (simp add: case_prod_beta worker_work_def Act)
      qed
    qed
    then show ?thesis ..
  qed
  moreover have "job_ids ?q = job_ids p"
    using taken_step [OF assms(2), of "case job of Done r \<Rightarrow> Wk_Ran c r | Act act cont \<Rightarrow> Wk_Job c (cont (pl_inner p))"] assms(3)
    by (auto simp: job_ids_def worker_work_def split: job.splits)
  moreover have "pl_queue ?q = pl_queue p" "pl_submitted ?q = pl_submitted p"
    by (simp_all add: worker_work_def split: job.split)
  ultimately show ?thesis using assms(1) by (simp add: inv_jobs_def each_once_def queue_last_def)
qed

lemma inv_jobs_step: "pool_step p q \<Longrightarrow> inv_jobs s p \<Longrightarrow> inv_jobs s q"
proof (induction rule: pool_step.induct)
  case (publish j p c r)
  then show ?case
    by - (rule inv_jobs_worker [of s p j "Wk_Wake (os_waker (pl_cells p c))"], simp_all add: worker_publish_def Let_def)
next
  case (wake j p w)
  then show ?case by - (rule inv_jobs_worker [of s p j Wk_Recv], simp_all add: worker_wake_def)
next
  case (poll i p c)
  then show ?case by - (rule inv_jobs_frame [of s p], simp_all add: call_poll_def split_def Let_def)
qed (blast intro: inv_jobs_recv inv_jobs_work)+

lemma inv_jobs_env: "pool_env p q \<Longrightarrow> inv_jobs s p \<Longrightarrow> inv_jobs s q"
proof (induction rule: pool_env.induct)
  case (call i p job)
  then show ?case by (simp add: inv_jobs_run)
next
  case (spurious i p c)
  then show ?case by - (rule inv_jobs_frame [of s p], simp_all add: call_poll_def split_def Let_def)
next
  case (cancel i p)
  then show ?case by - (rule inv_jobs_frame [of s p], simp_all add: call_drop_def)
next
  case (close p)
  then show ?case by - (rule inv_jobs_frame [of s p], simp_all add: pool_drop_def)
qed

end
