(* ===== verification/Offload_Cells.thy ===== *)
theory Offload_Cells
  imports Offload_Pool
begin

text \<open>
  The rest of the invariant of the pool: what the cells hold, who wakes a caller, and when workers
  leave. From it: a caller only ever gets the outcome of its own job, every run of the pool ends,
  and it ends with all calls answered.
\<close>

section \<open>Cells hold what was logged\<close>

definition inv_cells :: "('s, 'r) pool \<Rightarrow> bool" where
  "inv_cells p \<longleftrightarrow>
     (\<forall>c r. Wk_Ran c r \<in> set (pl_workers p) \<longrightarrow> (c, r) \<in> set (pl_log p) \<and> os_outcome (pl_cells p c) = None) \<and>
     (\<forall>j j' c r r'. j < length (pl_workers p) \<longrightarrow> j' < length (pl_workers p) \<longrightarrow>
        pl_workers p ! j = Wk_Ran c r \<longrightarrow> pl_workers p ! j' = Wk_Ran c r' \<longrightarrow> j = j') \<and>
     (\<forall>c r. os_outcome (pl_cells p c) = Some r \<longrightarrow> (c, r) \<in> set (pl_log p)) \<and>
     (\<forall>i c r. i < length (pl_callers p) \<longrightarrow> pl_callers p ! i = Cl_Ready c r \<longrightarrow>
        (c, r) \<in> set (pl_log p) \<and> fst (pl_submitted p ! c) = i)"

text \<open>
  A waiting caller owns its job. Once the job has run and no worker is about to publish, its
  outcome is in the cell. A caller that is not going to be polled is registered in its cell, or a
  worker is about to wake it.
\<close>

definition inv_calls :: "('s, 'r) pool \<Rightarrow> bool" where
  "inv_calls p \<longleftrightarrow>
     (\<forall>i c. i < length (pl_callers p) \<longrightarrow> pl_callers p ! i = Cl_Awaiting c \<longrightarrow>
        c < length (pl_submitted p) \<and> fst (pl_submitted p ! c) = i \<and>
        (c \<in> fst ` set (pl_log p) \<longrightarrow> (\<forall>r. Wk_Ran c r \<notin> set (pl_workers p)) \<longrightarrow> os_outcome (pl_cells p c) \<noteq> None) \<and>
        (i \<notin> pl_woken p \<longrightarrow> Wk_Wake (Some i) \<in> set (pl_workers p) \<or>
           os_waker (pl_cells p c) = Some i \<and> os_outcome (pl_cells p c) = None))"

definition inv_life :: "('s, 'r) pool \<Rightarrow> bool" where
  "inv_life p \<longleftrightarrow> (Wk_Exited \<in> set (pl_workers p) \<longrightarrow> \<not> pl_sender p \<and> pl_queue p = []) \<and>
     (\<not> pl_sender p \<longrightarrow> (\<forall>c. Cl_Awaiting c \<notin> set (pl_callers p))) \<and> finite (pl_woken p)"

definition pool_inv :: "'s \<Rightarrow> ('s, 'r) pool \<Rightarrow> bool" where
  "pool_inv s p \<longleftrightarrow> inv_jobs s p \<and> inv_cells p \<and> inv_calls p \<and> inv_life p"

lemma take_cases:
  "take_or_register w st = (None, st') \<Longrightarrow> os_outcome st = None \<and> st' = st\<lparr>os_waker := Some w\<rparr>"
  "take_or_register w st = (Some r, st') \<Longrightarrow> os_outcome st = Some r \<and> st' = st\<lparr>os_outcome := None\<rparr>"
  by (cases st; auto simp: take_or_register_def Let_def split: if_splits option.splits)+

section \<open>Workers\<close>

lemma recv_cases:
  assumes "worker_recv j p = Some q"
  obtains w where "w = Wk_Exited \<or> (\<exists>c job. w = Wk_Job c job)" "w = Wk_Exited \<Longrightarrow> \<not> pl_sender p \<and> pl_queue p = []"
    "w \<noteq> Wk_Exited \<Longrightarrow> pl_queue p \<noteq> []"
    "q = p\<lparr>pl_queue := tl (pl_queue p), pl_workers := (pl_workers p)[j := w]\<rparr>"
proof (cases "pl_queue p")
  case Nil
  with assms show thesis
    by (intro that [of Wk_Exited]; cases p) (auto simp: worker_recv_def split: if_splits)
next
  case (Cons e rest)
  obtain c job where "e = (c, job)" by (cases e)
  with assms Cons show thesis by (intro that [of "Wk_Job c job"]) (simp_all add: worker_recv_def)
qed

lemma inv_cells_worker:
  assumes "inv_cells p" "pl_cells q = pl_cells p" "pl_log q = pl_log p" "pl_callers q = pl_callers p"
    and "pl_submitted q = pl_submitted p" "j < length (pl_workers p)" "pl_workers q = (pl_workers p)[j := w]"
    and "\<And>c r. w \<noteq> Wk_Ran c r"
  shows "inv_cells q"
proof -
  have same: "j' \<noteq> j \<and> j' < length (pl_workers p) \<and> pl_workers p ! j' = Wk_Ran c r"
    if "j' < length (pl_workers q)" "pl_workers q ! j' = Wk_Ran c r" for j' c r
    using that assms(6-8) by (cases "j' = j") (auto simp: assms(7))
  have ran: "Wk_Ran c r \<in> set (pl_workers p)" if "Wk_Ran c r \<in> set (pl_workers q)" for c r
    using that same by (metis in_set_conv_nth)
  show ?thesis
    unfolding inv_cells_def assms(2-5)
    using assms(1) [unfolded inv_cells_def] same ran by blast
qed

lemma inv_calls_worker:
  assumes "inv_calls p" "pl_cells q = pl_cells p" "pl_log q = pl_log p" "pl_callers q = pl_callers p"
    and "pl_submitted q = pl_submitted p" "pl_woken p \<subseteq> pl_woken q"
    and "\<And>c r. Wk_Ran c r \<in> set (pl_workers p) \<Longrightarrow> Wk_Ran c r \<in> set (pl_workers q)"
    and "\<And>i. Wk_Wake (Some i) \<in> set (pl_workers p) \<Longrightarrow> i \<in> pl_woken q \<or> Wk_Wake (Some i) \<in> set (pl_workers q)"
  shows "inv_calls q"
  unfolding inv_calls_def assms(2-5)
  using assms(1) [unfolded inv_calls_def] assms(6-8) by blast

lemma keeps_others: "j < length ws \<Longrightarrow> ws ! j \<noteq> w \<Longrightarrow> w \<in> set ws \<Longrightarrow> w \<in> set (ws[j := x])"
  by (metis in_set_conv_nth length_list_update nth_list_update_neq)

lemma pool_inv_recv:
  assumes "pool_inv s p" "j < length (pl_workers p)" "pl_workers p ! j = Wk_Recv" "worker_recv j p = Some q"
  shows "pool_inv s q"
proof -
  obtain w where w: "w = Wk_Exited \<or> (\<exists>c job. w = Wk_Job c job)" "w = Wk_Exited \<Longrightarrow> \<not> pl_sender p \<and> pl_queue p = []"
      "w \<noteq> Wk_Exited \<Longrightarrow> pl_queue p \<noteq> []" "q = p\<lparr>pl_queue := tl (pl_queue p), pl_workers := (pl_workers p)[j := w]\<rparr>"
    by (rule recv_cases [OF assms(4)]) blast
  have "inv_cells q"
    by (rule inv_cells_worker [of p q j w]) (use assms w in \<open>auto simp: pool_inv_def\<close>)
  moreover have "inv_calls q"
    by (rule inv_calls_worker [of p q]) (use assms w in \<open>auto simp: pool_inv_def intro: keeps_others\<close>)
  moreover have "inv_life q"
    using assms(1-3) w by (auto simp: pool_inv_def inv_life_def dest!: in_update)
  ultimately show ?thesis using assms(1) inv_jobs_recv [OF _ assms(2-4)] by (simp add: pool_inv_def)
qed

lemma pool_inv_wake:
  assumes "pool_inv s p" "j < length (pl_workers p)" "pl_workers p ! j = Wk_Wake w"
  shows "pool_inv s (worker_wake j w p)"
proof -
  let ?q = "worker_wake j w p"
  have "inv_cells ?q"
    by (rule inv_cells_worker [of p ?q j Wk_Recv]) (use assms in \<open>auto simp: pool_inv_def worker_wake_def\<close>)
  moreover have "inv_calls ?q"
  proof (rule inv_calls_worker [of p ?q])
    show "i \<in> pl_woken ?q \<or> Wk_Wake (Some i) \<in> set (pl_workers ?q)" if "Wk_Wake (Some i) \<in> set (pl_workers p)" for i
      using that assms(2,3) by (cases "w = Some i") (auto simp: worker_wake_def intro: keeps_others)
  qed (use assms in \<open>auto simp: pool_inv_def worker_wake_def intro: keeps_others split: option.split\<close>)
  moreover have "inv_life ?q"
    using assms by (auto simp: pool_inv_def inv_life_def worker_wake_def dest!: in_update split: option.split)
  ultimately show ?thesis
    using assms inv_jobs_step [OF pool_step.wake [OF assms(2,3)]] by (simp add: pool_inv_def)
qed

lemma pool_inv_act:
  assumes "pool_inv s p" "j < length (pl_workers p)" "pl_workers p ! j = Wk_Job c (Act act cont)"
  shows "pool_inv s (worker_work j c (Act act cont) p)"
proof -
  let ?q = "worker_work j c (Act act cont) p"
  have "inv_cells ?q"
    by (rule inv_cells_worker [of p ?q j "Wk_Job c (cont (pl_inner p))"]) (use assms in \<open>auto simp: pool_inv_def worker_work_def\<close>)
  moreover have "inv_calls ?q"
    by (rule inv_calls_worker [of p ?q]) (use assms in \<open>auto simp: pool_inv_def worker_work_def intro: keeps_others\<close>)
  moreover have "inv_life ?q"
    using assms(1) by (auto simp: pool_inv_def inv_life_def worker_work_def dest!: in_update)
  ultimately show ?thesis using assms(1) inv_jobs_work [OF _ assms(2,3)] by (simp add: pool_inv_def)
qed

lemma pool_inv_done:
  assumes "pool_inv s p" "j < length (pl_workers p)" "pl_workers p ! j = Wk_Job c (Done r)"
  shows "pool_inv s (worker_work j c (Done r) p)"
proof -
  let ?q = "worker_work j c (Done r) p"
  have q: "pl_workers ?q = (pl_workers p)[j := Wk_Ran c r]" "pl_log ?q = pl_log p @ [(c, r)]" "pl_cells ?q = pl_cells p"
      "pl_callers ?q = pl_callers p" "pl_submitted ?q = pl_submitted p" "pl_woken ?q = pl_woken p"
      "pl_sender ?q = pl_sender p" "pl_queue ?q = pl_queue p"
    by (simp_all add: worker_work_def)
  have jobs: "inv_jobs s p" and cells: "inv_cells p" and calls: "inv_calls p" and life: "inv_life p"
    using assms(1) by (simp_all add: pool_inv_def)
  have new: "c \<notin> fst ` set (pl_log p)"
    using inv_jobs_ids(2) [OF jobs] assms(2,3) nth_mem by metis
  have none: "os_outcome (pl_cells p c) = None"
    using cells new unfolding inv_cells_def by (metis fst_conv image_eqI not_None_eq)
  have other: "c' \<noteq> c" if "j' < length (pl_workers p)" "pl_workers p ! j' = Wk_Ran c' r'" for j' c' r'
    using cells new that nth_mem unfolding inv_cells_def by (metis fst_conv image_eqI)
  have "inv_cells ?q"
    unfolding inv_cells_def q
  proof (intro conjI allI impI)
    fix c' r' assume "Wk_Ran c' r' \<in> set ((pl_workers p)[j := Wk_Ran c r])"
    then consider "c' = c" "r' = r" | "Wk_Ran c' r' \<in> set (pl_workers p)"
      using in_update by fastforce
    then show "(c', r') \<in> set (pl_log p @ [(c, r)])" "os_outcome (pl_cells p c') = None"
      using cells none unfolding inv_cells_def by (cases; auto)+
  next
    fix j1 j2 c' r1 r2
    assume "j1 < length ((pl_workers p)[j := Wk_Ran c r])" "j2 < length ((pl_workers p)[j := Wk_Ran c r])"
      "(pl_workers p)[j := Wk_Ran c r] ! j1 = Wk_Ran c' r1" "(pl_workers p)[j := Wk_Ran c r] ! j2 = Wk_Ran c' r2"
    then show "j1 = j2"
      using cells other [of j1] other [of j2] unfolding inv_cells_def
      by (cases "j1 = j"; cases "j2 = j") auto
  next
    fix c' r' assume "os_outcome (pl_cells p c') = Some r'"
    then show "(c', r') \<in> set (pl_log p @ [(c, r)])" using cells by (auto simp: inv_cells_def)
  next
    fix i c' r' assume "i < length (pl_callers p)" "pl_callers p ! i = Cl_Ready c' r'"
    then show "(c', r') \<in> set (pl_log p @ [(c, r)])" "fst (pl_submitted p ! c') = i"
      using cells by (auto simp: inv_cells_def)
  qed
  moreover have "inv_calls ?q"
    unfolding inv_calls_def q
  proof (intro allI impI conjI)
    fix i c' assume i: "i < length (pl_callers p)" "pl_callers p ! i = Cl_Awaiting c'"
    show "c' < length (pl_submitted p)" "fst (pl_submitted p ! c') = i" using calls i by (auto simp: inv_calls_def)
    show "os_outcome (pl_cells p c') \<noteq> None"
      if "c' \<in> fst ` set (pl_log p @ [(c, r)])" "\<forall>r'. Wk_Ran c' r' \<notin> set ((pl_workers p)[j := Wk_Ran c r])"
    proof -
      have "c' \<noteq> c" using that(2) set_update_memI [OF assms(2)] by metis
      moreover have "\<forall>r'. Wk_Ran c' r' \<notin> set (pl_workers p)"
        using that(2) assms(2,3) keeps_others [OF assms(2)] by fastforce
      ultimately show ?thesis using calls i that(1) unfolding inv_calls_def by auto
    qed
    show "Wk_Wake (Some i) \<in> set ((pl_workers p)[j := Wk_Ran c r]) \<or>
        os_waker (pl_cells p c') = Some i \<and> os_outcome (pl_cells p c') = None" if "i \<notin> pl_woken p"
      using calls i that keeps_others [OF assms(2), of "Wk_Wake (Some i)"] assms(3) unfolding inv_calls_def by auto
  qed
  moreover have "inv_life ?q"
    using life by (auto simp: inv_life_def q dest!: in_update)
  ultimately show ?thesis using assms(1) inv_jobs_work [OF _ assms(2,3)] by (simp add: pool_inv_def)
qed

lemma pool_inv_work:
  assumes "pool_inv s p" "j < length (pl_workers p)" "pl_workers p ! j = Wk_Job c job"
  shows "pool_inv s (worker_work j c job p)"
  using assms by (cases job) (simp_all add: pool_inv_act pool_inv_done)

lemma pool_inv_publish:
  assumes "pool_inv s p" "j < length (pl_workers p)" "pl_workers p ! j = Wk_Ran c r"
  shows "pool_inv s (worker_publish j c r p)"
proof -
  let ?q = "worker_publish j c r p" and ?w = "Wk_Wake (os_waker (pl_cells p c))"
  have q: "pl_workers ?q = (pl_workers p)[j := ?w]" "pl_log ?q = pl_log p" "pl_callers ?q = pl_callers p"
      "pl_cells ?q = (pl_cells p)(c := (pl_cells p c)\<lparr>os_outcome := Some r, os_waker := None\<rparr>)" "pl_sender ?q = pl_sender p"
      "pl_submitted ?q = pl_submitted p" "pl_woken ?q = pl_woken p" "pl_queue ?q = pl_queue p"
    by (simp_all add: worker_publish_def Let_def)
  have cells: "inv_cells p" and calls: "inv_calls p" and life: "inv_life p"
    using assms(1) by (simp_all add: pool_inv_def)
  have log: "(c, r) \<in> set (pl_log p)" using cells assms(2,3) nth_mem unfolding inv_cells_def by metis
  have ran: "j1 \<noteq> j \<and> j1 < length (pl_workers p) \<and> pl_workers p ! j1 = Wk_Ran c' r'"
    if "j1 < length (pl_workers ?q)" "pl_workers ?q ! j1 = Wk_Ran c' r'" for j1 c' r'
    using that assms(2) by (cases "j1 = j") (auto simp: q)
  have other: "c' \<noteq> c" if "j1 \<noteq> j" "j1 < length (pl_workers p)" "pl_workers p ! j1 = Wk_Ran c' r'" for j1 c' r'
    using cells that assms(2,3) unfolding inv_cells_def by metis
  have ran_set: "Wk_Ran c' r' \<in> set (pl_workers p) \<and> c' \<noteq> c" if "Wk_Ran c' r' \<in> set (pl_workers ?q)" for c' r'
    using that ran other by (metis in_set_conv_nth)
  have "inv_cells ?q"
    unfolding inv_cells_def
  proof (intro conjI allI impI)
    show "(c', r') \<in> set (pl_log ?q)" "os_outcome (pl_cells ?q c') = None"
      if "Wk_Ran c' r' \<in> set (pl_workers ?q)" for c' r'
      using ran_set [OF that] cells by (auto simp: q(2,4) inv_cells_def)
    show "j1 = j2" if "j1 < length (pl_workers ?q)" "j2 < length (pl_workers ?q)"
      "pl_workers ?q ! j1 = Wk_Ran c' r1" "pl_workers ?q ! j2 = Wk_Ran c' r2" for j1 j2 c' r1 r2
      using ran that cells unfolding inv_cells_def by metis
    show "(c', r') \<in> set (pl_log ?q)" if "os_outcome (pl_cells ?q c') = Some r'" for c' r'
      using that log cells by (auto simp: q(2,4) inv_cells_def split: if_splits)
    show "(c', r') \<in> set (pl_log ?q)" "fst (pl_submitted ?q ! c') = i"
      if "i < length (pl_callers ?q)" "pl_callers ?q ! i = Cl_Ready c' r'" for i c' r'
      using that cells by (auto simp: q inv_cells_def)
  qed
  moreover have "inv_calls ?q"
    unfolding inv_calls_def
  proof (intro allI impI conjI)
    fix i c' assume i: "i < length (pl_callers ?q)" "pl_callers ?q ! i = Cl_Awaiting c'"
    note h = calls [unfolded inv_calls_def, rule_format, of i c', unfolded q(3) [symmetric], OF i]
    show "c' < length (pl_submitted ?q)" "fst (pl_submitted ?q ! c') = i" using h by (simp_all add: q(6))
    show "os_outcome (pl_cells ?q c') \<noteq> None"
      if "c' \<in> fst ` set (pl_log ?q)" "\<forall>r'. Wk_Ran c' r' \<notin> set (pl_workers ?q)"
    proof (cases "c' = c")
      case False
      then have "\<forall>r'. Wk_Ran c' r' \<notin> set (pl_workers p)"
        using that(2) keeps_others [OF assms(2)] assms(3) by (fastforce simp: q(1))
      with h that(1) False show ?thesis by (simp add: q(2,4))
    qed (simp add: q(4))
    show "Wk_Wake (Some i) \<in> set (pl_workers ?q) \<or>
        os_waker (pl_cells ?q c') = Some i \<and> os_outcome (pl_cells ?q c') = None" if "i \<notin> pl_woken ?q"
    proof -
      from h that consider "Wk_Wake (Some i) \<in> set (pl_workers p)" | "os_waker (pl_cells p c') = Some i" "os_outcome (pl_cells p c') = None"
        by (auto simp: q(7))
      then show ?thesis
      proof cases
        case 1
        then show ?thesis using keeps_others [OF assms(2), of "Wk_Wake (Some i)"] assms(3) by (simp add: q(1))
      next
        case 2
        then show ?thesis using set_update_memI [OF assms(2), of ?w] by (cases "c' = c") (simp_all add: q(1,4))
      qed
    qed
  qed
  moreover have "inv_life ?q"
    using life by (auto simp: inv_life_def q dest!: in_update)
  ultimately show ?thesis
    using assms(1) inv_jobs_step [OF pool_step.publish [OF assms(2,3)]] by (simp add: pool_inv_def)
qed

section \<open>Callers\<close>

lemma pool_inv_poll:
  assumes "pool_inv s p" "i < length (pl_callers p)" "pl_callers p ! i = Cl_Awaiting c"
  shows "pool_inv s (call_poll i c p)"
proof -
  let ?q = "call_poll i c p"
  obtain x st where t: "take_or_register i (pl_cells p c) = (x, st)" by fastforce
  let ?caller = "case x of None \<Rightarrow> Cl_Awaiting c | Some r \<Rightarrow> Cl_Ready c r"
  have q: "pl_workers ?q = pl_workers p" "pl_log ?q = pl_log p" "pl_callers ?q = (pl_callers p)[i := ?caller]"
      "pl_cells ?q = (pl_cells p)(c := st)" "pl_sender ?q = pl_sender p" "pl_submitted ?q = pl_submitted p"
      "pl_woken ?q = pl_woken p - {i}" "pl_queue ?q = pl_queue p"
    by (simp_all add: call_poll_def t)
  have cells: "inv_cells p" and calls: "inv_calls p" and life: "inv_life p"
    using assms(1) by (simp_all add: pool_inv_def)
  have own: "fst (pl_submitted p ! c) = i" using calls assms(2,3) by (auto simp: inv_calls_def)
  have st: "x = os_outcome (pl_cells p c)" "os_outcome st = None" "x = None \<Longrightarrow> os_waker st = Some i"
    using take_cases [of i "pl_cells p c"] t by (cases x; simp)+
  have "inv_cells ?q"
    unfolding inv_cells_def
  proof (intro conjI allI impI)
    show "(c', r') \<in> set (pl_log ?q)" "os_outcome (pl_cells ?q c') = None"
      if "Wk_Ran c' r' \<in> set (pl_workers ?q)" for c' r'
      using that cells st(2) by (auto simp: q(1,2,4) inv_cells_def)
    show "j1 = j2" if "j1 < length (pl_workers ?q)" "j2 < length (pl_workers ?q)"
      "pl_workers ?q ! j1 = Wk_Ran c' r1" "pl_workers ?q ! j2 = Wk_Ran c' r2" for j1 j2 c' r1 r2
      using that cells unfolding inv_cells_def q(1) by metis
    show "(c', r') \<in> set (pl_log ?q)" if "os_outcome (pl_cells ?q c') = Some r'" for c' r'
      using that cells st(2) by (auto simp: q(2,4) inv_cells_def split: if_splits)
    fix k c' r' assume k: "k < length (pl_callers ?q)" "pl_callers ?q ! k = Cl_Ready c' r'"
    have "(c', r') \<in> set (pl_log p) \<and> fst (pl_submitted p ! c') = k"
    proof (cases "k = i")
      case True
      then have "x = Some r'" "c' = c" using k assms(2) by (auto simp: q(3) split: option.splits)
      then show ?thesis using True own st(1) cells by (auto simp: inv_cells_def)
    next
      case False
      then show ?thesis using k cells by (auto simp: q(3) inv_cells_def)
    qed
    then show "(c', r') \<in> set (pl_log ?q)" "fst (pl_submitted ?q ! c') = k" by (simp_all add: q(2,6))
  qed
  moreover have "inv_calls ?q"
    unfolding inv_calls_def
  proof (intro allI impI)
    fix k c' assume k: "k < length (pl_callers ?q)" "pl_callers ?q ! k = Cl_Awaiting c'"
    have p: "k < length (pl_callers p)" "pl_callers p ! k = Cl_Awaiting c'"
      using k assms(2,3) by (cases "k = i"; auto simp: q(3) split: option.splits)+
    note h = calls [unfolded inv_calls_def, rule_format, OF p]
    show "c' < length (pl_submitted ?q) \<and> fst (pl_submitted ?q ! c') = k \<and>
      (c' \<in> fst ` set (pl_log ?q) \<longrightarrow> (\<forall>r. Wk_Ran c' r \<notin> set (pl_workers ?q)) \<longrightarrow> os_outcome (pl_cells ?q c') \<noteq> None) \<and>
      (k \<notin> pl_woken ?q \<longrightarrow> Wk_Wake (Some k) \<in> set (pl_workers ?q) \<or>
         os_waker (pl_cells ?q c') = Some k \<and> os_outcome (pl_cells ?q c') = None)"
    proof (cases "k = i")
      case True
      then have c: "c' = c" using p assms(3) by simp
      have "x = None" using k True assms(2) by (auto simp: q(3) split: option.splits)
      then show ?thesis using h st True c unfolding q by simp
    next
      case False
      then have "c' \<noteq> c" using h own by auto
      then show ?thesis using h False unfolding q by simp
    qed
  qed
  moreover have "inv_life ?q"
    using life assms(2,3) nth_mem [OF assms(2)] by (auto simp: inv_life_def q)
  ultimately show ?thesis
    using assms(1) inv_jobs_env [OF pool_env.spurious [OF assms(2,3)]] by (simp add: pool_inv_def)
qed

lemma oneshot_default_outcome [simp]: "os_outcome oneshot_default = None"
  by (simp add: oneshot_default_def)

lemma pool_inv_run:
  assumes "pool_inv s p" "i < length (pl_callers p)" "pl_sender p"
  shows "pool_inv s (pool_run i job p)"
proof -
  let ?q = "pool_run i job p" and ?n = "length (pl_submitted p)"
  have q: "pl_workers ?q = pl_workers p" "pl_log ?q = pl_log p" "pl_callers ?q = (pl_callers p)[i := Cl_Awaiting ?n]"
      "pl_cells ?q = (pl_cells p)(?n := oneshot_default)" "pl_sender ?q" "pl_submitted ?q = pl_submitted p @ [(i, job)]"
      "pl_woken ?q = insert i (pl_woken p)" "pl_queue ?q = pl_queue p @ [(?n, job)]"
    using assms(3) by (simp_all add: pool_run_def Let_def)
  have jobs: "inv_jobs s p" and cells: "inv_cells p" and calls: "inv_calls p" and life: "inv_life p"
    using assms(1) by (simp_all add: pool_inv_def)
  have log: "c < ?n" if "(c, r) \<in> set (pl_log p)" for c r using inv_jobs_ids(4) [OF jobs that] .
  have "inv_cells ?q"
    unfolding inv_cells_def
  proof (intro conjI allI impI)
    show "(c', r') \<in> set (pl_log ?q)" "os_outcome (pl_cells ?q c') = None"
      if "Wk_Ran c' r' \<in> set (pl_workers ?q)" for c' r'
      using that cells by (auto simp: q(1,2,4) inv_cells_def)
    show "j1 = j2" if "j1 < length (pl_workers ?q)" "j2 < length (pl_workers ?q)"
      "pl_workers ?q ! j1 = Wk_Ran c' r1" "pl_workers ?q ! j2 = Wk_Ran c' r2" for j1 j2 c' r1 r2
      using that cells unfolding inv_cells_def q(1) by metis
    show "(c', r') \<in> set (pl_log ?q)" if "os_outcome (pl_cells ?q c') = Some r'" for c' r'
      using that cells by (auto simp: q(2,4) inv_cells_def split: if_splits)
    fix k c' r' assume k: "k < length (pl_callers ?q)" "pl_callers ?q ! k = Cl_Ready c' r'"
    then have "pl_callers p ! k = Cl_Ready c' r'" using assms(2) by (cases "k = i") (auto simp: q(3))
    then have "(c', r') \<in> set (pl_log p) \<and> fst (pl_submitted p ! c') = k"
      using k cells by (auto simp: q(3) inv_cells_def)
    then show "(c', r') \<in> set (pl_log ?q)" "fst (pl_submitted ?q ! c') = k"
      using log by (auto simp: q(2,6) nth_append)
  qed
  moreover have "inv_calls ?q"
    unfolding inv_calls_def
  proof (intro allI impI)
    fix k c' assume k: "k < length (pl_callers ?q)" "pl_callers ?q ! k = Cl_Awaiting c'"
    show "c' < length (pl_submitted ?q) \<and> fst (pl_submitted ?q ! c') = k \<and>
      (c' \<in> fst ` set (pl_log ?q) \<longrightarrow> (\<forall>r. Wk_Ran c' r \<notin> set (pl_workers ?q)) \<longrightarrow> os_outcome (pl_cells ?q c') \<noteq> None) \<and>
      (k \<notin> pl_woken ?q \<longrightarrow> Wk_Wake (Some k) \<in> set (pl_workers ?q) \<or>
         os_waker (pl_cells ?q c') = Some k \<and> os_outcome (pl_cells ?q c') = None)"
    proof (cases "k = i")
      case True
      then have "c' = ?n" using k assms(2) by (simp add: q(3))
      moreover have "?n \<notin> fst ` set (pl_log p)" using log by fastforce
      ultimately show ?thesis using True by (simp add: q)
    next
      case False
      then have p: "k < length (pl_callers p)" "pl_callers p ! k = Cl_Awaiting c'" using k by (simp_all add: q(3))
      note h = calls [unfolded inv_calls_def, rule_format, OF p]
      then have "c' \<noteq> ?n" "c' < ?n" by simp_all
      then show ?thesis using h False unfolding q by (simp add: nth_append)
    qed
  qed
  moreover have "Wk_Exited \<notin> set (pl_workers p)" using life assms(3) by (auto simp: inv_life_def)
  then have "inv_life ?q"
    using life by (auto simp: inv_life_def q)
  ultimately show ?thesis
    using assms inv_jobs_run [OF jobs assms(3)] by (simp add: pool_inv_def)
qed

lemma pool_inv_drop:
  assumes "pool_inv s p" "i < length (pl_callers p)"
  shows "pool_inv s (call_drop i p)"
proof -
  let ?q = "call_drop i p"
  have cells: "inv_cells p" and calls: "inv_calls p" and life: "inv_life p"
    using assms(1) by (simp_all add: pool_inv_def)
  have other: "k < length (pl_callers p) \<and> k \<noteq> i \<and> pl_callers p ! k = x"
    if "k < length (pl_callers ?q)" "pl_callers ?q ! k = x" "x \<noteq> Cl_Idle" for k x
    using that assms(2) by (cases "k = i") (auto simp: call_drop_def)
  have "inv_cells ?q"
    using cells other unfolding inv_cells_def call_drop_def
    by (auto simp del: nth_list_update)
  moreover have "inv_calls ?q"
    using calls other unfolding inv_calls_def
    by (simp add: call_drop_def)
  moreover have "inv_life ?q"
    using life by (auto simp: inv_life_def call_drop_def dest!: in_update)
  ultimately show ?thesis
    using assms(1) inv_jobs_env [OF pool_env.cancel [OF assms(2)]] by (simp add: pool_inv_def)
qed

lemma pool_inv_close:
  assumes "pool_inv s p" "\<forall>c. Cl_Awaiting c \<notin> set (pl_callers p)"
  shows "pool_inv s (pool_drop p)"
  using assms inv_jobs_env [OF pool_env.close [OF assms(2)], of s]
  by (auto simp: pool_inv_def inv_cells_def inv_calls_def inv_life_def pool_drop_def)

lemma pool_inv_spawn: "pool_inv s (pool_spawn n m s)"
  using inv_jobs_spawn [of s n m]
  by (auto simp: pool_inv_def inv_cells_def inv_calls_def inv_life_def pool_spawn_def oneshot_default_def)

lemma pool_step_inv: "pool_step p q \<Longrightarrow> pool_inv s p \<Longrightarrow> pool_inv s q"
  by (induction rule: pool_step.induct)
     (blast intro: pool_inv_recv pool_inv_work pool_inv_publish pool_inv_wake pool_inv_poll)+

lemma pool_env_inv: "pool_env p q \<Longrightarrow> pool_inv s p \<Longrightarrow> pool_inv s q"
  by (induction rule: pool_env.induct) (blast intro: pool_inv_run pool_inv_poll pool_inv_drop pool_inv_close)+

lemma pool_reachable_inv: "pool_reachable n m s p \<Longrightarrow> pool_inv s p"
  by (induction rule: pool_reachable.induct) (blast intro: pool_inv_spawn pool_step_inv pool_env_inv)+

section \<open>Runs of the pool end\<close>

fun wk_weight :: "('s, 'r) worker \<Rightarrow> nat" where
  "wk_weight Wk_Recv = 1"
| "wk_weight (Wk_Job c job) = 5"
| "wk_weight (Wk_Ran c r) = 4"
| "wk_weight (Wk_Wake w) = 3"
| "wk_weight Wk_Exited = 0"

definition pool_measure :: "('s, 'r) pool \<Rightarrow> nat" where
  "pool_measure p = 5 * length (pl_queue p) + sum_list (map wk_weight (pl_workers p)) + card (pl_woken p)"

lemma weight_step:
  "j < length ws \<Longrightarrow> sum_list (map wk_weight (ws[j := w])) + wk_weight (ws ! j) = sum_list (map wk_weight ws) + wk_weight w"
  by (rule sum_list_update)

text \<open>
  An action leaves the measure as it is and makes one job shorter. What is left of a job is one of
  the jobs it is made of, so a job cannot act forever.
\<close>

definition job_rest :: "(('s, 'r) job \<times> ('s, 'r) job) set" where
  "job_rest = {(cont s, Act act cont) | act cont s. True}"

lemma wf_job_rest: "wf (job_rest :: (('s, 'r) job \<times> ('s, 'r) job) set)"
  unfolding wf_def
proof (intro allI impI)
  fix P :: "('s, 'r) job \<Rightarrow> bool" and job
  assume h: "\<forall>job. (\<forall>job'. (job', job) \<in> job_rest \<longrightarrow> P job') \<longrightarrow> P job"
  show "P job"
  proof (induction job)
    case (Done r)
    show ?case by (rule h [rule_format]) (simp add: job_rest_def)
  next
    case (Act act cont)
    show ?case by (rule h [rule_format]) (auto simp: job_rest_def intro: Act)
  qed
qed

fun work_left :: "('s, 'r) worker \<Rightarrow> ('s, 'r) job" where
  "work_left (Wk_Job c job) = job"
| "work_left _ = Done (Unwound [])"

definition pool_less :: "(('s, 'r) pool \<times> ('s, 'r) pool) set" where
  "pool_less = inv_image (less_than <*lex*> listrel1 job_rest) (\<lambda>p. (pool_measure p, map work_left (pl_workers p)))"

lemma wf_pool_less: "wf pool_less"
  unfolding pool_less_def by (intro wf_inv_image wf_lex_prod wf_less_than) (simp add: wf_listrel1_iff wf_job_rest)

lemma pool_step_less: "pool_step p q \<Longrightarrow> finite (pl_woken p) \<Longrightarrow> (q, p) \<in> pool_less"
proof (induction rule: pool_step.induct)
  case (recv j p q)
  obtain w where w: "w = Wk_Exited \<or> (\<exists>c job. w = Wk_Job c job)" "w = Wk_Exited \<Longrightarrow> \<not> pl_sender p \<and> pl_queue p = []"
      "w \<noteq> Wk_Exited \<Longrightarrow> pl_queue p \<noteq> []" "q = p\<lparr>pl_queue := tl (pl_queue p), pl_workers := (pl_workers p)[j := w]\<rparr>"
    by (rule recv_cases [OF recv.hyps(3)]) blast
  have "w \<noteq> Wk_Exited \<Longrightarrow> length (pl_queue p) = Suc (length (tl (pl_queue p)))" using w(3) by simp
  then show ?case
    using weight_step [OF recv.hyps(1), of w] recv.hyps(2) w(1,2)
    by (auto simp: pool_less_def pool_measure_def w(4))
next
  case (work j p c job)
  show ?case
  proof (cases job)
    case (Done r)
    then show ?thesis
      using weight_step [OF work.hyps(1), of "Wk_Ran c r"] work.hyps(2)
      by (simp add: pool_less_def pool_measure_def worker_work_def)
  next
    case (Act act cont)
    let ?ws = "pl_workers p" and ?w = "Wk_Job c (cont (pl_inner p))"
    have "(map work_left ?ws)[j := Act act cont] = map work_left ?ws"
      using work.hyps Act by (simp add: list_update_same_conv)
    then have "(map work_left (?ws[j := ?w]), map work_left ?ws) \<in> listrel1 job_rest"
      unfolding listrel1_iff_update map_update
      using work.hyps(1) by (intro exI [of _ "Act act cont"] exI [of _ j]) (auto simp: job_rest_def)
    then show ?thesis
      using weight_step [OF work.hyps(1), of ?w] work.hyps(2) Act
      by (simp add: pool_less_def pool_measure_def worker_work_def)
  qed
next
  case (publish j p c r)
  then show ?case
    using weight_step [OF publish.hyps(1), of "Wk_Wake (os_waker (pl_cells p c))"]
    by (simp add: pool_less_def pool_measure_def worker_publish_def Let_def)
next
  case (wake j p w)
  have "card (pl_woken (worker_wake j w p)) \<le> card (pl_woken p) + 1"
    using wake.prems by (auto simp: worker_wake_def card_insert_if split: option.split)
  then show ?case
    using weight_step [OF wake.hyps(1), of Wk_Recv] wake.hyps(2) by (simp add: pool_less_def pool_measure_def worker_wake_def)
next
  case (poll i p c)
  then have "card (pl_woken p - {i}) < card (pl_woken p)" by (metis card_Diff1_less)
  then show ?case by (simp add: pool_less_def pool_measure_def call_poll_def split_def Let_def)
qed

lemma pool_inv_step_less: "pool_step p q \<Longrightarrow> pool_inv s p \<Longrightarrow> (q, p) \<in> pool_less"
  by (rule pool_step_less) (simp_all add: pool_inv_def inv_life_def)

lemma pool_steps_inv: "rtranclp pool_step p q \<Longrightarrow> pool_inv s p \<Longrightarrow> pool_inv s q"
  by (induction rule: rtranclp_induct) (blast intro: pool_step_inv)+

lemma pool_runs_end: "pool_inv s p \<Longrightarrow> \<exists>q. rtranclp pool_step p q \<and> (\<nexists>r. pool_step q r)"
proof (induction p rule: wf_induct_rule [OF wf_pool_less])
  case (1 p)
  show ?case
  proof (cases "\<exists>r. pool_step p r")
    case True
    then obtain r where r: "pool_step p r" by blast
    then obtain q where "rtranclp pool_step r q" "\<nexists>r. pool_step q r"
      using 1(1) [OF pool_inv_step_less [OF r 1(2)]] pool_step_inv [OF r 1(2)] by blast
    with r show ?thesis by (meson converse_rtranclp_into_rtranclp)
  qed blast
qed

lemma no_infinite_run: "pool_inv s (f 0) \<Longrightarrow> \<exists>k. \<not> pool_step (f k) (f (Suc k))"
proof (rule ccontr)
  assume i: "pool_inv s (f 0)" and "\<nexists>k. \<not> pool_step (f k) (f (Suc k))"
  then have s: "pool_step (f k) (f (Suc k))" for k by blast
  have "pool_inv s (f k)" for k by (induction k) (use i pool_step_inv [OF s] in blast)+
  then have "(f (Suc k), f k) \<in> pool_less" for k using pool_inv_step_less [OF s] by blast
  then show False using wf_pool_less [unfolded wf_iff_no_infinite_down_chain] by blast
qed

section \<open>Nobody is forgotten\<close>

lemma stuck_workers:
  assumes "\<nexists>q. pool_step p q" "w \<in> set (pl_workers p)"
  shows "w = Wk_Exited \<or> w = Wk_Recv \<and> pl_queue p = [] \<and> pl_sender p"
proof -
  obtain j where j: "j < length (pl_workers p)" "pl_workers p ! j = w" using assms(2) by (auto simp: in_set_conv_nth)
  show ?thesis
  proof (cases w)
    case Wk_Recv
    have "worker_recv j p = None"
      using assms(1) pool_step.recv [OF j(1)] j(2) Wk_Recv by (cases "worker_recv j p") auto
    then show ?thesis using Wk_Recv by (auto simp: worker_recv_def split: list.splits if_splits)
  qed (use assms(1) j pool_step.work pool_step.publish pool_step.wake in blast)+
qed

lemma no_taken: "\<forall>w \<in> set ws. taken w = {#} \<Longrightarrow> sum_list (map taken ws) = {#}"
  by (induction ws) auto

lemma stuck_answered:
  assumes "pool_inv s p" "\<nexists>q. pool_step p q" "pl_workers p \<noteq> []" "i < length (pl_callers p)"
  shows "pl_callers p ! i \<noteq> Cl_Awaiting c"
proof
  assume c: "pl_callers p ! i = Cl_Awaiting c"
  have jobs: "inv_jobs s p" and calls: "inv_calls p" and life: "inv_life p"
    using assms(1) by (simp_all add: pool_inv_def)
  have "Cl_Awaiting c \<in> set (pl_callers p)" using c assms(4) by (metis nth_mem)
  then have open_pool: "pl_sender p" using life by (auto simp: inv_life_def)
  then have "Wk_Exited \<notin> set (pl_workers p)" using life by (auto simp: inv_life_def)
  then have recv: "w = Wk_Recv \<and> pl_queue p = []" if "w \<in> set (pl_workers p)" for w
    using stuck_workers [OF assms(2) that] that by auto
  then have "\<forall>w \<in> set (pl_workers p). taken w = {#}" by (auto dest: recv)
  then have "sum_list (map taken (pl_workers p)) = {#}" by (rule no_taken)
  moreover have "pl_queue p = []" using recv assms(3) by (meson last_in_set)
  ultimately have ids: "mset (map fst (pl_log p)) = mset [0..<length (pl_submitted p)]"
    using jobs by (simp add: inv_jobs_def each_once_def job_ids_def)
  note h = calls [unfolded inv_calls_def, rule_format, OF assms(4) c]
  have "c \<in> fst ` set (pl_log p)" using h mset_eq_setD [OF ids] by auto
  moreover have "\<forall>r. Wk_Ran c r \<notin> set (pl_workers p)" using recv by blast
  ultimately have "os_outcome (pl_cells p c) \<noteq> None" using h by blast
  moreover have "Wk_Wake (Some i) \<notin> set (pl_workers p)" using recv by blast
  ultimately have "i \<in> pl_woken p" using h by (cases "i \<in> pl_woken p") auto
  then show False using assms(2) pool_step.poll [OF assms(4) c] by blast
qed

section \<open>Properties\<close>

lemma pool_lengths:
  assumes "pool_reachable threads tasks s p"
  shows "length (pl_workers p) = threads \<and> length (pl_callers p) = tasks"
proof -
  have step: "length (pl_workers q) = length (pl_workers p) \<and> length (pl_callers q) = length (pl_callers p)"
    if "pool_step p q" for p q :: "('a, 'b) pool"
    using that by (induction rule: pool_step.induct)
      (auto simp: worker_recv_def worker_work_def worker_publish_def worker_wake_def call_poll_def Let_def
         split: prod.split list.splits if_splits option.split job.split)
  have env: "length (pl_workers q) = length (pl_workers p) \<and> length (pl_callers q) = length (pl_callers p)"
    if "pool_env p q" for p q :: "('a, 'b) pool"
    using that by (induction rule: pool_env.induct)
      (auto simp: pool_run_def call_drop_def pool_drop_def call_poll_def Let_def split: prod.split option.split)
  from assms show ?thesis
    by (induction rule: pool_reachable.induct) (use step env in \<open>auto simp: pool_spawn_def\<close>)
qed

text \<open>The steps of the pool do not take a call away: it waits, or it has its outcome.\<close>

lemma call_persists:
  assumes "pool_step p q" "i < length (pl_callers p)" "pl_callers p ! i = Cl_Awaiting c \<or> (\<exists>r. pl_callers p ! i = Cl_Ready c r)"
  shows "i < length (pl_callers q) \<and> (pl_callers q ! i = Cl_Awaiting c \<or> (\<exists>r. pl_callers q ! i = Cl_Ready c r))"
  using assms
proof (induction rule: pool_step.induct)
  case (recv j p q)
  then show ?case by (auto elim!: recv_cases)
next
  case (poll k p c')
  then show ?case by (cases "k = i") (auto simp: call_poll_def Let_def split: prod.split option.split)
qed (auto simp: worker_work_def worker_publish_def worker_wake_def Let_def split: prod.split job.split)

lemma call_persists_run:
  "rtranclp pool_step p q \<Longrightarrow> i < length (pl_callers p) \<Longrightarrow> pl_callers p ! i = Cl_Awaiting c \<Longrightarrow>
   i < length (pl_callers q) \<and> (pl_callers q ! i = Cl_Awaiting c \<or> (\<exists>r. pl_callers q ! i = Cl_Ready c r))"
proof (induction rule: rtranclp_induct)
  case (step y z)
  then show ?case using call_persists [of y z i c] by blast
qed simp

text \<open>
  C38. No call hangs: from every reachable state of a pool with at least one worker, however many
  jobs are queued and whatever was polled or dropped before, the workers and the callers they wake
  cannot run forever, and when they have nothing left to do, every caller that was waiting has its
  outcome.
\<close>

theorem offload_completes:
  assumes "pool_reachable threads tasks s p" "0 < threads"
  shows "(\<nexists>f. f 0 = p \<and> (\<forall>k. pool_step (f k) (f (Suc k)))) \<and>
    (\<forall>q. rtranclp pool_step p q \<longrightarrow> (\<nexists>r. pool_step q r) \<longrightarrow>
       (\<forall>i c. i < tasks \<longrightarrow> pl_callers p ! i = Cl_Awaiting c \<longrightarrow> (\<exists>r. pl_callers q ! i = Cl_Ready c r)))"
proof (intro conjI allI impI)
  note ivt = pool_reachable_inv [OF assms(1)] and len = pool_lengths [OF assms(1)]
  show "\<nexists>f. f 0 = p \<and> (\<forall>k. pool_step (f k) (f (Suc k)))" using no_infinite_run ivt by metis
  fix q i c assume q: "rtranclp pool_step p q" "\<nexists>r. pool_step q r" and i: "i < tasks" "pl_callers p ! i = Cl_Awaiting c"
  from q(1) assms(1) have "pool_reachable threads tasks s q"
    by (induction rule: rtranclp_induct) (blast intro: pool_reachable.step)+
  then have "pl_workers q \<noteq> []" "length (pl_callers q) = tasks" using pool_lengths assms(2) by fastforce+
  then have "pl_callers q ! i \<noteq> Cl_Awaiting c"
    using stuck_answered [OF pool_steps_inv [OF q(1) ivt] q(2)] i(1) by simp
  then show "\<exists>r. pl_callers q ! i = Cl_Ready c r" using call_persists_run [OF q(1) _ i(2)] i(1) len by simp
qed

definition tick :: "(nat, nat) job" where
  "tick = Act Suc (\<lambda>n. Done (Returned n))"

lemma one_call: "pool_reachable 1 1 n (pool_run 0 tick (pool_spawn 1 1 n))"
  by (rule pool_reachable.env [OF pool_reachable.start]) (rule pool_env.call, simp_all add: pool_spawn_def)

theorem offload_completes_witness:
  "\<exists>q r. rtranclp pool_step (pool_run 0 tick (pool_spawn 1 1 5)) q \<and> pl_callers q ! 0 = Cl_Ready 0 r"
proof -
  obtain q where q: "rtranclp pool_step (pool_run 0 tick (pool_spawn 1 1 5)) q" "\<nexists>r. pool_step q r"
    using pool_runs_end [OF pool_reachable_inv [OF one_call [of 5]]] by blast
  moreover have "pl_callers (pool_run 0 tick (pool_spawn 1 1 5)) ! 0 = Cl_Awaiting 0"
    by (simp add: pool_run_def pool_spawn_def)
  ultimately show ?thesis using offload_completes [OF one_call [of 5]] by (metis zero_less_one)
qed

end
