(* ===== verification/Offload_Order.thy ===== *)
theory Offload_Order
  imports Offload_Cells
begin

text \<open>
  What the order of execution of an \<open>OffloadTier\<close> is. Jobs start in the order of submission, no more
  of them at a time than there are threads, and the actions of those that have started interleave:
  the inner tier is what some schedule of the jobs makes of it, each job being at its own point. With
  one thread, and only then, the jobs run one after the other.
\<close>

section \<open>Jobs start in order\<close>

lemma taken_size: "size (sum_list (map taken ws)) \<le> length ws"
proof (induction ws)
  case (Cons w ws)
  then show ?case by (cases w) auto
qed simp

lemma started_first:
  assumes "inv_jobs s p"
  obtains k where "k \<le> length (pl_submitted p)" "map fst (pl_queue p) = [k..<length (pl_submitted p)]"
    "set (pl_trace p) \<union> fst ` set (pl_log p) \<subseteq> {..<k}" "k \<le> length (pl_log p) + length (pl_workers p)"
proof -
  let ?n = "length (pl_submitted p)"
  obtain js where js: "progress s p js" using assms by (auto simp: inv_jobs_def)
  obtain k where k: "k \<le> ?n" "map fst (pl_queue p) = [k..<?n]"
    using assms by (auto simp: inv_jobs_def queue_last_def)
  have queue: "c \<in> fst ` set (pl_queue p) \<longleftrightarrow> k \<le> c \<and> c < ?n" for c
    using arg_cong [OF k(2), of set] by auto
  have "c < k" if "c \<in> set (pl_trace p)" for c
  proof -
    have "c < ?n" using js that run_schedule_ids by (fastforce simp: progress_def)
    moreover have "c \<notin> fst ` set (pl_queue p)" using js that by (fastforce simp: progress_def)
    ultimately show ?thesis using queue by simp
  qed
  moreover have "c < k" if "(c, r) \<in> set (pl_log p)" for c r
  proof -
    have "c \<in> fst ` set (pl_log p)" using that by force
    then have "count (mset (map fst (pl_log p))) c \<noteq> 0" by (simp only: count_none simp_thms)
    moreover have "(if c < ?n then 1 else 0) \<le> (1 :: nat)" by simp
    ultimately have "count (mset (map fst (pl_queue p))) c = 0" using one_place [OF assms, of c] by linarith
    then have "c \<notin> fst ` set (pl_queue p)" by (simp only: count_none simp_thms)
    then show ?thesis using queue inv_jobs_ids(4) [OF assms that] by simp
  qed
  ultimately have "set (pl_trace p) \<union> fst ` set (pl_log p) \<subseteq> {..<k}" by auto
  moreover have "size (job_ids p) = ?n" using assms by (simp add: inv_jobs_def each_once_def)
  then have "length (pl_queue p) + size (sum_list (map taken (pl_workers p))) + length (pl_log p) = ?n"
    by (simp add: job_ids_def)
  moreover have "length (pl_queue p) = ?n - k" using arg_cong [OF k(2), of length] by simp
  ultimately show thesis using that [OF k] taken_size [of "pl_workers p"] k(1) by linarith
qed

section \<open>One thread\<close>

fun in_work :: "('s, 'r) worker \<Rightarrow> (nat \<times> ('s, 'r) job) option" where
  "in_work (Wk_Job c job) = Some (c, job)"
| "in_work _ = None"

text \<open>
  The logged jobs are the first ones, in order, with the outcomes of running one after the other. The
  job in work is the next one, on its way from the state that they leave.
\<close>

definition one_by_one :: "'s \<Rightarrow> ('s, 'r) pool \<Rightarrow> bool" where
  "one_by_one s p \<longleftrightarrow> map fst (pl_log p) = [0..<length (pl_log p)] \<and> length (pl_log p) \<le> length (pl_submitted p) \<and>
     (\<exists>t. run_jobs (take (length (pl_log p)) (map snd (pl_submitted p))) s = (map snd (pl_log p), t) \<and>
       (case in_work (pl_workers p ! 0) of
          None \<Rightarrow> t = pl_inner p \<and> map fst (pl_queue p) = [length (pl_log p)..<length (pl_submitted p)]
        | Some (c, job) \<Rightarrow> c = length (pl_log p) \<and> c < length (pl_submitted p) \<and>
            run_job job (pl_inner p) = run_job (snd (pl_submitted p ! c)) t \<and>
            map fst (pl_queue p) = [Suc c..<length (pl_submitted p)]))"

lemma one_by_one_frame:
  assumes "one_by_one s p" "in_work (pl_workers q ! 0) = in_work (pl_workers p ! 0)" "pl_queue q = pl_queue p"
    "pl_log q = pl_log p" "pl_submitted q = pl_submitted p" "pl_inner q = pl_inner p"
  shows "one_by_one s q"
  using assms(1) by (simp only: one_by_one_def assms(2-6))

lemma one_by_one_recv:
  assumes "one_by_one s p" "inv_jobs s p" "length (pl_workers p) = 1" "pl_workers p ! 0 = Wk_Recv" "worker_recv 0 p = Some q"
  shows "one_by_one s q"
proof (cases "pl_queue p")
  case Nil
  then have "q = p\<lparr>pl_workers := (pl_workers p)[0 := Wk_Exited]\<rparr>"
    using assms(5) by (simp add: worker_recv_def split: if_splits)
  then show ?thesis using assms by - (rule one_by_one_frame [OF assms(1)], simp_all)
next
  case (Cons e rest)
  obtain c job where e: "e = (c, job)" by (cases e)
  have q: "q = p\<lparr>pl_queue := rest, pl_workers := (pl_workers p)[0 := Wk_Job c job]\<rparr>"
    using assms(5) Cons e by (simp add: worker_recv_def)
  have job: "snd (pl_submitted p ! c) = job"
    using assms(2) Cons e by (auto simp: inv_jobs_def progress_def)
  obtain t where t: "run_jobs (take (length (pl_log p)) (map snd (pl_submitted p))) s = (map snd (pl_log p), t)"
      "t = pl_inner p" "map fst (pl_queue p) = [length (pl_log p)..<length (pl_submitted p)]"
    using assms(1,4) by (auto simp: one_by_one_def)
  then have less: "length (pl_log p) < length (pl_submitted p)"
    using Cons by (cases "length (pl_log p) < length (pl_submitted p)") auto
  then have "c = length (pl_log p)" "map fst rest = [Suc c..<length (pl_submitted p)]"
    using t(3) Cons e by (simp_all add: upt_conv_Cons)
  then show ?thesis using assms(1,3) t(1,2) job less by (simp add: one_by_one_def q)
qed

lemma one_by_one_work:
  assumes "one_by_one s p" "length (pl_workers p) = 1" "pl_workers p ! 0 = Wk_Job c job"
  shows "one_by_one s (worker_work 0 c job p)"
proof -
  obtain t where t: "run_jobs (take (length (pl_log p)) (map snd (pl_submitted p))) s = (map snd (pl_log p), t)"
      "c = length (pl_log p)" "c < length (pl_submitted p)" "run_job job (pl_inner p) = run_job (snd (pl_submitted p ! c)) t"
      "map fst (pl_queue p) = [Suc c..<length (pl_submitted p)]" "map fst (pl_log p) = [0..<length (pl_log p)]"
    using assms(1,3) by (auto simp: one_by_one_def)
  show ?thesis
  proof (cases job)
    case (Act act cont)
    then show ?thesis using t assms(2) by (simp add: one_by_one_def worker_work_def)
  next
    case (Done r)
    have "run_job (map snd (pl_submitted p) ! c) t = (r, pl_inner p)" using t(3,4) Done by simp
    from run_jobs_snoc [OF t(1) this]
    have "run_jobs (take (Suc c) (map snd (pl_submitted p))) s = (map snd (pl_log p) @ [r], pl_inner p)"
      using t(2,3) by (simp add: take_Suc_conv_app_nth)
    then show ?thesis using t(2,3,5,6) assms(2) Done by (simp add: one_by_one_def worker_work_def)
  qed
qed

lemma one_by_one_step: "pool_step p q \<Longrightarrow> one_by_one s p \<Longrightarrow> inv_jobs s p \<Longrightarrow> length (pl_workers p) = 1 \<Longrightarrow> one_by_one s q"
proof (induction rule: pool_step.induct)
  case (recv j p q)
  then have "j = 0" by simp
  with recv show ?case using one_by_one_recv [of s p q] by simp
next
  case (work j p c job)
  then have "j = 0" by simp
  with work show ?case using one_by_one_work [of s p c job] by simp
next
  case (publish j p c r)
  then show ?case by - (rule one_by_one_frame [of s p], simp_all add: worker_publish_def Let_def)
next
  case (wake j p w)
  then show ?case by - (rule one_by_one_frame [of s p], simp_all add: worker_wake_def)
next
  case (poll i p c)
  then show ?case by - (rule one_by_one_frame [of s p], simp_all add: call_poll_def split_def Let_def)
qed

lemma one_by_one_run:
  assumes "one_by_one s p" "pl_sender p"
  shows "one_by_one s (pool_run i job p)"
  using assms by (auto simp: one_by_one_def pool_run_def Let_def nth_append split: option.splits)

lemma one_by_one_env: "pool_env p q \<Longrightarrow> one_by_one s p \<Longrightarrow> one_by_one s q"
proof (induction rule: pool_env.induct)
  case (spurious i p c)
  then show ?case by - (rule one_by_one_frame [of s p], simp_all add: call_poll_def split_def Let_def)
next
  case (cancel i p)
  then show ?case by - (rule one_by_one_frame [of s p], simp_all add: call_drop_def)
next
  case (close p)
  then show ?case by - (rule one_by_one_frame [of s p], simp_all add: pool_drop_def)
qed (blast intro: one_by_one_run)

lemma one_thread: "pool_reachable 1 tasks s p \<Longrightarrow> one_by_one s p"
proof (induction rule: pool_reachable.induct)
  case start
  show ?case by (simp add: one_by_one_def pool_spawn_def)
next
  case (step p q)
  have "inv_jobs s p" using pool_reachable_inv [OF step.hyps(1)] by (simp add: pool_inv_def)
  then show ?case using one_by_one_step [OF step.hyps(2) step.IH] pool_lengths [OF step.hyps(1)] by simp
next
  case (env p q)
  show ?case using one_by_one_env [OF env.hyps(2) env.IH] .
qed

section \<open>What the callers get\<close>

lemma joined_all:
  assumes "pool_inv s p" "pool_joined p" "pl_workers p \<noteq> []"
  shows "fst ` set (pl_log p) = {..<length (pl_submitted p)}"
proof -
  have exited: "w = Wk_Exited" if "w \<in> set (pl_workers p)" for w using assms(2) that by (simp add: pool_joined_def)
  then have "Wk_Exited \<in> set (pl_workers p)" using assms(3) by (metis last_in_set)
  then have "pl_queue p = []" using assms(1) by (simp add: pool_inv_def inv_life_def)
  moreover have "sum_list (map taken (pl_workers p)) = {#}" by (rule no_taken) (auto dest: exited)
  moreover have "job_ids p = mset [0..<length (pl_submitted p)]"
    using assms(1) by (simp only: pool_inv_def inv_jobs_def each_once_def)
  ultimately have "mset (map fst (pl_log p)) = mset [0..<length (pl_submitted p)]" by (simp add: job_ids_def)
  from mset_eq_setD [OF this] show ?thesis by auto
qed

text \<open>
  C37. What concurrent execution on the pool does, in every state that callers, workers, dropped
  futures and spurious polls can reach: the inner tier is in the state that a schedule of the
  submitted jobs gives, action by action, and a logged job has run to its end in it with the logged
  outcome; no job is logged twice. Jobs start in the order in which they were submitted, and at most as
  many as there are threads have started without having ended. A caller that is ready has the
  logged outcome of a job it submitted; when dropping the tier returns, all submitted jobs have run.
  With one thread, the outcomes are those of running the jobs one after the other, and between two
  jobs the inner tier is in the state that this gives.
\<close>

theorem offload_jobs_interleave:
  assumes "pool_reachable threads tasks s p" "0 < threads"
  shows "(\<exists>js. run_schedule (map snd (pl_submitted p)) (pl_trace p) s = Some (js, pl_inner p) \<and>
       (\<forall>(c, r) \<in> set (pl_log p). js ! c = Done r)) \<and>
    distinct (map fst (pl_log p)) \<and>
    (\<exists>k \<le> length (pl_submitted p). map fst (pl_queue p) = [k..<length (pl_submitted p)] \<and>
       set (pl_trace p) \<union> fst ` set (pl_log p) \<subseteq> {..<k} \<and> k \<le> length (pl_log p) + threads) \<and>
    (\<forall>i c r. i < tasks \<longrightarrow> pl_callers p ! i = Cl_Ready c r \<longrightarrow> (c, r) \<in> set (pl_log p) \<and> fst (pl_submitted p ! c) = i) \<and>
    (pool_joined p \<longrightarrow> fst ` set (pl_log p) = {..<length (pl_submitted p)}) \<and>
    (threads = 1 \<longrightarrow> map fst (pl_log p) = [0..<length (pl_log p)] \<and>
       fst (run_jobs (take (length (pl_log p)) (map snd (pl_submitted p))) s) = map snd (pl_log p) \<and>
       ((\<forall>c job. Wk_Job c job \<notin> set (pl_workers p)) \<longrightarrow>
          snd (run_jobs (take (length (pl_log p)) (map snd (pl_submitted p))) s) = pl_inner p))"
proof -
  note ivt = pool_reachable_inv [OF assms(1)] and len = pool_lengths [OF assms(1)]
  then have jobs: "inv_jobs s p" and cells: "inv_cells p" by (simp_all add: pool_inv_def)
  have one: "in_work (pl_workers p ! 0) = None" if "threads = 1" "\<forall>c job. Wk_Job c job \<notin> set (pl_workers p)"
    using that len nth_mem [of 0 "pl_workers p"] by (cases "pl_workers p ! 0") auto
  show ?thesis
  proof (intro conjI impI)
    show "\<exists>js. run_schedule (map snd (pl_submitted p)) (pl_trace p) s = Some (js, pl_inner p) \<and>
        (\<forall>(c, r) \<in> set (pl_log p). js ! c = Done r)"
      using jobs by (auto simp: inv_jobs_def progress_def)
    show "distinct (map fst (pl_log p))" by (rule inv_jobs_ids(3) [OF jobs])
    show "\<exists>k \<le> length (pl_submitted p). map fst (pl_queue p) = [k..<length (pl_submitted p)] \<and>
        set (pl_trace p) \<union> fst ` set (pl_log p) \<subseteq> {..<k} \<and> k \<le> length (pl_log p) + threads"
      using started_first [OF jobs] len by metis
    show "\<forall>i c r. i < tasks \<longrightarrow> pl_callers p ! i = Cl_Ready c r \<longrightarrow> (c, r) \<in> set (pl_log p) \<and> fst (pl_submitted p ! c) = i"
      using cells len by (auto simp: inv_cells_def)
    show "fst ` set (pl_log p) = {..<length (pl_submitted p)}" if "pool_joined p"
      using joined_all [OF ivt that] len assms(2) by auto
    assume "threads = 1"
    then have serial: "one_by_one s p" using one_thread [of tasks s p] assms(1) by simp
    show "map fst (pl_log p) = [0..<length (pl_log p)]"
      "fst (run_jobs (take (length (pl_log p)) (map snd (pl_submitted p))) s) = map snd (pl_log p)"
      using serial by (auto simp: one_by_one_def)
    show "snd (run_jobs (take (length (pl_log p)) (map snd (pl_submitted p))) s) = pl_inner p"
      if "\<forall>c job. Wk_Job c job \<notin> set (pl_workers p)"
      using serial one [OF \<open>threads = 1\<close> that] by (auto simp: one_by_one_def)
  qed
qed

text \<open>
  A job that reads in one action and writes in the next. Two of them on two threads both read before
  either writes: an update is lost, which running one after the other does not do.
\<close>

definition slow_tick :: "(nat, nat) job" where
  "slow_tick = Act (\<lambda>n. n) (\<lambda>n. Act (\<lambda>_. n + 1) (\<lambda>_. Done (Returned n)))"

text \<open>The jobs of two callers are submitted; the first worker of the pool takes one.\<close>

definition two_calls :: "nat \<Rightarrow> (nat, nat) pool" where
  "two_calls threads = the (worker_recv 0 (pool_run 1 slow_tick (pool_run 0 slow_tick (pool_spawn threads 2 5))))"

definition next_action :: "nat \<Rightarrow> ('s, 'r) pool \<Rightarrow> ('s, 'r) pool" where
  "next_action j p = (case pl_workers p ! j of Wk_Job c job \<Rightarrow> worker_work j c job p | _ \<Rightarrow> p)"

lemma next_action_reachable:
  "pool_reachable n m s p \<Longrightarrow> j < length (pl_workers p) \<Longrightarrow> pool_reachable n m s (next_action j p)"
  by (auto simp: next_action_def split: worker.split intro: pool_reachable.step pool_step.work)

lemma next_action_workers [simp]: "length (pl_workers (next_action j p)) = length (pl_workers p)"
  by (auto simp: next_action_def worker_work_def split: worker.split job.split)

lemmas run_defs = two_calls_def next_action_def pool_run_def pool_spawn_def worker_recv_def worker_work_def slow_tick_def

lemma two_calls_reachable:
  assumes "0 < threads"
  shows "pool_reachable threads 2 5 (two_calls threads)" "length (pl_workers (two_calls threads)) = threads"
proof -
  have "pool_reachable threads 2 5 (pool_run 0 slow_tick (pool_spawn threads 2 5))"
    by (rule pool_reachable.env [OF pool_reachable.start]) (rule pool_env.call, simp_all add: pool_spawn_def)
  then have "pool_reachable threads 2 5 (pool_run 1 slow_tick (pool_run 0 slow_tick (pool_spawn threads 2 5)))"
    by (rule pool_reachable.env) (rule pool_env.call, simp_all add: pool_spawn_def pool_run_def Let_def)
  then show "pool_reachable threads 2 5 (two_calls threads)"
    by (rule pool_reachable.step) (rule pool_step.recv [of 0], use assms in \<open>simp_all add: run_defs\<close>)
  show "length (pl_workers (two_calls threads)) = threads" by (simp add: run_defs)
qed

text \<open>Both actions of both jobs in turns, and the ends of the jobs; both actions of one job, and its end.\<close>

definition in_turns :: "(nat, nat) pool" where
  "in_turns = next_action 1 (next_action 0 (next_action 1 (next_action 0 (next_action 1 (next_action 0
     (the (worker_recv 1 (two_calls 2))))))))"

definition first_alone :: "(nat, nat) pool" where
  "first_alone = next_action 0 (next_action 0 (next_action 0 (two_calls 1)))"

lemma in_turns_reachable: "pool_reachable 2 2 5 in_turns"
proof -
  have "pool_reachable 2 2 5 (the (worker_recv 1 (two_calls 2)))"
    by (rule pool_reachable.step [OF two_calls_reachable(1)])
      (simp, rule pool_step.recv [of 1], simp_all add: run_defs numeral_2_eq_2)
  moreover have "length (pl_workers (the (worker_recv 1 (two_calls 2)))) = 2" by (simp add: run_defs)
  ultimately show ?thesis unfolding in_turns_def by (intro next_action_reachable) simp_all
qed

lemma first_alone_reachable: "pool_reachable 1 2 5 first_alone"
  unfolding first_alone_def using two_calls_reachable [of 1] by (intro next_action_reachable) simp_all

lemma in_turns_state:
  "pl_submitted in_turns = [(0, slow_tick), (1, slow_tick)]" "pl_log in_turns = [(0, Returned 5), (1, Returned 5)]"
  "pl_inner in_turns = 6" "pl_trace in_turns = [0, 1, 0, 1]"
  by (simp_all add: in_turns_def run_defs numeral_2_eq_2)

lemma first_alone_state:
  "pl_submitted first_alone = [(0, slow_tick), (1, slow_tick)]" "pl_log first_alone = [(0, Returned 5)]"
  "pl_inner first_alone = 6" "pl_workers first_alone = [Wk_Ran 0 (Returned 5)]"
  by (simp_all add: first_alone_def run_defs)

theorem offload_jobs_interleave_witness:
  "(\<exists>js. run_schedule [slow_tick, slow_tick] [0, 1, 0, 1] 5 = Some (js, 6) \<and> js ! 0 = Done (Returned 5) \<and> js ! 1 = Done (Returned 5)) \<and>
   run_jobs [slow_tick, slow_tick] 5 = ([Returned 5, Returned 6], 7) \<and> run_jobs [slow_tick] 5 = ([Returned 5], 6)"
proof -
  have "\<exists>js. run_schedule [slow_tick, slow_tick] [0, 1, 0, 1] 5 = Some (js, 6) \<and> js ! 0 = Done (Returned 5) \<and> js ! 1 = Done (Returned 5)"
    using offload_jobs_interleave [OF in_turns_reachable, THEN conjunct1] by (simp add: in_turns_state)
  moreover have "run_jobs [slow_tick, slow_tick] 5 = ([Returned 5, Returned 6], 7)" by (simp add: slow_tick_def)
  moreover have "fst (run_jobs [slow_tick] 5) = [Returned 5] \<and> snd (run_jobs [slow_tick] 5) = 6"
    using offload_jobs_interleave [OF first_alone_reachable] by (simp add: first_alone_state)
  ultimately show ?thesis by (metis prod.collapse)
qed

end
