(* ===== verification/Offload_Tier.thy ===== *)
theory Offload_Tier
  imports Offload_Order Memory_Tier Tier_Wrapping
begin

text \<open>
  \<open>OffloadTier\<close>: a tier whose operations run on the pool. The futures of an inner tier are driven to
  completion by the worker; the inner tiers of the model finish at the first poll. The trait face
  is given for one caller at a time, as the sequence of pool steps that its call takes; what many
  callers can do is the subject of \<open>Offload_Cells\<close> and \<open>Offload_Order\<close>.
\<close>

section \<open>Driving a future\<close>

text \<open>A future is a state and what a poll makes of it. The loop returns iff the future is ever ready.\<close>

partial_function (option) offload_drive :: "('f \<Rightarrow> 'r option \<times> 'f) \<Rightarrow> 'f \<Rightarrow> ('r \<times> 'f) option" where
  "offload_drive poll fut =
     (case poll fut of
        (Some v, f) \<Rightarrow> Some (v, f)
      | (None, f) \<Rightarrow> offload_drive poll f)"

fun polls :: "nat \<Rightarrow> ('f \<Rightarrow> 'r option \<times> 'f) \<Rightarrow> 'f \<Rightarrow> ('r \<times> 'f) option" where
  "polls 0 poll fut = None"
| "polls (Suc n) poll fut = (case poll fut of (Some v, f) \<Rightarrow> Some (v, f) | (None, f) \<Rightarrow> polls n poll f)"

lemma offload_drive_polls: "polls n poll fut = Some x \<Longrightarrow> offload_drive poll fut = Some x"
proof (induction n arbitrary: fut)
  case (Suc n)
  then show ?case by (subst offload_drive.simps) (auto split: prod.splits option.splits)
qed simp

lemma offload_drive_returns:
  assumes "offload_drive poll fut = Some x"
  shows "\<exists>n. polls n poll fut = Some x"
proof (rule offload_drive.raw_induct [of "\<lambda>poll fut x. \<exists>n. polls n poll fut = Some x", OF _ assms])
  fix drive and poll :: "'b \<Rightarrow> 'a option \<times> 'b" and fut x
  assume ih: "\<And>poll (fut :: 'b) (x :: 'a \<times> 'b). drive poll fut = Some x \<Longrightarrow> \<exists>n. polls n poll fut = Some x"
    and x: "(case poll fut of (None, f) \<Rightarrow> drive poll f | (Some v, f) \<Rightarrow> Some (v, f)) = Some x"
  obtain o' f where p: "poll fut = (o', f)" by fastforce
  show "\<exists>n. polls n poll fut = Some x"
  proof (cases o')
    case None
    then have "drive poll f = Some x" using x p by simp
    from ih [OF this] obtain n where "polls n poll f = Some x" by blast
    then show ?thesis using p None by (intro exI [of _ "Suc n"]) simp
  next
    case (Some v)
    then show ?thesis using x p by (intro exI [of _ 1]) simp
  qed
qed

text \<open>
  The job of an operation: the inner future, ready at once, driven on the worker. An operation of a
  tier of the model is one action; nothing runs between its parts, since one caller is alone here.
\<close>

definition offload_job :: "('s \<Rightarrow> 'r \<times> 's) \<Rightarrow> ('s, 'r) job" where
  "offload_job f =
     Act (\<lambda>s. snd (the (offload_drive (\<lambda>s. apfst Some (f s)) s)))
       (\<lambda>s. Done (Returned (fst (the (offload_drive (\<lambda>s. apfst Some (f s)) s)))))"

lemma offload_job_eq: "run_job (offload_job f) s = (Returned (fst (f s)), snd (f s))"
proof -
  have "offload_drive (\<lambda>s. apfst Some (f s)) s = Some (f s)"
    by (rule offload_drive_polls [of 1]) (simp add: apfst_def map_prod_def split_def)
  then show ?thesis by (simp add: offload_job_def)
qed

section \<open>The tier\<close>

text \<open>The result types of the operations; a oneshot of the code has one of them as its parameter.\<close>

datatype ('k, 'v, 'e) reply =
    Rp_Value (rp_value: "('v option, 'e) result")
  | Rp_Flag (rp_flag: "(bool, 'e) result")
  | Rp_Values (rp_values: "('v option list, 'e) result")
  | Rp_Displaced (rp_displaced: "(('k, 'v) displaced, 'e) result")
  | Rp_Flags (rp_flags: "(bool list, 'e) result")
  | Rp_Page (rp_page: "(('k, nat) page, 'e) result")

record ('s, 'r) offload_tier =
  ot_name :: string
  ot_pool :: "('s, 'r) pool"

definition offload_new :: "('s, 'k, 'v, 'e) tier_ops \<Rightarrow> 's \<Rightarrow> nat \<Rightarrow> ('s, 'r) offload_tier" where
  "offload_new t s threads =
     \<lparr>ot_name = ''offload('' @ t_name t s @ '')'', ot_pool = pool_spawn threads 1 s\<rparr>"

text \<open>
  A call of task 0 while nothing else runs: it is submitted and polled, worker 0 takes the job, runs
  it, publishes and wakes, and the next poll is ready. \<open>None\<close> stands for a panic that is resumed.
\<close>

primrec work_all :: "('s, 'r) job \<Rightarrow> nat \<Rightarrow> nat \<Rightarrow> ('s, 'r) pool \<Rightarrow> ('s, 'r) pool" where
  "work_all (Done r) j c p = worker_work j c (Done r) p"
| "work_all (Act act cont) j c p = work_all (cont (pl_inner p)) j c (worker_work j c (Act act cont) p)"

definition offload_call :: "('s, 'r) job \<Rightarrow> ('s, 'r) pool \<Rightarrow> ('r \<times> ('s, 'r) pool) option" where
  "offload_call job p =
     (let c = length (pl_submitted p);
          p1 = call_poll 0 c (pool_run 0 job p);
          p2 = work_all job 0 c (the (worker_recv 0 p1)) in
      case pl_workers p2 ! 0 of
        Wk_Ran _ r \<Rightarrow>
          (let p3 = worker_publish 0 c r p2; p4 = worker_wake 0 (os_waker (pl_cells p2 c)) p3;
               p5 = call_poll 0 c p4 in
           case pl_callers p5 ! 0 of
             Cl_Ready _ (Returned v) \<Rightarrow> Some (v, call_drop 0 p5)
           | _ \<Rightarrow> None)
      | _ \<Rightarrow> None)"

definition offload_run :: "('a \<Rightarrow> 'r) \<Rightarrow> ('r \<Rightarrow> 'a) \<Rightarrow> ('s \<Rightarrow> 'a \<times> 's) \<Rightarrow> ('s, 'r) offload_tier \<Rightarrow> 'a \<times> ('s, 'r) offload_tier" where
  "offload_run wrap unwrap f w =
     (let (r, p) = the (offload_call (offload_job (\<lambda>s. apfst wrap (f s))) (ot_pool w))
      in (unwrap r, w\<lparr>ot_pool := p\<rparr>))"

definition offload_ops ::
  "('s, 'k, 'v, 'e) tier_ops \<Rightarrow> (('s, ('k, 'v, 'e) reply) offload_tier, 'k, 'v, 'e) tier_ops" where
  "offload_ops t =
     \<lparr>t_name = ot_name,
      t_get = (\<lambda>w k. offload_run Rp_Value rp_value (\<lambda>s. t_get t s k) w),
      t_exists = (\<lambda>w k. offload_run Rp_Flag rp_flag (\<lambda>s. t_exists t s k) w),
      t_get_many = (\<lambda>w ks. offload_run Rp_Values rp_values (\<lambda>s. t_get_many t s ks) w),
      t_put = (\<lambda>w k v. offload_run Rp_Displaced rp_displaced (\<lambda>s. t_put t s k v) w),
      t_delete = (\<lambda>w k. offload_run Rp_Flag rp_flag (\<lambda>s. t_delete t s k) w),
      t_put_many = (\<lambda>w es. offload_run Rp_Displaced rp_displaced (\<lambda>s. t_put_many t s es) w),
      t_delete_many = (\<lambda>w ks. offload_run Rp_Flags rp_flags (\<lambda>s. t_delete_many t s ks) w)\<rparr>"

definition offload_read_range ::
  "('s \<Rightarrow> 'k \<Rightarrow> u64 \<Rightarrow> u64 \<Rightarrow> ('v option, 'e) result \<times> 's) \<Rightarrow> ('s, ('k, 'v, 'e) reply) offload_tier \<Rightarrow>
   'k \<Rightarrow> u64 \<Rightarrow> u64 \<Rightarrow> ('v option, 'e) result \<times> ('s, ('k, 'v, 'e) reply) offload_tier"
where
  "offload_read_range rr w k a b = offload_run Rp_Value rp_value (\<lambda>s. rr s k a b) w"

definition offload_list ::
  "('s \<Rightarrow> nat option \<Rightarrow> nat \<Rightarrow> (('k, nat) page, 'e) result \<times> 's) \<Rightarrow> ('s, ('k, 'v, 'e) reply) offload_tier \<Rightarrow>
   nat option \<Rightarrow> nat \<Rightarrow> (('k, nat) page, 'e) result \<times> ('s, ('k, 'v, 'e) reply) offload_tier"
where
  "offload_list lst w cursor limit = offload_run Rp_Page rp_page (\<lambda>s. lst s cursor limit) w"

section \<open>A call alone\<close>

definition pool_quiet :: "('s, 'r) pool \<Rightarrow> bool" where
  "pool_quiet p \<longleftrightarrow> pl_sender p \<and> pl_queue p = [] \<and> pl_workers p \<noteq> [] \<and> pl_workers p ! 0 = Wk_Recv \<and>
     pl_callers p \<noteq> [] \<and> pl_callers p ! 0 = Cl_Idle"

text \<open>Up to what is kept for the statements, a worker that runs a job does what the job does alone.\<close>

lemma work_all_alone:
  "run_job job (pl_inner p) = (r, u) \<Longrightarrow> j < length (pl_workers p) \<Longrightarrow>
   \<exists>tr. work_all job j c p = p\<lparr>pl_inner := u, pl_workers := (pl_workers p)[j := Wk_Ran c r],
     pl_trace := tr, pl_log := pl_log p @ [(c, r)]\<rparr>"
proof (induction job arbitrary: p)
  case (Done r')
  then show ?case by (cases p) (auto simp: worker_work_def)
next
  case (Act act cont)
  let ?q = "worker_work j c (Act act cont) p"
  have "run_job (cont (pl_inner p)) (pl_inner ?q) = (r, u)" "j < length (pl_workers ?q)"
    using Act.prems by (simp_all add: worker_work_def)
  from Act.IH [OF rangeI this] show ?case by (cases p) (auto simp: worker_work_def)
qed

lemma offload_call_quiet:
  assumes "pool_quiet p" "run_job job (pl_inner p) = (Returned v, u)"
  obtains q where "offload_call job p = Some (v, q)" "pool_quiet q" "pl_inner q = u"
proof -
  note defs = pool_run_def worker_recv_def worker_work_def worker_publish_def worker_wake_def call_poll_def
    call_drop_def take_or_register_def oneshot_default_def
  let ?c = "length (pl_submitted p)"
  let ?p1 = "the (worker_recv 0 (call_poll 0 ?c (pool_run 0 job p)))"
  have len: "0 < length (pl_workers p)" "0 < length (pl_callers p)" using assms(1) by (simp_all add: pool_quiet_def)
  have "run_job job (pl_inner ?p1) = (Returned v, u)" "0 < length (pl_workers ?p1)"
    using assms len by (simp_all add: pool_quiet_def Let_def defs)
  from work_all_alone [OF this] obtain tr where w: "work_all job 0 ?c ?p1 = ?p1\<lparr>pl_inner := u,
      pl_workers := (pl_workers ?p1)[0 := Wk_Ran ?c (Returned v)], pl_trace := tr,
      pl_log := pl_log ?p1 @ [(?c, Returned v)]\<rparr>"
    ..
  have "\<exists>q. offload_call job p = Some (v, q) \<and> pool_quiet q \<and> pl_inner q = u"
    unfolding offload_call_def Let_def w
    using assms(1) len by (simp add: pool_quiet_def Let_def defs)
  with that show thesis by blast
qed

lemma offload_run_quiet:
  assumes "pool_quiet (ot_pool w)" "\<And>a. unwrap (wrap a) = a"
  shows "fst (offload_run wrap unwrap f w) = fst (f (pl_inner (ot_pool w)))"
    and "pl_inner (ot_pool (snd (offload_run wrap unwrap f w))) = snd (f (pl_inner (ot_pool w)))"
    and "pool_quiet (ot_pool (snd (offload_run wrap unwrap f w)))"
proof -
  let ?job = "offload_job (\<lambda>s. apfst wrap (f s))" and ?s = "pl_inner (ot_pool w)"
  have "run_job ?job ?s = (Returned (wrap (fst (f ?s))), snd (f ?s))" by (simp add: offload_job_eq)
  then obtain q where q: "offload_call ?job (ot_pool w) = Some (wrap (fst (f ?s)), q)" "pool_quiet q"
      "pl_inner q = snd (f ?s)"
    by (rule offload_call_quiet [OF assms(1)])
  then show "fst (offload_run wrap unwrap f w) = fst (f ?s)"
    "pl_inner (ot_pool (snd (offload_run wrap unwrap f w))) = snd (f ?s)"
    "pool_quiet (ot_pool (snd (offload_run wrap unwrap f w)))"
    by (simp_all add: offload_run_def assms(2))
qed

lemmas offload_simps =
  offload_run_quiet [of _ rp_value Rp_Value, simplified] offload_run_quiet [of _ rp_flag Rp_Flag, simplified]
  offload_run_quiet [of _ rp_values Rp_Values, simplified] offload_run_quiet [of _ rp_displaced Rp_Displaced, simplified]
  offload_run_quiet [of _ rp_flags Rp_Flags, simplified] offload_run_quiet [of _ rp_page Rp_Page, simplified]

lemma offload_wraps: "wraps (\<lambda>w. pool_quiet (ot_pool w)) (\<lambda>w. pl_inner (ot_pool w)) (offload_ops t) t"
  by (simp add: wraps_def forwards_def offload_ops_def offload_simps)

lemma offload_same_answers: "transparent (\<lambda>w. pool_quiet (ot_pool w)) (\<lambda>w. pl_inner (ot_pool w)) (offload_ops t) t"
  by (simp add: transparent_def offload_ops_def offload_simps)

lemma offload_new_quiet: "0 < threads \<Longrightarrow> pool_quiet (ot_pool (offload_new t s threads))"
  by (simp add: offload_new_def pool_quiet_def pool_spawn_def)

interpretation offload_memory:
  reliable_tiers "wrapped_inv offload_ops (\<lambda>w. pool_quiet (ot_pool w)) (\<lambda>w. pl_inner (ot_pool w)) memory_inv"
    "\<lambda>_ w. memory_con (pl_inner (ot_pool w))"
  by (rule wrapped_reliable [OF memory.reliable_tiers_axioms offload_wraps offload_same_answers])

end
