(* ===== verification/Arc_Tier.thy ===== *)
theory Arc_Tier
  imports Memory_Tier Tier_Wrapping
begin

text \<open>
  The optional capability traits of \<open>tierstore-core/src/tier.rs\<close> as operation tables, and the traits
  of \<open>Arc<T>\<close>, which forward to the tier that the pointer reaches. The heap is a list of tiers, an
  \<open>Arc\<close> is an address in it, and a clone is the same address: every clone sees what another one
  wrote, and no operation reaches another allocation.
\<close>

section \<open>The optional capabilities\<close>

text \<open>
  \<open>get_ref\<close> gives a view \<open>'r\<close>, which \<open>deref\<close> turns into the borrowed value; \<open>None\<close> is a view that
  cannot be dereferenced.
\<close>

record ('s, 'k, 'r, 'b, 'e) tier_read_ref =
  t_get_ref :: "'s \<Rightarrow> 'k \<Rightarrow> ('r option, 'e) result \<times> 's"
  t_deref :: "'s \<Rightarrow> 'r \<Rightarrow> 'b option"

record ('s, 'k, 'v, 'e) tier_read_range =
  t_read_range :: "'s \<Rightarrow> 'k \<Rightarrow> u64 \<Rightarrow> u64 \<Rightarrow> ('v option, 'e) result \<times> 's"

record ('s, 'k, 'c, 'e) tier_list =
  t_list :: "'s \<Rightarrow> 'c option \<Rightarrow> nat \<Rightarrow> (('k, 'c) page, 'e) result \<times> 's"

text \<open>The memory tier has two of them.\<close>

definition memory_refs :: "(('k, 'v) memory_tier, 'k, 'k, 'v, 'e) tier_read_ref" where
  "memory_refs = \<lparr>t_get_ref = memory_get_ref, t_deref = memory_deref\<rparr>"

definition memory_lists :: "(('k, 'v) memory_tier, 'k, nat, 'e) tier_list" where
  "memory_lists = \<lparr>t_list = (\<lambda>t cursor limit. (memory_list t cursor limit, t))\<rparr>"

section \<open>Shared pointers\<close>

type_synonym 's heap = "'s list"

text \<open>\<open>Arc::new\<close> allocates.\<close>

definition arc_new :: "'s \<Rightarrow> 's heap \<Rightarrow> nat \<times> 's heap" where
  "arc_new s h = (length h, h @ [s])"

definition through :: "nat \<Rightarrow> ('s \<Rightarrow> 'a \<times> 's) \<Rightarrow> 's heap \<Rightarrow> 'a \<times> 's heap" where
  "through a f h = (let (r, s) = f (h ! a) in (r, h[a := s]))"

definition arc_ops :: "nat \<Rightarrow> ('s, 'k, 'v, 'e) tier_ops \<Rightarrow> ('s heap, 'k, 'v, 'e) tier_ops" where
  "arc_ops a t =
     \<lparr>t_name = (\<lambda>h. t_name t (h ! a)),
      t_get = (\<lambda>h k. through a (\<lambda>s. t_get t s k) h),
      t_exists = (\<lambda>h k. through a (\<lambda>s. t_exists t s k) h),
      t_get_many = (\<lambda>h ks. through a (\<lambda>s. t_get_many t s ks) h),
      t_put = (\<lambda>h k v. through a (\<lambda>s. t_put t s k v) h),
      t_delete = (\<lambda>h k. through a (\<lambda>s. t_delete t s k) h),
      t_put_many = (\<lambda>h es. through a (\<lambda>s. t_put_many t s es) h),
      t_delete_many = (\<lambda>h ks. through a (\<lambda>s. t_delete_many t s ks) h)\<rparr>"

definition arc_read_ref :: "nat \<Rightarrow> ('s, 'k, 'r, 'b, 'e) tier_read_ref \<Rightarrow> ('s heap, 'k, 'r, 'b, 'e) tier_read_ref" where
  "arc_read_ref a t =
     \<lparr>t_get_ref = (\<lambda>h k. through a (\<lambda>s. t_get_ref t s k) h), t_deref = (\<lambda>h r. t_deref t (h ! a) r)\<rparr>"

definition arc_read_range :: "nat \<Rightarrow> ('s, 'k, 'v, 'e) tier_read_range \<Rightarrow> ('s heap, 'k, 'v, 'e) tier_read_range" where
  "arc_read_range a t = \<lparr>t_read_range = (\<lambda>h k start fin. through a (\<lambda>s. t_read_range t s k start fin) h)\<rparr>"

definition arc_list :: "nat \<Rightarrow> ('s, 'k, 'c, 'e) tier_list \<Rightarrow> ('s heap, 'k, 'c, 'e) tier_list" where
  "arc_list a t = \<lparr>t_list = (\<lambda>h cursor limit. through a (\<lambda>s. t_list t s cursor limit) h)\<rparr>"

lemma through_simps:
  assumes "a < length h"
  shows "fst (through a f h) = fst (f (h ! a))" "snd (through a f h) ! a = snd (f (h ! a))"
    "length (snd (through a f h)) = length h" "b \<noteq> a \<Longrightarrow> snd (through a f h) ! b = h ! b"
  using assms by (simp_all add: through_def split_def Let_def)

lemma arc_wraps: "wraps (\<lambda>h. a < length h) (\<lambda>h. h ! a) (arc_ops a t) t"
  by (simp add: wraps_def forwards_def arc_ops_def through_simps)

lemma arc_same_answers: "transparent (\<lambda>h. a < length h) (\<lambda>h. h ! a) (arc_ops a t) t"
  by (simp add: transparent_def arc_ops_def through_simps)

text \<open>A pointer to a memory tier is a tier that does not fail, whatever else is on the heap.\<close>

interpretation arc_memory:
  reliable_tiers "wrapped_inv (arc_ops a) (\<lambda>h. a < length h) (\<lambda>h. h ! a) memory_inv" "\<lambda>_ h. memory_con (h ! a)" for a
  by (rule wrapped_reliable [OF memory.reliable_tiers_axioms arc_wraps arc_same_answers])

text \<open>
  Two pointers: what goes through one is seen through its clones, and two different allocations
  do not see each other, so operations on them commute.
\<close>

lemma through_shared:
  assumes "a < length h"
  shows "through a g (snd (through a f h)) = through a (\<lambda>s. g (snd (f s))) h"
  using assms by (simp add: through_def split_def Let_def)

lemma through_apart:
  assumes "a < length h" "b < length h" "a \<noteq> b"
  shows "fst (through b g (snd (through a f h))) = fst (through b g h)"
    "snd (through b g (snd (through a f h))) = snd (through a f (snd (through b g h)))"
  using assms by (simp_all add: through_def split_def Let_def list_update_swap)

lemma arc_new_reaches:
  assumes "arc_new s h = (a, h')"
  shows "a < length h'" "h' ! a = s" "b < length h \<Longrightarrow> h' ! b = h ! b" "b < length h \<Longrightarrow> b \<noteq> a"
  using assms by (auto simp: arc_new_def nth_append)

end
