(* ===== verification/Tier_Sum.thy ===== *)
theory Tier_Sum
  imports Tier_Wrapping
begin

text \<open>
  Tiers of different types in one router. The code boxes every tier as a trait object; here the
  state of a router's tiers is a sum, and the table of a tier works on its summand.
\<close>

definition on_left :: "('a \<Rightarrow> 'r \<times> 'a) \<Rightarrow> 'a + 'b \<Rightarrow> 'r \<times> ('a + 'b)" where
  "on_left f w = apsnd Inl (f (projl w))"

definition on_right :: "('b \<Rightarrow> 'r \<times> 'b) \<Rightarrow> 'a + 'b \<Rightarrow> 'r \<times> ('a + 'b)" where
  "on_right f w = apsnd Inr (f (projr w))"

definition left_ops :: "('a, 'k, 'v, 'e) tier_ops \<Rightarrow> ('a + 'b, 'k, 'v, 'e) tier_ops" where
  "left_ops t =
     \<lparr>t_name = (\<lambda>w. t_name t (projl w)),
      t_get = (\<lambda>w k. on_left (\<lambda>s. t_get t s k) w), t_exists = (\<lambda>w k. on_left (\<lambda>s. t_exists t s k) w),
      t_get_many = (\<lambda>w ks. on_left (\<lambda>s. t_get_many t s ks) w), t_put = (\<lambda>w k v. on_left (\<lambda>s. t_put t s k v) w),
      t_delete = (\<lambda>w k. on_left (\<lambda>s. t_delete t s k) w), t_put_many = (\<lambda>w es. on_left (\<lambda>s. t_put_many t s es) w),
      t_delete_many = (\<lambda>w ks. on_left (\<lambda>s. t_delete_many t s ks) w)\<rparr>"

definition right_ops :: "('b, 'k, 'v, 'e) tier_ops \<Rightarrow> ('a + 'b, 'k, 'v, 'e) tier_ops" where
  "right_ops t =
     \<lparr>t_name = (\<lambda>w. t_name t (projr w)),
      t_get = (\<lambda>w k. on_right (\<lambda>s. t_get t s k) w), t_exists = (\<lambda>w k. on_right (\<lambda>s. t_exists t s k) w),
      t_get_many = (\<lambda>w ks. on_right (\<lambda>s. t_get_many t s ks) w), t_put = (\<lambda>w k v. on_right (\<lambda>s. t_put t s k v) w),
      t_delete = (\<lambda>w k. on_right (\<lambda>s. t_delete t s k) w), t_put_many = (\<lambda>w es. on_right (\<lambda>s. t_put_many t s es) w),
      t_delete_many = (\<lambda>w ks. on_right (\<lambda>s. t_delete_many t s ks) w)\<rparr>"

lemma on_sum_simps [simp]:
  "on_left f (Inl a) = apsnd Inl (f a)" "on_right g (Inr b) = apsnd Inr (g b)"
  by (simp_all add: on_left_def on_right_def)

lemma sum_ops_simps [simp]:
  "t_get (left_ops t) w k = on_left (\<lambda>s. t_get t s k) w" "t_get (right_ops u) x k = on_right (\<lambda>s. t_get u s k) x"
  "t_exists (left_ops t) w k = on_left (\<lambda>s. t_exists t s k) w" "t_exists (right_ops u) x k = on_right (\<lambda>s. t_exists u s k) x"
  "t_put (left_ops t) w k v = on_left (\<lambda>s. t_put t s k v) w" "t_put (right_ops u) x k v = on_right (\<lambda>s. t_put u s k v) x"
  "t_get_many (left_ops t) w ks = on_left (\<lambda>s. t_get_many t s ks) w"
  "t_get_many (right_ops u) x ks = on_right (\<lambda>s. t_get_many u s ks) x"
  "t_put_many (left_ops t) w es = on_left (\<lambda>s. t_put_many t s es) w"
  "t_put_many (right_ops u) x es = on_right (\<lambda>s. t_put_many u s es) x"
  "t_delete (left_ops t) w k = on_left (\<lambda>s. t_delete t s k) w" "t_delete (right_ops u) x k = on_right (\<lambda>s. t_delete u s k) x"
  by (simp_all add: left_ops_def right_ops_def)

text \<open>A boxed tier is a wrapper that answers what the tier inside answers.\<close>

lemma left_wraps: "wraps isl projl (left_ops t) t" "transparent isl projl (left_ops t) t"
  by (auto simp: wraps_def forwards_def transparent_def left_ops_def isl_def)

lemma right_wraps: "wraps (\<lambda>w. \<not> isl w) projr (right_ops t) t" "transparent (\<lambda>w. \<not> isl w) projr (right_ops t) t"
  by (auto simp: wraps_def forwards_def transparent_def right_ops_def on_right_def split: sum.splits)

end
