(* ===== verification/Moka_Tier.thy ===== *)
theory Moka_Tier
  imports Tier_Sum Remote_Store Memory_Tier
begin

text \<open>
  \<open>tierstore-moka/src/tier.rs\<close>: a third-party cache behind the tier traits. The cache is a parameter,
  a table of the functions that the tier calls; what is assumed of it is its documentation: it never
  invents or keeps stale values, and it may drop any entry at any time. Shown: above a tier that
  loses nothing, in a write-through router, such a tier loses nothing either, as the crate's
  documentation says of inclusive hierarchies.
\<close>

section \<open>The tier\<close>

text \<open>\<open>'c\<close> is \<open>moka::future::Cache<K, V>\<close>; \<open>None\<close> as a weigher is the default one.\<close>

record ('c, 'k, 'v) moka_api =
  mk_build :: "u64 \<Rightarrow> ('k \<Rightarrow> 'v \<Rightarrow> 32 word) option \<Rightarrow> 'c"
  mk_get :: "'c \<Rightarrow> 'k \<Rightarrow> 'v option \<times> 'c"
  mk_contains_key :: "'c \<Rightarrow> 'k \<Rightarrow> bool"
  mk_insert :: "'c \<Rightarrow> 'k \<Rightarrow> 'v \<Rightarrow> 'c"
  mk_remove :: "'c \<Rightarrow> 'k \<Rightarrow> 'v option \<times> 'c"

record 'c moka_tier =
  mk_cache :: 'c

definition moka_new :: "'c \<Rightarrow> 'c moka_tier" where
  "moka_new c = \<lparr>mk_cache = c\<rparr>"

definition moka_bounded :: "('c, 'k, 'v) moka_api \<Rightarrow> u64 \<Rightarrow> 'c moka_tier" where
  "moka_bounded m max_entries = moka_new (mk_build m max_entries None)"

definition moka_bounded_weighted ::
  "('c, 'k, 'v) moka_api \<Rightarrow> u64 \<Rightarrow> ('k \<Rightarrow> 'v \<Rightarrow> 32 word) \<Rightarrow> 'c moka_tier" where
  "moka_bounded_weighted m budget weigh = moka_new (mk_build m budget (Some weigh))"

definition moka_inner :: "'c moka_tier \<Rightarrow> 'c" where
  "moka_inner w = mk_cache w"

definition moka_get ::
  "('c, 'k, 'v) moka_api \<Rightarrow> 'c moka_tier \<Rightarrow> 'k \<Rightarrow> ('v option, 'e) result \<times> 'c moka_tier" where
  "moka_get m w k = (let (v, c) = mk_get m (mk_cache w) k in (Ok v, w\<lparr>mk_cache := c\<rparr>))"

definition moka_exists ::
  "('c, 'k, 'v) moka_api \<Rightarrow> 'c moka_tier \<Rightarrow> 'k \<Rightarrow> (bool, 'e) result \<times> 'c moka_tier" where
  "moka_exists m w k = (Ok (mk_contains_key m (mk_cache w) k), w)"

definition moka_put ::
  "('c, 'k, 'v) moka_api \<Rightarrow> 'c moka_tier \<Rightarrow> 'k \<Rightarrow> 'v \<Rightarrow> (('k, 'v) displaced, 'e) result \<times> 'c moka_tier" where
  "moka_put m w k v = (Ok [], w\<lparr>mk_cache := mk_insert m (mk_cache w) k v\<rparr>)"

definition moka_delete ::
  "('c, 'k, 'v) moka_api \<Rightarrow> 'c moka_tier \<Rightarrow> 'k \<Rightarrow> (bool, 'e) result \<times> 'c moka_tier" where
  "moka_delete m w k = (let (old, c) = mk_remove m (mk_cache w) k in (Ok (old \<noteq> None), w\<lparr>mk_cache := c\<rparr>))"

definition moka_ops :: "('c, 'k, 'v) moka_api \<Rightarrow> ('c moka_tier, 'k, 'v, 'e) tier_ops" where
  "moka_ops m =
     \<lparr>t_name = (\<lambda>_. ''moka''), t_get = moka_get m, t_exists = moka_exists m,
      t_get_many = get_many_default (moka_get m), t_put = moka_put m, t_delete = moka_delete m,
      t_put_many = put_many_default (moka_put m), t_delete_many = delete_many_default (moka_delete m)\<rparr>"

section \<open>What the cache documents\<close>

text \<open>
  \<open>cv c\<close> is what a call on \<open>c\<close> would find. A call finds exactly that, and afterwards the cache holds
  at most what the call leaves: it may have dropped entries.
\<close>

definition moka_documented :: "('c, 'k, 'v) moka_api \<Rightarrow> ('c \<Rightarrow> ('k \<rightharpoonup> 'v)) \<Rightarrow> bool" where
  "moka_documented m cv \<longleftrightarrow>
     (\<forall>n weigh. cv (mk_build m n weigh) = Map.empty) \<and>
     (\<forall>c k. fst (mk_get m c k) = cv c k \<and> cv (snd (mk_get m c k)) \<subseteq>\<^sub>m cv c) \<and>
     (\<forall>c k. mk_contains_key m c k \<longleftrightarrow> cv c k \<noteq> None) \<and>
     (\<forall>c k v. cv (mk_insert m c k v) \<subseteq>\<^sub>m (cv c)(k \<mapsto> v)) \<and>
     (\<forall>c k. fst (mk_remove m c k) = cv c k \<and> cv (snd (mk_remove m c k)) \<subseteq>\<^sub>m (cv c)(k := None))"

lemma documentedD:
  assumes "moka_documented m cv"
  shows "cv (mk_build m n weigh) = Map.empty" "fst (mk_get m c k) = cv c k" "cv (snd (mk_get m c k)) \<subseteq>\<^sub>m cv c"
    "mk_contains_key m c k \<longleftrightarrow> cv c k \<noteq> None" "cv (mk_insert m c k v) \<subseteq>\<^sub>m (cv c)(k \<mapsto> v)"
    "fst (mk_remove m c k) = cv c k" "cv (snd (mk_remove m c k)) \<subseteq>\<^sub>m (cv c)(k := None)"
  using assms by (simp_all add: moka_documented_def)

section \<open>Above a tier that loses nothing\<close>

text \<open>The router of the two tiers, as the builder makes it.\<close>

definition moka_router ::
  "('c, 'k, 'v) moka_api \<Rightarrow> ('b, 'k, 'v, 'e) tier_ops \<Rightarrow> ('e \<Rightarrow> 'x) \<Rightarrow> policy \<Rightarrow> 'c moka_tier \<Rightarrow> 'b \<Rightarrow>
   ('c moka_tier + 'b, 'k, 'v, 'x) router"
where
  "moka_router m t into p w b =
     the (builder_build (builder_policy p
       (builder_tier into (right_ops t) (Inr b) (builder_tier into (left_ops (moka_ops m)) (Inl w) builder_new))))"

text \<open>Calls on the router, and the cache dropping entries on its own; \<open>ref\<close> is what was stored.\<close>

inductive moka_reachable ::
  "('c, 'k, 'v) moka_api \<Rightarrow> ('c \<Rightarrow> ('k \<rightharpoonup> 'v)) \<Rightarrow> ('c moka_tier + 'b, 'k, 'v, 'x) router \<Rightarrow> ('k \<rightharpoonup> 'v) \<Rightarrow>
   ('c moka_tier + 'b, 'k, 'v, 'x) router \<Rightarrow> ('k \<rightharpoonup> 'v) \<Rightarrow> bool" for m cv r0 m0 where
  start: "moka_reachable m cv r0 m0 r0 m0"
| get: "moka_reachable m cv r0 m0 r ref \<Longrightarrow> router_get r k = Some (a, r') \<Longrightarrow> moka_reachable m cv r0 m0 r' ref"
| put: "moka_reachable m cv r0 m0 r ref \<Longrightarrow> moka_reachable m cv r0 m0 (snd (router_put r k v)) (ref(k \<mapsto> v))"
| del: "moka_reachable m cv r0 m0 r ref \<Longrightarrow> moka_reachable m cv r0 m0 (snd (router_delete r k)) (ref(k := None))"
| lapse: "moka_reachable m cv r0 m0 r ref \<Longrightarrow> rt_tiers r = [upper, lower] \<Longrightarrow> slot_state upper = Inl w \<Longrightarrow>
     cv c \<subseteq>\<^sub>m cv (mk_cache w) \<Longrightarrow>
     moka_reachable m cv r0 m0 (r\<lparr>rt_tiers := [upper\<lparr>slot_state := Inl \<lparr>mk_cache = c\<rparr>\<rparr>, lower]\<rparr>) ref"

definition moka_pair ::
  "('c, 'k, 'v) moka_api \<Rightarrow> ('c \<Rightarrow> ('k \<rightharpoonup> 'v)) \<Rightarrow> (('b, 'k, 'v, 'e) tier_ops \<Rightarrow> 'b \<Rightarrow> bool) \<Rightarrow> ('b \<Rightarrow> ('k \<rightharpoonup> 'v)) \<Rightarrow>
   ('b, 'k, 'v, 'e) tier_ops \<Rightarrow> ('e \<Rightarrow> 'x) \<Rightarrow> policy \<Rightarrow> ('k \<rightharpoonup> 'v) \<Rightarrow> ('c moka_tier + 'b, 'k, 'v, 'x) router \<Rightarrow> bool"
where
  "moka_pair m cv ivt con t into p ref r \<longleftrightarrow>
     (\<exists>w b ctrs ctrs'. r = \<lparr>rt_tiers =
          [\<lparr>slot_ops = adapter into (left_ops (moka_ops m)), slot_state = Inl w, writable = True, slot_counters = ctrs\<rparr>,
           \<lparr>slot_ops = adapter into (right_ops t), slot_state = Inr b, writable = True, slot_counters = ctrs'\<rparr>],
          rt_policy = p\<rparr> \<and>
        ivt t b \<and> con b = ref \<and> cv (mk_cache w) \<subseteq>\<^sub>m ref)"


lemmas moka_defs = moka_ops_def moka_get_def moka_exists_def moka_put_def moka_delete_def

lemma moka_calls:
  "t_get (moka_ops m) w k = (Ok (fst (mk_get m (mk_cache w) k)), w\<lparr>mk_cache := snd (mk_get m (mk_cache w) k)\<rparr>)"
  "t_put (moka_ops m) w k v = (Ok [], w\<lparr>mk_cache := mk_insert m (mk_cache w) k v\<rparr>)"
  "t_delete (moka_ops m) w k =
     (Ok (fst (mk_remove m (mk_cache w) k) \<noteq> None), w\<lparr>mk_cache := snd (mk_remove m (mk_cache w) k)\<rparr>)"
  by (simp_all add: moka_defs split_def Let_def)

text \<open>What the tier below has to be.\<close>

lemma bottom_laws:
  assumes "lasting_tiers ivt (\<lambda>_. con) (\<lambda>_ _. True)" "ivt t b"
  shows "fst (t_get t b k) = Ok (con b k)" "ivt t (snd (t_get t b k))" "con (snd (t_get t b k)) = con b"
    "fst (t_put t b k v) = Ok []" "ivt t (snd (t_put t b k v))" "con (snd (t_put t b k v)) = (con b)(k \<mapsto> v)"
    "fst (t_delete t b k) = Ok (con b k \<noteq> None)" "ivt t (snd (t_delete t b k))"
    "con (snd (t_delete t b k)) = (con b)(k := None)"
proof -
  note ab = lasting_tiers.axioms(1) [OF assms(1)]
  note rel = absorbing_tiers.axioms(1) [OF ab]
  note tl = reliable_tiers.axioms(1) [OF rel]
  note sl = tier_laws.axioms(1) [OF tl]
  obtain x where x: "fst (t_get t b k) = Ok x" using reliable_tiers.get_ok [OF rel assms(2)] by (rule is_okE)
  obtain d where d: "fst (t_delete t b k) = Ok d" using reliable_tiers.delete_ok [OF rel assms(2)] by (rule is_okE)
  show "fst (t_get t b k) = Ok (con b k)"
    using x single_laws.get_res [OF sl assms(2) x] by (simp add: prod_eq_iff)
  show "fst (t_put t b k v) = Ok []"
    using absorbing_tiers.put_none [OF ab assms(2)] by (simp add: prod_eq_iff)
  show "fst (t_delete t b k) = Ok (con b k \<noteq> None)"
    using d single_laws.delete_res [OF sl assms(2) d] by (simp add: prod_eq_iff)
  show "con (snd (t_put t b k v)) = (con b)(k \<mapsto> v)"
    using single_laws.put_con [OF sl assms(2) absorbing_tiers.put_none [OF ab assms(2)]] by simp
  show "con (snd (t_delete t b k)) = (con b)(k := None)" by (rule single_laws.delete_con [OF sl assms(2) d])
  show "con (snd (t_get t b k)) = con b" by (rule single_laws.get_con [OF sl assms(2)])
  show "ivt t (snd (t_get t b k))" "ivt t (snd (t_put t b k v))" "ivt t (snd (t_delete t b k))"
    using single_laws.get_inv [OF sl assms(2)] single_laws.put_inv [OF sl assms(2)]
      single_laws.delete_inv [OF sl assms(2)] by simp_all
qed

lemma map_le_upd_same: "m \<subseteq>\<^sub>m n(k \<mapsto> v) \<Longrightarrow> n \<subseteq>\<^sub>m ref \<Longrightarrow> ref k = Some v \<Longrightarrow> m \<subseteq>\<^sub>m ref"
  by (auto simp: map_le_def dom_def) metis

lemma moka_pair_get:
  assumes "moka_documented m cv" "lasting_tiers ivt (\<lambda>_. con) (\<lambda>_ _. True)" "moka_pair m cv ivt con t into p ref r"
    "router_get r k = Some (a, r')"
  shows "a = Ok (ref k) \<and> moka_pair m cv ivt con t into p ref r'"
proof -
  from assms(3) obtain w b ctrs ctrs' where r: "r = \<lparr>rt_tiers =
          [\<lparr>slot_ops = adapter into (left_ops (moka_ops m)), slot_state = Inl w, writable = True, slot_counters = ctrs\<rparr>,
           \<lparr>slot_ops = adapter into (right_ops t), slot_state = Inr b, writable = True, slot_counters = ctrs'\<rparr>],
          rt_policy = p\<rparr>" and b: "ivt t b" "con b = ref" and w: "cv (mk_cache w) \<subseteq>\<^sub>m ref"
    by (auto simp: moka_pair_def)
  note bl = bottom_laws [OF assms(2) b(1)] and doc = documentedD [OF assms(1)]
  have got: "cv (snd (mk_get m (mk_cache w) k)) \<subseteq>\<^sub>m ref" using doc(3) w by (rule map_le_trans)
  have "get_reference r k = (a, r')" using assms(4) by (simp add: router_get_eq)
  then have ref: "get_reference r k = (a, r')" .
  note defs = get_reference_def call_def bump_def upt_rec moka_calls doc(2)
  show ?thesis
  proof (cases "cv (mk_cache w) k")
    case (Some v)
    then have "ref k = Some v" using w by (metis domI map_le_def)
    moreover have "promotion_targets (rp_promote (pol_read p)) 0 = []" by (cases "rp_promote (pol_read p)") simp_all
    ultimately show ?thesis using ref Some got b by (auto simp: r defs moka_pair_def)
  next
    case None
    note none = None
    show ?thesis
    proof (cases "ref k")
      case None
      then show ?thesis using ref none got b bl by (auto simp: r defs moka_pair_def)
    next
      case (Some v)
      have "cv (mk_insert m (snd (mk_get m (mk_cache w) k)) k v) \<subseteq>\<^sub>m ref"
        using doc(5) [of "snd (mk_get m (mk_cache w) k)" k v] got Some by (rule map_le_upd_same)
      then show ?thesis using ref none Some got b bl
        by (cases "rp_promote (pol_read p)") (auto simp: r defs moka_pair_def fill_one_def)
    qed
  qed
qed


lemma moka_pair_put:
  assumes "moka_documented m cv" "lasting_tiers ivt (\<lambda>_. con) (\<lambda>_ _. True)" "moka_pair m cv ivt con t into p ref r"
    "pol_write p = WriteThrough"
  shows "fst (router_put r k v) = Ok []" "moka_pair m cv ivt con t into p (ref(k \<mapsto> v)) (snd (router_put r k v))"
proof -
  from assms(3) obtain w b ctrs ctrs' where r: "r = \<lparr>rt_tiers =
          [\<lparr>slot_ops = adapter into (left_ops (moka_ops m)), slot_state = Inl w, writable = True, slot_counters = ctrs\<rparr>,
           \<lparr>slot_ops = adapter into (right_ops t), slot_state = Inr b, writable = True, slot_counters = ctrs'\<rparr>],
          rt_policy = p\<rparr>" and b: "ivt t b" "con b = ref" and w: "cv (mk_cache w) \<subseteq>\<^sub>m ref"
    by (auto simp: moka_pair_def)
  note bl = bottom_laws [OF assms(2) b(1)]
  have "cv (mk_insert m (mk_cache w) k v) \<subseteq>\<^sub>m ref(k \<mapsto> v)"
    using documentedD(5) [OF assms(1)] map_le_upd [OF w] by (rule map_le_trans)
  moreover note defs = router_put_def write_through_def call_def bump_def upt_rec moka_calls
  ultimately show "fst (router_put r k v) = Ok []" "moka_pair m cv ivt con t into p (ref(k \<mapsto> v)) (snd (router_put r k v))"
    using assms(4) b bl by (auto simp: r defs moka_pair_def)
qed

lemma moka_pair_delete:
  assumes "moka_documented m cv" "lasting_tiers ivt (\<lambda>_. con) (\<lambda>_ _. True)" "moka_pair m cv ivt con t into p ref r"
  shows "fst (router_delete r k) = Ok (ref k \<noteq> None)" "moka_pair m cv ivt con t into p (ref(k := None)) (snd (router_delete r k))"
proof -
  from assms(3) obtain w b ctrs ctrs' where r: "r = \<lparr>rt_tiers =
          [\<lparr>slot_ops = adapter into (left_ops (moka_ops m)), slot_state = Inl w, writable = True, slot_counters = ctrs\<rparr>,
           \<lparr>slot_ops = adapter into (right_ops t), slot_state = Inr b, writable = True, slot_counters = ctrs'\<rparr>],
          rt_policy = p\<rparr>" and b: "ivt t b" "con b = ref" and w: "cv (mk_cache w) \<subseteq>\<^sub>m ref"
    by (auto simp: moka_pair_def)
  note bl = bottom_laws [OF assms(2) b(1)] and doc = documentedD [OF assms(1)]
  have "(cv (mk_cache w))(k := None) \<subseteq>\<^sub>m ref(k := None)" using w by (auto simp: map_le_def)
  then have "cv (snd (mk_remove m (mk_cache w) k)) \<subseteq>\<^sub>m ref(k := None)" using doc(7) map_le_trans by blast
  moreover have "ref k \<noteq> None" if "cv (mk_cache w) k \<noteq> None" using w that by (metis domI domIff map_le_def)
  moreover note defs = router_delete_def call_def bump_def upt_rec moka_calls doc(6)
  ultimately show "fst (router_delete r k) = Ok (ref k \<noteq> None)"
      "moka_pair m cv ivt con t into p (ref(k := None)) (snd (router_delete r k))"
    using b bl by (auto simp: r defs moka_pair_def)
qed

lemma moka_pair_new:
  assumes "moka_documented m cv" "ivt t b" "cv (mk_cache w) \<subseteq>\<^sub>m con b"
  shows "moka_pair m cv ivt con t into p (con b) (moka_router m t into p w b)"
  using assms by (simp add: moka_pair_def moka_router_def builder_build_def builder_policy_def builder_tier_def builder_new_def)

lemma moka_reachable_pair:
  assumes "moka_reachable m cv r0 m0 r ref" "moka_documented m cv" "lasting_tiers ivt (\<lambda>_. con) (\<lambda>_ _. True)"
    "moka_pair m cv ivt con t into p m0 r0" "pol_write p = WriteThrough"
  shows "moka_pair m cv ivt con t into p ref r"
  using assms(1)
proof (induction rule: moka_reachable.induct)
  case (lapse r ref upper lower w c)
  then show ?case unfolding moka_pair_def using map_le_trans [of "cv c" "cv (mk_cache w)"] by auto
next
  case (get r ref k a r')
  then show ?case using moka_pair_get [OF assms(2,3) get.IH get.hyps(2)] by simp
next
  case (put r ref k v)
  show ?case by (rule moka_pair_put(2) [OF assms(2,3) put.IH assms(5)])
next
  case (del r ref k)
  show ?case by (rule moka_pair_delete(2) [OF assms(2,3) del.IH])
qed (rule assms(4))

text \<open>
  C39. A lossy cache on top of a tier that loses nothing, in a write-through router: after any
  sequence of reads, puts and deletes, whatever entries the cache dropped in between, whatever the
  promotion policy, a read answers exactly what was stored last, a put evicts nothing and a delete
  tells whether the key was stored. The cache is only assumed to keep its documentation, the tier
  below to be reliable and never to displace.
\<close>

theorem moka_inclusive_exact:
  assumes "moka_documented m cv" "lasting_tiers ivt (\<lambda>_. con) (\<lambda>_ _. True)" "ivt t b" "pol_write p = WriteThrough"
    and "moka_reachable m cv (moka_router m t into p (moka_bounded m n) b) (con b) r ref"
  shows "(\<exists>r'. router_get r k = Some (Ok (ref k), r')) \<and> fst (router_put r k v) = Ok [] \<and>
    fst (router_delete r k) = Ok (ref k \<noteq> None)"
proof -
  have "cv (mk_cache (moka_bounded m n)) \<subseteq>\<^sub>m con b"
    using documentedD(1) [OF assms(1)] by (simp add: moka_bounded_def moka_new_def)
  from moka_pair_new [where con = con and cv = cv and b = b and w = "moka_bounded m n" and ivt = ivt and t = t, OF assms(1,3) this] have pair: "moka_pair m cv ivt con t into p ref r"
    by (rule moka_reachable_pair [OF assms(5,1,2) _ assms(4)])
  obtain a r' where g: "router_get r k = Some (a, r')" by (simp add: router_get_eq) (metis surj_pair)
  then have "a = Ok (ref k)" using moka_pair_get [OF assms(1,2) pair] by blast
  with g show ?thesis
    using moka_pair_put(1) [OF assms(1,2) pair assms(4)] moka_pair_delete(1) [OF assms(1,2) pair] by blast
qed


text \<open>A cache that keeps one entry.\<close>

definition tiny_view :: "(string \<times> u8 list) option \<Rightarrow> (string \<rightharpoonup> u8 list)" where
  "tiny_view c = (case c of None \<Rightarrow> Map.empty | Some (k, v) \<Rightarrow> [k \<mapsto> v])"

definition tiny_cache :: "((string \<times> u8 list) option, string, u8 list) moka_api" where
  "tiny_cache =
     \<lparr>mk_build = (\<lambda>_ _. None), mk_get = (\<lambda>c k. (tiny_view c k, c)), mk_contains_key = (\<lambda>c k. tiny_view c k \<noteq> None),
      mk_insert = (\<lambda>c k v. Some (k, v)),
      mk_remove = (\<lambda>c k. (tiny_view c k, if tiny_view c k = None then c else None))\<rparr>"

lemma tiny_documented: "moka_documented tiny_cache tiny_view"
  by (auto simp: moka_documented_def tiny_cache_def tiny_view_def map_le_def split: option.splits)

definition tiny_router :: "((string \<times> u8 list) option moka_tier + string remote_store, string, u8 list, string) router" where
  "tiny_router =
     moka_router tiny_cache (remote_ops :: (string remote_store, string, u8 list, string) tier_ops) id policy_default
       (moka_bounded tiny_cache 16) (remote_new 25)"

theorem moka_inclusive_exact_witness:
  "\<exists>r'. router_get (snd (router_put (snd (router_put tiny_router ''a'' [1])) ''b'' [2])) ''a'' = Some (Ok (Some [1]), r')"
proof -
  let ?r = "snd (router_put (snd (router_put tiny_router ''a'' [1])) ''b'' [2])"
  have reach: "moka_reachable tiny_cache tiny_view tiny_router (remote_con (remote_new 25)) ?r
      ((remote_con (remote_new 25))(''a'' \<mapsto> [1], ''b'' \<mapsto> [2]))"
    by (intro moka_reachable.put moka_reachable.start)
  from moka_inclusive_exact [OF tiny_documented remote.lasting_tiers_axioms _ _ reach [unfolded tiny_router_def],
      folded tiny_router_def, where k = "''a''"]
  have "\<exists>r'. router_get ?r ''a'' = Some (Ok (((remote_con (remote_new 25))(''a'' \<mapsto> [1], ''b'' \<mapsto> [2])) ''a''), r')"
    by (simp add: is_remote_def policy_default_def del: fun_upd_apply)
  then show ?thesis by simp
qed

end
