(* ===== verification/Disk_Race.thy ===== *)
theory Disk_Race
  imports Disk_Tier
begin

text \<open>
  \<open>tierstore/src/disk.rs\<close> under concurrent calls. The tier is shared by reference and takes no lock,
  so the calls of several tasks interleave between system calls. Here a name points to an inode and
  an open file is an inode: creating a file that exists truncates its inode, renaming moves a name,
  and a file that is open stays open under any name. A write may be cut into pieces, and every call
  may fail between two steps.

  The log of the commits (the renames and the removals, in their order) and the position of the log
  where a call began are kept for the statements; no step reads them.
\<close>

section \<open>Inodes and names\<close>

record race_fs =
  rf_names :: "(string, nat) fmap"
  rf_data :: "nat \<Rightarrow> u8 list"
  rf_next :: nat

definition race_file :: "race_fs \<Rightarrow> string \<Rightarrow> u8 list option" where
  "race_file fs name = map_option (rf_data fs) (fmlookup (rf_names fs) name)"

definition open_file :: "string \<Rightarrow> race_fs \<Rightarrow> (nat, io_error) result" where
  "open_file name fs = (case fmlookup (rf_names fs) name of Some i \<Rightarrow> Ok i | None \<Rightarrow> Err Not_Found)"

definition create_file :: "string \<Rightarrow> race_fs \<Rightarrow> nat \<times> race_fs" where
  "create_file name fs =
     (case fmlookup (rf_names fs) name of
        Some i \<Rightarrow> (i, fs\<lparr>rf_data := (rf_data fs)(i := [])\<rparr>)
      | None \<Rightarrow>
          (rf_next fs, fs\<lparr>rf_names := fmupd name (rf_next fs) (rf_names fs),
                          rf_data := (rf_data fs)(rf_next fs := []), rf_next := rf_next fs + 1\<rparr>))"

text \<open>A write past the end of the file leaves zeros in between.\<close>

definition put_bytes :: "nat \<Rightarrow> u8 list \<Rightarrow> u8 list \<Rightarrow> u8 list" where
  "put_bytes off bs old = take off old @ replicate (off - length old) 0 @ bs @ drop (off + length bs) old"

definition write_at :: "nat \<Rightarrow> nat \<Rightarrow> u8 list \<Rightarrow> race_fs \<Rightarrow> race_fs" where
  "write_at i off bs fs = fs\<lparr>rf_data := (rf_data fs)(i := put_bytes off bs (rf_data fs i))\<rparr>"

definition rename_file :: "string \<Rightarrow> string \<Rightarrow> race_fs \<Rightarrow> (unit, io_error) result \<times> race_fs" where
  "rename_file a b fs =
     (case fmlookup (rf_names fs) a of
        None \<Rightarrow> (Err Not_Found, fs)
      | Some i \<Rightarrow> (Ok (), fs\<lparr>rf_names := fmupd b i (fmdrop a (rf_names fs))\<rparr>))"

definition unlink_file :: "string \<Rightarrow> race_fs \<Rightarrow> (unit, io_error) result \<times> race_fs" where
  "unlink_file name fs =
     (case fmlookup (rf_names fs) name of
        None \<Rightarrow> (Err Not_Found, fs)
      | Some i \<Rightarrow> (Ok (), fs\<lparr>rf_names := fmdrop name (rf_names fs)\<rparr>))"

section \<open>Tasks\<close>

datatype disk_op = Op_Put string "u8 list" | Op_Get string | Op_Delete string

datatype disk_answer =
    Ans_Put "(unit, io_error) result"
  | Ans_Get "(u8 list option, io_error) result"
  | Ans_Delete "(bool, io_error) result"

text \<open>Where a call is: before the system call that the constructor names, or done.\<close>

datatype disk_task =
    Dt_Idle
  | Dt_Create string "u8 list"
  | Dt_Write string "u8 list" nat nat
  | Dt_Rename string "u8 list"
  | Dt_Open string
  | Dt_Read string nat "u8 list"
  | Dt_Unlink string
  | Dt_Done disk_op disk_answer

fun begin_op :: "disk_op \<Rightarrow> disk_task" where
  "begin_op (Op_Put k v) = Dt_Create k v"
| "begin_op (Op_Get k) = Dt_Open k"
| "begin_op (Op_Delete k) = Dt_Unlink k"

fun in_flight :: "disk_task \<Rightarrow> disk_op option" where
  "in_flight Dt_Idle = None"
| "in_flight (Dt_Create k v) = Some (Op_Put k v)"
| "in_flight (Dt_Write k v i off) = Some (Op_Put k v)"
| "in_flight (Dt_Rename k v) = Some (Op_Put k v)"
| "in_flight (Dt_Open k) = Some (Op_Get k)"
| "in_flight (Dt_Read k i acc) = Some (Op_Get k)"
| "in_flight (Dt_Unlink k) = Some (Op_Delete k)"
| "in_flight (Dt_Done c a) = None"

fun op_key :: "disk_op \<Rightarrow> string" where
  "op_key (Op_Put k v) = k"
| "op_key (Op_Get k) = k"
| "op_key (Op_Delete k) = k"

fun fault_answer :: "disk_op \<Rightarrow> string \<Rightarrow> disk_answer" where
  "fault_answer (Op_Put k v) m = Ans_Put (Err (Fault m))"
| "fault_answer (Op_Get k) m = Ans_Get (Err (Fault m))"
| "fault_answer (Op_Delete k) m = Ans_Delete (Err (Fault m))"

type_synonym commits = "(string \<times> u8 list option) list"

definition tmp_name :: "string \<Rightarrow> string" where
  "tmp_name k = path_for k @ ''.tmp''"

text \<open>One step of one task on the shared file system, and what it commits.\<close>

inductive task_step :: "race_fs \<times> disk_task \<Rightarrow> commits \<Rightarrow> race_fs \<times> disk_task \<Rightarrow> bool" where
  create: "create_file (tmp_name k) fs = (i, fs') \<Longrightarrow> task_step (fs, Dt_Create k v) [] (fs', Dt_Write k v i 0)"
| wrote: "0 < n \<Longrightarrow> off + n \<le> length v \<Longrightarrow>
     task_step (fs, Dt_Write k v i off) [] (write_at i off (take n (drop off v)) fs, Dt_Write k v i (off + n))"
| written: "off = length v \<Longrightarrow> task_step (fs, Dt_Write k v i off) [] (fs, Dt_Rename k v)"
| rename: "rename_file (tmp_name k) (path_for k) fs = (Ok u, fs') \<Longrightarrow>
     task_step (fs, Dt_Rename k v) [(k, Some v)] (fs', Dt_Done (Op_Put k v) (Ans_Put (Ok ())))"
| rename_fails: "rename_file (tmp_name k) (path_for k) fs = (Err e, fs') \<Longrightarrow>
     task_step (fs, Dt_Rename k v) [] (fs', Dt_Done (Op_Put k v) (Ans_Put (Err e)))"
| opened: "open_file (path_for k) fs = Ok i \<Longrightarrow> task_step (fs, Dt_Open k) [] (fs, Dt_Read k i [])"
| absent: "open_file (path_for k) fs = Err Not_Found \<Longrightarrow>
     task_step (fs, Dt_Open k) [] (fs, Dt_Done (Op_Get k) (Ans_Get (Ok None)))"
| read: "0 < n \<Longrightarrow> length acc + n \<le> length (rf_data fs i) \<Longrightarrow>
     task_step (fs, Dt_Read k i acc) [] (fs, Dt_Read k i (acc @ take n (drop (length acc) (rf_data fs i))))"
| eof: "length (rf_data fs i) \<le> length acc \<Longrightarrow>
     task_step (fs, Dt_Read k i acc) [] (fs, Dt_Done (Op_Get k) (Ans_Get (Ok (Some acc))))"
| unlinked: "unlink_file (path_for k) fs = (Ok u, fs') \<Longrightarrow>
     task_step (fs, Dt_Unlink k) [(k, None)] (fs', Dt_Done (Op_Delete k) (Ans_Delete (Ok True)))"
| gone: "unlink_file (path_for k) fs = (Err Not_Found, fs') \<Longrightarrow>
     task_step (fs, Dt_Unlink k) [] (fs', Dt_Done (Op_Delete k) (Ans_Delete (Ok False)))"
| fault: "in_flight t = Some c \<Longrightarrow> task_step (fs, t) [] (fs, Dt_Done c (fault_answer c m))"

record race =
  rc_fs :: race_fs
  rc_tasks :: "(nat \<times> disk_task) list"
  rc_log :: commits

definition putting :: "race \<Rightarrow> string \<Rightarrow> bool" where
  "putting p k \<longleftrightarrow> (\<exists>t \<in> set (rc_tasks p). \<exists>v. in_flight (snd t) = Some (Op_Put k v))"

text \<open>With \<open>excl\<close>, the callers never have two puts of one key under way at the same time.\<close>

inductive race_step :: "bool \<Rightarrow> race \<Rightarrow> race \<Rightarrow> bool" for excl where
  act: "i < length (rc_tasks p) \<Longrightarrow> rc_tasks p ! i = (n, t) \<Longrightarrow> task_step (rc_fs p, t) cs (fs', t') \<Longrightarrow>
     race_step excl p (p\<lparr>rc_fs := fs', rc_tasks := (rc_tasks p)[i := (n, t')], rc_log := rc_log p @ cs\<rparr>)"
| start: "i < length (rc_tasks p) \<Longrightarrow> in_flight (snd (rc_tasks p ! i)) = None \<Longrightarrow> op_key c \<noteq> [] \<Longrightarrow>
     (excl \<longrightarrow> (\<forall>k v. c = Op_Put k v \<longrightarrow> \<not> putting p k)) \<Longrightarrow>
     race_step excl p (p\<lparr>rc_tasks := (rc_tasks p)[i := (length (rc_log p), begin_op c)]\<rparr>)"

definition race_new :: "nat \<Rightarrow> race" where
  "race_new tasks =
     \<lparr>rc_fs = \<lparr>rf_names = fmempty, rf_data = (\<lambda>_. []), rf_next = 0\<rparr>,
      rc_tasks = replicate tasks (0, Dt_Idle), rc_log = []\<rparr>"

inductive race_reachable :: "bool \<Rightarrow> nat \<Rightarrow> race \<Rightarrow> bool" for excl tasks where
  new: "race_reachable excl tasks (race_new tasks)"
| step: "race_reachable excl tasks p \<Longrightarrow> race_step excl p q \<Longrightarrow> race_reachable excl tasks q"

section \<open>Linearizability\<close>

text \<open>What the tier holds after a sequence of commits.\<close>

definition committed :: "commits \<Rightarrow> string \<Rightarrow> u8 list option" where
  "committed log = fold (\<lambda>(k, x) m. m(k := x)) log (\<lambda>_. None)"

text \<open>An answer is explained by a position of the log: the call takes effect there.\<close>

fun explains :: "commits \<Rightarrow> nat \<Rightarrow> disk_op \<Rightarrow> disk_answer \<Rightarrow> bool" where
  "explains log m (Op_Put k v) (Ans_Put (Inr _)) \<longleftrightarrow> m < length log \<and> log ! m = (k, Some v)"
| "explains log m (Op_Get k) (Ans_Get (Inr x)) \<longleftrightarrow> m \<le> length log \<and> committed (take m log) k = x"
| "explains log m (Op_Delete k) (Ans_Delete (Inr True)) \<longleftrightarrow>
     m < length log \<and> log ! m = (k, None) \<and> committed (take m log) k \<noteq> None"
| "explains log m (Op_Delete k) (Ans_Delete (Inr False)) \<longleftrightarrow> m \<le> length log \<and> committed (take m log) k = None"
| "explains log m c a \<longleftrightarrow> (\<exists>msg. a = fault_answer c msg)"

lemma committed_snoc [simp]: "committed (log @ [(k, x)]) = (committed log)(k := x)"
  by (simp add: committed_def)

lemma committed_Nil [simp]: "committed [] = (\<lambda>_. None)"
  by (simp add: committed_def)

lemma explains_append: "explains log m c a \<Longrightarrow> explains (log @ cs) m c a"
  by (induction log m c a rule: explains.induct) (auto simp: nth_append)

text \<open>What every task knows about the file system, given where it began.\<close>

fun task_inv :: "race_fs \<Rightarrow> commits \<Rightarrow> nat \<Rightarrow> disk_task \<Rightarrow> bool" where
  "task_inv fs log n (Dt_Write k v i off) \<longleftrightarrow>
     fmlookup (rf_names fs) (tmp_name k) = Some i \<and> off \<le> length v \<and> rf_data fs i = take off v"
| "task_inv fs log n (Dt_Rename k v) \<longleftrightarrow> race_file fs (tmp_name k) = Some v"
| "task_inv fs log n (Dt_Read k i acc) \<longleftrightarrow>
     i < rf_next fs \<and> (\<forall>j. fmlookup (rf_names fs) (tmp_name j) \<noteq> Some i) \<and>
     acc = take (length acc) (rf_data fs i) \<and>
     (\<exists>m. n \<le> m \<and> explains log m (Op_Get k) (Ans_Get (Ok (Some (rf_data fs i)))))"
| "task_inv fs log n (Dt_Done c a) \<longleftrightarrow> (\<exists>m. n \<le> m \<and> explains log m c a)"
| "task_inv fs log n t \<longleftrightarrow> True"

definition fs_inv :: "race_fs \<Rightarrow> commits \<Rightarrow> bool" where
  "fs_inv fs log \<longleftrightarrow>
     (\<forall>a i. fmlookup (rf_names fs) a = Some i \<longrightarrow> i < rf_next fs) \<and>
     (\<forall>a b i. fmlookup (rf_names fs) a = Some i \<longrightarrow> fmlookup (rf_names fs) b = Some i \<longrightarrow> a = b) \<and>
     (\<forall>k. k \<noteq> [] \<longrightarrow> race_file fs (path_for k) = committed log k)"

definition race_inv :: "race \<Rightarrow> bool" where
  "race_inv p \<longleftrightarrow> fs_inv (rc_fs p) (rc_log p) \<and>
     (\<forall>i < length (rc_tasks p). task_inv (rc_fs p) (rc_log p) (fst (rc_tasks p ! i)) (snd (rc_tasks p ! i)) \<and>
        fst (rc_tasks p ! i) \<le> length (rc_log p) \<and>
        (\<forall>c. in_flight (snd (rc_tasks p ! i)) = Some c \<longrightarrow> op_key c \<noteq> [])) \<and>
     (\<forall>i j k v w. i < length (rc_tasks p) \<longrightarrow> j < length (rc_tasks p) \<longrightarrow>
        in_flight (snd (rc_tasks p ! i)) = Some (Op_Put k v) \<longrightarrow>
        in_flight (snd (rc_tasks p ! j)) = Some (Op_Put k w) \<longrightarrow> i = j)"


section \<open>The invariant\<close>

lemma tmp_name_simps [simp]: "tmp_name j = tmp_name k \<longleftrightarrow> j = k" "tmp_name j \<noteq> path_for k" "path_for k \<noteq> tmp_name j"
  by (simp_all add: tmp_name_def)

lemma fs_invD:
  assumes "fs_inv fs log"
  shows "fmlookup (rf_names fs) a = Some i \<Longrightarrow> i < rf_next fs"
    "fmlookup (rf_names fs) a = Some i \<Longrightarrow> fmlookup (rf_names fs) b = Some i \<Longrightarrow> a = b"
    "k \<noteq> [] \<Longrightarrow> race_file fs (path_for k) = committed log k"
  using assms by (auto simp: fs_inv_def)

text \<open>The calls that change the file system, as updates of its fields.\<close>

lemma create_file_effect:
  assumes "fs_inv fs log" "create_file (tmp_name k) fs = (i, fs')"
  shows "fmlookup (rf_names fs') = (fmlookup (rf_names fs))(tmp_name k \<mapsto> i)" "rf_data fs' = (rf_data fs)(i := [])"
    "rf_next fs \<le> rf_next fs'" "i < rf_next fs'" "i = rf_next fs \<or> fmlookup (rf_names fs) (tmp_name k) = Some i"
    "\<And>b. fmlookup (rf_names fs) b = Some i \<Longrightarrow> b = tmp_name k"
  using assms fs_invD(1,2) [OF assms(1)]
  by (fastforce simp: create_file_def split: option.splits)+

lemma create_file_inv:
  assumes "fs_inv fs log" "create_file (tmp_name k) fs = (i, fs')"
  shows "fs_inv fs' log"
proof -
  note eff = create_file_effect [OF assms] and iv = fs_invD [OF assms(1)]
  have "fmlookup (rf_names fs) (path_for j) \<noteq> Some i" for j using eff(6) [of "path_for j"] by auto
  then have "race_file fs' (path_for j) = race_file fs (path_for j)" for j
    by (cases "fmlookup (rf_names fs) (path_for j)") (auto simp: race_file_def eff)
  moreover have "j < rf_next fs'" if "fmlookup (rf_names fs') a = Some j" for a j
    using that eff(3,4) iv(1) [of a j] by (auto simp: eff(1) split: if_splits)
  moreover have "a = b" if "fmlookup (rf_names fs') a = Some j" "fmlookup (rf_names fs') b = Some j" for a b j
    using that eff(6) [of a] eff(6) [of b] iv(2) [of a j b] by (auto simp: eff(1) split: if_splits)
  ultimately show ?thesis using iv(3) by (simp add: fs_inv_def)
qed

lemma write_at_inv:
  assumes "fs_inv fs log" "fmlookup (rf_names fs) (tmp_name k) = Some i"
  shows "fs_inv (write_at i off bs fs) log"
proof -
  have "fmlookup (rf_names fs) (path_for j) \<noteq> Some i" for j
    using fs_invD(2) [OF assms(1,2), of "path_for j"] by auto
  then have "race_file (write_at i off bs fs) (path_for j) = race_file fs (path_for j)" for j
    by (cases "fmlookup (rf_names fs) (path_for j)") (auto simp: race_file_def write_at_def)
  then show ?thesis using assms(1) by (simp add: fs_inv_def) (simp add: write_at_def)
qed

lemma put_bytes_append: "off \<le> length v \<Longrightarrow> put_bytes off (take n (drop off v)) (take off v) = take (off + n) v"
  by (simp add: put_bytes_def take_add)

lemma rename_file_inv:
  assumes "fs_inv fs log" "race_file fs (tmp_name k) = Some v" "rename_file (tmp_name k) (path_for k) fs = (Ok u, fs')"
  shows "fs_inv fs' (log @ [(k, Some v)])"
proof -
  note iv = fs_invD [OF assms(1)]
  from assms(2) obtain i where i: "fmlookup (rf_names fs) (tmp_name k) = Some i" "rf_data fs i = v"
    by (auto simp: race_file_def)
  then have fs': "fs' = fs\<lparr>rf_names := fmupd (path_for k) i (fmdrop (tmp_name k) (rf_names fs))\<rparr>"
    using assms(3) by (simp add: rename_file_def)
  have "race_file fs' (path_for j) = committed (log @ [(k, Some v)]) j" if "j \<noteq> []" for j
    using iv(3) [OF that] i by (auto simp: fs' race_file_def)
  moreover have names: "a = path_for k \<and> j = i \<or> a \<noteq> path_for k \<and> j \<noteq> i \<and> fmlookup (rf_names fs) a = Some j"
    if "fmlookup (rf_names fs') a = Some j" for a j
    using that iv(2) [OF i(1), of a] by (simp add: fs' split: if_splits) blast
  then have "a = b" if "fmlookup (rf_names fs') a = Some j" "fmlookup (rf_names fs') b = Some j" for a b j
    using that iv(2) by metis
  moreover have "j < rf_next fs'" if "fmlookup (rf_names fs') a = Some j" for a j
    using names [OF that] iv(1) [OF i(1)] iv(1) [of a j] by (auto simp: fs')
  ultimately show ?thesis by (simp add: fs_inv_def)
qed

lemma unlink_file_inv:
  assumes "fs_inv fs log" "unlink_file (path_for k) fs = (Ok u, fs')"
  shows "fs_inv fs' (log @ [(k, None)])"
proof -
  note iv = fs_invD [OF assms(1)]
  have fs': "fs' = fs\<lparr>rf_names := fmdrop (path_for k) (rf_names fs)\<rparr>"
    using assms(2) by (auto simp: unlink_file_def split: option.splits)
  have "race_file fs' (path_for j) = committed (log @ [(k, None)]) j" if "j \<noteq> []" for j
    using iv(3) [OF that] by (auto simp: fs' race_file_def)
  then show ?thesis using iv(1,2) by (simp add: fs_inv_def fs' split: if_splits)
qed

lemma race_file_rename:
  assumes "rename_file (tmp_name k) (path_for k) fs = (r, fs')"
  shows "rf_data fs' = rf_data fs" "rf_next fs' = rf_next fs"
    "j \<noteq> k \<Longrightarrow> fmlookup (rf_names fs') (tmp_name j) = fmlookup (rf_names fs) (tmp_name j)"
    "fmlookup (rf_names fs') (tmp_name j) = Some i \<Longrightarrow> fmlookup (rf_names fs) (tmp_name j) = Some i"
  using assms by (auto simp: rename_file_def split: option.splits if_splits)

lemma race_file_unlink:
  assumes "unlink_file (path_for k) fs = (r, fs')"
  shows "rf_data fs' = rf_data fs" "rf_next fs' = rf_next fs"
    "fmlookup (rf_names fs') (tmp_name j) = fmlookup (rf_names fs) (tmp_name j)"
  using assms by (auto simp: unlink_file_def split: option.splits if_splits)

lemma in_flight_op: "task_step (fs, t) cs (fs', t') \<Longrightarrow> (\<exists>c. in_flight t = Some c) \<and> (in_flight t' = None \<or> in_flight t' = in_flight t)"
  by (erule task_step.cases) auto

text \<open>A step keeps what its own task knows.\<close>

lemma own_step:
  assumes "task_step (fs, t) cs (fs', t')" "fs_inv fs log" "task_inv fs log n t" "n \<le> length log"
    "\<And>c. in_flight t = Some c \<Longrightarrow> op_key c \<noteq> []"
  shows "fs_inv fs' (log @ cs) \<and> task_inv fs' (log @ cs) n t'"
  using assms(1)
proof cases
  case (create k i v)
  then show ?thesis using create_file_inv [OF assms(2)] create_file_effect [OF assms(2)] by simp
next
  case (wrote m off v k i)
  then have i: "fmlookup (rf_names fs) (tmp_name k) = Some i" "off \<le> length v" "rf_data fs i = take off v"
    using assms(3) by auto
  then show ?thesis using wrote write_at_inv [OF assms(2) i(1)]
    by (simp add: put_bytes_append) (simp add: write_at_def put_bytes_append)
next
  case (written off v k i)
  then show ?thesis using assms(2,3) by (simp add: race_file_def)
next
  case (rename k u v)
  then have "fs_inv fs' (log @ [(k, Some v)])" using rename_file_inv [OF assms(2)] assms(3) by simp
  then show ?thesis using rename assms(4) by (auto intro: exI [of _ "length log"])
next
  case (rename_fails k e v)
  then show ?thesis using assms(3) by (auto simp: rename_file_def race_file_def split: option.splits)
next
  case (opened k i)
  then have "k \<noteq> []" using assms(5) by simp
  with opened have i: "fmlookup (rf_names fs) (path_for k) = Some i" "committed log k = Some (rf_data fs i)"
    using fs_invD(3) [OF assms(2), of k] by (auto simp: open_file_def race_file_def split: option.splits)
  moreover have "fmlookup (rf_names fs) (tmp_name j) \<noteq> Some i" for j
    using fs_invD(2) [OF assms(2) i(1), of "tmp_name j"] by auto
  ultimately show ?thesis using opened assms(2,4) fs_invD(1) [OF assms(2)] by (auto intro: exI [of _ "length log"])
next
  case (absent k)
  then have "k \<noteq> []" using assms(5) by simp
  with absent have "committed log k = None"
    using fs_invD(3) [OF assms(2), of k] by (auto simp: open_file_def race_file_def split: option.splits)
  then show ?thesis using absent assms(2,4) by (auto intro: exI [of _ "length log"])
next
  case (read m acc i k)
  have "acc @ take m (drop (length acc) d) = take (length acc + m) d" if "acc = take (length acc) d" for d
    using that by (metis take_add)
  then show ?thesis using read assms(2,3) by auto
next
  case (eof i acc k)
  then show ?thesis using assms(2,3) by auto
next
  case (unlinked k u)
  then have "k \<noteq> []" using assms(5) by simp
  with unlinked have "committed log k \<noteq> None"
    using fs_invD(3) [OF assms(2), of k] by (cases "committed log k") (auto simp: unlink_file_def race_file_def split: option.splits)
  moreover have "fs_inv fs' (log @ [(k, None)])" using unlink_file_inv [OF assms(2) unlinked(4)] .
  ultimately have "committed log k \<noteq> None" "fs_inv fs' (log @ [(k, None)])" .
  then show ?thesis using unlinked assms(4) by (auto intro: exI [of _ "length log"])
next
  case (gone k)
  then have "k \<noteq> []" using assms(5) by simp
  with gone have "committed log k = None" "fs' = fs"
    using fs_invD(3) [OF assms(2), of k] by (auto simp: unlink_file_def race_file_def split: option.splits)
  then show ?thesis using gone assms(2,4) by (auto intro: exI [of _ "length log"])
next
  case (fault c m)
  have "explains log n c (fault_answer c m)" by (cases c) auto
  then show ?thesis using fault assms(2) by auto
qed


text \<open>
  What a step leaves alone: an inode that no temporary name reaches, and the temporary file of a
  key, unless the step is one of a put of this key.
\<close>

definition unreached :: "race_fs \<Rightarrow> nat \<Rightarrow> bool" where
  "unreached fs i \<longleftrightarrow> i < rf_next fs \<and> (\<forall>j. fmlookup (rf_names fs) (tmp_name j) \<noteq> Some i)"

definition spares :: "(string \<Rightarrow> bool) \<Rightarrow> race_fs \<Rightarrow> race_fs \<Rightarrow> bool" where
  "spares own fs fs' \<longleftrightarrow>
     (\<forall>i. unreached fs i \<longrightarrow> unreached fs' i \<and> rf_data fs' i = rf_data fs i) \<and>
     (\<forall>k i. fmlookup (rf_names fs) (tmp_name k) = Some i \<longrightarrow> \<not> own k \<longrightarrow>
        fmlookup (rf_names fs') (tmp_name k) = Some i \<and> rf_data fs' i = rf_data fs i)"

lemma spares_refl [simp]: "spares own fs fs"
  by (simp add: spares_def)

lemma sparesD:
  assumes "spares own fs fs'"
  shows "unreached fs i \<Longrightarrow> unreached fs' i" "unreached fs i \<Longrightarrow> rf_data fs' i = rf_data fs i"
    "fmlookup (rf_names fs) (tmp_name k) = Some i \<Longrightarrow> \<not> own k \<Longrightarrow>
       fmlookup (rf_names fs') (tmp_name k) = Some i \<and> rf_data fs' i = rf_data fs i"
  using assms by (auto simp: spares_def)

lemma step_spares:
  assumes "task_step (fs, t) cs (fs', t')" "fs_inv fs log" "task_inv fs log m t"
  shows "spares (\<lambda>k. \<exists>v. in_flight t = Some (Op_Put k v)) fs fs'"
  using assms(1)
proof cases
  case (create l j v)
  note eff = create_file_effect [OF assms(2) create(4)]
  have "j \<noteq> i" if "fmlookup (rf_names fs) (tmp_name k) = Some i" "k \<noteq> l" for k i using that eff(6) by fastforce
  moreover have "unreached fs' i \<and> j \<noteq> i" if "unreached fs i" for i
    using that eff(3,5) by (auto simp: unreached_def eff(1))
  ultimately show ?thesis using create(1) by (auto simp: spares_def eff(1,2))
next
  case (wrote n off v l j)
  then have j: "fmlookup (rf_names fs) (tmp_name l) = Some j" using assms(3) by simp
  have "j \<noteq> i" if "fmlookup (rf_names fs) (tmp_name k) = Some i" "k \<noteq> l" for k i
    using that fs_invD(2) [OF assms(2) j, of "tmp_name k"] by auto
  moreover have "j \<noteq> i" if "unreached fs i" for i using that j by (auto simp: unreached_def)
  ultimately show ?thesis using wrote by (auto simp: spares_def unreached_def write_at_def)
next
  case (rename l u v)
  then show ?thesis using race_file_rename [OF rename(4)] by (auto simp: spares_def unreached_def)
next
  case (rename_fails l e v)
  then show ?thesis using race_file_rename [OF rename_fails(4)] by (auto simp: spares_def unreached_def)
next
  case (unlinked l u)
  then show ?thesis using race_file_unlink [OF unlinked(4)] by (auto simp: spares_def unreached_def)
next
  case (gone l)
  then show ?thesis using race_file_unlink [OF gone(4)] by (auto simp: spares_def unreached_def)
qed simp_all

text \<open>A step keeps what another task knows, unless both put the same key.\<close>

lemma other_step:
  assumes "task_step (fs, t) cs (fs', t')" "fs_inv fs log" "task_inv fs log n u" "task_inv fs log m t"
    "\<And>k v w. in_flight t = Some (Op_Put k v) \<Longrightarrow> in_flight u \<noteq> Some (Op_Put k w)"
  shows "task_inv fs' (log @ cs) n u"
proof -
  note sp = sparesD [OF step_spares [OF assms(1,2,4)]]
  show ?thesis
  proof (cases u)
    case (Dt_Write k v i off)
    then show ?thesis using assms(3,5) sp(3) [of k i] by auto
  next
    case (Dt_Rename k v)
    then obtain i where "fmlookup (rf_names fs) (tmp_name k) = Some i" "rf_data fs i = v"
      using assms(3) by (auto simp: race_file_def)
    then show ?thesis using Dt_Rename assms(5) sp(3) [of k i] by (auto simp: race_file_def)
  next
    case (Dt_Read k i acc)
    then have "unreached fs i" using assms(3) by (simp add: unreached_def)
    then show ?thesis using Dt_Read assms(3) sp(1,2) [of i] explains_append [of log _ "Op_Get k"]
      by (fastforce simp: unreached_def simp del: explains.simps)
  next
    case (Dt_Done c a)
    then show ?thesis using assms(3) explains_append by fastforce
  qed simp_all
qed

text \<open>Every step keeps the invariant, if puts of one key exclude each other.\<close>

lemma race_inv_new: "race_inv (race_new tasks)"
  by (auto simp: race_inv_def race_new_def fs_inv_def race_file_def)

lemma race_act_inv:
  assumes p: "race_inv p" and i: "i < length (rc_tasks p)" "rc_tasks p ! i = (n, t)"
    and step: "task_step (rc_fs p, t) cs (fs', t')"
  shows "race_inv (p\<lparr>rc_fs := fs', rc_tasks := (rc_tasks p)[i := (n, t')], rc_log := rc_log p @ cs\<rparr>)"
proof -
  have fs: "fs_inv (rc_fs p) (rc_log p)" using p by (simp add: race_inv_def)
  have task: "task_inv (rc_fs p) (rc_log p) (fst (rc_tasks p ! j)) (snd (rc_tasks p ! j))"
    "fst (rc_tasks p ! j) \<le> length (rc_log p)" "\<And>c. in_flight (snd (rc_tasks p ! j)) = Some c \<Longrightarrow> op_key c \<noteq> []"
    if "j < length (rc_tasks p)" for j
    using p that by (simp_all add: race_inv_def)
  have excl: "j = l" if "j < length (rc_tasks p)" "l < length (rc_tasks p)"
    "in_flight (snd (rc_tasks p ! j)) = Some (Op_Put k v)" "in_flight (snd (rc_tasks p ! l)) = Some (Op_Put k w)" for j l k v w
    using p that by (auto simp: race_inv_def)
  note own = own_step [OF step fs, of n] and t = task [OF i(1), unfolded i(2) fst_conv snd_conv]
  have own: "fs_inv fs' (rc_log p @ cs)" "task_inv fs' (rc_log p @ cs) n t'" using own t by auto
  have other: "task_inv fs' (rc_log p @ cs) (fst (rc_tasks p ! j)) (snd (rc_tasks p ! j))"
    if "j < length (rc_tasks p)" "j \<noteq> i" for j
    using that excl [OF i(1) that(1)] i(2) by (intro other_step [OF step fs task(1) t(1)]) auto
  note fl = in_flight_op [OF step]
  show ?thesis
    using own other task i t fl excl by (auto simp: race_inv_def nth_list_update trans_le_add1)
qed

lemma race_start_inv:
  assumes "race_inv p" "i < length (rc_tasks p)" "in_flight (snd (rc_tasks p ! i)) = None" "op_key c \<noteq> []"
    "\<And>k v. c = Op_Put k v \<Longrightarrow> \<not> putting p k"
  shows "race_inv (p\<lparr>rc_tasks := (rc_tasks p)[i := (length (rc_log p), begin_op c)]\<rparr>)"
proof -
  have fresh: "in_flight (begin_op c) = Some c" "task_inv fs log n (begin_op c)" for fs log n by (cases c; simp)+
  have "in_flight (snd (rc_tasks p ! j)) \<noteq> Some (Op_Put k w)" if "c = Op_Put k v" "j < length (rc_tasks p)" for j k v w
    using assms(5) [OF that(1)] nth_mem [OF that(2)] by (auto simp: putting_def)
  then show ?thesis using assms(1-4) fresh by (auto simp: race_inv_def nth_list_update)
qed

lemma race_reachable_inv: "race_reachable True tasks p \<Longrightarrow> race_inv p"
proof (induction rule: race_reachable.induct)
  case (step p q)
  from step(2) show ?case
  proof cases
    case (act i n t cs fs' t')
    then show ?thesis using race_act_inv [OF step(3)] by simp
  next
    case (start i c)
    then show ?thesis using race_start_inv [OF step(3)] by simp
  qed
qed (rule race_inv_new)


section \<open>Schedules\<close>

text \<open>
  A run by a schedule: which task begins a call or makes its next step, and how many bytes the next
  read or write gets through.
\<close>

fun next_step :: "nat \<Rightarrow> race_fs \<Rightarrow> disk_task \<Rightarrow> (commits \<times> race_fs \<times> disk_task) option" where
  "next_step n fs (Dt_Create k v) = (let (i, fs') = create_file (tmp_name k) fs in Some ([], fs', Dt_Write k v i 0))"
| "next_step n fs (Dt_Write k v i off) =
     (if off = length v then Some ([], fs, Dt_Rename k v)
      else if 0 < n \<and> off + n \<le> length v then Some ([], write_at i off (take n (drop off v)) fs, Dt_Write k v i (off + n))
      else None)"
| "next_step n fs (Dt_Rename k v) =
     (case rename_file (tmp_name k) (path_for k) fs of
        (Ok _, fs') \<Rightarrow> Some ([(k, Some v)], fs', Dt_Done (Op_Put k v) (Ans_Put (Ok ())))
      | (Err e, fs') \<Rightarrow> Some ([], fs', Dt_Done (Op_Put k v) (Ans_Put (Err e))))"
| "next_step n fs (Dt_Open k) =
     (case open_file (path_for k) fs of
        Ok i \<Rightarrow> Some ([], fs, Dt_Read k i [])
      | Err e \<Rightarrow> if e = Not_Found then Some ([], fs, Dt_Done (Op_Get k) (Ans_Get (Ok None))) else None)"
| "next_step n fs (Dt_Read k i acc) =
     (if length (rf_data fs i) \<le> length acc then Some ([], fs, Dt_Done (Op_Get k) (Ans_Get (Ok (Some acc))))
      else if 0 < n \<and> length acc + n \<le> length (rf_data fs i)
      then Some ([], fs, Dt_Read k i (acc @ take n (drop (length acc) (rf_data fs i)))) else None)"
| "next_step n fs (Dt_Unlink k) =
     (case unlink_file (path_for k) fs of
        (Ok _, fs') \<Rightarrow> Some ([(k, None)], fs', Dt_Done (Op_Delete k) (Ans_Delete (Ok True)))
      | (Err e, fs') \<Rightarrow> if e = Not_Found then Some ([], fs', Dt_Done (Op_Delete k) (Ans_Delete (Ok False))) else None)"
| "next_step n fs t = None"

lemma next_step_sound: "next_step n fs t = Some (cs, fs', t') \<Longrightarrow> task_step (fs, t) cs (fs', t')"
  by (cases t) (auto split: if_splits prod.splits sum.splits intro: task_step.intros)

datatype turn = Begin nat disk_op | Turn nat nat

fun run_turn :: "bool \<Rightarrow> turn \<Rightarrow> race \<Rightarrow> race option" where
  "run_turn excl (Begin i c) p =
     (if i < length (rc_tasks p) \<and> in_flight (snd (rc_tasks p ! i)) = None \<and> op_key c \<noteq> [] \<and>
         (excl \<longrightarrow> (case c of Op_Put k _ \<Rightarrow>
             list_all (\<lambda>t. case in_flight (snd t) of Some (Op_Put j _) \<Rightarrow> j \<noteq> k | _ \<Rightarrow> True) (rc_tasks p) | _ \<Rightarrow> True))
      then Some (p\<lparr>rc_tasks := (rc_tasks p)[i := (length (rc_log p), begin_op c)]\<rparr>) else None)"
| "run_turn excl (Turn i n) p =
     (if i < length (rc_tasks p)
      then (case next_step n (rc_fs p) (snd (rc_tasks p ! i)) of
              None \<Rightarrow> None
            | Some (cs, fs', t') \<Rightarrow>
                Some (p\<lparr>rc_fs := fs', rc_tasks := (rc_tasks p)[i := (fst (rc_tasks p ! i), t')], rc_log := rc_log p @ cs\<rparr>))
      else None)"

fun run_schedule :: "bool \<Rightarrow> turn list \<Rightarrow> race \<Rightarrow> race option" where
  "run_schedule excl [] p = Some p"
| "run_schedule excl (u # us) p = (case run_turn excl u p of None \<Rightarrow> None | Some q \<Rightarrow> run_schedule excl us q)"

lemma run_turn_sound: "run_turn excl u p = Some q \<Longrightarrow> race_step excl p q"
proof (induction excl u p rule: run_turn.induct)
  case (1 excl i c p)
  then show ?case
    by (auto split: if_splits simp: putting_def list_all_iff intro!: race_step.start) fastforce+
next
  case (2 excl i n p)
  obtain m t where t: "rc_tasks p ! i = (m, t)" by fastforce
  with 2 show ?case
    by (auto split: if_splits option.splits intro!: race_step.act [OF _ t] next_step_sound)
qed

lemma run_schedule_sound:
  "race_reachable excl tasks p \<Longrightarrow> run_schedule excl us p = Some q \<Longrightarrow> race_reachable excl tasks q"
  by (induction us arbitrary: p)
     (auto split: option.splits dest!: run_turn_sound intro: race_reachable.step)

section \<open>Properties\<close>

text \<open>
  C19. Calls of many tasks, interleaved between any two system calls, with reads and writes cut into
  pieces and with failures anywhere, are linearizable as long as no two puts of one key are under
  way at once: at every moment the file of a key holds a complete value, the one that was committed
  last, and every answer that is not an input or output error is right for a moment between the
  beginning and the end of its call.
\<close>

theorem disk_calls_linearizable:
  assumes "race_reachable True tasks p"
  shows "(\<forall>k. k \<noteq> [] \<longrightarrow> race_file (rc_fs p) (path_for k) = committed (rc_log p) k) \<and>
    (\<forall>n c a. (n, Dt_Done c a) \<in> set (rc_tasks p) \<longrightarrow> (\<exists>m. n \<le> m \<and> explains (rc_log p) m c a))"
  using race_reachable_inv [OF assms]
  by (fastforce simp: race_inv_def fs_inv_def in_set_conv_nth)

theorem disk_calls_linearizable_witness:
  "\<exists>p. run_schedule True
         [Begin 0 (Op_Put ''k'' [7, 8]), Turn 0 0, Turn 0 1, Begin 1 (Op_Get ''k''), Turn 0 1, Turn 0 0, Turn 0 0,
          Turn 1 0, Turn 1 1, Turn 1 1, Turn 1 0] (race_new 2) = Some p \<and>
       rc_tasks p = [(0, Dt_Done (Op_Put ''k'' [7, 8]) (Ans_Put (Ok ()))), (0, Dt_Done (Op_Get ''k'') (Ans_Get (Ok (Some [7, 8]))))] \<and>
       race_file (rc_fs p) (path_for ''k'') = Some [7, 8]"
proof -
  let ?us = "[Begin 0 (Op_Put ''k'' [7, 8]), Turn 0 0, Turn 0 1, Begin 1 (Op_Get ''k''), Turn 0 1, Turn 0 0, Turn 0 0,
     Turn 1 0, Turn 1 1, Turn 1 1, Turn 1 0]"
  have "\<exists>p. run_schedule True ?us (race_new 2) = Some p \<and>
    rc_tasks p = [(0, Dt_Done (Op_Put ''k'' [7, 8]) (Ans_Put (Ok ()))), (0, Dt_Done (Op_Get ''k'') (Ans_Get (Ok (Some [7, 8]))))] \<and>
    rc_log p = [(''k'', Some [7, 8])]"
    by (simp add: race_new_def eval_nat_numeral create_file_def write_at_def put_bytes_def rename_file_def open_file_def)
  then obtain p where p: "run_schedule True ?us (race_new 2) = Some p"
    "rc_tasks p = [(0, Dt_Done (Op_Put ''k'' [7, 8]) (Ans_Put (Ok ()))), (0, Dt_Done (Op_Get ''k'') (Ans_Get (Ok (Some [7, 8]))))]"
    "rc_log p = [(''k'', Some [7, 8])]" by blast
  from disk_calls_linearizable [OF run_schedule_sound [OF race_reachable.new p(1)]]
  have "race_file (rc_fs p) (path_for ''k'') = committed (rc_log p) ''k''" by simp
  with p show ?thesis by (simp add: committed_def)
qed

lemma tearing_run:
  assumes "k \<noteq> []" "v \<noteq> []" "x \<noteq> []" "y \<noteq> []"
  shows "\<exists>p. race_reachable False 3 p \<and> map snd (rc_tasks p) =
       [Dt_Done (Op_Put k v) (Ans_Put (Ok ())), Dt_Done (Op_Put k (x @ y)) (Ans_Put (Err Not_Found)),
        Dt_Done (Op_Get k) (Ans_Get (Ok (Some x)))] \<and>
     race_file (rc_fs p) (path_for k) = Some (x @ y)"
proof -
  let ?us = "[Begin 0 (Op_Put k v), Begin 1 (Op_Put k (x @ y)), Begin 2 (Op_Get k), Turn 0 0, Turn 0 (length v),
     Turn 1 0, Turn 0 0, Turn 0 0, Turn 1 (length x), Turn 2 0, Turn 2 (length x), Turn 2 0, Turn 1 (length y), Turn 1 0, Turn 1 0]"
  note defs = create_file_def write_at_def put_bytes_def rename_file_def open_file_def
  let ?p = "\<lparr>rc_fs = \<lparr>rf_names = fmupd (path_for k) 0 (fmdrop (tmp_name k) (fmupd (tmp_name k) 0 fmempty)),
               rf_data = (\<lambda>_. [])(0 := x @ y), rf_next = Suc 0\<rparr>,
     rc_tasks = [(0, Dt_Done (Op_Put k v) (Ans_Put (Ok ()))), (0, Dt_Done (Op_Put k (x @ y)) (Ans_Put (Err Not_Found))),
               (0, Dt_Done (Op_Get k) (Ans_Get (Ok (Some x))))],
     rc_log = [(k, Some v)]\<rparr>"
  have "run_schedule False ?us (race_new 3) = Some ?p"
    using assms by (simp add: race_new_def eval_nat_numeral defs)
  then have "race_reachable False 3 ?p" by (rule run_schedule_sound [OF race_reachable.new])
  then show ?thesis by (intro exI [of _ ?p]) (simp add: race_file_def)
qed

text \<open>
  C20. Two puts of one key under way at once do tear: they share the temporary file. For every key
  and all values there is a run without any failure in which the first put returns successfully,
  a reader then gets a value that nobody ever put (the first part of the second value), the second put
  fails because its temporary file is gone, and yet its value is what the tier holds in the end.
\<close>

theorem disk_same_key_puts_tear:
  "\<exists>p. race_reachable False 3 p \<and> map snd (rc_tasks p) =
       [Dt_Done (Op_Put (ch # k) (a # v)) (Ans_Put (Ok ())),
        Dt_Done (Op_Put (ch # k) (b # x @ c # y)) (Ans_Put (Err Not_Found)),
        Dt_Done (Op_Get (ch # k)) (Ans_Get (Ok (Some (b # x))))] \<and>
     race_file (rc_fs p) (path_for (ch # k)) = Some (b # x @ c # y)"
  using tearing_run [of "ch # k" "a # v" "b # x" "c # y"] by simp

end
