(* ===== verification/Mmap_Race.thy ===== *)
theory Mmap_Race
  imports Disk_Race Mmap_Tier
begin

text \<open>
  \<open>tierstore-mmap/src/tier.rs\<close> under concurrent calls: \<open>get\<close>, \<open>put\<close> and \<open>delete\<close> of many tasks, one system
  call or one critical section at a time, over the inodes of \<open>Disk_Race\<close> and the index of \<open>Mmap_Inner\<close>.
  The eviction loop of \<open>put\<close> makes system calls while it holds the lock, so the lock is part of the
  state. Two puts of one key under way at once share a temporary file; what comes of that is shown in
  \<open>Disk_Race\<close>, and callers are assumed here to avoid it. Files are then never changed in place, and a
  mapping is the bytes of its file.

  Shown: the index stays consistent and within its budget, and every value that is handed out was put
  under its key. When calls on one key do not overlap (but for reads), an unbounded tier is
  linearizable. A read that overlaps a put, or an eviction that overlaps a put, breaks it for good.
\<close>

section \<open>Steps\<close>

record mmap_shared =
  sh_fs :: race_fs
  sh_in :: mm_inner
  sh_lock :: "nat option"

datatype mmap_answer =
    Ma_Put "((string, u8 list) displaced, io_error) result"
  | Ma_Get "(u8 list option, io_error) result"
  | Ma_Delete "(bool, io_error) result"

text \<open>
  Where a call is: before the system call or the critical section that the constructor names. A put
  evicts from \<open>Mt_Evict\<close> to \<open>Mt_Drop\<close> and back, with the lock held.
\<close>

datatype mmap_task =
    Mt_Idle
  | Mt_Create string "u8 list"
  | Mt_Write string "u8 list" nat nat
  | Mt_Rename string "u8 list"
  | Mt_Remap string "u8 list"
  | Mt_Commit string "u8 list" "u8 list option"
  | Mt_Evict string "u8 list" "(string, u8 list) displaced"
  | Mt_Drop string "u8 list" "(string, u8 list) displaced" string
  | Mt_Probe string
  | Mt_Map string
  | Mt_Keep string "u8 list"
  | Mt_Forget string
  | Mt_Unlink string
  | Mt_Done disk_op mmap_answer

fun mt_begin :: "disk_op \<Rightarrow> mmap_task" where
  "mt_begin (Op_Put k v) = Mt_Create k v"
| "mt_begin (Op_Get k) = Mt_Probe k"
| "mt_begin (Op_Delete k) = Mt_Forget k"

fun mt_op :: "mmap_task \<Rightarrow> disk_op option" where
  "mt_op (Mt_Create k v) = Some (Op_Put k v)"
| "mt_op (Mt_Write k v i off) = Some (Op_Put k v)"
| "mt_op (Mt_Rename k v) = Some (Op_Put k v)"
| "mt_op (Mt_Remap k v) = Some (Op_Put k v)"
| "mt_op (Mt_Commit k v bs) = Some (Op_Put k v)"
| "mt_op (Mt_Evict k v out) = Some (Op_Put k v)"
| "mt_op (Mt_Drop k v out j) = Some (Op_Put k v)"
| "mt_op (Mt_Probe k) = Some (Op_Get k)"
| "mt_op (Mt_Map k) = Some (Op_Get k)"
| "mt_op (Mt_Keep k bs) = Some (Op_Get k)"
| "mt_op (Mt_Forget k) = Some (Op_Delete k)"
| "mt_op (Mt_Unlink k) = Some (Op_Delete k)"
| "mt_op t = None"

fun mt_fault :: "disk_op \<Rightarrow> string \<Rightarrow> mmap_answer" where
  "mt_fault (Op_Put k v) m = Ma_Put (Err (Fault m))"
| "mt_fault (Op_Get k) m = Ma_Get (Err (Fault m))"
| "mt_fault (Op_Delete k) m = Ma_Delete (Err (Fault m))"

text \<open>The part of an eviction that works on the index; \<open>mapped\<close> is what mapping the old file gives.\<close>

definition evict_pick :: "string \<Rightarrow> u8 list option \<Rightarrow> mm_inner \<Rightarrow> u8 list option \<times> mm_inner" where
  "evict_pick j mapped s =
     (let bytes = (case fmlookup (mm_maps s) j of Some bs \<Rightarrow> Some bs | None \<Rightarrow> mapped);
          (size_of, s1) = mm_remove_accounting j (s\<lparr>mm_maps := fmdrop j (mm_maps s)\<rparr>);
          s2 = (case size_of of
                  None \<Rightarrow> s1
                | Some n \<Rightarrow> s1\<lparr>mm_evictions := saturating_add (mm_evictions s1) 1,
                     mm_evicted_bytes := saturating_add (mm_evicted_bytes s1) n\<rparr>)
      in (bytes, s2))"

fun evict_next ::
  "nat \<Rightarrow> (string \<Rightarrow> u8 list option) \<Rightarrow> mmap_shared \<Rightarrow> string \<Rightarrow> u8 list \<Rightarrow> (string, u8 list) displaced \<Rightarrow>
   mmap_shared \<times> mmap_task" where
  "evict_next budget mapped s k v out =
     (if mm_total (sh_in s) \<le> budget then (s\<lparr>sh_lock := None\<rparr>, Mt_Done (Op_Put k v) (Ma_Put (Ok out)))
      else
        (case mm_pop_oldest (sh_in s) of
           (None, s1) \<Rightarrow> (s\<lparr>sh_in := s1, sh_lock := None\<rparr>, Mt_Done (Op_Put k v) (Ma_Put (Ok out)))
         | (Some j, s1) \<Rightarrow>
             (let (bytes, s2) = evict_pick j (mapped j) s1
              in (s\<lparr>sh_in := s2\<rparr>, Mt_Drop k v (case bytes of None \<Rightarrow> out | Some bs \<Rightarrow> out @ [(j, bs)]) j))))"

text \<open>
  The next step of task \<open>i\<close> and what it commits; \<open>n\<close> is how many bytes a write gets through. A step that
  needs the lock waits for it.
\<close>

fun mmap_go ::
  "eviction \<Rightarrow> nat option \<Rightarrow> nat \<Rightarrow> nat \<Rightarrow> mmap_shared \<Rightarrow> mmap_task \<Rightarrow> (commits \<times> mmap_shared \<times> mmap_task) option" where
  "mmap_go ev budget i n s (Mt_Create k v) =
     (let (f, fs) = create_file (tmp_name k) (sh_fs s) in Some ([], s\<lparr>sh_fs := fs\<rparr>, Mt_Write k v f 0))"
| "mmap_go ev budget i n s (Mt_Write k v f off) =
     (if off = length v then Some ([], s, Mt_Rename k v)
      else if 0 < n \<and> off + n \<le> length v
      then Some ([], s\<lparr>sh_fs := write_at f off (take n (drop off v)) (sh_fs s)\<rparr>, Mt_Write k v f (off + n))
      else None)"
| "mmap_go ev budget i n s (Mt_Rename k v) =
     (case rename_file (tmp_name k) (path_for k) (sh_fs s) of
        (Ok _, fs) \<Rightarrow> Some ([(k, Some v)], s\<lparr>sh_fs := fs\<rparr>, Mt_Remap k v)
      | (Err e, fs) \<Rightarrow> Some ([], s\<lparr>sh_fs := fs\<rparr>, Mt_Done (Op_Put k v) (Ma_Put (Err e))))"
| "mmap_go ev budget i n s (Mt_Remap k v) = Some ([], s, Mt_Commit k v (race_file (sh_fs s) (path_for k)))"
| "mmap_go ev budget i n s (Mt_Commit k v bytes) =
     (if sh_lock s \<noteq> None then None
      else
        (let s1 = s\<lparr>sh_in := mm_account_put ev k (length v) bytes (sh_in s)\<rparr> in
         case budget of
           None \<Rightarrow> Some ([], s1, Mt_Done (Op_Put k v) (Ma_Put (Ok [])))
         | Some _ \<Rightarrow> Some ([], s1\<lparr>sh_lock := Some i\<rparr>, Mt_Evict k v [])))"
| "mmap_go ev budget i n s (Mt_Evict k v out) =
     (case budget of
        None \<Rightarrow> None
      | Some b \<Rightarrow> Some ([], evict_next b (\<lambda>j. race_file (sh_fs s) (path_for j)) s k v out))"
| "mmap_go ev budget i n s (Mt_Drop k v out j) =
     (case unlink_file (path_for j) (sh_fs s) of
        (Ok _, fs) \<Rightarrow> Some ([(j, None)], s\<lparr>sh_fs := fs\<rparr>, Mt_Evict k v out)
      | (Err _, fs) \<Rightarrow> Some ([], s\<lparr>sh_fs := fs\<rparr>, Mt_Evict k v out))"
| "mmap_go ev budget i n s (Mt_Probe k) =
     (if sh_lock s \<noteq> None then None
      else
        (case fmlookup (mm_maps (sh_in s)) k of
           Some bs \<Rightarrow> Some ([], if ev = Lru then s\<lparr>sh_in := mm_touch k (sh_in s)\<rparr> else s,
                          Mt_Done (Op_Get k) (Ma_Get (Ok (Some bs))))
         | None \<Rightarrow> Some ([], s, Mt_Map k)))"
| "mmap_go ev budget i n s (Mt_Map k) =
     (case race_file (sh_fs s) (path_for k) of
        None \<Rightarrow> Some ([], s, Mt_Done (Op_Get k) (Ma_Get (Ok None)))
      | Some bs \<Rightarrow> Some ([], s, Mt_Keep k bs))"
| "mmap_go ev budget i n s (Mt_Keep k bs) =
     (if sh_lock s \<noteq> None then None
      else if \<not> hm_contains (mm_sizes (sh_in s)) k then Some ([], s, Mt_Done (Op_Get k) (Ma_Get (Ok (Some bs))))
      else
        (let s1 = (sh_in s)\<lparr>mm_maps := fmupd k bs (mm_maps (sh_in s))\<rparr>
         in Some ([], s\<lparr>sh_in := if ev = Lru then mm_touch k s1 else s1\<rparr>,
                  Mt_Done (Op_Get k) (Ma_Get (Ok (Some bs))))))"
| "mmap_go ev budget i n s (Mt_Forget k) =
     (if sh_lock s \<noteq> None then None
      else Some ([], s\<lparr>sh_in := mm_compact_tickets (snd (mm_remove_accounting k (sh_in s)))\<rparr>, Mt_Unlink k))"
| "mmap_go ev budget i n s (Mt_Unlink k) =
     (case unlink_file (path_for k) (sh_fs s) of
        (Ok _, fs) \<Rightarrow> Some ([(k, None)], s\<lparr>sh_fs := fs\<rparr>, Mt_Done (Op_Delete k) (Ma_Delete (Ok True)))
      | (Err _, fs) \<Rightarrow> Some ([], s\<lparr>sh_fs := fs\<rparr>, Mt_Done (Op_Delete k) (Ma_Delete (Ok False))))"
| "mmap_go ev budget i n s t = None"

text \<open>
  The step when its system call fails. An eviction goes on without the value it could not map, and
  ignores that a file could not be removed.
\<close>

fun mmap_fail :: "string \<Rightarrow> nat option \<Rightarrow> mmap_shared \<Rightarrow> mmap_task \<Rightarrow> (mmap_shared \<times> mmap_task) option" where
  "mmap_fail m budget s (Mt_Evict k v out) =
     (case budget of None \<Rightarrow> None | Some b \<Rightarrow> Some (evict_next b (\<lambda>_. None) s k v out))"
| "mmap_fail m budget s (Mt_Drop k v out j) = Some (s, Mt_Evict k v out)"
| "mmap_fail m budget s (Mt_Commit k v bytes) = None"
| "mmap_fail m budget s (Mt_Probe k) = None"
| "mmap_fail m budget s (Mt_Keep k bs) = None"
| "mmap_fail m budget s (Mt_Forget k) = None"
| "mmap_fail m budget s t = map_option (\<lambda>c. (s, Mt_Done c (mt_fault c m))) (mt_op t)"

datatype chance = Go nat | Fail string

fun mmap_next ::
  "eviction \<Rightarrow> nat option \<Rightarrow> nat \<Rightarrow> chance \<Rightarrow> mmap_shared \<Rightarrow> mmap_task \<Rightarrow> (commits \<times> mmap_shared \<times> mmap_task) option" where
  "mmap_next ev budget i (Go n) s t = mmap_go ev budget i n s t"
| "mmap_next ev budget i (Fail m) s t = map_option (Pair []) (mmap_fail m budget s t)"

section \<open>Races\<close>

record mmap_race =
  mr_sh :: mmap_shared
  mr_tasks :: "(nat \<times> mmap_task) list"
  mr_log :: commits

fun is_put :: "disk_op \<Rightarrow> bool" where
  "is_put (Op_Put k v) = True"
| "is_put _ = False"

fun is_get :: "disk_op \<Rightarrow> bool" where
  "is_get (Op_Get k) = True"
| "is_get _ = False"

text \<open>
  Which calls the callers keep apart: two puts of one key; with \<open>excl\<close>, any two calls on one key but
  reads.
\<close>

definition apart :: "bool \<Rightarrow> disk_op \<Rightarrow> disk_op \<Rightarrow> bool" where
  "apart excl c d \<longleftrightarrow>
     op_key c \<noteq> op_key d \<or> \<not> (is_put c \<and> is_put d) \<and> (excl \<longrightarrow> is_get c \<and> is_get d)"

definition may_start :: "bool \<Rightarrow> disk_op \<Rightarrow> (nat \<times> mmap_task) list \<Rightarrow> bool" where
  "may_start excl c ts \<longleftrightarrow> list_all (\<lambda>t. case mt_op (snd t) of None \<Rightarrow> True | Some d \<Rightarrow> apart excl c d) ts"

definition remap_fails :: "chance \<Rightarrow> mmap_task \<Rightarrow> bool" where
  "remap_fails ch t \<longleftrightarrow> (case ch of Fail _ \<Rightarrow> (case t of Mt_Remap _ _ \<Rightarrow> True | _ \<Rightarrow> False) | Go _ \<Rightarrow> False)"

datatype mmap_turn = M_Begin nat disk_op | M_Turn nat chance

fun mmap_move :: "bool \<Rightarrow> eviction \<Rightarrow> nat option \<Rightarrow> mmap_turn \<Rightarrow> mmap_race \<Rightarrow> mmap_race option" where
  "mmap_move excl ev budget (M_Begin i c) p =
     (if i < length (mr_tasks p) \<and> mt_op (snd (mr_tasks p ! i)) = None \<and> op_key c \<noteq> [] \<and> may_start excl c (mr_tasks p)
      then Some (p\<lparr>mr_tasks := (mr_tasks p)[i := (length (mr_log p), mt_begin c)]\<rparr>) else None)"
| "mmap_move excl ev budget (M_Turn i ch) p =
     (if i < length (mr_tasks p) \<and> \<not> (excl \<and> remap_fails ch (snd (mr_tasks p ! i)))
      then (case mmap_next ev budget i ch (mr_sh p) (snd (mr_tasks p ! i)) of
              None \<Rightarrow> None
            | Some (cs, s, t) \<Rightarrow>
                Some (p\<lparr>mr_sh := s, mr_tasks := (mr_tasks p)[i := (fst (mr_tasks p ! i), t)], mr_log := mr_log p @ cs\<rparr>))
      else None)"

definition mmap_race_new :: "nat \<Rightarrow> mmap_race" where
  "mmap_race_new tasks =
     \<lparr>mr_sh = \<lparr>sh_fs = \<lparr>rf_names = fmempty, rf_data = (\<lambda>_. []), rf_next = 0\<rparr>, sh_in = mm_default, sh_lock = None\<rparr>,
      mr_tasks = replicate tasks (0, Mt_Idle), mr_log = []\<rparr>"

inductive mmap_race_reachable :: "bool \<Rightarrow> eviction \<Rightarrow> nat option \<Rightarrow> nat \<Rightarrow> mmap_race \<Rightarrow> bool"
  for excl ev budget tasks where
  new: "mmap_race_reachable excl ev budget tasks (mmap_race_new tasks)"
| turn: "mmap_race_reachable excl ev budget tasks p \<Longrightarrow> mmap_move excl ev budget u p = Some q \<Longrightarrow>
     mmap_race_reachable excl ev budget tasks q"

fun mmap_schedule :: "bool \<Rightarrow> eviction \<Rightarrow> nat option \<Rightarrow> mmap_turn list \<Rightarrow> mmap_race \<Rightarrow> mmap_race option" where
  "mmap_schedule excl ev budget [] p = Some p"
| "mmap_schedule excl ev budget (u # us) p =
     (case mmap_move excl ev budget u p of None \<Rightarrow> None | Some q \<Rightarrow> mmap_schedule excl ev budget us q)"

lemma mmap_schedule_reachable:
  "mmap_race_reachable excl ev budget tasks p \<Longrightarrow> mmap_schedule excl ev budget us p = Some q \<Longrightarrow>
   mmap_race_reachable excl ev budget tasks q"
  by (induction us arbitrary: p) (auto split: option.splits intro: mmap_race_reachable.turn)


section \<open>The invariant\<close>

text \<open>The part of a call that works on the files, as a call of the disk tier.\<close>

fun files :: "mmap_task \<Rightarrow> disk_task" where
  "files (Mt_Create k v) = Dt_Create k v"
| "files (Mt_Write k v f off) = Dt_Write k v f off"
| "files (Mt_Rename k v) = Dt_Rename k v"
| "files (Mt_Drop k v out j) = Dt_Unlink j"
| "files (Mt_Unlink k) = Dt_Unlink k"
| "files t = Dt_Idle"

fun holds_lock :: "mmap_task \<Rightarrow> bool" where
  "holds_lock (Mt_Evict k v out) = True"
| "holds_lock (Mt_Drop k v out j) = True"
| "holds_lock t = False"

text \<open>Values in flight and answers were put under their keys.\<close>

fun genuine_answer :: "commits \<Rightarrow> disk_op \<Rightarrow> mmap_answer \<Rightarrow> bool" where
  "genuine_answer log (Op_Get k) (Ma_Get (Inr (Some v))) = ((k, Some v) \<in> set log)"
| "genuine_answer log c (Ma_Put (Inr out)) = (\<forall>(j, u) \<in> set out. (j, Some u) \<in> set log)"
| "genuine_answer log c a = True"

fun knows :: "commits \<Rightarrow> mmap_task \<Rightarrow> bool" where
  "knows log (Mt_Commit k v bytes) = (\<forall>bs. bytes = Some bs \<longrightarrow> (k, Some bs) \<in> set log)"
| "knows log (Mt_Evict k v out) = (\<forall>(j, u) \<in> set out. (j, Some u) \<in> set log)"
| "knows log (Mt_Drop k v out j) = (\<forall>(j, u) \<in> set out. (j, Some u) \<in> set log)"
| "knows log (Mt_Keep k bs) = ((k, Some bs) \<in> set log)"
| "knows log (Mt_Done c a) = genuine_answer log c a"
| "knows log t = True"

definition index_ok :: "commits \<Rightarrow> mm_inner \<Rightarrow> bool" where
  "index_ok log s \<longleftrightarrow> mm_inv s \<and> (\<forall>k bs. fmlookup (mm_maps s) k = Some bs \<longrightarrow> (k, Some bs) \<in> set log) \<and>
     fmlookup (mm_sizes s) [] = None"

definition budget_ok :: "nat option \<Rightarrow> mmap_shared \<Rightarrow> bool" where
  "budget_ok budget s \<longleftrightarrow> (sh_lock s = None \<longrightarrow> (\<forall>b. budget = Some b \<longrightarrow> mm_total (sh_in s) \<le> b))"

lemma committed_in_log: "committed log k = Some v \<Longrightarrow> (k, Some v) \<in> set log"
proof (induction log rule: rev_induct)
  case (snoc e log)
  then show ?case by (cases e) (auto split: if_splits)
qed simp

lemma knows_append: "knows log t \<Longrightarrow> knows (log @ cs) t"
proof (cases t)
  case (Mt_Done c a)
  then show "knows log t \<Longrightarrow> knows (log @ cs) t" by (induction log c a rule: genuine_answer.induct) auto
qed auto

lemma index_ok_append: "index_ok log s \<Longrightarrow> index_ok (log @ cs) s"
  by (auto simp: index_ok_def)

text \<open>What a step does to the files is a step of the disk tier.\<close>

lemma unlink_error: "unlink_file name fs = (Err e, fs') \<Longrightarrow> fs' = fs"
  by (simp add: unlink_file_def split: option.splits)

lemma go_files:
  assumes "mmap_go ev budget i n s t = Some (cs, s', t')"
  shows "cs = [] \<and> sh_fs s' = sh_fs s \<or> (\<exists>u. task_step (sh_fs s, files t) cs (sh_fs s', u))"
proof (cases t)
  case (Mt_Create k v)
  with assms show ?thesis by (auto split: prod.splits dest: task_step.create [of k "sh_fs s" _ _ v])
next
  case (Mt_Write k v f off)
  with assms show ?thesis using task_step.wrote [of n off v "sh_fs s" k f] by (auto split: if_splits)
next
  case (Mt_Rename k v)
  with assms show ?thesis
    by (auto split: prod.splits sum.splits dest: task_step.rename [of k "sh_fs s" _ _ v]
        task_step.rename_fails [of k "sh_fs s" _ _ v])
next
  case (Mt_Drop k v out j)
  with assms show ?thesis
    by (auto split: prod.splits sum.splits dest: task_step.unlinked [of j "sh_fs s"] unlink_error)
next
  case (Mt_Unlink k)
  with assms show ?thesis
    by (auto split: prod.splits sum.splits dest: task_step.unlinked [of k "sh_fs s"] unlink_error)
next
  case (Mt_Evict k v out)
  with assms show ?thesis by (auto simp: Let_def split: option.splits if_splits prod.splits)
qed (use assms in \<open>auto simp: Let_def split: option.splits if_splits\<close>)

lemma fail_files: "mmap_fail m budget s t = Some (s', t') \<Longrightarrow> sh_fs s' = sh_fs s"
  by (cases t) (auto simp: Let_def split: option.splits if_splits prod.splits)

lemma go_own_files:
  assumes "mmap_go ev budget i n s t = Some (cs, s', t')" "fs_inv (sh_fs s) log" "task_inv (sh_fs s) log m (files t)"
  shows "fs_inv (sh_fs s') (log @ cs) \<and> task_inv (sh_fs s') (log @ cs) m (files t')"
proof (cases t)
  case (Mt_Create k v)
  obtain f fs where f: "create_file (tmp_name k) (sh_fs s) = (f, fs)" by fastforce
  then have "cs = []" "sh_fs s' = fs" "t' = Mt_Write k v f 0" using Mt_Create assms(1) by auto
  then show ?thesis using create_file_inv [OF assms(2) f] create_file_effect(1,2) [OF assms(2) f] by simp
next
  case (Mt_Write k v f off)
  then have f: "fmlookup (rf_names (sh_fs s)) (tmp_name k) = Some f" "off \<le> length v" "rf_data (sh_fs s) f = take off v"
    using assms(3) by auto
  show ?thesis
  proof (cases "off = length v")
    case True
    then have "cs = []" "s' = s" "t' = Mt_Rename k v" using Mt_Write assms(1) by auto
    then show ?thesis using f True assms(2) by (simp add: race_file_def)
  next
    case False
    then have w: "off + n \<le> length v" "cs = []" "t' = Mt_Write k v f (off + n)"
        "sh_fs s' = write_at f off (take n (drop off v)) (sh_fs s)"
      using Mt_Write assms(1) by (auto split: if_splits)
    have "rf_data (sh_fs s') f = take (off + n) v" "rf_names (sh_fs s') = rf_names (sh_fs s)"
      unfolding w(4) by (simp_all add: write_at_def f(3) put_bytes_append [OF f(2)])
    moreover have "fs_inv (sh_fs s') log" unfolding w(4) by (rule write_at_inv [OF assms(2) f(1)])
    ultimately show ?thesis using w(1-3) f(1) by simp
  qed
next
  case (Mt_Rename k v)
  then have v: "race_file (sh_fs s) (tmp_name k) = Some v" using assms(3) by simp
  then obtain fs where r: "rename_file (tmp_name k) (path_for k) (sh_fs s) = (Ok (), fs)"
    by (auto simp: race_file_def rename_file_def)
  then have "cs = [(k, Some v)]" "sh_fs s' = fs" "t' = Mt_Remap k v" using Mt_Rename assms(1) by auto
  then show ?thesis using rename_file_inv [OF assms(2) v r] by simp
next
  case (Mt_Drop k v out j)
  then show ?thesis
    using assms(1,2) unlink_file_inv [OF assms(2), of j] by (auto simp: unlink_file_def split: option.splits)
next
  case (Mt_Unlink k)
  then show ?thesis
    using assms(1,2) unlink_file_inv [OF assms(2), of k] by (auto simp: unlink_file_def split: option.splits)
next
  case (Mt_Evict k v out)
  then show ?thesis using assms(1,2) by (auto simp: Let_def split: option.splits if_splits prod.splits)
qed (use assms(1,2) in \<open>auto simp: Let_def split: option.splits if_splits\<close>)

text \<open>The critical sections keep the index, its values and the budget.\<close>

lemma touch_maps: "mm_inv s \<Longrightarrow> mm_maps (mm_touch k s) = mm_maps s \<and> mm_sizes (mm_touch k s) = mm_sizes s \<and>
    mm_total (mm_touch k s) = mm_total s"
  using insert_ticket_spec [of s k] by (auto simp: mm_touch_def mm_inv_def same_accounts_def)

lemma index_ok_touch: "index_ok log s \<Longrightarrow> index_ok log (mm_touch k s)"
  using touch_maps [of s k] mm_inv_touch [of s k] by (simp add: index_ok_def)

lemma index_ok_keep:
  assumes "index_ok log s" "hm_contains (mm_sizes s) k" "(k, Some bs) \<in> set log"
  shows "index_ok log (s\<lparr>mm_maps := fmupd k bs (mm_maps s)\<rparr>)"
proof -
  have "k |\<in>| fmdom (mm_sizes s)" "k \<noteq> []"
    using assms(1,2) by (auto simp: hm_contains_iff index_ok_def)
  then show ?thesis using assms by (auto simp: index_ok_def mm_inv_def tickets_ok_def)
qed

lemma remove_fields:
  "mm_maps (snd (mm_remove_accounting k s)) = fmdrop k (mm_maps s)"
  "mm_sizes (snd (mm_remove_accounting k s)) = fmdrop k (mm_sizes s)"
  "mm_total (snd (mm_remove_accounting k s)) \<le> mm_total s"
proof -
  have "fmlookup (mm_sizes s) k = None \<Longrightarrow> fmdrop k (mm_sizes s) = mm_sizes s" by (intro fmap_ext) auto
  then show "mm_maps (snd (mm_remove_accounting k s)) = fmdrop k (mm_maps s)"
    "mm_sizes (snd (mm_remove_accounting k s)) = fmdrop k (mm_sizes s)"
    "mm_total (snd (mm_remove_accounting k s)) \<le> mm_total s"
    by (auto simp: mm_remove_accounting_def saturating_sub_def Let_def split: option.split)
qed

lemma index_ok_forget: "index_ok log s \<Longrightarrow> index_ok log (mm_compact_tickets (snd (mm_remove_accounting k s)))"
  using mm_inv_remove [of s k] mm_inv_compact [of "snd (mm_remove_accounting k s)"]
    compact_spec [of "snd (mm_remove_accounting k s)"] remove_fields [of k s]
  by (auto simp: index_ok_def same_accounts_def mm_inv_def [of "snd (mm_remove_accounting k s)"])

lemma forget_total:
  "mm_inv s \<Longrightarrow> mm_total (mm_compact_tickets (snd (mm_remove_accounting k s))) \<le> mm_total s"
  using mm_inv_remove [of s k] compact_spec [of "snd (mm_remove_accounting k s)"] remove_fields(3) [of k s]
  by (simp add: mm_inv_def same_accounts_def)


lemma index_ok_account:
  assumes "index_ok log s" "k \<noteq> []" "\<forall>bs. mapped = Some bs \<longrightarrow> (k, Some bs) \<in> set log"
  shows "index_ok log (mm_account_put ev k n mapped s)"
proof -
  have "mm_inv s" using assms(1) by (simp add: index_ok_def)
  then show ?thesis
    using assms mm_inv_account_put [of s ev k n mapped] account_put_fields(1,3) [of s ev k n mapped]
    by (auto simp: index_ok_def split: option.splits)
qed

lemma evict_pick_spec:
  assumes "index_ok log s" "mm_pop_oldest s = (Some j, s1)" "evict_pick j mapped s1 = (bytes, s2)"
  shows "index_ok log s2" "j \<noteq> []" "\<And>u. bytes = Some u \<Longrightarrow> (j, Some u) \<in> set log \<or> mapped = Some u"
proof -
  have ivt: "mm_inv s" using assms(1) by (simp add: index_ok_def)
  note pop = mm_inv_pop [OF ivt assms(2)]
  then have same: "mm_maps s1 = mm_maps s" "mm_sizes s1 = mm_sizes s" by (simp_all add: same_accounts_def)
  obtain x t where r: "mm_remove_accounting j s1 = (x, t)" by fastforce
  have t: "mm_inv t" "mm_maps t = fmdrop j (mm_maps s)" "mm_sizes t = fmdrop j (mm_sizes s)"
    using pop remove_fields(1,2) [of j s1] r same by simp_all
  have s2: "\<exists>a b. s2 = t\<lparr>mm_evictions := a, mm_evicted_bytes := b\<rparr>"
  proof (cases x)
    case None
    then have "s2 = t\<lparr>mm_evictions := mm_evictions t, mm_evicted_bytes := mm_evicted_bytes t\<rparr>"
      using assms(3) by (simp add: evict_pick_def remove_dropped r)
    then show ?thesis by blast
  next
    case (Some n)
    then show ?thesis using assms(3) by (auto simp: evict_pick_def remove_dropped r)
  qed
  then show "index_ok log s2" using t assms(1) by (auto simp: index_ok_def split: if_splits)
  show "j \<noteq> []" using pop assms(1) by (auto simp: index_ok_def)
  show "(j, Some u) \<in> set log \<or> mapped = Some u" if "bytes = Some u" for u
    using that assms(1,3) same by (auto simp: evict_pick_def Let_def index_ok_def split: option.splits prod.splits)
qed

lemma evict_next_spec:
  assumes "evict_next b mapped s k v out = (s', t')" "index_ok log (sh_in s)" "\<forall>(j, u) \<in> set out. (j, Some u) \<in> set log"
    and "\<And>j u. mapped j = Some u \<Longrightarrow> j \<noteq> [] \<Longrightarrow> (j, Some u) \<in> set log"
  shows "index_ok log (sh_in s') \<and> knows log t' \<and> mt_op t' \<in> {None, Some (Op_Put k v)} \<and>
    (if holds_lock t' then sh_lock s' = sh_lock s else sh_lock s' = None \<and> mm_total (sh_in s') \<le> b)"
proof (cases "mm_total (sh_in s) \<le> b")
  case True
  then show ?thesis using assms(1-3) by auto
next
  case False
  obtain j s1 where pop: "mm_pop_oldest (sh_in s) = (j, s1)" by fastforce
  show ?thesis
  proof (cases j)
    case None
    have ivt: "mm_inv (sh_in s)" using assms(2) by (simp add: index_ok_def)
    have "mm_maps s1 = mm_maps (sh_in s)" "mm_sizes s1 = mm_sizes (sh_in s)"
      using pop by (auto simp: mm_pop_oldest_def split: prod.splits)
    then have "index_ok log s1" using pop_oldest_None [OF ivt] pop None assms(2) by (simp add: index_ok_def)
    then show ?thesis using assms(1,3) False pop None pop_oldest_None [OF ivt] by auto
  next
    case (Some j')
    obtain bytes s2 where e: "evict_pick j' (mapped j') s1 = (bytes, s2)" by fastforce
    have pop': "mm_pop_oldest (sh_in s) = (Some j', s1)" using pop Some by simp
    note pick = evict_pick_spec [OF assms(2) pop' e]
    show ?thesis
      using assms(1,3) False pop' e pick assms(4) [of j'] by (auto split: option.splits)
  qed
qed

lemma go_index:
  assumes "mmap_go ev budget i n s t = Some (cs, s', t')" "fs_inv (sh_fs s) log" "index_ok log (sh_in s)" "knows log t"
    and "budget_ok budget s" "holds_lock t \<longleftrightarrow> sh_lock s = Some i" "\<And>c. mt_op t = Some c \<Longrightarrow> op_key c \<noteq> []"
  shows "index_ok (log @ cs) (sh_in s') \<and> knows (log @ cs) t' \<and> budget_ok budget s' \<and> mt_op t' \<in> {None, mt_op t} \<and>
    (holds_lock t' \<longleftrightarrow> sh_lock s' = Some i) \<and> (\<forall>l. l \<noteq> i \<longrightarrow> (sh_lock s' = Some l \<longleftrightarrow> sh_lock s = Some l))"
proof (cases t)
  case (Mt_Remap k v)
  then have "race_file (sh_fs s) (path_for k) = committed log k" using assms(2,7) fs_invD(3) by auto
  then show ?thesis using Mt_Remap assms committed_in_log by auto
next
  case (Mt_Commit k v bytes)
  then have "k \<noteq> []" using assms(7) by simp
  then show ?thesis
    using Mt_Commit assms(1,3-6) index_ok_account [of log "sh_in s" k bytes ev "length v"]
    by (auto simp: budget_ok_def Let_def split: if_splits option.splits)
next
  case (Mt_Evict k v out)
  then obtain b where b: "budget = Some b" "cs = []" "evict_next b (\<lambda>j. race_file (sh_fs s) (path_for j)) s k v out = (s', t')"
    using assms(1) by (auto simp del: evict_next.simps split: option.splits)
  have known: "(j, Some u) \<in> set log" if "race_file (sh_fs s) (path_for j) = Some u" "j \<noteq> []" for j u
    using that fs_invD(3) [OF assms(2)] committed_in_log by metis
  have "sh_lock s = Some i" using assms(6) Mt_Evict by simp
  then show ?thesis
    using evict_next_spec [OF b(3) assms(3) _ known] assms(4) Mt_Evict b(1,2)
    by (cases "holds_lock t'") (auto simp: budget_ok_def)
next
  case (Mt_Drop k v out j)
  then show ?thesis
    using assms(1,3-6) knows_append [of log t] index_ok_append [OF assms(3)]
    by (auto simp: budget_ok_def split: prod.splits sum.splits)
next
  case (Mt_Probe k)
  then show ?thesis
    using assms(1,3-6) index_ok_touch [OF assms(3), of k] touch_maps [of "sh_in s" k]
    by (auto simp: budget_ok_def index_ok_def split: if_splits option.splits)
next
  case (Mt_Map k)
  then have "race_file (sh_fs s) (path_for k) = committed log k" using assms(2,7) fs_invD(3) by auto
  then show ?thesis using Mt_Map assms committed_in_log by (auto split: option.splits)
next
  case (Mt_Keep k bs)
  let ?in = "(sh_in s)\<lparr>mm_maps := fmupd k bs (mm_maps (sh_in s))\<rparr>"
  have "hm_contains (mm_sizes (sh_in s)) k \<Longrightarrow> index_ok log ?in"
    using index_ok_keep [OF assms(3)] assms(4) Mt_Keep by simp
  then show ?thesis
    using Mt_Keep assms(1,3-6) index_ok_touch [of log ?in k] touch_maps [of ?in k]
    by (auto simp: budget_ok_def index_ok_def Let_def split: if_splits)
next
  case (Mt_Forget k)
  have "mm_inv (sh_in s)" using assms(3) by (simp add: index_ok_def)
  then show ?thesis
    using Mt_Forget assms(1,3-6) index_ok_forget [OF assms(3), of k] forget_total [of "sh_in s" k]
    by (auto simp: budget_ok_def split: if_splits intro: le_trans)
next
  case (Mt_Unlink k)
  then show ?thesis
    using assms(1,3-6) index_ok_append [OF assms(3)] by (auto simp: budget_ok_def split: prod.splits sum.splits)
next
  case (Mt_Rename k v)
  then show ?thesis
    using assms(1,3-6) index_ok_append [OF assms(3)] by (auto simp: budget_ok_def split: prod.splits sum.splits)
qed (use assms(1,3-6) in \<open>auto simp: budget_ok_def Let_def split: if_splits prod.splits\<close>)


definition mr_inv :: "nat option \<Rightarrow> mmap_race \<Rightarrow> bool" where
  "mr_inv budget p \<longleftrightarrow> fs_inv (sh_fs (mr_sh p)) (mr_log p) \<and> index_ok (mr_log p) (sh_in (mr_sh p)) \<and>
     budget_ok budget (mr_sh p) \<and>
     (\<forall>i < length (mr_tasks p). task_inv (sh_fs (mr_sh p)) (mr_log p) (fst (mr_tasks p ! i)) (files (snd (mr_tasks p ! i))) \<and>
        knows (mr_log p) (snd (mr_tasks p ! i)) \<and> (holds_lock (snd (mr_tasks p ! i)) \<longleftrightarrow> sh_lock (mr_sh p) = Some i) \<and>
        (\<forall>c. mt_op (snd (mr_tasks p ! i)) = Some c \<longrightarrow> op_key c \<noteq> []) \<and> fst (mr_tasks p ! i) \<le> length (mr_log p))"

text \<open>Calls in flight are kept apart.\<close>

definition kept_apart :: "bool \<Rightarrow> (nat \<times> mmap_task) list \<Rightarrow> bool" where
  "kept_apart excl ts \<longleftrightarrow>
     (\<forall>i j c d. i < length ts \<longrightarrow> j < length ts \<longrightarrow> i \<noteq> j \<longrightarrow> mt_op (snd (ts ! i)) = Some c \<longrightarrow>
        mt_op (snd (ts ! j)) = Some d \<longrightarrow> apart excl c d)"

lemma kept_apartD:
  "kept_apart excl ts \<Longrightarrow> i < length ts \<Longrightarrow> j < length ts \<Longrightarrow> i \<noteq> j \<Longrightarrow> mt_op (snd (ts ! i)) = Some c \<Longrightarrow>
   mt_op (snd (ts ! j)) = Some d \<Longrightarrow> apart excl c d"
  by (simp add: kept_apart_def)

lemma apart_sym: "apart excl c d \<Longrightarrow> apart excl d c"
  by (auto simp: apart_def)

lemma kept_apart_step:
  assumes "kept_apart excl ts" "i < length ts" "mt_op t' \<in> {None, mt_op (snd (ts ! i))}"
  shows "kept_apart excl (ts[i := (n, t')])"
  using assms unfolding kept_apart_def by (auto simp: nth_list_update)

lemma kept_apart_start:
  assumes "kept_apart excl ts" "i < length ts" "mt_op (snd (ts ! i)) = None" "may_start excl c ts" "mt_op t' = Some c"
  shows "kept_apart excl (ts[i := (n, t')])"
proof -
  have new: "apart excl c d" if "j < length ts" "mt_op (snd (ts ! j)) = Some d" for j d
    using bspec [OF assms(4) [unfolded may_start_def list_all_iff] nth_mem [OF that(1)]] that(2) by simp
  show ?thesis
    using assms(1,2,5) new apart_sym [OF new] unfolding kept_apart_def by (auto simp: nth_list_update)
qed

lemma files_op: "in_flight (files t) = Some (Op_Put k v) \<Longrightarrow> mt_op t = Some (Op_Put k v)"
  by (cases t) auto

lemma fail_next:
  assumes "mmap_fail m budget s t = Some (s', t')" "index_ok log (sh_in s)" "knows log t" "budget_ok budget s"
    "holds_lock t \<longleftrightarrow> sh_lock s = Some i" "task_inv (sh_fs s) log n (files t)"
  shows "index_ok log (sh_in s') \<and> knows log t' \<and> budget_ok budget s' \<and> mt_op t' \<in> {None, mt_op t} \<and>
    (holds_lock t' \<longleftrightarrow> sh_lock s' = Some i) \<and> (\<forall>l. l \<noteq> i \<longrightarrow> (sh_lock s' = Some l \<longleftrightarrow> sh_lock s = Some l)) \<and>
    task_inv (sh_fs s') log n (files t')"
proof (cases t)
  case (Mt_Evict k v out)
  then obtain b where b: "budget = Some b" "evict_next b (\<lambda>_. None) s k v out = (s', t')"
    using assms(1) by (auto simp del: evict_next.simps split: option.splits)
  have "task_inv (sh_fs s') log n (files t')"
    using b(2) by (auto simp: Let_def split: option.splits if_splits prod.splits)
  then show ?thesis
    using evict_next_spec [OF b(2) assms(2)] assms(3,5) Mt_Evict b(1) by (cases "holds_lock t'") (auto simp: budget_ok_def)
qed (use assms in \<open>auto simp: budget_ok_def\<close>)

lemma mr_inv_new: "mr_inv budget (mmap_race_new tasks)"
  by (auto simp: mr_inv_def mmap_race_new_def fs_inv_def race_file_def index_ok_def budget_ok_def mm_inv_default)
     (simp_all add: mm_default_def)

lemma mr_inv_next:
  assumes p: "mr_inv budget p" "kept_apart excl (mr_tasks p)" and i: "i < length (mr_tasks p)" "mr_tasks p ! i = (n, t)"
    and step: "mmap_next ev budget i ch (mr_sh p) t = Some (cs, s', t')"
  shows "mr_inv budget (p\<lparr>mr_sh := s', mr_tasks := (mr_tasks p)[i := (n, t')], mr_log := mr_log p @ cs\<rparr>) \<and>
    mt_op t' \<in> {None, mt_op t}"
proof -
  let ?s = "mr_sh p" and ?log = "mr_log p" and ?ts = "mr_tasks p"
  have g: "fs_inv (sh_fs ?s) ?log" "index_ok ?log (sh_in ?s)" "budget_ok budget ?s" using p by (simp_all add: mr_inv_def)
  have tk: "task_inv (sh_fs ?s) ?log (fst (?ts ! j)) (files (snd (?ts ! j)))" "knows ?log (snd (?ts ! j))"
    "holds_lock (snd (?ts ! j)) \<longleftrightarrow> sh_lock ?s = Some j" "\<And>c. mt_op (snd (?ts ! j)) = Some c \<Longrightarrow> op_key c \<noteq> []"
    "fst (?ts ! j) \<le> length ?log"
    if "j < length ?ts" for j
    using p(1) that by (simp_all add: mr_inv_def)
  note ti = tk [OF i(1), unfolded i(2) fst_conv snd_conv]
  have files: "cs = [] \<and> sh_fs s' = sh_fs ?s \<or> (\<exists>u. task_step (sh_fs ?s, files t) cs (sh_fs s', u))"
    and own: "fs_inv (sh_fs s') (?log @ cs)" "task_inv (sh_fs s') (?log @ cs) n (files t')"
    and index: "index_ok (?log @ cs) (sh_in s') \<and> knows (?log @ cs) t' \<and> budget_ok budget s' \<and> mt_op t' \<in> {None, mt_op t} \<and>
      (holds_lock t' \<longleftrightarrow> sh_lock s' = Some i) \<and> (\<forall>l. l \<noteq> i \<longrightarrow> (sh_lock s' = Some l \<longleftrightarrow> sh_lock ?s = Some l))"
  proof -
    consider m where "mmap_go ev budget i m ?s t = Some (cs, s', t')"
      | m where "mmap_fail m budget ?s t = Some (s', t')" "cs = []"
      using step by (cases ch) auto
    then have "(cs = [] \<and> sh_fs s' = sh_fs ?s \<or> (\<exists>u. task_step (sh_fs ?s, files t) cs (sh_fs s', u))) \<and>
      fs_inv (sh_fs s') (?log @ cs) \<and> task_inv (sh_fs s') (?log @ cs) n (files t') \<and>
      index_ok (?log @ cs) (sh_in s') \<and> knows (?log @ cs) t' \<and> budget_ok budget s' \<and> mt_op t' \<in> {None, mt_op t} \<and>
      (holds_lock t' \<longleftrightarrow> sh_lock s' = Some i) \<and> (\<forall>l. l \<noteq> i \<longrightarrow> (sh_lock s' = Some l \<longleftrightarrow> sh_lock ?s = Some l))"
    proof cases
      case (1 m)
      show ?thesis
        using go_files [OF 1] go_own_files [OF 1 g(1) ti(1)] go_index [OF 1 g(1,2) ti(2) g(3) ti(3,4)] by blast
    next
      case (2 m)
      show ?thesis
        using fail_files [OF 2(1)] fail_next [OF 2(1) g(2) ti(2) g(3) ti(3,1)] g(1) 2(2) by simp
    qed
    then show "cs = [] \<and> sh_fs s' = sh_fs ?s \<or> (\<exists>u. task_step (sh_fs ?s, files t) cs (sh_fs s', u))"
      "fs_inv (sh_fs s') (?log @ cs)" "task_inv (sh_fs s') (?log @ cs) n (files t')"
      "index_ok (?log @ cs) (sh_in s') \<and> knows (?log @ cs) t' \<and> budget_ok budget s' \<and> mt_op t' \<in> {None, mt_op t} \<and>
      (holds_lock t' \<longleftrightarrow> sh_lock s' = Some i) \<and> (\<forall>l. l \<noteq> i \<longrightarrow> (sh_lock s' = Some l \<longleftrightarrow> sh_lock ?s = Some l))"
      by blast+
  qed
  have other: "task_inv (sh_fs s') (?log @ cs) (fst (?ts ! j)) (files (snd (?ts ! j)))"
    if j: "j < length ?ts" "j \<noteq> i" for j
    using files
  proof
    assume "cs = [] \<and> sh_fs s' = sh_fs ?s"
    then show ?thesis using tk(1) [OF j(1)] by simp
  next
    assume "\<exists>u. task_step (sh_fs ?s, files t) cs (sh_fs s', u)"
    then obtain u where u: "task_step (sh_fs ?s, files t) cs (sh_fs s', u)" by blast
    have "in_flight (files (snd (?ts ! j))) \<noteq> Some (Op_Put k w)" if "in_flight (files t) = Some (Op_Put k v)" for k v w
      using kept_apartD [OF p(2) i(1) j(1), of "Op_Put k v" "Op_Put k w"] files_op [OF that] files_op [of "snd (?ts ! j)" k w]
        i j by (auto simp: apart_def)
    then show ?thesis by (intro other_step [OF u g(1) tk(1) [OF j(1)] ti(1)]) auto
  qed
  show ?thesis
    using own index other tk ti i knows_append by (auto simp: mr_inv_def nth_list_update trans_le_add1)
qed

lemma mr_inv_start:
  assumes "mr_inv budget p" "i < length (mr_tasks p)" "mt_op (snd (mr_tasks p ! i)) = None" "op_key c \<noteq> []"
  shows "mr_inv budget (p\<lparr>mr_tasks := (mr_tasks p)[i := (length (mr_log p), mt_begin c)]\<rparr>)"
proof -
  have "mt_op (mt_begin c) = Some c" "\<not> holds_lock (mt_begin c)" "knows log (mt_begin c)" "task_inv fs log n (files (mt_begin c))"
    for log fs n by (cases c; simp)+
  moreover have "\<not> holds_lock (snd (mr_tasks p ! i))" using assms(3) by (cases "snd (mr_tasks p ! i)") auto
  ultimately show ?thesis using assms by (auto simp: mr_inv_def nth_list_update)
qed

lemma mr_reachable_inv:
  "mmap_race_reachable excl ev budget tasks p \<Longrightarrow> mr_inv budget p \<and> kept_apart excl (mr_tasks p)"
proof (induction rule: mmap_race_reachable.induct)
  case new
  then show ?case by (simp add: mr_inv_new) (simp add: kept_apart_def mmap_race_new_def)
next
  case (turn p u q)
  show ?case
  proof (cases u)
    case (M_Begin i c)
    have "mt_op (mt_begin c) = Some c" by (cases c) auto
    with M_Begin turn show ?thesis
      using mr_inv_start [of budget p i c] kept_apart_start [of excl "mr_tasks p" i c "mt_begin c"] by (auto split: if_splits)
  next
    case (M_Turn i ch)
    obtain n t where t: "mr_tasks p ! i = (n, t)" by fastforce
    with M_Turn turn(2) obtain cs s' t' where s: "i < length (mr_tasks p)" "mmap_next ev budget i ch (mr_sh p) t = Some (cs, s', t')"
        "q = p\<lparr>mr_sh := s', mr_tasks := (mr_tasks p)[i := (n, t')], mr_log := mr_log p @ cs\<rparr>"
      by (auto split: if_splits option.splits)
    show ?thesis
      using mr_inv_next [OF turn(3) [THEN conjunct1] turn(3) [THEN conjunct2] s(1) t s(2)] kept_apart_step [of excl "mr_tasks p" i t' n] turn(3) s t
      by simp
  qed
qed


section \<open>Two races\<close>

text \<open>
  A read maps the old file, a put replaces it and returns, and then the read keeps its old mapping in
  the index.
\<close>

definition stale_turns :: "string \<Rightarrow> u8 list \<Rightarrow> u8 list \<Rightarrow> mmap_turn list" where
  "stale_turns k v w =
     (let put = (\<lambda>x. [M_Turn 0 (Go 0), M_Turn 0 (Go (length x)), M_Turn 0 (Go 0), M_Turn 0 (Go 0), M_Turn 0 (Go 0)]) in
      [M_Begin 0 (Op_Put k v)] @ put v @ [M_Begin 1 (Op_Get k), M_Turn 1 (Go 0), M_Turn 1 (Go 0), M_Turn 0 (Go 0)] @
      [M_Begin 0 (Op_Put k w)] @ put w @ [M_Turn 0 (Go 0), M_Turn 1 (Go 0), M_Begin 0 (Op_Get k), M_Turn 0 (Go 0)])"

lemma stale_run:
  assumes "k \<noteq> []" "v \<noteq> []" "w \<noteq> []"
  shows "\<exists>p. mmap_schedule False Fifo None (stale_turns k v w) (mmap_race_new 2) = Some p \<and>
    mr_tasks p = [(2, Mt_Done (Op_Get k) (Ma_Get (Ok (Some v)))), (1, Mt_Done (Op_Get k) (Ma_Get (Ok (Some v))))] \<and>
    mr_log p = [(k, Some v), (k, Some w)] \<and> race_file (sh_fs (mr_sh p)) (path_for k) = Some w \<and>
    fmlookup (mm_maps (sh_in (mr_sh p))) k = Some v"
  using assms
  by (simp add: stale_turns_def mmap_race_new_def eval_nat_numeral create_file_def write_at_def put_bytes_def rename_file_def
      race_file_def mm_account_put_def mm_insert_ticket_def mm_fresh_stamp_def mm_compact_tickets_def mm_default_def Let_def
      may_start_def apart_def remap_fails_def hm_contains_def)


text \<open>An eviction of a key unlinks the file that a put of it has just renamed into place.\<close>

definition evicted_turns :: "string \<Rightarrow> string \<Rightarrow> u8 \<Rightarrow> u8 \<Rightarrow> u8 \<Rightarrow> u8 \<Rightarrow> mmap_turn list" where
  "evicted_turns k j x y w u =
     (let put = (\<lambda>i n. [M_Turn i (Go 0), M_Turn i (Go n), M_Turn i (Go 0), M_Turn i (Go 0), M_Turn i (Go 0)]) in
      [M_Begin 0 (Op_Put k [x, y])] @ put 0 2 @ [M_Turn 0 (Go 0), M_Turn 0 (Go 0)] @
      [M_Begin 0 (Op_Put k [w])] @ put 0 1 @
      [M_Begin 1 (Op_Put j [u])] @ put 1 1 @ [M_Turn 1 (Go 0), M_Turn 1 (Go 0), M_Turn 1 (Go 0), M_Turn 1 (Go 0)] @
      [M_Turn 0 (Go 0), M_Turn 0 (Go 0)])"

lemma saturating_small: "a \<le> 2 \<Longrightarrow> b \<le> 2 \<Longrightarrow> saturating_add a b = a + b"
  by (simp add: saturating_add_def usize_max_def)

lemma evicted_run:
  assumes "k \<noteq> []" "j \<noteq> []" "k \<noteq> j" "j \<noteq> k"
  shows "\<exists>p. mmap_schedule False Fifo (Some 2) (evicted_turns k j x y w u) (mmap_race_new 2) = Some p \<and>
    map snd (mr_tasks p) = [Mt_Done (Op_Put k [w]) (Ma_Put (Ok [])), Mt_Done (Op_Put j [u]) (Ma_Put (Ok [(k, [x, y])]))] \<and>
    mr_log p = [(k, Some [x, y]), (k, Some [w]), (j, Some [u]), (k, None)] \<and>
    race_file (sh_fs (mr_sh p)) (path_for k) = None \<and> fmlookup (mm_sizes (sh_in (mr_sh p))) k = Some 1"
proof -
  have new: "mmap_race_new 2 = \<lparr>mr_sh = \<lparr>sh_fs = \<lparr>rf_names = fmempty, rf_data = (\<lambda>_. []), rf_next = 0\<rparr>, sh_in = mm_default, sh_lock = None\<rparr>,
      mr_tasks = [(0, Mt_Idle), (0, Mt_Idle)], mr_log = []\<rparr>"
    by (simp add: mmap_race_new_def numeral_2_eq_2)
  show ?thesis
    using assms
    by (simp add: evicted_turns_def new  create_file_def write_at_def put_bytes_def rename_file_def
      unlink_file_def race_file_def mm_account_put_def mm_insert_ticket_def mm_fresh_stamp_def mm_compact_tickets_def mm_default_def
      Let_def may_start_def apart_def remap_fails_def hm_contains_def saturating_small saturating_sub_def mm_pop_oldest_def
      mm_live_def evict_pick_def mm_remove_accounting_def)
qed

section \<open>Properties\<close>

text \<open>
  C15. Under any interleaving of calls, with failures anywhere, and as long as no two puts of one key are
  under way at once: the index stays consistent (every accounted key has a live eviction ticket,
  only accounted keys are mapped, the total is bounded by the sizes), whenever the lock is free the
  accounted bytes are within the budget, and every value that is mapped, read or handed back as
  evicted was put under its key as a whole.
\<close>

theorem mmap_race_consistent:
  assumes "mmap_race_reachable excl ev budget tasks p"
  shows "mm_inv (sh_in (mr_sh p)) \<and>
    (sh_lock (mr_sh p) = None \<longrightarrow> (\<forall>b. budget = Some b \<longrightarrow> mm_total (sh_in (mr_sh p)) \<le> b)) \<and>
    (\<forall>k v. fmlookup (mm_maps (sh_in (mr_sh p))) k = Some v \<longrightarrow> (k, Some v) \<in> set (mr_log p)) \<and>
    (\<forall>n k v. (n, Mt_Done (Op_Get k) (Ma_Get (Ok (Some v)))) \<in> set (mr_tasks p) \<longrightarrow> (k, Some v) \<in> set (mr_log p)) \<and>
    (\<forall>n c out. (n, Mt_Done c (Ma_Put (Ok out))) \<in> set (mr_tasks p) \<longrightarrow> (\<forall>(j, u) \<in> set out. (j, Some u) \<in> set (mr_log p)))"
proof -
  have p: "mr_inv budget p" using mr_reachable_inv [OF assms] by blast
  then have known: "knows (mr_log p) t" if "(n, t) \<in> set (mr_tasks p)" for n t
    using that by (metis in_set_conv_nth mr_inv_def snd_conv)
  have get: "(k, Some v) \<in> set (mr_log p)" if "(n, Mt_Done (Op_Get k) (Ma_Get (Ok (Some v)))) \<in> set (mr_tasks p)" for n k v
    using known [OF that] by simp
  have put: "\<forall>(j, u) \<in> set out. (j, Some u) \<in> set (mr_log p)" if "(n, Mt_Done c (Ma_Put (Ok out))) \<in> set (mr_tasks p)" for n c out
    using known [OF that] by (cases c) auto
  show ?thesis
    using p get put by (intro conjI allI impI) (simp_all add: mr_inv_def index_ok_def budget_ok_def)
qed

theorem mmap_race_consistent_witness:
  "\<exists>p. mmap_schedule False Fifo None (stale_turns ''k'' [1] [2]) (mmap_race_new 2) = Some p \<and>
     mm_inv (sh_in (mr_sh p)) \<and> (''k'', Some [1]) \<in> set (mr_log p)"
proof -
  obtain p where p: "mmap_schedule False Fifo None (stale_turns ''k'' [1] [2]) (mmap_race_new 2) = Some p"
      "fmlookup (mm_maps (sh_in (mr_sh p))) ''k'' = Some [1]"
    using stale_run [of "''k''" "[1]" "[2]"] by blast
  from mmap_race_consistent [OF mmap_schedule_reachable [OF mmap_race_reachable.new p(1)]] p show ?thesis by blast
qed

text \<open>
  C17. A read that overlaps a put makes the tier serve the replaced value for good. The read maps the
  file before the put replaces it and enters its mapping into the index after the put has returned;
  every later read of the key is then answered from that mapping, although the put returned and the
  file holds the new value. Here the last read begins after both puts have returned.
\<close>

theorem mmap_read_keeps_stale:
  "\<exists>p. mmap_race_reachable False Fifo None 2 p \<and>
     mr_tasks p = [(2, Mt_Done (Op_Get (ch # k)) (Ma_Get (Ok (Some (a # v))))),
                   (1, Mt_Done (Op_Get (ch # k)) (Ma_Get (Ok (Some (a # v)))))] \<and>
     mr_log p = [(ch # k, Some (a # v)), (ch # k, Some (b # w))] \<and>
     race_file (sh_fs (mr_sh p)) (path_for (ch # k)) = Some (b # w) \<and>
     fmlookup (mm_maps (sh_in (mr_sh p))) (ch # k) = Some (a # v)"
  using stale_run [of "ch # k" "a # v" "b # w"] mmap_schedule_reachable [OF mmap_race_reachable.new] by fast

text \<open>
  C18. An eviction that overlaps a put of its victim destroys what the put wrote. The put has renamed its
  file into place and waits for the lock; the put of another key evicts the key, hands back the
  replaced value and unlinks the new file; then the first put enters the key into the index and
  returns. Both puts have succeeded and the key is accounted, but its file is gone, so its value is
  lost when the tier is opened again, and it was handed to nobody.
\<close>

theorem mmap_eviction_unlinks_put:
  "\<exists>p. mmap_race_reachable False Fifo (Some 2) 2 p \<and>
     map snd (mr_tasks p) = [Mt_Done (Op_Put (ch # k) [w]) (Ma_Put (Ok [])),
                             Mt_Done (Op_Put (ch # ch # k) [u]) (Ma_Put (Ok [(ch # k, [x, y])]))] \<and>
     mr_log p = [(ch # k, Some [x, y]), (ch # k, Some [w]), (ch # ch # k, Some [u]), (ch # k, None)] \<and>
     race_file (sh_fs (mr_sh p)) (path_for (ch # k)) = None \<and> fmlookup (mm_sizes (sh_in (mr_sh p))) (ch # k) = Some 1"
proof -
  have "ch # k \<noteq> ch # ch # k" "ch # ch # k \<noteq> ch # k" by simp_all
  from evicted_run [OF list.distinct(2) list.distinct(2) this, of x y w u] mmap_schedule_reachable [OF mmap_race_reachable.new]
  show ?thesis by metis
qed

end
