(* ===== verification/Mmap_Linear.thy ===== *)
theory Mmap_Linear
  imports Mmap_Race
begin

text \<open>
  When the callers of an unbounded tier of memory-mapped files keep apart all calls on one key but reads,
  and mapping a file that was just written does not fail, the tier is linearizable: what a mapping in
  the index shows is the value committed last.
\<close>

section \<open>What holds of a key\<close>

text \<open>The answers as answers of the disk tier.\<close>

fun plain :: "mmap_answer \<Rightarrow> disk_answer" where
  "plain (Ma_Put r) = Ans_Put (map_sum id (\<lambda>_. ()) r)"
| "plain (Ma_Get r) = Ans_Get r"
| "plain (Ma_Delete r) = Ans_Delete r"

definition mapped :: "mmap_race \<Rightarrow> string \<Rightarrow> u8 list option" where
  "mapped p k = fmlookup (mm_maps (sh_in (mr_sh p))) k"

text \<open>A put between its rename and its critical section.\<close>

fun half_put :: "string \<Rightarrow> mmap_task \<Rightarrow> bool" where
  "half_put k (Mt_Remap j v) = (j = k)"
| "half_put k (Mt_Commit j v bytes) = (j = k)"
| "half_put k t = False"

fun linear_task :: "commits \<Rightarrow> (string \<Rightarrow> u8 list option) \<Rightarrow> nat \<Rightarrow> mmap_task \<Rightarrow> bool" where
  "linear_task log ms n (Mt_Remap k v) =
     (committed log k = Some v \<and> (\<exists>m. n \<le> m \<and> explains log m (Op_Put k v) (Ans_Put (Ok ()))))"
| "linear_task log ms n (Mt_Commit k v bytes) =
     (bytes = Some v \<and> committed log k = Some v \<and> (\<exists>m. n \<le> m \<and> explains log m (Op_Put k v) (Ans_Put (Ok ()))))"
| "linear_task log ms n (Mt_Keep k bs) = (committed log k = Some bs)"
| "linear_task log ms n (Mt_Unlink k) = (ms k = None)"
| "linear_task log ms n (Mt_Done c a) = (\<exists>m. n \<le> m \<and> explains log m c (plain a))"
| "linear_task log ms n t = True"

definition linear_inv :: "mmap_race \<Rightarrow> bool" where
  "linear_inv p \<longleftrightarrow> sh_lock (mr_sh p) = None \<and>
     (\<forall>k bs. mapped p k = Some bs \<longrightarrow> committed (mr_log p) k = Some bs \<or> (\<exists>t \<in> set (mr_tasks p). half_put k (snd t))) \<and>
     (\<forall>t \<in> set (mr_tasks p). linear_task (mr_log p) (mapped p) (fst t) (snd t))"

lemma half_put_op: "half_put k t \<Longrightarrow> \<exists>v. mt_op t = Some (Op_Put k v)"
  by (cases t) auto

lemma committed_append_other:
  "(\<And>e. e \<in> set cs \<Longrightarrow> fst e \<noteq> k) \<Longrightarrow> committed (log @ cs) k = committed log k"
proof (induction cs rule: rev_induct)
  case (snoc e cs)
  obtain j x where "e = (j, x)" by (cases e)
  with snoc.prems [of e] snoc.IH snoc.prems show ?case by (auto simp flip: append_assoc)
qed simp

text \<open>What a step changes belongs to the key of its call; a read commits nothing.\<close>

lemma go_key:
  assumes "mmap_go ev None i n s t = Some (cs, s', t')" "\<not> holds_lock t"
  shows "\<exists>c. mt_op t = Some c \<and> (\<forall>e \<in> set cs. fst e = op_key c) \<and> (is_get c \<longrightarrow> cs = []) \<and> sh_lock s' = sh_lock s"
  using assms by (cases t) (auto simp: Let_def split: if_splits option.splits prod.splits sum.splits)

lemma go_maps:
  assumes "mmap_go ev None i n s t = Some (cs, s', t')" "mm_inv (sh_in s)" "\<not> holds_lock t"
  shows "\<exists>c. mt_op t = Some c \<and> (\<forall>k. k \<noteq> op_key c \<longrightarrow> fmlookup (mm_maps (sh_in s')) k = fmlookup (mm_maps (sh_in s)) k)"
proof (cases t)
  case (Mt_Commit k v bytes)
  with assms show ?thesis using account_put_fields(3) [OF assms(2), of ev k "length v" bytes]
    by (auto simp: Let_def split: if_splits option.splits)
next
  case (Mt_Probe k)
  with assms show ?thesis using touch_maps [OF assms(2), of k] by (auto split: if_splits option.splits)
next
  case (Mt_Keep k bs)
  have "hm_contains (mm_sizes (sh_in s)) k \<Longrightarrow> mm_inv ((sh_in s)\<lparr>mm_maps := fmupd k bs (mm_maps (sh_in s))\<rparr>)"
    using assms(2) by (auto simp: mm_inv_def tickets_ok_def hm_contains_iff)
  with Mt_Keep assms show ?thesis
    using touch_maps [of "(sh_in s)\<lparr>mm_maps := fmupd k bs (mm_maps (sh_in s))\<rparr>" k] by (auto simp: Let_def split: if_splits)
next
  case (Mt_Forget k)
  have "tickets_ok (snd (mm_remove_accounting k (sh_in s)))" using mm_inv_remove [OF assms(2), of k] by (simp add: mm_inv_def)
  with Mt_Forget assms show ?thesis
    using compact_spec [of "snd (mm_remove_accounting k (sh_in s))"] remove_fields(1) [of k "sh_in s"]
    by (auto simp: same_accounts_def split: if_splits)
qed (use assms in \<open>auto simp: Let_def split: if_splits option.splits prod.splits sum.splits\<close>)


section \<open>Steps keep it\<close>

text \<open>The step of a call, as seen by the call itself.\<close>

definition truthful :: "commits \<Rightarrow> (string \<Rightarrow> u8 list option) \<Rightarrow> string \<Rightarrow> mmap_task \<Rightarrow> bool" where
  "truthful log ms k t \<longleftrightarrow> (\<forall>bs. ms k = Some bs \<longrightarrow> committed log k = Some bs \<or> half_put k t)"

abbreviation maps_of :: "mmap_shared \<Rightarrow> string \<Rightarrow> u8 list option" where
  "maps_of s \<equiv> fmlookup (mm_maps (sh_in s))"

lemma go_linear:
  assumes step: "mmap_go ev None i m s t = Some (cs, s', t')" and t: "\<not> holds_lock t" "mt_op t = Some c" "op_key c \<noteq> []"
    and ivt: "mm_inv (sh_in s)" "fs_inv (sh_fs s) log" "task_inv (sh_fs s) log n (files t)" "n \<le> length log"
    and lin: "linear_task log (maps_of s) n t" "truthful log (maps_of s) (op_key c) t"
  shows "linear_task (log @ cs) (maps_of s') n t' \<and> truthful (log @ cs) (maps_of s') (op_key c) t'"
proof -
  have now: "committed log k = Some bs \<Longrightarrow> \<exists>j\<ge>n. explains log j (Op_Get k) (Ans_Get (Ok (Some bs)))"
    "committed log k = None \<Longrightarrow> \<exists>j\<ge>n. explains log j (Op_Get k) (Ans_Get (Ok None))" for k bs
    using ivt(4) by (auto intro!: exI [of _ "length log"])
  have path: "race_file (sh_fs s) (path_for k) = committed log k" if "k = op_key c" for k
    using fs_invD(3) [OF ivt(2)] t(3) that by blast
  show ?thesis
  proof (cases t)
    case (Mt_Create k v)
    then show ?thesis using step lin t(2) by (auto simp: truthful_def split: prod.splits)
  next
    case (Mt_Write k v f off)
    then show ?thesis using step lin t(2) by (auto simp: truthful_def split: if_splits)
  next
    case (Mt_Rename k v)
    then obtain fs where "rename_file (tmp_name k) (path_for k) (sh_fs s) = (Ok (), fs)"
      using ivt(3) by (auto simp: race_file_def rename_file_def)
    then have "cs = [(k, Some v)]" "t' = Mt_Remap k v" "sh_in s' = sh_in s" using Mt_Rename step by auto
    then show ?thesis using Mt_Rename t(2) ivt(4) by (auto simp: truthful_def intro!: exI [of _ "length log"])
  next
    case (Mt_Remap k v)
    then show ?thesis using step lin t(2) path [of k] by (auto simp: truthful_def)
  next
    case (Mt_Commit k v bytes)
    then have "bytes = Some v" "cs = []" "t' = Mt_Done (Op_Put k v) (Ma_Put (Ok []))" "op_key c = k"
        "sh_in s' = mm_account_put ev k (length v) bytes (sh_in s)"
      using step lin(1) t(2) by (auto simp: Let_def split: if_splits)
    then show ?thesis
      using Mt_Commit lin(1) account_put_fields(3) [OF ivt(1), of ev k "length v" bytes] by (auto simp: truthful_def)
  next
    case (Mt_Probe k)
    then have k: "op_key c = k" using t(2) by auto
    show ?thesis
    proof (cases "maps_of s k")
      case None
      then show ?thesis using Mt_Probe k step by (auto simp: truthful_def split: if_splits)
    next
      case (Some bs)
      then have "cs = []" "t' = Mt_Done (Op_Get k) (Ma_Get (Ok (Some bs)))" "maps_of s' = maps_of s"
        using Mt_Probe step touch_maps [OF ivt(1), of k] by (auto split: if_splits)
      moreover have "committed log k = Some bs" using Some lin(2) Mt_Probe k by (auto simp: truthful_def)
      ultimately show ?thesis using k now(1) [of k bs] Some by (auto simp: truthful_def)
    qed
  next
    case (Mt_Map k)
    then have k: "op_key c = k" using t(2) by auto
    then show ?thesis
      using Mt_Map step lin(2) path [of k] now [of k] by (auto simp: truthful_def split: option.splits)
  next
    case (Mt_Keep k bs)
    then have k: "op_key c = k" "committed log k = Some bs" using t(2) lin(1) by auto
    have "mm_inv ((sh_in s)\<lparr>mm_maps := fmupd k bs (mm_maps (sh_in s))\<rparr>)" if "hm_contains (mm_sizes (sh_in s)) k"
      using ivt(1) that by (auto simp: mm_inv_def tickets_ok_def hm_contains_iff)
    note touch = touch_maps [OF this, of k]
    have "cs = []" "t' = Mt_Done (Op_Get k) (Ma_Get (Ok (Some bs)))"
        "maps_of s' k = maps_of s k \<or> maps_of s' k = Some bs"
      using Mt_Keep step touch by (auto simp: Let_def split: if_splits)
    then show ?thesis using Mt_Keep k lin(2) now(1) [of k bs] by (auto simp: truthful_def)
  next
    case (Mt_Forget k)
    have "tickets_ok (snd (mm_remove_accounting k (sh_in s)))" using mm_inv_remove [OF ivt(1), of k] by (simp add: mm_inv_def)
    then have "maps_of s' k = None" "t' = Mt_Unlink k" "op_key c = k"
      using Mt_Forget step t(2) compact_spec [of "snd (mm_remove_accounting k (sh_in s))"] remove_fields(1) [of k "sh_in s"]
      by (auto simp: same_accounts_def split: if_splits)
    then show ?thesis by (simp add: truthful_def)
  next
    case (Mt_Unlink k)
    then have k: "op_key c = k" "maps_of s k = None" using t(2) lin(1) by auto
    show ?thesis
    proof (cases "fmlookup (rf_names (sh_fs s)) (path_for k)")
      case None
      then have "committed log k = None" using path [of k] k(1) by (simp add: race_file_def)
      then show ?thesis using Mt_Unlink step k ivt(4) None
        by (auto simp: truthful_def unlink_file_def intro!: exI [of _ "length log"])
    next
      case (Some f)
      then have "committed log k \<noteq> None" using path [of k] k(1) by (cases "committed log k") (auto simp: race_file_def)
      then show ?thesis using Mt_Unlink step k ivt(4) Some
        by (auto simp: truthful_def unlink_file_def intro!: exI [of _ "length log"])
    qed
  qed (use t in auto)
qed

lemma plain_fault: "plain (mt_fault c m) = fault_answer c m"
  by (cases c) auto

lemma explains_fault: "explains log j c (fault_answer c m)"
  by (cases c) auto

lemma fail_linear:
  assumes "mmap_fail m None s t = Some (s', t')" "\<not> holds_lock t" "\<not> remap_fails (Fail m) t" "mt_op t = Some c"
    and "truthful log (maps_of s) (op_key c) t"
  shows "s' = s \<and> linear_task log (maps_of s') n t' \<and> truthful log (maps_of s') (op_key c) t'"
proof -
  have "s' = s" "t' = Mt_Done c (mt_fault c m)" "\<not> half_put k t" for k
    using assms(1-4) by (cases t; auto simp: remap_fails_def)+
  then show ?thesis using assms(5) explains_fault [of log _ c m] by (auto simp: truthful_def plain_fault)
qed


text \<open>And as seen by the other calls.\<close>

lemma explained_later:
  "\<exists>m. n \<le> m \<and> explains log m c a \<Longrightarrow> \<exists>m. n \<le> m \<and> explains (log @ cs) m c a"
  using explains_append by blast

lemma mapped_eq: "mapped p = maps_of (mr_sh p)"
  by (simp add: mapped_def fun_eq_iff)

lemma linear_other:
  assumes "linear_task log ms n u" "\<And>e. e \<in> set cs \<Longrightarrow> fst e = k"
    and "\<And>d. mt_op u = Some d \<Longrightarrow> op_key d = k \<Longrightarrow> is_get d \<and> cs = []"
    and "\<And>j. j \<noteq> k \<Longrightarrow> ms' j = ms j"
  shows "linear_task (log @ cs) ms' n u"
proof -
  have same: "committed (log @ cs) j = committed log j" if "j \<noteq> k \<or> cs = []" for j
    using that committed_append_other [of cs j log] assms(2) by fastforce
  show ?thesis
  proof (cases u)
    case (Mt_Remap j v)
    then have "j \<noteq> k" using assms(3) by auto
    then show ?thesis using Mt_Remap assms(1) same [of j] explained_later [of n log "Op_Put j v" _ cs] by (simp del: explains.simps)
  next
    case (Mt_Commit j v bytes)
    then have "j \<noteq> k" using assms(3) by auto
    then show ?thesis using Mt_Commit assms(1) same [of j] explained_later [of n log "Op_Put j v" _ cs] by (simp del: explains.simps)
  next
    case (Mt_Keep j bs)
    then have "j \<noteq> k \<or> cs = []" using assms(3) by auto
    then show ?thesis using Mt_Keep assms(1) same [of j] by auto
  next
    case (Mt_Unlink j)
    then have "j \<noteq> k" using assms(3) by auto
    then show ?thesis using Mt_Unlink assms(1,4) by simp
  next
    case (Mt_Done c a)
    then show ?thesis using assms(1) explained_later [of n log c _ cs] by (simp del: explains.simps)
  qed simp_all
qed

lemma linear_act:
  assumes p: "mr_inv None p" "kept_apart True (mr_tasks p)" "linear_inv p"
    and i: "i < length (mr_tasks p)" "mr_tasks p ! i = (n, t)"
    and step: "mmap_next ev None i ch (mr_sh p) t = Some (cs, s', t')" "\<not> remap_fails ch t"
  shows "linear_inv (p\<lparr>mr_sh := s', mr_tasks := (mr_tasks p)[i := (n, t')], mr_log := mr_log p @ cs\<rparr>)"
proof -
  let ?s = "mr_sh p" and ?log = "mr_log p" and ?ts = "mr_tasks p"
  have g: "mm_inv (sh_in ?s)" "fs_inv (sh_fs ?s) ?log" "task_inv (sh_fs ?s) ?log n (files t)" "n \<le> length ?log"
    "\<not> holds_lock t" "\<And>c. mt_op t = Some c \<Longrightarrow> op_key c \<noteq> []"
    using p(1,3) i by (auto simp: mr_inv_def index_ok_def linear_inv_def)
  have lin: "linear_task ?log (maps_of ?s) m u" if "(m, u) \<in> set ?ts" for m u
    using p(3) that by (fastforce simp: linear_inv_def mapped_eq)
  have t: "(n, t) \<in> set ?ts" using nth_mem [OF i(1)] i(2) by simp
  obtain c where c: "mt_op t = Some c" using step(1) by (cases ch; cases t) auto
  have alone: "is_get c \<and> is_get d" if "j < length ?ts" "j \<noteq> i" "mt_op (snd (?ts ! j)) = Some d" "op_key d = op_key c" for j d
    using kept_apartD [OF p(2) i(1) that(1), of c d] that i(2) c by (auto simp: apart_def)
  have truth: "truthful ?log (maps_of ?s) (op_key c) t"
    unfolding truthful_def
  proof (intro allI impI)
    fix bs
    assume "maps_of ?s (op_key c) = Some bs"
    then consider "committed ?log (op_key c) = Some bs" | u where "u \<in> set ?ts" "half_put (op_key c) (snd u)"
      using p(3) unfolding linear_inv_def mapped_def by blast
    then show "committed ?log (op_key c) = Some bs \<or> half_put (op_key c) t"
    proof cases
      case (2 u)
      then obtain j where j: "j < length ?ts" "?ts ! j = u" by (auto simp: in_set_conv_nth)
      obtain v where "mt_op (snd u) = Some (Op_Put (op_key c) v)" using half_put_op [OF 2(2)] by blast
      then have "j = i" using alone [of j "Op_Put (op_key c) v"] j by auto
      then show ?thesis using 2(2) j i(2) by auto
    qed simp
  qed
  have own: "linear_task (?log @ cs) (maps_of s') n t'" "truthful (?log @ cs) (maps_of s') (op_key c) t'"
    and key: "\<And>e. e \<in> set cs \<Longrightarrow> fst e = op_key c" "is_get c \<Longrightarrow> cs = []" "sh_lock s' = sh_lock ?s"
      "\<And>k. k \<noteq> op_key c \<Longrightarrow> maps_of s' k = maps_of ?s k"
  proof -
    consider m where "mmap_go ev None i m ?s t = Some (cs, s', t')"
      | m where "mmap_fail m None ?s t = Some (s', t')" "cs = []" "ch = Fail m"
      using step(1) by (cases ch) auto
    then have "(linear_task (?log @ cs) (maps_of s') n t' \<and> truthful (?log @ cs) (maps_of s') (op_key c) t') \<and>
      (\<forall>e \<in> set cs. fst e = op_key c) \<and> (is_get c \<longrightarrow> cs = []) \<and> sh_lock s' = sh_lock ?s \<and>
      (\<forall>k. k \<noteq> op_key c \<longrightarrow> maps_of s' k = maps_of ?s k)"
    proof cases
      case (1 m)
      show ?thesis
        using go_linear [OF 1 g(5) c g(6) [OF c] g(1-4) lin [OF t] truth] go_key [OF 1 g(5)] go_maps [OF 1 g(1,5)] c by auto
    next
      case (2 m)
      show ?thesis using fail_linear [OF 2(1) g(5) _ c truth, of n] step(2) 2(2,3) by auto
    qed
    then show "linear_task (?log @ cs) (maps_of s') n t'" "truthful (?log @ cs) (maps_of s') (op_key c) t'"
      "\<And>e. e \<in> set cs \<Longrightarrow> fst e = op_key c" "is_get c \<Longrightarrow> cs = []" "sh_lock s' = sh_lock ?s"
      "\<And>k. k \<noteq> op_key c \<Longrightarrow> maps_of s' k = maps_of ?s k"
      by blast+
  qed
  have other: "linear_task (?log @ cs) (maps_of s') (fst (?ts ! j)) (snd (?ts ! j))" if "j < length ?ts" "j \<noteq> i" for j
    using alone [OF that] key nth_mem [OF that(1)] lin by (intro linear_other [of ?log "maps_of ?s" _ _ cs "op_key c"]) auto
  have tasks: "linear_task (?log @ cs) (maps_of s') (fst u) (snd u)" if u: "u \<in> set (?ts[i := (n, t')])" for u
  proof -
    obtain j where j: "j < length ?ts" "u = ?ts[i := (n, t')] ! j" using u by (auto simp: in_set_conv_nth)
    show ?thesis by (cases "j = i") (use j own(1) other in simp_all)
  qed
  have maps: "committed (?log @ cs) k = Some bs \<or> (\<exists>u \<in> set (?ts[i := (n, t')]). half_put k (snd u))"
    if k: "maps_of s' k = Some bs" for k bs
  proof (cases "k = op_key c")
    case True
    have "(n, t') \<in> set (?ts[i := (n, t')])" using i(1) by (rule set_update_memI)
    then show ?thesis using own(2) k True by (force simp: truthful_def)
  next
    case False
    have same: "committed (?log @ cs) k = committed ?log k" using committed_append_other [of cs k ?log] key(1) False by metis
    have "maps_of ?s k = Some bs" using key(4) [OF False] k by simp
    then consider "committed ?log k = Some bs" | u where "u \<in> set ?ts" "half_put k (snd u)"
      using p(3) unfolding linear_inv_def mapped_def by blast
    then show ?thesis
    proof cases
      case (2 u)
      then obtain j where j: "j < length ?ts" "?ts ! j = u" by (auto simp: in_set_conv_nth)
      have "j \<noteq> i" using half_put_op [OF 2(2)] False c i(2) j by auto
      then have "u \<in> set (?ts[i := (n, t')])" using j by (metis length_list_update nth_list_update_neq nth_mem)
      with 2(2) show ?thesis by blast
    qed (simp add: same)
  qed
  show ?thesis
    using tasks maps key(3) p(3) by (simp add: linear_inv_def mapped_eq)
qed

lemma linear_reachable: "mmap_race_reachable True ev None tasks p \<Longrightarrow> linear_inv p"
proof (induction rule: mmap_race_reachable.induct)
  case new
  then show ?case by (simp add: linear_inv_def mmap_race_new_def mapped_def mm_default_def)
next
  case (turn p u q)
  note ivt = mr_reachable_inv [OF turn(1)]
  show ?case
  proof (cases u)
    case (M_Turn i ch)
    obtain n t where t: "mr_tasks p ! i = (n, t)" by fastforce
    with M_Turn turn(2) obtain cs s' t' where s: "i < length (mr_tasks p)" "mmap_next ev None i ch (mr_sh p) t = Some (cs, s', t')"
        "\<not> remap_fails ch t" "q = p\<lparr>mr_sh := s', mr_tasks := (mr_tasks p)[i := (n, t')], mr_log := mr_log p @ cs\<rparr>"
      by (auto split: if_splits option.splits)
    show ?thesis unfolding s(4) using linear_act [OF ivt [THEN conjunct1] ivt [THEN conjunct2] turn(3) s(1) t s(2,3)] .
  next
    case (M_Begin i c)
    then have i: "i < length (mr_tasks p)" "mt_op (snd (mr_tasks p ! i)) = None"
        "q = p\<lparr>mr_tasks := (mr_tasks p)[i := (length (mr_log p), mt_begin c)]\<rparr>"
      using turn(2) by (auto split: if_splits)
    have "linear_task (mr_log p) (mapped p) m (mt_begin c)" for m by (cases c) auto
    moreover have "t \<in> set (mr_tasks q)" if t: "t \<in> set (mr_tasks p)" "half_put k (snd t)" for t k
    proof -
      obtain j where j: "j < length (mr_tasks p)" "mr_tasks p ! j = t" using t(1) by (auto simp: in_set_conv_nth)
      then have "j \<noteq> i" using half_put_op [OF t(2)] i(2) by auto
      with j i(3) show ?thesis using nth_mem [of j "mr_tasks q"] by simp
    qed
    moreover have "u = (length (mr_log p), mt_begin c) \<or> u \<in> set (mr_tasks p)" if "u \<in> set (mr_tasks q)" for u
      using that i(3) set_update_subset_insert [of "mr_tasks p" i] by auto
    moreover have "mapped q = mapped p" "mr_log q = mr_log p" "mr_sh q = mr_sh p" using i(3) by (simp_all add: mapped_eq)
    ultimately show ?thesis using turn(3) unfolding linear_inv_def by (metis fst_conv snd_conv)
  qed
qed

text \<open>
  C16. An unbounded tier of memory-mapped files is linearizable when its callers keep apart all calls on
  one key but reads, whatever else is interleaved and whatever fails (but for mapping the file that
  a put has just renamed): every answer that is not an input or output error is right for a moment
  between the beginning and the end of its call, the file of every key holds the value committed last,
  and so does the mapping that the index retains of a key that no put has under way.
\<close>

theorem mmap_calls_linearizable:
  assumes "mmap_race_reachable True ev None tasks p"
  shows "(\<forall>k. k \<noteq> [] \<longrightarrow> race_file (sh_fs (mr_sh p)) (path_for k) = committed (mr_log p) k) \<and>
    (\<forall>k bs. fmlookup (mm_maps (sh_in (mr_sh p))) k = Some bs \<longrightarrow> \<not> (\<exists>t \<in> set (mr_tasks p). \<exists>v. mt_op (snd t) = Some (Op_Put k v)) \<longrightarrow>
       committed (mr_log p) k = Some bs) \<and>
    (\<forall>n c a. (n, Mt_Done c a) \<in> set (mr_tasks p) \<longrightarrow> (\<exists>m. n \<le> m \<and> explains (mr_log p) m c (plain a)))"
proof -
  have "fs_inv (sh_fs (mr_sh p)) (mr_log p)" using mr_reachable_inv [OF assms] by (simp add: mr_inv_def)
  moreover have "linear_inv p" by (rule linear_reachable [OF assms])
  moreover have "\<exists>m. n \<le> m \<and> explains (mr_log p) m c (plain a)" if "(n, Mt_Done c a) \<in> set (mr_tasks p)" for n c a
    using calculation(2) that by (fastforce simp: linear_inv_def)
  ultimately show ?thesis using half_put_op by (auto simp: linear_inv_def mapped_def fs_inv_def) metis+
qed


theorem mmap_calls_linearizable_witness:
  "\<exists>p. mmap_schedule True Fifo None
         [M_Begin 0 (Op_Put ''k'' [7, 8]), M_Turn 0 (Go 0), M_Turn 0 (Go 2), M_Turn 0 (Go 0), M_Turn 0 (Go 0), M_Turn 0 (Go 0),
          M_Turn 0 (Go 0), M_Begin 1 (Op_Get ''k''), M_Turn 1 (Go 0)] (mmap_race_new 2) = Some p \<and>
       mr_tasks p = [(0, Mt_Done (Op_Put ''k'' [7, 8]) (Ma_Put (Ok []))), (1, Mt_Done (Op_Get ''k'') (Ma_Get (Ok (Some [7, 8]))))] \<and>
       race_file (sh_fs (mr_sh p)) (path_for ''k'') = Some [7, 8]"
proof -
  let ?us = "[M_Begin 0 (Op_Put ''k'' [7, 8]), M_Turn 0 (Go 0), M_Turn 0 (Go 2), M_Turn 0 (Go 0), M_Turn 0 (Go 0), M_Turn 0 (Go 0),
    M_Turn 0 (Go 0), M_Begin 1 (Op_Get ''k''), M_Turn 1 (Go 0)]"
  have "\<exists>p. mmap_schedule True Fifo None ?us (mmap_race_new 2) = Some p \<and>
      mr_tasks p = [(0, Mt_Done (Op_Put ''k'' [7, 8]) (Ma_Put (Ok []))), (1, Mt_Done (Op_Get ''k'') (Ma_Get (Ok (Some [7, 8]))))] \<and>
      mr_log p = [(''k'', Some [7, 8])]"
    by (simp add: mmap_race_new_def eval_nat_numeral create_file_def write_at_def put_bytes_def rename_file_def
      race_file_def mm_account_put_def mm_insert_ticket_def mm_fresh_stamp_def mm_compact_tickets_def mm_default_def Let_def
      may_start_def apart_def remap_fails_def hm_contains_def)
  then obtain p where p: "mmap_schedule True Fifo None ?us (mmap_race_new 2) = Some p"
      "mr_tasks p = [(0, Mt_Done (Op_Put ''k'' [7, 8]) (Ma_Put (Ok []))), (1, Mt_Done (Op_Get ''k'') (Ma_Get (Ok (Some [7, 8]))))]"
      "mr_log p = [(''k'', Some [7, 8])]" by blast
  from mmap_calls_linearizable [OF mmap_schedule_reachable [OF mmap_race_reachable.new p(1)]]
  have "race_file (sh_fs (mr_sh p)) (path_for ''k'') = committed (mr_log p) ''k''" by simp
  with p show ?thesis by (simp add: committed_def)
qed

end
