(* ===== verification/Rollover_Stack.thy ===== *)
theory Rollover_Stack
  imports Tiered_Cache Slot_Tier Remote_Store Tier_Sum
begin

text \<open>
  The hierarchy of the rollover demo (\<open>rollover-demo/src/main.rs\<close>): a \<open>TieredCache\<close> over the slot store,
  the disk tier and the remote store. Its specification is a bounded queue above two maps: reads are
  served by the first that has the key and fill the queue, writes go to all three, and what the
  queue hands back goes to the first map. Shown: the hierarchy implements it call by call.
\<close>

section \<open>A read of a task alone\<close>

text \<open>
  \<open>TieredCache::get\<close> by the only task of the cache: the steps of \<open>lookup\<close> through the gate, which nobody
  else holds or waits for.
\<close>

definition solo_lookup ::
  "('s, 'k, 'v, 'x) tiered_cache \<Rightarrow> 'k \<Rightarrow>
   (('v, 'x) read_one_report, 'x router_error) result \<times> ('s, 'k, 'v, 'x) tiered_cache"
where
  "solo_lookup c k =
     (let s1 = lookup_call 0 k (cache_start 1 c) :: ('s, 'k, 'v, 'x, unit) cache_sys in
      case sf_tasks (gates_of s1) ! 0 of
        Sf_Acquiring _ g \<Rightarrow>
          (let s2 = lookup_run 0 k g (set_gates (sf_poll 0 k g (gates_of s1)) s1);
               gs = sf_cleanup 0 k g (gates_of s2)
           in case cs_pcs s2 ! 0 of
                Pc_Leave (Looked res) \<Rightarrow>
                  (res, cs_cache (set_gates (gs\<lparr>sf_tasks := (sf_tasks gs)[0 := Sf_Idle]\<rparr>) s2)))
      | _ \<Rightarrow> (case cs_pcs s1 ! 0 of Pc_Done (Looked res) \<Rightarrow> (res, cs_cache s1)))"

definition cache_get ::
  "('s, 'k, 'v, 'x) tiered_cache \<Rightarrow> 'k \<Rightarrow> ('v option, 'x router_error) result \<times> ('s, 'k, 'v, 'x) tiered_cache" where
  "cache_get c k = apfst cache_get_answer (solo_lookup c k)"

definition gates_idle :: "'k single_flight \<Rightarrow> bool" where
  "gates_idle g \<longleftrightarrow> sf_tasks g = [Sf_Idle] \<and> sf_map g = fmempty"

lemma solo_lookup_alone:
  assumes "gates_idle (tc_gates c)" "tc_single_flight c"
  shows "\<exists>g. gates_idle g \<and> solo_lookup c k =
    (fst (router_read_one (tc_router c) k), c\<lparr>tc_router := snd (router_read_one (tc_router c) k), tc_gates := g\<rparr>)"
proof -
  have one: "fmdom (fmupd k n fmempty) = {|k|}" "fmdrop k (fmupd k n fmempty) = fmempty" for n :: nat
    by (auto intro: fmap_ext)
  have filt: "ffilter ((=) k) {|k|} = {|k|}" by auto
  have count: "fcard (ffilter ((=) k) {|k|}) = Suc 0" unfolding filt by (simp add: fcard_finsert_disjoint)
  obtain res r where ro: "router_read_one (tc_router c) k = (res, r)" by fastforce
  let ?gs = "tc_gates c"
  let ?g = "?gs\<lparr>sf_next := Suc (sf_next ?gs), sf_woken := sf_woken ?gs - {0},
      sf_gates := (sf_gates ?gs)(sf_next ?gs := gate_default), sf_map := fmempty, sf_tasks := [Sf_Idle]\<rparr>"
  have "gates_idle ?g" by (simp add: gates_idle_def)
  moreover have "solo_lookup c k = (res, c\<lparr>tc_router := r, tc_gates := ?g\<rparr>)"
    using assms
    by (simp add: solo_lookup_def gates_idle_def lookup_call_def lookup_run_def cache_start_def sf_acquire_def
        sf_poll_def sf_release_def sf_cleanup_def gate_try_acquire_def gate_release_def gate_default_def
        strong_count_def one count ro Let_def set_pc_def set_gates_def set_router_def)
  ultimately show ?thesis by (intro exI [of _ ?g]) (simp add: ro)
qed

lemma cache_get_alone:
  assumes "gates_idle (tc_gates c)" "tc_single_flight c"
  obtains g where "gates_idle g" "cache_get c k =
    (cache_get_answer (fst (router_read_one (tc_router c) k)),
     c\<lparr>tc_router := snd (router_read_one (tc_router c) k), tc_gates := g\<rparr>)"
  using solo_lookup_alone [OF assms, of k] by (auto simp: cache_get_def)


section \<open>The hierarchy\<close>

type_synonym stack_state = "slot_inner + disk + string remote_store"

definition hot_tier :: "(stack_state, string, u8 list, io_error) tier_ops" where
  "hot_tier = left_ops (slot_ops_on id id)"

definition warm_tier :: "(stack_state, string, u8 list, io_error) tier_ops" where
  "warm_tier = right_ops (left_ops (disk_ops_on id))"

definition cold_tier :: "(stack_state, string, u8 list, io_error) tier_ops" where
  "cold_tier = right_ops (right_ops remote_ops)"

type_synonym stack = "(stack_state, string, u8 list, io_error) tiered_cache"

definition stack_cache :: "slot_inner \<Rightarrow> disk \<Rightarrow> string remote_store \<Rightarrow> stack" where
  "stack_cache hot warm cold =
     the (cache_build 1
       (cache_builder_tier id cold_tier (Inr (Inr cold))
         (cache_builder_tier id warm_tier (Inr (Inl warm))
           (cache_builder_tier id hot_tier (Inl hot) cache_builder_new))))"

text \<open>What the slots of the router look like after any number of calls.\<close>

definition stack_tiers ::
  "slot_inner \<Rightarrow> disk \<Rightarrow> string remote_store \<Rightarrow> counters \<Rightarrow> counters \<Rightarrow> counters \<Rightarrow>
   (stack_state, string, u8 list, io_error) slots"
where
  "stack_tiers h w r c0 c1 c2 =
     [\<lparr>slot_ops = adapter id hot_tier, slot_state = Inl h, writable = True, slot_counters = c0\<rparr>,
      \<lparr>slot_ops = adapter id warm_tier, slot_state = Inr (Inl w), writable = True, slot_counters = c1\<rparr>,
      \<lparr>slot_ops = adapter id cold_tier, slot_state = Inr (Inr r), writable = True, slot_counters = c2\<rparr>]"

lemma stack_cache_eq:
  "stack_cache h w r =
     \<lparr>tc_router = \<lparr>rt_tiers = stack_tiers h w r counters_default counters_default counters_default,
                   rt_policy = cache_default_policy\<rparr>, tc_gates = sf_new 1, tc_single_flight = True\<rparr>"
  by (simp add: stack_cache_def cache_build_def cache_builder_tier_def cache_builder_new_def builder_build_def
      builder_tier_def builder_policy_def builder_new_def stack_tiers_def)

section \<open>The specification\<close>

record rollover =
  ro_hot :: "(string \<times> u8 list) list"
  ro_warm :: "string \<rightharpoonup> u8 list"
  ro_cold :: "string \<rightharpoonup> u8 list"
  ro_fetches :: u64

text \<open>Filling the queue: an entry that does not fit a slot is left out.\<close>

definition ro_fill :: "nat \<Rightarrow> nat \<Rightarrow> string \<Rightarrow> u8 list \<Rightarrow> rollover \<Rightarrow> rollover" where
  "ro_fill n sz k v a =
     (if sz < HEADER + length (as_bytes k) + length v then a
      else (let (d, es) = fifo_put n k v (ro_hot a) in a\<lparr>ro_hot := es, ro_warm := ro_warm a ++ pend d\<rparr>))"

definition ro_get :: "nat \<Rightarrow> nat \<Rightarrow> string \<Rightarrow> rollover \<Rightarrow> u8 list option \<times> rollover" where
  "ro_get n sz k a =
     (case map_of (ro_hot a) k of
        Some v \<Rightarrow> (Some v, a)
      | None \<Rightarrow>
          (case ro_warm a k of
             Some v \<Rightarrow> (Some v, ro_fill n sz k v a)
           | None \<Rightarrow>
               (let a1 = a\<lparr>ro_fetches := ro_fetches a + 1\<rparr> in
                case ro_cold a k of
                  Some v \<Rightarrow> (Some v, ro_fill n sz k v a1)
                | None \<Rightarrow> (None, a1))))"

definition ro_put :: "nat \<Rightarrow> nat \<Rightarrow> string \<Rightarrow> u8 list \<Rightarrow> rollover \<Rightarrow> rollover" where
  "ro_put n sz k v a = ro_fill n sz k v (a\<lparr>ro_cold := (ro_cold a)(k \<mapsto> v), ro_warm := (ro_warm a)(k \<mapsto> v)\<rparr>)"

definition ro_delete :: "string \<Rightarrow> rollover \<Rightarrow> bool \<times> rollover" where
  "ro_delete k a =
     (k \<in> fst ` set (ro_hot a) \<or> ro_warm a k \<noteq> None \<or> ro_cold a k \<noteq> None,
      a\<lparr>ro_hot := filter (\<lambda>e. fst e \<noteq> k) (ro_hot a), ro_warm := (ro_warm a)(k := None), ro_cold := (ro_cold a)(k := None)\<rparr>)"

text \<open>The hierarchy stands for a state of the specification.\<close>

definition parts_rel :: "nat \<Rightarrow> nat \<Rightarrow> slot_inner \<Rightarrow> disk \<Rightarrow> string remote_store \<Rightarrow> rollover \<Rightarrow> bool" where
  "parts_rel n sz h w r a \<longleftrightarrow>
     slot_tidy n h \<and> sl_size h = sz \<and> slot_entries h = ro_hot a \<and> [] \<notin> fst ` set (ro_hot a) \<and>
     dk_faults w = [] \<and> disk_contents w = ro_warm a \<and> fmlookup (rs_data r) = ro_cold a \<and> rs_fetches r = ro_fetches a"

definition stack_rel :: "nat \<Rightarrow> nat \<Rightarrow> stack \<Rightarrow> rollover \<Rightarrow> bool" where
  "stack_rel n sz c a \<longleftrightarrow>
     gates_idle (tc_gates c) \<and> tc_single_flight c \<and> rt_policy (tc_router c) = cache_default_policy \<and>
     (\<exists>h w r c0 c1 c2. rt_tiers (tc_router c) = stack_tiers h w r c0 c1 c2 \<and> parts_rel n sz h w r a)"

lemma stack_relI:
  assumes "gates_idle (tc_gates c)" "tc_single_flight c" "parts_rel n sz h w r a"
    and "tc_router c = \<lparr>rt_tiers = stack_tiers h w r c0 c1 c2, rt_policy = cache_default_policy\<rparr>"
  shows "stack_rel n sz c a"
proof -
  have "rt_tiers (tc_router c) = stack_tiers h w r c0 c1 c2" "rt_policy (tc_router c) = cache_default_policy"
    using assms(4) by simp_all
  with assms(1-3) show ?thesis unfolding stack_rel_def by blast
qed

text \<open>The calls of the three tiers.\<close>

lemma hot_reads:
  assumes "slot_tidy n h"
  shows "t_get_many (slot_ops_on id id) h [k] = (Ok [map_of (slot_entries h) k], h)"
    "t_get (slot_ops_on id id) h k = (Ok (map_of (slot_entries h) k), h)"
  using slot_fetch_eq [OF slot_tidy_inv [OF assms]] map_of_slot_entries [OF slot_tidy_inv [OF assms]]
  by (simp_all add: slot_ops_on_def Let_def)

lemma hot_put:
  assumes "slot_tidy n h" "0 < n" "utf8_valid (as_bytes k)" "sl_size h \<le> 2 ^ 16"
  obtains r h' where "t_put (slot_ops_on id id) h k v = (r, h')" "t_put_many (slot_ops_on id id) h [(k, v)] = (r, h')"
    "slot_tidy n h'" "sl_size h' = sl_size h"
    "if sl_size h < HEADER + length (as_bytes k) + length v then r = Err Invalid_Input \<and> h' = h
     else \<exists>d. r = Ok d \<and> fifo_put n k v (slot_entries h) = (d, slot_entries h')"
proof (cases "sl_size h < HEADER + length (as_bytes k) + length v")
  case True
  then have i: "slot_insert k v h = Some (Err Invalid_Input, h)" by (simp add: slot_insert_def slot_fits_def)
  show thesis by (rule that [of "Err Invalid_Input" h]) (use True assms(1) i in \<open>simp_all add: slot_ops_on_def Let_def\<close>)
next
  case False
  then have fits: "slot_fits k v h = Ok ()" "length (as_bytes k) < 2 ^ 16" "length v < 2 ^ 32"
    using assms(4) by (simp_all add: slot_fits_def HEADER_def)
  obtain d h' where i: "slot_insert k v h = Some (Ok d, h')" "slot_tidy n h'" "sl_size h' = sl_size h"
      "fifo_put n k v (slot_entries h) = (d, slot_entries h')"
    by (rule slot_insert_fifo [OF assms(1) fits(2,3,1) assms(3,2)])
  show thesis
    by (rule that [of "Ok d" h']) (use False i in \<open>simp_all add: slot_ops_on_def Let_def apfst_def map_prod_def\<close>)
qed

lemma warm_reads:
  assumes "dk_faults w = []" "k \<noteq> []"
  shows "t_get_many (disk_ops_on id) w [k] = (Ok [disk_contents w k], w)"
  using assms by (simp add: disk_ops_on_def sound_get)

lemma warm_put:
  assumes "dk_faults w = []" "k \<noteq> []"
  obtains w' where "t_put (disk_ops_on id) w k v = (Ok [], w')" "dk_faults w' = []"
    "disk_contents w' = (disk_contents w)(k \<mapsto> v)"
proof -
  obtain w' where w': "disk_put w k v = (Ok [] :: ((string, u8 list) displaced, io_error) result, w')" "dk_faults w' = []"
    using sound_put [OF assms] by blast
  then show thesis using that disk_put_spec [of w k v, where 'a = string] by (simp add: disk_ops_on_def)
qed

lemma warm_delete:
  assumes "dk_faults w = []" "k \<noteq> []"
  obtains w' where "t_delete (disk_ops_on id) w k = (Ok (disk_contents w k \<noteq> None), w')" "dk_faults w' = []"
    "disk_contents w' = (disk_contents w)(k := None)"
proof -
  obtain b w' where w': "disk_delete w k = (Ok b, w')" "dk_faults w' = []" using sound_delete [OF assms] by blast
  then show thesis using that disk_delete_spec(1) [of w k b] by (simp add: disk_ops_on_def)
qed

lemma hot_delete:
  assumes "slot_tidy n h"
  obtains h' where "t_delete (slot_ops_on id id) h k = (Ok (k \<in> fst ` set (slot_entries h)), h')" "slot_tidy n h'"
    "slot_entries h' = filter (\<lambda>e. fst e \<noteq> k) (slot_entries h)" "sl_size h' = sl_size h"
proof -
  obtain t where t: "slot_remove k h = Some (k \<in> fst ` set (slot_entries h), t)" "slot_tidy n t" "sl_size t = sl_size h"
      "slot_entries t = filter (\<lambda>e. fst e \<noteq> k) (slot_entries h)"
    by (rule slot_remove_fifo [OF assms])
  show thesis by (rule that [of t]) (use t in \<open>simp_all add: slot_ops_on_def Let_def\<close>)
qed

section \<open>The hierarchy implements the specification\<close>

text \<open>The queue hands back at most one entry, which demotion puts into the disk tier.\<close>

lemma fifo_put_short: "fifo_put n k v es = (d, es') \<Longrightarrow> d = [] \<or> (\<exists>e. d = [e] \<and> e \<in> set es)"
  by (cases es) (auto simp: fifo_put_def split: if_splits)

lemma fifo_put_keys: "fifo_put n k v es = (d, es') \<Longrightarrow> fst ` set es' \<subseteq> insert k (fst ` set es)"
  by (fastforce simp: fifo_put_def image_iff split: if_splits dest: in_set_dropD)

lemma demote_hot:
  assumes "dk_faults w = []" "d = [] \<or> (\<exists>j u. d = [(j, u)] \<and> j \<noteq> [])"
  obtains w' c1' where "demote 0 d (stack_tiers h w r c0 c1 c2) = ([], stack_tiers h w' r c0 c1' c2)" "dk_faults w' = []"
    "disk_contents w' = disk_contents w ++ pend d"
proof -
  consider "d = []" | j u where "d = [(j, u)]" "j \<noteq> []" using assms(2) by blast
  then show thesis
  proof cases
    case 1
    show thesis by (rule that [of w c1]) (use 1 assms(1) in \<open>simp_all add: demote_def upt_rec stack_tiers_def\<close>)
  next
    case (2 j u)
    obtain w' where w': "t_put (disk_ops_on id) w j u = (Ok [], w')" "dk_faults w' = []"
        "disk_contents w' = (disk_contents w)(j \<mapsto> u)"
      by (rule warm_put [OF assms(1) 2(2)])
    show thesis
      by (rule that [of w' "counter_add Puts 1 c1"])
         (use 2 w' in \<open>simp_all add: demote_def upt_rec stack_tiers_def call_def bump_def warm_tier_def\<close>)
  qed
qed

lemma fill_hot:
  assumes rel: "parts_rel n sz h w r a" and "0 < n" "sz \<le> 2 ^ 16" "k \<noteq> []" "utf8_valid (as_bytes k)"
  obtains h' w' c0' c1' where
    "fill_one cache_default_policy (\<lambda>t s. t_put_many t s [(k, v)]) (Suc 0) 0 (stack_tiers h w r c0 c1 c2) =
       stack_tiers h' w' r c0' c1' c2" "parts_rel n sz h' w' r (ro_fill n sz k v a)"
proof -
  have p: "slot_tidy n h" "sl_size h = sz" "slot_entries h = ro_hot a" "[] \<notin> fst ` set (ro_hot a)" "dk_faults w = []"
    using rel by (simp_all add: parts_rel_def)
  obtain x h' where hp: "t_put_many (slot_ops_on id id) h [(k, v)] = (x, h')" "slot_tidy n h'" "sl_size h' = sl_size h"
    "if sl_size h < HEADER + length (as_bytes k) + length v then x = Err Invalid_Input \<and> h' = h
     else \<exists>d. x = Ok d \<and> fifo_put n k v (slot_entries h) = (d, slot_entries h')"
    by (rule hot_put [OF p(1) assms(2,5), of v]) (use p(2) assms(3) in auto)
  show thesis
  proof (cases "sz < HEADER + length (as_bytes k) + length v")
    case True
    show thesis
      by (rule that [of h w "counter_add Errors 1 c0" c1])
         (use True hp p rel in \<open>simp_all add: fill_one_def stack_tiers_def call_def bump_def hot_tier_def ro_fill_def\<close>)
  next
    case False
    then obtain d where d: "x = Ok d" "fifo_put n k v (ro_hot a) = (d, slot_entries h')" using hp(4) p by auto
    have one: "d = [] \<or> (\<exists>j u. d = [(j, u)] \<and> j \<noteq> [])" using fifo_put_short [OF d(2)] p(4) by force
    let ?c0 = "counter_add Puts 1 c0"
    obtain w' c1' where w': "demote 0 d (stack_tiers h' w r ?c0 c1 c2) = ([], stack_tiers h' w' r ?c0 c1' c2)"
        "dk_faults w' = []" "disk_contents w' = disk_contents w ++ pend d"
      by (rule demote_hot [OF p(5) one])
    have call: "call 0 (\<lambda>t s. t_put_many t s [(k, v)]) (stack_tiers h w r c0 c1 c2) = (Ok d, stack_tiers h' w r c0 c1 c2)"
      "bump 0 Puts (Suc 0) (stack_tiers h' w r c0 c1 c2) = stack_tiers h' w r ?c0 c1 c2"
      using hp(1) d(1) by (simp_all add: stack_tiers_def call_def bump_def hot_tier_def)
    have keys: "[] \<notin> fst ` set (slot_entries h')" using fifo_put_keys [OF d(2)] p(4) assms(4) by auto
    have "parts_rel n sz h' w' r (ro_fill n sz k v a)"
      using False rel hp(2,3) w'(2,3) d(2) keys by (simp add: parts_rel_def ro_fill_def)
    moreover have "snd (demote 0 d (stack_tiers h' w r ?c0 c1 c2)) = stack_tiers h' w' r ?c0 c1' c2" using w'(1) by simp
    moreover have "demote 0 [] (stack_tiers h' w r ?c0 c1 c2) = ([], stack_tiers h' w r ?c0 c1 c2)"
      by (simp add: demote_def stack_tiers_def upt_rec)
    moreover have "writable (stack_tiers h w r c0 c1 c2 ! 0)" by (simp add: stack_tiers_def)
    ultimately show thesis
      using call by (intro that [of h' w' ?c0 c1'], cases "d = []") (simp_all add: fill_one_def cache_default_policy_def Let_def)
  qed
qed


lemma stack_bump [simp]:
  "bump 0 c m (stack_tiers h w r c0 c1 c2) = stack_tiers h w r (counter_add c (of_nat m) c0) c1 c2"
  "bump (Suc 0) c m (stack_tiers h w r c0 c1 c2) = stack_tiers h w r c0 (counter_add c (of_nat m) c1) c2"
  "bump (Suc (Suc 0)) c m (stack_tiers h w r c0 c1 c2) = stack_tiers h w r c0 c1 (counter_add c (of_nat m) c2)"
  by (simp_all add: bump_def stack_tiers_def numeral_2_eq_2)

lemma stack_shape [simp]:
  "length (stack_tiers h w r c0 c1 c2) = 3" "[0..<3] = [0, Suc 0, Suc (Suc 0)]" "replicate 3 x = [x, x, x]"
  "list_ex writable (stack_tiers h w r c0 c1 c2)" "writable (stack_tiers h w r c0 c1 c2 ! 0)"
  "writable (stack_tiers h w r c0 c1 c2 ! Suc 0)" "writable (stack_tiers h w r c0 c1 c2 ! Suc (Suc 0))"
  by (simp_all add: stack_tiers_def upt_rec numeral_3_eq_3)

lemma stack_reads:
  assumes "parts_rel n sz h w r a" "k \<noteq> []"
  shows "call 0 (\<lambda>t s. t_get_many t s [k]) (stack_tiers h w r c0 c1 c2) =
      (Ok [map_of (ro_hot a) k], stack_tiers h w r c0 c1 c2)"
    "call (Suc 0) (\<lambda>t s. t_get_many t s [k]) (stack_tiers h w r c0 c1 c2) =
      (Ok [ro_warm a k], stack_tiers h w r c0 c1 c2)"
    "call (Suc (Suc 0)) (\<lambda>t s. t_get_many t s [k]) (stack_tiers h w r c0 c1 c2) =
      (Ok [ro_cold a k], stack_tiers h w (r\<lparr>rs_fetches := rs_fetches r + 1\<rparr>) c0 c1 c2)"
  using assms hot_reads(1) [of n h k] warm_reads [of w k]
  by (simp_all add: call_def stack_tiers_def hot_tier_def warm_tier_def cold_tier_def parts_rel_def numeral_2_eq_2
      remote_ops_def remote_get_def Let_def)

lemma default_policy_simps [simp]:
  "rp_promote (pol_read cache_default_policy) = TopOnly" "rp_on_error (pol_read cache_default_policy) = FallThrough"
  "pol_write cache_default_policy = WriteThrough" "pol_on_write_error cache_default_policy = BestEffort"
  "pol_demote_displaced cache_default_policy"
  by (simp_all add: cache_default_policy_def)

lemma stack_read_one:
  assumes rel: "parts_rel n sz h w r a" and ok: "0 < n" "sz \<le> 2 ^ 16" "k \<noteq> []" "utf8_valid (as_bytes k)"
  shows "\<exists>x h' w' r' c0' c1' c2'.
    router_read_one \<lparr>rt_tiers = stack_tiers h w r c0 c1 c2, rt_policy = cache_default_policy\<rparr> k =
      (Ok x, \<lparr>rt_tiers = stack_tiers h' w' r' c0' c1' c2', rt_policy = cache_default_policy\<rparr>) \<and>
    cache_get_answer (Ok x) = Ok (fst (ro_get n sz k a)) \<and> parts_rel n sz h' w' r' (snd (ro_get n sz k a))"
proof -
  note reads = stack_reads [OF rel ok(3)]
  note defs = router_read_one_def router_read_many_def promote_batch_def ro_get_def reads Let_def
  have fill: "\<exists>h' w' c0' c1'. fill_one cache_default_policy (\<lambda>t s. t_put_many t s [(k, v)]) (Suc 0) 0
      (stack_tiers h w r'' d0 d1 d2) = stack_tiers h' w' r'' c0' c1' d2 \<and> parts_rel n sz h' w' r'' (ro_fill n sz k v a')"
    if "parts_rel n sz h w r'' a'" for v r'' a' d0 d1 d2
    using fill_hot [OF that ok] by metis
  show ?thesis
  proof (cases "map_of (ro_hot a) k")
    case (Some v)
    then show ?thesis using rel by (simp add: defs) blast
  next
    case None
    note hot = None
    show ?thesis
    proof (cases "ro_warm a k")
      case (Some v)
      with hot show ?thesis using fill [OF rel, of v] by (simp add: defs) blast
    next
      case None
      let ?r = "r\<lparr>rs_fetches := rs_fetches r + 1\<rparr>" and ?a = "a\<lparr>ro_fetches := ro_fetches a + 1\<rparr>"
      have rel': "parts_rel n sz h w ?r ?a" using rel by (simp add: parts_rel_def)
      show ?thesis
      proof (cases "ro_cold a k")
        case (Some v)
        with hot None show ?thesis using fill [OF rel', of v] by (simp add: defs) blast
      next
        case None
        with hot \<open>ro_warm a k = None\<close> show ?thesis using rel' by (simp add: defs) blast
      qed
    qed
  qed
qed


text \<open>A put writes the remote store and the disk, then the slot store, which may hand back an entry.\<close>

lemma stack_put:
  assumes rel: "parts_rel n sz h w r a" and ok: "0 < n" "sz \<le> 2 ^ 16" "k \<noteq> []" "utf8_valid (as_bytes k)"
  shows "\<exists>h' w' r' c0' c1' c2'.
    router_put \<lparr>rt_tiers = stack_tiers h w r c0 c1 c2, rt_policy = cache_default_policy\<rparr> k v =
      (Ok [], \<lparr>rt_tiers = stack_tiers h' w' r' c0' c1' c2', rt_policy = cache_default_policy\<rparr>) \<and>
    parts_rel n sz h' w' r' (ro_put n sz k v a)"
proof -
  have p: "slot_tidy n h" "sl_size h = sz" "slot_entries h = ro_hot a" "[] \<notin> fst ` set (ro_hot a)" "dk_faults w = []"
    using rel by (simp_all add: parts_rel_def)
  let ?r = "r\<lparr>rs_data := fmupd k v (rs_data r)\<rparr>"
  let ?a = "a\<lparr>ro_cold := (ro_cold a)(k \<mapsto> v), ro_warm := (ro_warm a)(k \<mapsto> v)\<rparr>"
  obtain w1 where w1: "t_put (disk_ops_on id) w k v = (Ok [], w1)" "dk_faults w1 = []"
      "disk_contents w1 = (disk_contents w)(k \<mapsto> v)"
    by (rule warm_put [OF p(5) ok(3)])
  have rel1: "parts_rel n sz h w1 ?r ?a" using rel w1 by (auto simp: parts_rel_def fun_eq_iff)
  have cold: "call (Suc (Suc 0)) (\<lambda>t s. t_put t s k v) (stack_tiers h w r d0 d1 d2) = (Ok [], stack_tiers h w ?r d0 d1 d2)" for d0 d1 d2
    by (simp add: call_def stack_tiers_def cold_tier_def remote_ops_def remote_put_def)
  have warm: "call (Suc 0) (\<lambda>t s. t_put t s k v) (stack_tiers h w ?r d0 d1 d2) = (Ok [], stack_tiers h w1 ?r d0 d1 d2)" for d0 d1 d2
    using w1(1) by (simp add: call_def stack_tiers_def warm_tier_def)
  obtain x h' where hp: "t_put (slot_ops_on id id) h k v = (x, h')" "slot_tidy n h'" "sl_size h' = sl_size h"
    "if sl_size h < HEADER + length (as_bytes k) + length v then x = Err Invalid_Input \<and> h' = h
     else \<exists>d. x = Ok d \<and> fifo_put n k v (slot_entries h) = (d, slot_entries h')"
    by (rule hot_put [OF p(1) ok(1,4), of v]) (use p(2) ok(2) in auto)
  have hot: "call 0 (\<lambda>t s. t_put t s k v) (stack_tiers h w1 ?r d0 d1 d2) = (x, stack_tiers h' w1 ?r d0 d1 d2)" for d0 d1 d2
    using hp(1) by (cases x) (simp_all add: call_def stack_tiers_def hot_tier_def)
  note defs = router_put_def write_through_def cold warm hot Let_def
  show ?thesis
  proof (cases "sz < HEADER + length (as_bytes k) + length v")
    case True
    then show ?thesis using hp(4) p(2) rel1 by (simp add: defs ro_put_def ro_fill_def) blast
  next
    case False
    then obtain d where d: "x = Ok d" "fifo_put n k v (ro_hot a) = (d, slot_entries h')" using hp(4) p by auto
    have one: "d = [] \<or> (\<exists>j u. d = [(j, u)] \<and> j \<noteq> [])" using fifo_put_short [OF d(2)] p(4) by force
    have keys: "[] \<notin> fst ` set (slot_entries h')" using fifo_put_keys [OF d(2)] p(4) ok(3) by auto
    have dem: "\<exists>w' c1'. demote 0 d (stack_tiers h' w1 ?r d0 d1 d2) = ([], stack_tiers h' w' ?r d0 c1' d2) \<and>
        dk_faults w' = [] \<and> disk_contents w' = disk_contents w1 ++ pend d" for d0 d1 d2
      using demote_hot [OF w1(2) one] by metis
    have fin: "parts_rel n sz h' w' ?r (ro_put n sz k v a)"
      if "dk_faults w' = []" "disk_contents w' = disk_contents w1 ++ pend d" for w'
      using False rel rel1 hp(2,3) d(2) keys that by (simp add: parts_rel_def ro_put_def ro_fill_def)
    show ?thesis
    proof (cases "d = []")
      case True
      with fin [OF w1(2)] d(1) show ?thesis by (simp add: defs) blast
    next
      case nonempty: False
      obtain w' c1' where "demote 0 d (stack_tiers h' w1 ?r (c0\<lparr>c_puts := c_puts c0 + 1\<rparr>) (c1\<lparr>c_puts := c_puts c1 + 1\<rparr>)
          (c2\<lparr>c_puts := c_puts c2 + 1\<rparr>)) = ([], stack_tiers h' w' ?r (c0\<lparr>c_puts := c_puts c0 + 1\<rparr>) c1' (c2\<lparr>c_puts := c_puts c2 + 1\<rparr>))"
          "dk_faults w' = []" "disk_contents w' = disk_contents w1 ++ pend d"
        using dem by metis
      with d(1) nonempty fin show ?thesis by (simp add: defs) blast
    qed
  qed
qed

lemma stack_delete:
  assumes rel: "parts_rel n sz h w r a" and "k \<noteq> []"
  shows "\<exists>h' w' r' c0' c1' c2'.
    router_delete \<lparr>rt_tiers = stack_tiers h w r c0 c1 c2, rt_policy = cache_default_policy\<rparr> k =
      (Ok (fst (ro_delete k a)), \<lparr>rt_tiers = stack_tiers h' w' r' c0' c1' c2', rt_policy = cache_default_policy\<rparr>) \<and>
    parts_rel n sz h' w' r' (snd (ro_delete k a))"
proof -
  have p: "slot_tidy n h" "dk_faults w = []" "slot_entries h = ro_hot a" "disk_contents w = ro_warm a" "fmlookup (rs_data r) = ro_cold a"
    using rel by (simp_all add: parts_rel_def)
  obtain h' where h': "t_delete (slot_ops_on id id) h k = (Ok (k \<in> fst ` set (slot_entries h)), h')" "slot_tidy n h'"
      "slot_entries h' = filter (\<lambda>e. fst e \<noteq> k) (slot_entries h)" "sl_size h' = sl_size h"
    by (rule hot_delete [OF p(1)])
  obtain w' where w': "t_delete (disk_ops_on id) w k = (Ok (disk_contents w k \<noteq> None), w')" "dk_faults w' = []"
      "disk_contents w' = (disk_contents w)(k := None)"
    by (rule warm_delete [OF p(2) assms(2)])
  let ?r = "r\<lparr>rs_data := fmdrop k (rs_data r)\<rparr>"
  have hot: "call 0 (\<lambda>t s. t_delete t s k) (stack_tiers h w r d0 d1 d2) =
      (Ok (k \<in> fst ` set (ro_hot a)), stack_tiers h' w r d0 d1 d2)" for d0 d1 d2
    using h'(1) p(3) by (simp add: call_def stack_tiers_def hot_tier_def)
  have warm: "call (Suc 0) (\<lambda>t s. t_delete t s k) (stack_tiers h' w r d0 d1 d2) =
      (Ok (ro_warm a k \<noteq> None), stack_tiers h' w' r d0 d1 d2)" for d0 d1 d2
    using w'(1) p(4) by (simp add: call_def stack_tiers_def warm_tier_def)
  have cold: "call (Suc (Suc 0)) (\<lambda>t s. t_delete t s k) (stack_tiers h' w' r d0 d1 d2) =
      (Ok (ro_cold a k \<noteq> None), stack_tiers h' w' ?r d0 d1 d2)" for d0 d1 d2
    using p(5) by (simp add: call_def stack_tiers_def cold_tier_def remote_ops_def remote_delete_def hm_contains_iff fmlookup_dom_iff)
  have "parts_rel n sz h' w' ?r (snd (ro_delete k a))"
    using rel h' w' by (auto simp: parts_rel_def ro_delete_def fun_eq_iff)
  then show ?thesis by (simp add: router_delete_def hot warm cold ro_delete_def) blast
qed

end
