(* ===== verification/Rollover_Runs.thy ===== *)
theory Rollover_Runs
  imports Rollover_Stack
begin

text \<open>
  Sequences of calls on the hierarchy of the rollover demo: they are answered as its specification
  answers them, and, as long as every value put fits a slot, as one map answers them; a put that
  does not fit leaves an older value above the one it writes.
\<close>

section \<open>Runs\<close>

datatype stack_call = Call_Get string | Call_Put string "u8 list" | Call_Invalidate string

datatype stack_answer =
    Value "(u8 list option, io_error router_error) result"
  | Evicted "((string, u8 list) displaced, io_error router_error) result"
  | Removed "(bool, io_error router_error) result"

fun stack_do :: "stack_call \<Rightarrow> stack \<Rightarrow> stack_answer \<times> stack" where
  "stack_do (Call_Get k) c = apfst Value (cache_get c k)"
| "stack_do (Call_Put k v) c = apfst Evicted (cache_put c k v)"
| "stack_do (Call_Invalidate k) c = apfst Removed (cache_invalidate c k)"

fun ro_do :: "nat \<Rightarrow> nat \<Rightarrow> stack_call \<Rightarrow> rollover \<Rightarrow> stack_answer \<times> rollover" where
  "ro_do n sz (Call_Get k) a = apfst (\<lambda>x. Value (Ok x)) (ro_get n sz k a)"
| "ro_do n sz (Call_Put k v) a = (Evicted (Ok []), ro_put n sz k v a)"
| "ro_do n sz (Call_Invalidate k) a = apfst (\<lambda>b. Removed (Ok b)) (ro_delete k a)"

fun run_calls :: "(stack_call \<Rightarrow> 's \<Rightarrow> stack_answer \<times> 's) \<Rightarrow> stack_call list \<Rightarrow> 's \<Rightarrow> stack_answer list \<times> 's" where
  "run_calls f [] s = ([], s)"
| "run_calls f (c # cs) s = (let (x, s1) = f c s; (xs, s2) = run_calls f cs s1 in (x # xs, s2))"

fun call_key :: "stack_call \<Rightarrow> string" where
  "call_key (Call_Get k) = k"
| "call_key (Call_Put k v) = k"
| "call_key (Call_Invalidate k) = k"

text \<open>The keys a file system and a Rust string allow.\<close>

definition stack_key :: "string \<Rightarrow> bool" where
  "stack_key k \<longleftrightarrow> k \<noteq> [] \<and> utf8_valid (as_bytes k)"

lemma stack_do_rel:
  assumes "stack_rel n sz c a" "0 < n" "sz \<le> 2 ^ 16" "stack_key (call_key q)"
  shows "fst (stack_do q c) = fst (ro_do n sz q a) \<and> stack_rel n sz (snd (stack_do q c)) (snd (ro_do n sz q a))"
proof -
  obtain h w r c0 c1 c2 where t: "tc_router c = \<lparr>rt_tiers = stack_tiers h w r c0 c1 c2, rt_policy = cache_default_policy\<rparr>"
      "parts_rel n sz h w r a" "gates_idle (tc_gates c)" "tc_single_flight c"
    using assms(1) unfolding stack_rel_def by (metis router.surjective unit.exhaust)
  show ?thesis
  proof (cases q)
    case (Call_Get k)
    then have ok: "k \<noteq> []" "utf8_valid (as_bytes k)" using assms(4) by (simp_all add: stack_key_def)
    obtain g where g: "gates_idle g" "cache_get c k = (cache_get_answer (fst (router_read_one (tc_router c) k)),
        c\<lparr>tc_router := snd (router_read_one (tc_router c) k), tc_gates := g\<rparr>)"
      by (rule cache_get_alone [OF t(3,4)])
    obtain x h' w' r' c0' c1' c2' where "router_read_one (tc_router c) k =
        (Ok x, \<lparr>rt_tiers = stack_tiers h' w' r' c0' c1' c2', rt_policy = cache_default_policy\<rparr>)"
        "cache_get_answer (Ok x) = Ok (fst (ro_get n sz k a))" "parts_rel n sz h' w' r' (snd (ro_get n sz k a))"
      using stack_read_one [OF t(2) assms(2,3) ok] t(1) by metis
    then show ?thesis using Call_Get g t(4) by (auto intro: stack_relI)
  next
    case (Call_Put k v)
    then have ok: "k \<noteq> []" "utf8_valid (as_bytes k)" using assms(4) by (simp_all add: stack_key_def)
    from stack_put [OF t(2) assms(2,3) ok, of c0 c1 c2 v] show ?thesis
      using Call_Put t by (auto simp: cache_put_def re_cache_def intro: stack_relI)
  next
    case (Call_Invalidate k)
    then have "k \<noteq> []" using assms(4) by (simp add: stack_key_def)
    from stack_delete [OF t(2) this, of c0 c1 c2] show ?thesis
      using Call_Invalidate t by (auto simp: cache_invalidate_def re_cache_def intro: stack_relI)
  qed
qed

lemma run_calls_rel:
  assumes "stack_rel n sz c a" "0 < n" "sz \<le> 2 ^ 16" "\<forall>q \<in> set qs. stack_key (call_key q)"
  shows "fst (run_calls stack_do qs c) = fst (run_calls (ro_do n sz) qs a) \<and>
    stack_rel n sz (snd (run_calls stack_do qs c)) (snd (run_calls (ro_do n sz) qs a))"
  using assms(1,4)
proof (induction qs arbitrary: c a)
  case (Cons q qs)
  then have "stack_key (call_key q)" by simp
  note one = stack_do_rel [OF Cons.prems(1) assms(2,3) this]
  obtain x c1 where c1: "stack_do q c = (x, c1)" by fastforce
  obtain y a1 where a1: "ro_do n sz q a = (y, a1)" by fastforce
  have "fst (run_calls stack_do qs c1) = fst (run_calls (ro_do n sz) qs a1) \<and>
      stack_rel n sz (snd (run_calls stack_do qs c1)) (snd (run_calls (ro_do n sz) qs a1))"
    using Cons.IH [of c1 a1] Cons.prems(2) one c1 a1 by simp
  then show ?case using one c1 a1 by (simp add: split_def Let_def)
qed simp

section \<open>From a store and its files\<close>

definition ro_start :: "slot_inner \<Rightarrow> disk \<Rightarrow> string remote_store \<Rightarrow> rollover" where
  "ro_start h w r =
     \<lparr>ro_hot = slot_entries h, ro_warm = disk_contents w, ro_cold = fmlookup (rs_data r), ro_fetches = rs_fetches r\<rparr>"

lemma stack_rel_start:
  assumes "slot_tidy n h" "[] \<notin> set (sl_order h)" "dk_faults w = []"
  shows "stack_rel n (sl_size h) (stack_cache h w r) (ro_start h w r)"
proof (rule stack_relI)
  show "tc_router (stack_cache h w r) = \<lparr>rt_tiers = stack_tiers h w r counters_default counters_default counters_default,
      rt_policy = cache_default_policy\<rparr>" by (simp add: stack_cache_eq)
  have "fst ` set (slot_entries h) = set (sl_order h)" using slot_entries_keys [of h] by (metis set_map)
  then show "parts_rel n (sl_size h) h w r (ro_start h w r)" using assms by (simp add: parts_rel_def ro_start_def)
qed (simp_all add: stack_cache_eq gates_idle_def sf_new_def)

text \<open>
  C33. The hierarchy of the rollover demo, a cache over the slot store, a disk and the remote store,
  refines a bounded queue above two maps: over a tidy slot store and a disk without faults, any
  sequence of reads, writes and removals is answered as the specification answers it, whatever is
  evicted, demoted, promoted or rejected on the way, and the stores end up holding what the
  specification holds; the reads that reach the remote store are counted exactly.
\<close>

theorem rollover_refines:
  assumes "slot_tidy n h" "0 < n" "sl_size h \<le> 2 ^ 16" "[] \<notin> set (sl_order h)" "dk_faults w = []"
    and "\<forall>q \<in> set qs. stack_key (call_key q)"
  shows "fst (run_calls stack_do qs (stack_cache h w r)) = fst (run_calls (ro_do n (sl_size h)) qs (ro_start h w r)) \<and>
    stack_rel n (sl_size h) (snd (run_calls stack_do qs (stack_cache h w r)))
      (snd (run_calls (ro_do n (sl_size h)) qs (ro_start h w r)))"
  by (rule run_calls_rel [OF stack_rel_start [OF assms(1,4,5)] assms(2,3,6)])

lemma keys_ab [simp]: "stack_key ''a''" "stack_key ''b''" "length (as_bytes ''a'') = 1" "length (as_bytes ''b'') = 1"
  by (simp_all add: stack_key_def as_bytes_def between_def)

abbreviation blank_disk :: disk where
  "blank_disk \<equiv> \<lparr>dk_stem = None, dk_files = fmempty, dk_beside = fmempty, dk_faults = []\<rparr>"

lemma blank_contents [simp]: "disk_contents blank_disk = Map.empty"
  by (simp add: disk_contents_def fun_eq_iff)

lemma blank_start:
  "slot_entries h = [] \<Longrightarrow> ro_start h blank_disk (remote_new 0) =
     \<lparr>ro_hot = [], ro_warm = Map.empty, ro_cold = Map.empty, ro_fetches = 0\<rparr>"
  by (simp add: ro_start_def remote_new_def fun_eq_iff)

lemma fresh_keys: "slot_entries h = [] \<Longrightarrow> [] \<notin> set (sl_order h)"
  using slot_entries_keys [of h] by simp

lemmas ro_defs = ro_get_def ro_put_def ro_delete_def ro_fill_def fifo_put_def pend_def HEADER_def Let_def

theorem rollover_refines_witness:
  "\<exists>h. slot_open (Ok []) None 1 16 = Some (Ok h) \<and>
     fst (run_calls stack_do [Call_Put ''a'' [1], Call_Put ''b'' [2], Call_Get ''a'', Call_Invalidate ''a'', Call_Get ''a'']
       (stack_cache h blank_disk (remote_new 0))) =
     [Evicted (Ok []), Evicted (Ok []), Value (Ok (Some [1])), Removed (Ok True), Value (Ok None)]"
proof -
  obtain h where h: "slot_open (Ok []) None 1 16 = Some (Ok h)" "slot_tidy 1 h" "slot_entries h = []" "sl_size h = 16"
    by (rule slot_fresh [of 16 1]) (simp_all add: HEADER_def usize_max_def)
  let ?qs = "[Call_Put ''a'' [1], Call_Put ''b'' [2], Call_Get ''a'', Call_Invalidate ''a'', Call_Get ''a'']"
  have "fst (run_calls stack_do ?qs (stack_cache h blank_disk (remote_new 0))) =
      fst (run_calls (ro_do 1 16) ?qs (ro_start h blank_disk (remote_new 0)))"
    using rollover_refines [OF h(2) _ _ fresh_keys [OF h(3)], of blank_disk ?qs "remote_new 0", THEN conjunct1] h(4) by simp
  also have "\<dots> = [Evicted (Ok []), Evicted (Ok []), Value (Ok (Some [1])), Removed (Ok True), Value (Ok None)]"
    unfolding blank_start [OF h(3)] by (simp add: ro_defs)
  finally have "fst (run_calls stack_do ?qs (stack_cache h blank_disk (remote_new 0))) =
      [Evicted (Ok []), Evicted (Ok []), Value (Ok (Some [1])), Removed (Ok True), Value (Ok None)]" .
  with h(1) show ?thesis by blast
qed

section \<open>The hierarchy as one map\<close>

definition ro_view :: "rollover \<Rightarrow> (string \<rightharpoonup> u8 list)" where
  "ro_view a = ro_cold a ++ ro_warm a ++ map_of (ro_hot a)"

fun map_do :: "stack_call \<Rightarrow> (string \<rightharpoonup> u8 list) \<Rightarrow> stack_answer \<times> (string \<rightharpoonup> u8 list)" where
  "map_do (Call_Get k) m = (Value (Ok (m k)), m)"
| "map_do (Call_Put k v) m = (Evicted (Ok []), m(k \<mapsto> v))"
| "map_do (Call_Invalidate k) m = (Removed (Ok (m k \<noteq> None)), m(k := None))"

fun call_fits :: "nat \<Rightarrow> stack_call \<Rightarrow> bool" where
  "call_fits sz (Call_Put k v) = (HEADER + length (as_bytes k) + length v \<le> sz)"
| "call_fits sz _ = True"

lemma fifo_put_view:
  assumes "fifo_put n k v es = (d, es')" "distinct (map fst es)"
  shows "m ++ pend d ++ map_of es' = (m ++ map_of es)(k \<mapsto> v)"
proof (cases "k \<in> fst ` set es")
  case True
  then have "d = []" "es' = map (\<lambda>(j, w). (j, if j = k then v else w)) es" using assms(1) by (simp_all add: fifo_put_def)
  moreover have "map_of (map (\<lambda>(j, w). (j, if j = k then v else w)) es) x =
      (if x = k then map_option (\<lambda>_. v) (map_of es k) else map_of es x)" for x
    by (induction es) auto
  moreover obtain u where "map_of es k = Some u" using True by (metis map_of_eq_None_iff option.exhaust)
  ultimately show ?thesis by (simp add: pend_def fun_eq_iff map_add_def)
next
  case False
  then have new: "map_of (xs @ [(k, v)]) = (map_of xs)(k \<mapsto> v)" if "set xs \<subseteq> set es" for xs
    using that by (induction xs) (auto simp: fun_eq_iff)
  show ?thesis
  proof (cases "length es < n")
    case True
    then show ?thesis using assms(1) False new [of es] by (simp add: fifo_put_def pend_def)
  next
    case full: False
    show ?thesis
    proof (cases es)
      case Nil
      then show ?thesis using assms(1) full by (auto simp: fifo_put_def pend_def)
    next
      case (Cons e t)
      then have e: "d = [e]" "es' = t @ [(k, v)]" using assms(1) False full by (simp_all add: fifo_put_def)
      have "map_of t (fst e) = None" using assms(2) Cons by (simp add: map_of_eq_None_iff)
      then have "pend [e] ++ map_of t = map_of es" using Cons by (cases e) (auto simp: pend_def fun_eq_iff map_add_def split: option.split)
      moreover have "map_of es' = (map_of t)(k \<mapsto> v)" using new [of t] e(2) Cons by auto
      ultimately show ?thesis using e(1) by (metis map_add_assoc map_add_upd)
    qed
  qed
qed

lemma ro_fill_view:
  assumes "distinct (map fst (ro_hot a))"
  shows "ro_view (ro_fill n sz k v a) =
    (if sz < HEADER + length (as_bytes k) + length v then ro_view a else (ro_view a)(k \<mapsto> v))"
proof -
  obtain d es where d: "fifo_put n k v (ro_hot a) = (d, es)" by fastforce
  show ?thesis
    using fifo_put_view [OF d assms, of "ro_cold a ++ ro_warm a"] d by (simp add: ro_view_def ro_fill_def)
qed


lemma ro_do_view:
  assumes "distinct (map fst (ro_hot a))" "call_fits sz q"
  shows "fst (ro_do n sz q a) = fst (map_do q (ro_view a)) \<and> ro_view (snd (ro_do n sz q a)) = snd (map_do q (ro_view a))"
proof (cases q)
  case (Call_Get k)
  have same: "ro_view (ro_fill n sz k v a') = ro_view a'" if "ro_view a' k = Some v" "ro_hot a' = ro_hot a" for v a'
    using ro_fill_view [of a' n sz k v] assms(1) that by (simp add: map_upd_triv)
  show ?thesis
  proof (cases "map_of (ro_hot a) k")
    case (Some v)
    then show ?thesis using Call_Get by (simp add: ro_get_def ro_view_def)
  next
    case None
    note hot = None
    show ?thesis
    proof (cases "ro_warm a k")
      case (Some v)
      with hot have "ro_view a k = Some v" by (simp add: ro_view_def map_add_def)
      with hot Some show ?thesis using Call_Get same [of a] by (simp add: ro_get_def)
    next
      case None
      let ?a = "a\<lparr>ro_fetches := ro_fetches a + 1\<rparr>"
      have view: "ro_view ?a = ro_view a" "ro_view a k = ro_cold a k" using hot None by (simp_all add: ro_view_def map_add_def)
      with hot None show ?thesis
        using Call_Get same [of ?a] by (cases "ro_cold a k") (simp_all add: ro_get_def Let_def)
    qed
  qed
next
  case (Call_Put k v)
  let ?a = "a\<lparr>ro_cold := (ro_cold a)(k \<mapsto> v), ro_warm := (ro_warm a)(k \<mapsto> v)\<rparr>"
  have "\<not> sz < HEADER + length (as_bytes k) + length v" using assms(2) Call_Put by simp
  then have "ro_view (ro_put n sz k v a) = (ro_view ?a)(k \<mapsto> v)"
    using ro_fill_view [of ?a n sz k v] assms(1) by (simp add: ro_put_def)
  also have "\<dots> = (ro_view a)(k \<mapsto> v)" by (auto simp: ro_view_def fun_eq_iff map_add_def split: option.split)
  finally show ?thesis using Call_Put by simp
next
  case (Call_Invalidate k)
  have gone: "map_of (filter (\<lambda>e. fst e \<noteq> k) es) j = (if j = k then None else map_of es j)" for es :: "(string \<times> u8 list) list" and j
    by (induction es) auto
  show ?thesis
    using Call_Invalidate map_of_eq_None_iff [of "ro_hot a" k]
    by (auto simp: ro_delete_def ro_view_def fun_eq_iff map_add_def gone split: option.split)
qed

lemma stack_rel_distinct: "stack_rel n sz c a \<Longrightarrow> distinct (map fst (ro_hot a))"
  unfolding stack_rel_def parts_rel_def
  using slot_tidy_inv slot_entries_keys by (metis slot_inv_def)

lemma run_calls_view:
  assumes "stack_rel n sz c a" "0 < n" "sz \<le> 2 ^ 16" "\<forall>q \<in> set qs. stack_key (call_key q) \<and> call_fits sz q"
  shows "fst (run_calls stack_do qs c) = fst (run_calls map_do qs (ro_view a))"
  using assms(1,4)
proof (induction qs arbitrary: c a)
  case (Cons q qs)
  then have q: "stack_key (call_key q)" "call_fits sz q" by simp_all
  note one = stack_do_rel [OF Cons.prems(1) assms(2,3) q(1)]
  note view = ro_do_view [OF stack_rel_distinct [OF Cons.prems(1)] q(2), of n]
  have "fst (run_calls stack_do qs (snd (stack_do q c))) = fst (run_calls map_do qs (snd (map_do q (ro_view a))))"
    using Cons.IH [of "snd (stack_do q c)" "snd (ro_do n sz q a)"] Cons.prems(2) one view by simp
  then show ?case using one view by (simp add: split_def Let_def)
qed simp

text \<open>
  C34. As long as every value put fits a slot, the hierarchy of the rollover demo is one map: whatever
  was in its three stores, any sequence of reads, writes and removals is answered as the map that
  shows the slot store over the disk over the remote store answers it. No read sees a value that a
  later put replaced or a removal took out, although entries move up and down between the stores all
  the time, and no entry is lost when a slot is reused.
\<close>

theorem rollover_is_map:
  assumes "slot_tidy n h" "0 < n" "sl_size h \<le> 2 ^ 16" "[] \<notin> set (sl_order h)" "dk_faults w = []"
    and "\<forall>q \<in> set qs. stack_key (call_key q) \<and> call_fits (sl_size h) q"
  shows "fst (run_calls stack_do qs (stack_cache h w r)) =
    fst (run_calls map_do qs (fmlookup (rs_data r) ++ disk_contents w ++ slot_contents h))"
proof -
  have "map_of (slot_entries h) = slot_contents h" using map_of_slot_entries [OF slot_tidy_inv [OF assms(1)]] by blast
  then have "ro_view (ro_start h w r) = fmlookup (rs_data r) ++ disk_contents w ++ slot_contents h"
    by (simp add: ro_view_def ro_start_def)
  then show ?thesis using run_calls_view [OF stack_rel_start [OF assms(1,4,5)] assms(2,3,6)] by simp
qed

theorem rollover_is_map_witness:
  "\<exists>h. slot_open (Ok []) None 1 16 = Some (Ok h) \<and>
     fst (run_calls stack_do [Call_Put ''a'' [1], Call_Put ''b'' [2], Call_Get ''a'', Call_Put ''a'' [3], Call_Get ''b'', Call_Get ''a'']
       (stack_cache h blank_disk (remote_new 0))) =
     [Evicted (Ok []), Evicted (Ok []), Value (Ok (Some [1])), Evicted (Ok []), Value (Ok (Some [2])), Value (Ok (Some [3]))]"
proof -
  obtain h where h: "slot_open (Ok []) None 1 16 = Some (Ok h)" "slot_tidy 1 h" "slot_entries h = []" "sl_size h = 16"
    by (rule slot_fresh [of 16 1]) (simp_all add: HEADER_def usize_max_def)
  let ?qs = "[Call_Put ''a'' [1], Call_Put ''b'' [2], Call_Get ''a'', Call_Put ''a'' [3], Call_Get ''b'', Call_Get ''a'']"
  have "fst (run_calls stack_do ?qs (stack_cache h blank_disk (remote_new 0))) =
      [Evicted (Ok []), Evicted (Ok []), Value (Ok (Some [1])), Evicted (Ok []), Value (Ok (Some [2])), Value (Ok (Some [3]))]"
    using rollover_is_map [OF h(2) _ _ fresh_keys [OF h(3)], of blank_disk ?qs "remote_new 0"] h(4)
    by (simp add: HEADER_def)
  with h(1) show ?thesis by blast
qed

section \<open>A put that does not fit a slot\<close>

lemma ro_fill_cold [simp]: "ro_cold (ro_fill n sz k v a) = ro_cold a"
  by (simp add: ro_fill_def Let_def split: prod.split)

lemma ro_shadowed:
  assumes "ro_hot a = (k, v) # es" "length (ro_hot a) = n" "distinct (map fst (ro_hot a))"
    and "sz < HEADER + length (as_bytes k) + length v'"
    and "j \<notin> fst ` set (ro_hot a)" "HEADER + length (as_bytes j) + length u \<le> sz"
  shows "fst (run_calls (ro_do n sz) [Call_Put k v', Call_Get k, Call_Put j u, Call_Get k] a) =
      [Evicted (Ok []), Value (Ok (Some v)), Evicted (Ok []), Value (Ok (Some v))] \<and>
    ro_cold (snd (run_calls (ro_do n sz) [Call_Put k v', Call_Get k, Call_Put j u, Call_Get k] a)) k = Some v'"
proof -
  let ?a1 = "a\<lparr>ro_cold := (ro_cold a)(k \<mapsto> v'), ro_warm := (ro_warm a)(k \<mapsto> v')\<rparr>"
  have put1: "ro_put n sz k v' a = ?a1" using assms(4) by (simp add: ro_put_def ro_fill_def)
  have get1: "ro_get n sz k ?a1 = (Some v, ?a1)" using assms(1) by (simp add: ro_get_def)
  obtain a2 where a2: "ro_put n sz j u ?a1 = a2" by blast
  have new: "j \<noteq> k" "map_of es k = None" using assms(1,3,5) by (auto simp: map_of_eq_None_iff)
  have "fifo_put n j u (ro_hot a) = ([(k, v)], es @ [(j, u)])"
    using assms(1,2,5) by (auto simp: fifo_put_def)
  then have "ro_hot a2 = es @ [(j, u)]" "ro_warm a2 k = Some v" "ro_cold a2 k = Some v'"
    using a2 assms(6) new by (auto simp: ro_put_def ro_fill_def pend_def)
  then have "ro_get n sz k a2 = (Some v, ro_fill n sz k v a2)" "ro_cold (ro_fill n sz k v a2) k = Some v'"
    using new new(1) [symmetric] by (simp_all add: ro_get_def map_add_def)
  then show ?thesis by (simp add: put1 get1 a2)
qed

text \<open>
  C35. A put that does not fit a slot: under the default policy of the cache it is answered as a
  success, but the slot store, which rejects it, keeps the value of the earlier put. Reads go on
  answering the replaced value, and when its slot is reused, demotion writes it over the new value
  on the disk, so that reads answer it even then; only the remote store holds what was put last.
\<close>

theorem rollover_put_shadowed:
  assumes "stack_rel n sz c a" "0 < n" "sz \<le> 2 ^ 16" "stack_key k" "stack_key j"
    and "ro_hot a = (k, v) # es" "length (ro_hot a) = n" "j \<notin> fst ` set (ro_hot a)"
    and "sz < HEADER + length (as_bytes k) + length v'" "HEADER + length (as_bytes j) + length u \<le> sz"
  shows "\<exists>c' a'. run_calls stack_do [Call_Put k v', Call_Get k, Call_Put j u, Call_Get k] c =
      ([Evicted (Ok []), Value (Ok (Some v)), Evicted (Ok []), Value (Ok (Some v))], c') \<and>
    stack_rel n sz c' a' \<and> ro_cold a' k = Some v'"
proof -
  let ?qs = "[Call_Put k v', Call_Get k, Call_Put j u, Call_Get k]"
  have "\<forall>q \<in> set ?qs. stack_key (call_key q)" using assms(4,5) by simp
  note run = run_calls_rel [OF assms(1-3) this]
  note spec = ro_shadowed [OF assms(6,7) stack_rel_distinct [OF assms(1)] assms(9,8,10)]
  show ?thesis
    by (rule exI [of _ "snd (run_calls stack_do ?qs c)"], rule exI [of _ "snd (run_calls (ro_do n sz) ?qs a)"])
       (use run spec in \<open>simp only: prod_eq_iff fst_conv snd_conv\<close>)
qed

theorem rollover_put_shadowed_witness:
  "\<exists>h c. slot_open (Ok []) None 1 16 = Some (Ok h) \<and>
     stack_do (Call_Put ''a'' [1]) (stack_cache h blank_disk (remote_new 0)) = (Evicted (Ok []), c) \<and>
     fst (run_calls stack_do [Call_Put ''a'' (replicate 9 2), Call_Get ''a'', Call_Put ''b'' [3], Call_Get ''a''] c) =
     [Evicted (Ok []), Value (Ok (Some [1])), Evicted (Ok []), Value (Ok (Some [1]))]"
proof -
  obtain h where h: "slot_open (Ok []) None 1 16 = Some (Ok h)" "slot_tidy 1 h" "slot_entries h = []" "sl_size h = 16"
    by (rule slot_fresh [of 16 1]) (simp_all add: HEADER_def usize_max_def)
  let ?a = "snd (ro_do 1 16 (Call_Put ''a'' [1]) (ro_start h blank_disk (remote_new 0)))"
  have a: "ro_hot ?a = [(''a'', [1])]" unfolding blank_start [OF h(3)] by (simp add: ro_defs)
  have rel: "stack_rel 1 16 (stack_cache h blank_disk (remote_new 0)) (ro_start h blank_disk (remote_new 0))"
    using stack_rel_start [OF h(2) fresh_keys [OF h(3)], of blank_disk "remote_new 0"] h(4) by simp
  obtain x c where c: "stack_do (Call_Put ''a'' [1]) (stack_cache h blank_disk (remote_new 0)) = (x, c)" by fastforce
  have put: "x = Evicted (Ok [])" "stack_rel 1 16 c ?a"
    using stack_do_rel [OF rel, of "Call_Put ''a'' [1]"] unfolding c by simp_all
  have "fst (run_calls stack_do [Call_Put ''a'' (replicate 9 2), Call_Get ''a'', Call_Put ''b'' [3], Call_Get ''a''] c) =
      [Evicted (Ok []), Value (Ok (Some [1])), Evicted (Ok []), Value (Ok (Some [1]))]"
    using rollover_put_shadowed [OF put(2) _ _ keys_ab(1,2), of "[1]" "[]" "replicate 9 2" "[3]"] a by (auto simp: HEADER_def)
  with h(1) c put(1) show ?thesis by blast
qed

end
