(* ===== verification/Rollover_Demo.thy ===== *)
theory Rollover_Demo
  imports Rollover_Runs
begin

text \<open>
  The program of \<open>rollover-demo/src/main.rs\<close>, assertion by assertion: \<open>None\<close> is a failed assertion (or a
  failed \<open>expect\<close>), \<open>Err\<close> an i/o error that \<open>?\<close> passes on. What the program prints is left out, but for
  the number of remote fetches it reports last. The handles \<open>hot\<close>, \<open>warm\<close> and \<open>remote\<close> share their
  store with the cache (\<open>Arc\<close>), so they read the states of its tiers. Shown: no assertion fails.
\<close>

section \<open>The program\<close>

definition HOT_SLOTS :: nat where "HOT_SLOTS = 2"

definition SLOT_SIZE :: nat where "SLOT_SIZE = 256"

text \<open>
  What the machine decides: the address of the mapping, the time every timed read takes, and the
  outcome of the system calls.
\<close>

record demo_env =
  en_base :: nat
  en_elapsed :: "nat \<Rightarrow> nat"
  en_create_dir :: "io_error option"
  en_file :: "(u8 list, io_error) result"
  en_map :: "io_error option"
  en_warm :: "io_fault option list"
  en_flush :: "io_error option"
  en_remap :: "io_error option"

definition ensure :: "bool \<Rightarrow> unit option" where
  "ensure b = (if b then Some () else None)"

definition try_io :: "('a, io_error) result \<Rightarrow> ('a \<Rightarrow> ('b, io_error) result option) \<Rightarrow> ('b, io_error) result option" where
  "try_io r f = (case r of Err e \<Rightarrow> Some (Err e) | Ok x \<Rightarrow> f x)"

definition failing :: "io_error option \<Rightarrow> (unit, io_error) result" where
  "failing x = (case x of None \<Rightarrow> Ok () | Some e \<Rightarrow> Err e)"

definition demo_record :: "string \<Rightarrow> u8 list" where
  "demo_record name = as_bytes (''record for '' @ name)"

definition timed_get :: "nat \<Rightarrow> stack \<Rightarrow> string \<Rightarrow> ((u8 list option \<times> nat) \<times> stack) option" where
  "timed_get elapsed c k =
     (case cache_get c k of
        (Ok v, c1) \<Rightarrow> Some ((v, elapsed), c1)
      | (Err _, _) \<Rightarrow> None)"

definition hot_of :: "stack \<Rightarrow> slot_inner" where
  "hot_of c = projl (slot_state (rt_tiers (tc_router c) ! 0))"

definition warm_of :: "stack \<Rightarrow> disk" where
  "warm_of c = projl (projr (slot_state (rt_tiers (tc_router c) ! 1)))"

definition cold_of :: "stack \<Rightarrow> string remote_store" where
  "cold_of c = projr (projr (slot_state (rt_tiers (tc_router c) ! 2)))"

definition set_warm :: "disk \<Rightarrow> stack \<Rightarrow> stack" where
  "set_warm w c =
     c\<lparr>tc_router := (tc_router c)\<lparr>rt_tiers := (rt_tiers (tc_router c))
        [1 := (rt_tiers (tc_router c) ! 1)\<lparr>slot_state := Inr (Inl w)\<rparr>]\<rparr>\<rparr>"

text \<open>\<open>warm.get\<close> on the handle.\<close>

definition warm_get :: "stack \<Rightarrow> string \<Rightarrow> (u8 list option, io_error) result \<times> stack" where
  "warm_get c k = apsnd (\<lambda>w. set_warm w c) (disk_get (warm_of c) k)"

definition mapping_range :: "nat \<Rightarrow> slot_inner \<Rightarrow> nat \<times> nat" where
  "mapping_range base h = (base, base + length (sl_map h))"

definition prove_rollover :: "demo_env \<Rightarrow> stack \<Rightarrow> (stack, io_error) result option" where
  "prove_rollover e c =
     do {
       ((value, cold_latency), c) \<leftarrow> timed_get (en_elapsed e 0) c ''ada'';
       ensure (value = Some (demo_record ''ada''));
       ensure (remote_fetches (cold_of c) = 1);
       ((value, hot_latency), c) \<leftarrow> timed_get (en_elapsed e 1) c ''ada'';
       ensure (value = Some (demo_record ''ada''));
       ensure (remote_fetches (cold_of c) = 1);
       ensure (hot_latency < cold_latency);
       let mapping = mapping_range (en_base e) (hot_of c);
       found \<leftarrow> slot_get_ref ''ada'' (hot_of c);
       view \<leftarrow> found;
       bytes \<leftarrow> slot_deref view (hot_of c);
       ensure (bytes = demo_record ''ada'');
       let address = en_base e + fst view;
       ensure (fst mapping \<le> address \<and> address < snd mapping);
       (_, c) \<leftarrow> timed_get (en_elapsed e 2) c ''grace'';
       (_, c) \<leftarrow> timed_get (en_elapsed e 3) c ''barbara'';
       ensure (remote_fetches (cold_of c) = 3);
       value \<leftarrow> slot_fetch ''ada'' (hot_of c);
       ensure (value = None);
       (case warm_get c ''ada'' of (r, c) \<Rightarrow> try_io r (\<lambda>value. do {
         ensure (value = Some (demo_record ''ada''));
         ((value, warm_latency), c) \<leftarrow> timed_get (en_elapsed e 4) c ''ada'';
         ensure (value = Some (demo_record ''ada''));
         ensure (remote_fetches (cold_of c) = 3);
         (case warm_get c ''grace'' of (r, c) \<Rightarrow> try_io r (\<lambda>value. do {
           ensure (value = Some (demo_record ''grace''));
           Some (Ok c)
         }))
       }))
     }"

definition prove_restart ::
  "demo_env \<Rightarrow> (u8 list, io_error) result \<Rightarrow> disk \<Rightarrow> string remote_store \<Rightarrow> (stack, io_error) result option" where
  "prove_restart e file warm remote =
     (let fetches_before = remote_fetches remote in do {
       opened \<leftarrow> slot_open file (en_remap e) HOT_SLOTS SLOT_SIZE;
       try_io opened (\<lambda>hot. do {
         value \<leftarrow> slot_fetch ''ada'' hot;
         ensure (value = Some (demo_record ''ada''));
         value \<leftarrow> slot_fetch ''diana'' hot;
         ensure (value = Some (demo_record ''diana''));
         ((value, hot_latency), c) \<leftarrow> timed_get (en_elapsed e 5) (stack_cache hot warm remote) ''ada'';
         ensure (value = Some (demo_record ''ada''));
         ((value, _), c) \<leftarrow> timed_get (en_elapsed e 6) c ''grace'';
         ensure (value = Some (demo_record ''grace''));
         ensure (remote_fetches (cold_of c) = fetches_before);
         Some (Ok c)
       })
     })"

text \<open>The remote store is filled by \<open>put\<close>, which does not fail.\<close>

fun demo_fill :: "string list \<Rightarrow> string remote_store \<Rightarrow> (string remote_store, io_error) result" where
  "demo_fill [] r = Ok r"
| "demo_fill (name # names) r =
     (case remote_put r name (demo_record name) of
        (Ok _, r1) \<Rightarrow> demo_fill names r1
      | (Err e, _) \<Rightarrow> Err e)"

definition demo_main :: "demo_env \<Rightarrow> (u64, io_error) result option" where
  "demo_main e =
     try_io (failing (en_create_dir e)) (\<lambda>_.
       try_io (demo_fill [''ada'', ''grace'', ''barbara''] (remote_new 25)) (\<lambda>remote. do {
         opened \<leftarrow> slot_open (en_file e) (en_map e) HOT_SLOTS SLOT_SIZE;
         try_io opened (\<lambda>hot.
           try_io (disk_open (Some ''warm'') fmempty fmempty (en_warm e)) (\<lambda>warm. do {
             proved \<leftarrow> prove_rollover e (stack_cache hot warm remote);
             try_io proved (\<lambda>c.
               case cache_put c ''diana'' (demo_record ''diana'') of
                 (Err _, _) \<Rightarrow> None
               | (Ok _, c) \<Rightarrow>
                   try_io (fst (remote_exists (cold_of c) ''diana'')) (\<lambda>found. do {
                     ensure found;
                     (case warm_get c ''barbara'' of (r, c) \<Rightarrow> try_io r (\<lambda>value. do {
                       ensure (value = Some (demo_record ''barbara''));
                       try_io (failing (en_flush e)) (\<lambda>_. do {
                         proved \<leftarrow> prove_restart e (Ok (sl_map (hot_of c))) (warm_of c) (cold_of c);
                         try_io proved (\<lambda>c. Some (Ok (remote_fetches (cold_of c))))
                       })
                     }))
                   }))
           }))
       }))"


section \<open>No assertion fails\<close>

lemma ensure_True [simp]: "ensure True = Some ()"
  by (simp add: ensure_def)

lemma try_io_simps [simp]: "try_io (Ok x) f = f x" "try_io (Err e) f = Some (Err e)"
  by (simp_all add: try_io_def)

lemma length_as_bytes [simp]: "length (as_bytes s) = length s"
  by (simp add: as_bytes_def)

lemma demo_keys [simp]: "stack_key ''ada''" "stack_key ''grace''" "stack_key ''barbara''" "stack_key ''diana''"
  by (simp_all add: stack_key_def as_bytes_def between_def)

lemma length_demo_record [simp]: "length (demo_record name) = 11 + length name"
  by (simp add: demo_record_def)

text \<open>What a cache in a state of the specification answers, through itself and through the handles.\<close>

lemma timed_get_rel:
  assumes "stack_rel n sz c a" "0 < n" "sz \<le> 2 ^ 16" "stack_key k"
  obtains c' where "timed_get d c k = Some ((fst (ro_get n sz k a), d), c')" "stack_rel n sz c' (snd (ro_get n sz k a))"
proof -
  obtain x c' where g: "cache_get c k = (x, c')" by fastforce
  have "x = Ok (fst (ro_get n sz k a))" "stack_rel n sz c' (snd (ro_get n sz k a))"
    using stack_do_rel [OF assms(1-3), of "Call_Get k"] assms(4) g by simp_all
  then show thesis using that [of c'] g by (simp add: timed_get_def)
qed

lemma stack_parts:
  assumes "stack_rel n sz c a"
  shows "slot_tidy n (hot_of c)" "sl_size (hot_of c) = sz" "slot_entries (hot_of c) = ro_hot a"
    "dk_faults (warm_of c) = []" "disk_contents (warm_of c) = ro_warm a" "fmlookup (rs_data (cold_of c)) = ro_cold a"
    "remote_fetches (cold_of c) = ro_fetches a" "set_warm (warm_of c) c = c"
proof -
  obtain h w r c0 c1 c2 where t: "rt_tiers (tc_router c) = stack_tiers h w r c0 c1 c2" "parts_rel n sz h w r a"
    using assms unfolding stack_rel_def by blast
  have s: "hot_of c = h" "warm_of c = w" "cold_of c = r"
    using t(1) by (simp_all add: hot_of_def warm_of_def cold_of_def stack_tiers_def)
  then show "slot_tidy n (hot_of c)" "sl_size (hot_of c) = sz" "slot_entries (hot_of c) = ro_hot a"
    "dk_faults (warm_of c) = []" "disk_contents (warm_of c) = ro_warm a" "fmlookup (rs_data (cold_of c)) = ro_cold a"
    "remote_fetches (cold_of c) = ro_fetches a"
    using t(2) by (simp_all add: parts_rel_def remote_fetches_def)
  show "set_warm (warm_of c) c = c"
    by (rule tiered_cache.equality) (use t(1) s(2) in \<open>auto simp: set_warm_def stack_tiers_def intro!: router.equality\<close>)
qed

lemma hot_handle:
  assumes "stack_rel n sz c a"
  shows "slot_fetch k (hot_of c) = Some (map_of (ro_hot a) k)"
  using slot_fetch_eq slot_tidy_inv map_of_slot_entries stack_parts(1,3) [OF assms] by metis

lemma warm_handle:
  assumes "stack_rel n sz c a" "k \<noteq> []"
  shows "warm_get c k = (Ok (ro_warm a k), c)"
  using stack_parts(4,5,8) [OF assms(1)] assms(2) by (simp add: warm_get_def sound_get)

lemma cold_handle:
  assumes "stack_rel n sz c a"
  shows "fst (remote_exists (cold_of c) k) = Ok (ro_cold a k \<noteq> None)"
  using stack_parts(6) [OF assms] by (simp add: remote_exists_def hm_contains_iff fmlookup_dom_iff)

text \<open>A view lies inside the mapping.\<close>

lemma hot_view:
  assumes "stack_rel n sz c a" "map_of (ro_hot a) k = Some v"
  obtains view where "slot_get_ref k (hot_of c) = Some (Some view)" "slot_deref view (hot_of c) = Some v"
    "fst view + length v \<le> length (sl_map (hot_of c))"
proof -
  note ivt = slot_tidy_inv [OF stack_parts(1) [OF assms(1)]]
  have "slot_contents (hot_of c) k = Some v"
    using map_of_slot_entries [OF ivt] stack_parts(3) [OF assms(1)] assms(2) by metis
  then obtain view where v: "slot_get_ref k (hot_of c) = Some (Some view)" "slot_deref view (hot_of c) = Some v"
    using slot_view [OF ivt, of k] by (auto split: option.splits)
  then have "fst view + length v \<le> length (sl_map (hot_of c))"
    by (auto simp: slot_deref_def sub_bytes_def split: if_splits)
  with v that show thesis by blast
qed


text \<open>The states of the specification that the program passes through hold its records, named by their keys.\<close>

definition demo_entries :: "string list \<Rightarrow> (string \<times> u8 list) list" where
  "demo_entries ks = map (\<lambda>k. (k, demo_record k)) ks"

definition demo_state :: "string list \<Rightarrow> string list \<Rightarrow> string list \<Rightarrow> u64 \<Rightarrow> rollover" where
  "demo_state hot warm cold f =
     \<lparr>ro_hot = demo_entries hot, ro_warm = map_of (demo_entries warm), ro_cold = map_of (demo_entries cold), ro_fetches = f\<rparr>"

lemma map_of_demo [simp]: "map_of (demo_entries ks) k = (if k \<in> set ks then Some (demo_record k) else None)"
  by (induction ks) (auto simp: demo_entries_def)

lemma demo_entries_simps [simp]:
  "fst ` set (demo_entries ks) = set ks" "length (demo_entries ks) = length ks"
  "demo_entries xs @ [(k, demo_record k)] = demo_entries (xs @ [k])"
  "drop i (demo_entries xs) = demo_entries (drop i xs)" "take i (demo_entries xs) = demo_entries (take i xs)"
  by (auto simp: demo_entries_def image_image drop_map take_map)

lemma demo_pend: "map_of (demo_entries ys) ++ pend (demo_entries xs) = map_of (demo_entries (xs @ ys))"
proof -
  have "pend (demo_entries xs) = map_of (demo_entries (rev xs))" by (simp add: pend_def demo_entries_def rev_map)
  then show ?thesis by (auto simp: fun_eq_iff map_add_def)
qed

text \<open>The queue of two slots takes a record in, and hands its first one to the disk when it is full.\<close>

definition demo_push :: "string \<Rightarrow> string list \<Rightarrow> string list \<Rightarrow> string list \<Rightarrow> u64 \<Rightarrow> rollover" where
  "demo_push k hot warm cold f =
     (if length hot < 2 then demo_state (hot @ [k]) warm cold f
      else demo_state (drop 1 hot @ [k]) (take 1 hot @ warm) cold f)"

lemma demo_fill_state:
  assumes "k \<notin> set hot" "length k \<le> 100"
  shows "ro_fill 2 256 k (demo_record k) (demo_state hot warm cold f) = demo_push k hot warm cold f"
  using assms
  by (auto simp: ro_fill_def demo_state_def demo_push_def fifo_put_def HEADER_def demo_pend)

lemma demo_get:
  assumes "length k \<le> 100" "k \<in> set hot \<union> set warm \<union> set cold"
  shows "ro_get 2 256 k (demo_state hot warm cold f) =
    (Some (demo_record k),
     if k \<in> set hot then demo_state hot warm cold f
     else demo_push k hot warm cold (if k \<in> set warm then f else f + 1))"
proof -
  have sel: "ro_hot (demo_state hot warm cold f) = demo_entries hot" "ro_warm (demo_state hot warm cold f) = map_of (demo_entries warm)"
    "ro_cold (demo_state hot warm cold f) = map_of (demo_entries cold)" "ro_fetches (demo_state hot warm cold f) = f"
    "demo_state hot warm cold f\<lparr>ro_fetches := f + 1\<rparr> = demo_state hot warm cold (f + 1)"
    by (simp_all add: demo_state_def)
  show ?thesis using assms demo_fill_state [of k hot] by (auto simp: ro_get_def sel Let_def)
qed

lemma demo_put:
  assumes "k \<notin> set hot" "length k \<le> 100"
  shows "ro_put 2 256 k (demo_record k) (demo_state hot warm cold f) = demo_push k hot (k # warm) (k # cold) f"
proof -
  have "demo_state hot warm cold f\<lparr>ro_cold := (ro_cold (demo_state hot warm cold f))(k \<mapsto> demo_record k),
      ro_warm := (ro_warm (demo_state hot warm cold f))(k \<mapsto> demo_record k)\<rparr> = demo_state hot (k # warm) (k # cold) f"
    by (simp add: demo_state_def demo_entries_def)
  then show ?thesis using demo_fill_state [OF assms, of "k # warm" "k # cold" f] by (simp add: ro_put_def)
qed

lemma timed_get_demo:
  assumes "stack_rel 2 256 c (demo_state hot warm cold f)" "stack_key k" "length k \<le> 100" "k \<in> set hot \<union> set warm \<union> set cold"
  obtains c' where "timed_get d c k = Some ((Some (demo_record k), d), c')"
    "stack_rel 2 256 c' (if k \<in> set hot then demo_state hot warm cold f
       else demo_push k hot warm cold (if k \<in> set warm then f else f + 1))"
  by (rule timed_get_rel [OF assms(1) _ _ assms(2), of d]) (simp_all add: demo_get [OF assms(3,4)] that)

lemma demo_handles:
  assumes "stack_rel 2 256 c (demo_state hot warm cold f)"
  shows "slot_fetch k (hot_of c) = Some (if k \<in> set hot then Some (demo_record k) else None)"
    "k \<noteq> [] \<Longrightarrow> warm_get c k = (Ok (if k \<in> set warm then Some (demo_record k) else None), c)"
    "fst (remote_exists (cold_of c) k) = Ok (k \<in> set cold)" "remote_fetches (cold_of c) = f"
  using hot_handle [OF assms] warm_handle [OF assms] cold_handle [OF assms, of k] stack_parts(7) [OF assms]
  by (simp_all add: demo_state_def split: if_splits)

lemmas demo_push_simps = demo_push_def numeral_2_eq_2

lemma prove_rollover_passes:
  assumes "stack_rel 2 256 c (demo_state [] [] zs 0)" "en_elapsed e 1 < en_elapsed e 0"
    and zs: "set zs = {''ada'', ''grace'', ''barbara''}"
  obtains c' where "prove_rollover e c = Some (Ok c')"
    "stack_rel 2 256 c' (demo_state [''barbara'', ''ada''] [''grace'', ''ada''] zs 3)"
proof -
  obtain c1 where c1: "timed_get (en_elapsed e 0) c ''ada'' = Some ((Some (demo_record ''ada''), en_elapsed e 0), c1)"
      "stack_rel 2 256 c1 (demo_state [''ada''] [] zs 1)"
    by (rule timed_get_demo [OF assms(1), of "''ada''" "en_elapsed e 0"]) (simp_all add: zs demo_push_simps)
  obtain c2 where c2: "timed_get (en_elapsed e (Suc 0)) c1 ''ada'' = Some ((Some (demo_record ''ada''), en_elapsed e (Suc 0)), c2)"
      "stack_rel 2 256 c2 (demo_state [''ada''] [] zs 1)"
    by (rule timed_get_demo [OF c1(2), of "''ada''" "en_elapsed e (Suc 0)"]) (simp_all add: zs demo_push_simps)
  have "map_of (ro_hot (demo_state [''ada''] [] zs 1)) ''ada'' = Some (demo_record ''ada'')" by (simp add: demo_state_def)
  then obtain view where view: "slot_get_ref ''ada'' (hot_of c2) = Some (Some view)"
      "slot_deref view (hot_of c2) = Some (demo_record ''ada'')"
      "fst view + length (demo_record ''ada'') \<le> length (sl_map (hot_of c2))"
    by (rule hot_view [OF c2(2)])
  then have inside: "fst view < length (sl_map (hot_of c2))" by simp
  obtain c3 where c3: "timed_get (en_elapsed e 2) c2 ''grace'' = Some ((Some (demo_record ''grace''), en_elapsed e 2), c3)"
      "stack_rel 2 256 c3 (demo_state [''ada'', ''grace''] [] zs 2)"
    by (rule timed_get_demo [OF c2(2), of "''grace''" "en_elapsed e 2"]) (simp_all add: zs demo_push_simps)
  obtain c4 where c4: "timed_get (en_elapsed e 3) c3 ''barbara'' = Some ((Some (demo_record ''barbara''), en_elapsed e 3), c4)"
      "stack_rel 2 256 c4 (demo_state [''grace'', ''barbara''] [''ada''] zs 3)"
    by (rule timed_get_demo [OF c3(2), of "''barbara''" "en_elapsed e 3"]) (simp_all add: zs demo_push_simps)
  obtain c5 where c5: "timed_get (en_elapsed e 4) c4 ''ada'' = Some ((Some (demo_record ''ada''), en_elapsed e 4), c5)"
      "stack_rel 2 256 c5 (demo_state [''barbara'', ''ada''] [''grace'', ''ada''] zs 3)"
    by (rule timed_get_demo [OF c4(2), of "''ada''" "en_elapsed e 4"]) (simp_all add: zs demo_push_simps)
  have "prove_rollover e c = Some (Ok c5)"
    using assms(2) inside demo_handles [OF c1(2)] demo_handles [OF c2(2)] demo_handles [OF c4(2)] demo_handles [OF c5(2)]
    by (simp add: prove_rollover_def c1(1) c2(1) c3(1) c4(1) c5(1) view(1,2) mapping_range_def)
  with that c5(2) show thesis by blast
qed


lemma ro_fill_fetches [simp]: "ro_fetches (ro_fill n sz k v a) = ro_fetches a"
  by (simp add: ro_fill_def Let_def split: prod.split)

lemma prove_restart_passes:
  assumes h: "slot_tidy 2 h" "sl_size h = 256" "slot_entries h = demo_entries [''ada'', ''diana'']"
    and w: "dk_faults w = []" "disk_contents w ''grace'' = Some (demo_record ''grace'')" and "en_remap e = None"
  obtains c where "prove_restart e (Ok (sl_map h)) w r = Some (Ok c)" "remote_fetches (cold_of c) = remote_fetches r"
proof -
  obtain t where t: "slot_open (Ok (sl_map h)) None 2 256 = Some (Ok t)" "slot_tidy 2 t" "slot_contents t = slot_contents h"
      "sl_size t = 256"
    by (rule slot_reopen_tidy [OF h(1)]) (simp_all add: h(2) usize_max_def)
  note ivt = slot_tidy_inv [OF t(2)] slot_tidy_inv [OF h(1)]
  have hot: "map_of (slot_entries t) k = (if k = ''ada'' \<or> k = ''diana'' then Some (demo_record k) else None)" for k
    using map_of_slot_entries [OF ivt(1), of k] map_of_slot_entries [OF ivt(2), of k] t(3) h(3) by auto
  have fetch: "slot_fetch k t = Some (if k = ''ada'' \<or> k = ''diana'' then Some (demo_record k) else None)" for k
    using slot_fetch_eq [OF ivt(1)] map_of_slot_entries [OF ivt(1), of k] hot by simp
  have "[] \<notin> set (sl_order t)"
    using slot_order_index [OF ivt(1)] slot_contents_dom [OF ivt(1)] map_of_slot_entries [OF ivt(1)] hot by (metis list.distinct(1))
  then have rel: "stack_rel 2 256 (stack_cache t w r) (ro_start t w r)"
    using stack_rel_start [OF t(2) _ w(1), of r] t(4) by simp
  let ?a = "ro_start t w r"
  have g1: "ro_get 2 256 ''ada'' ?a = (Some (demo_record ''ada''), ?a)" using hot by (simp add: ro_get_def ro_start_def)
  obtain c1 where c1: "timed_get (en_elapsed e 5) (stack_cache t w r) ''ada'' = Some ((Some (demo_record ''ada''), en_elapsed e 5), c1)"
      "stack_rel 2 256 c1 ?a"
    by (rule timed_get_rel [OF rel, of "''ada''" "en_elapsed e 5"]) (simp_all add: g1)
  have g2: "ro_get 2 256 ''grace'' ?a = (Some (demo_record ''grace''), ro_fill 2 256 ''grace'' (demo_record ''grace'') ?a)"
    using hot w(2) by (simp add: ro_get_def ro_start_def)
  obtain c2 where c2: "timed_get (en_elapsed e 6) c1 ''grace'' = Some ((Some (demo_record ''grace''), en_elapsed e 6), c2)"
      "stack_rel 2 256 c2 (ro_fill 2 256 ''grace'' (demo_record ''grace'') ?a)"
    by (rule timed_get_rel [OF c1(2), of "''grace''" "en_elapsed e 6"]) (simp_all add: g2)
  have count: "remote_fetches (cold_of c2) = remote_fetches r"
    using stack_parts(7) [OF c2(2)] by (simp add: ro_start_def remote_fetches_def)
  then have "prove_restart e (Ok (sl_map h)) w r = Some (Ok c2)"
    using assms(6) fetch by (simp add: prove_restart_def t(1) c1(1) c2(1) HOT_SLOTS_def SLOT_SIZE_def)
  with that count show thesis by blast
qed

text \<open>
  C36. The rollover demo keeps what it claims: when the system calls succeed and a hit in the mapping is
  quicker than a remote round-trip, no assertion of the program fails. Reads fall through to the
  remote store once per key and fill the slots, the view lies inside the mapping, the entry that
  leaves the slots is found on the disk, a put reaches all three stores, the reopened mapping still
  serves its entries, and the remote store is read exactly three times in the whole run.
\<close>

theorem rollover_demo_passes:
  assumes "en_create_dir e = None" "en_file e = Ok []" "en_map e = None" "en_warm e = []" "en_flush e = None" "en_remap e = None"
    and "en_elapsed e 1 < en_elapsed e 0"
  shows "demo_main e = Some (Ok 3)"
proof -
  obtain h where h: "slot_open (Ok []) None 2 256 = Some (Ok h)" "slot_tidy 2 h" "slot_entries h = []" "sl_size h = 256"
    by (rule slot_fresh [of 256 2]) (simp_all add: HEADER_def usize_max_def)
  let ?w = "\<lparr>dk_stem = Some ''warm'', dk_files = fmempty, dk_beside = fmempty, dk_faults = []\<rparr>"
  let ?zs = "[''barbara'', ''grace'', ''ada'']"
  obtain r where r: "demo_fill [''ada'', ''grace'', ''barbara''] (remote_new 25) = Ok r"
      "fmlookup (rs_data r) = map_of (demo_entries ?zs)" "rs_fetches r = 0"
    by (simp add: remote_put_def remote_new_def demo_entries_def fun_eq_iff)
  have "disk_contents ?w = Map.empty" by (simp add: disk_contents_def fun_eq_iff)
  then have "ro_start h ?w r = demo_state [] [] ?zs 0"
    using h(3) r(2,3) by (simp add: ro_start_def demo_state_def demo_entries_def)
  then have "stack_rel 2 256 (stack_cache h ?w r) (demo_state [] [] ?zs 0)"
    using stack_rel_start [OF h(2) fresh_keys [OF h(3)], of ?w r] h(4) by simp
  then obtain c1 where c1: "prove_rollover e (stack_cache h ?w r) = Some (Ok c1)"
      "stack_rel 2 256 c1 (demo_state [''barbara'', ''ada''] [''grace'', ''ada''] ?zs 3)"
    by (rule prove_rollover_passes [OF _ assms(7)]) auto
  obtain x c2 where put: "cache_put c1 ''diana'' (demo_record ''diana'') = (x, c2)" by fastforce
  have spec: "ro_put 2 256 ''diana'' (demo_record ''diana'') (demo_state [''barbara'', ''ada''] [''grace'', ''ada''] ?zs 3) =
      demo_state [''ada'', ''diana''] [''barbara'', ''diana'', ''grace'', ''ada''] (''diana'' # ?zs) 3"
    by (simp add: demo_put demo_push_def)
  have "x = Ok []" and c2: "stack_rel 2 256 c2 (demo_state [''ada'', ''diana''] [''barbara'', ''diana'', ''grace'', ''ada''] (''diana'' # ?zs) 3)"
    using stack_do_rel [OF c1(2), of "Call_Put ''diana'' (demo_record ''diana'')"] put spec
    by simp_all
  obtain c3 where c3: "prove_restart e (Ok (sl_map (hot_of c2))) (warm_of c2) (cold_of c2) = Some (Ok c3)"
      "remote_fetches (cold_of c3) = remote_fetches (cold_of c2)"
    by (rule prove_restart_passes [OF stack_parts(1,2) [OF c2] _ stack_parts(4) [OF c2] _ assms(6)])
       (simp_all add: stack_parts(3,5) [OF c2], simp_all add: demo_state_def)
  have "remote_fetches (cold_of c2) = 3" using demo_handles(4) [OF c2] .
  then show ?thesis
    using assms(1-5) c3(2) \<open>x = Ok []\<close>
    by (simp add: demo_main_def failing_def r(1) HOT_SLOTS_def SLOT_SIZE_def h(1) disk_open_def next_fault_def c1(1) put c3(1)
        demo_handles(2,3) [OF c2] del: demo_fill.simps)
qed

theorem rollover_demo_passes_witness:
  "demo_main \<lparr>en_base = 4096, en_elapsed = (\<lambda>i. if i = 0 then 25000 else 3), en_create_dir = None, en_file = Ok [],
     en_map = None, en_warm = [], en_flush = None, en_remap = None\<rparr> = Some (Ok 3)"
  by (rule rollover_demo_passes) simp_all

end
