(* ===== verification/Error_Display.thy ===== *)
theory Error_Display
  imports Tiered_Store Codec_Tier Verified_Tier
begin

text \<open>
  The \<open>Display\<close> and \<open>Error::source\<close> implementations of \<open>tierstore/src/error.rs\<close>, \<open>codec.rs\<close>,
  \<open>verified.rs\<close> and \<open>store.rs\<close>. How a boxed error or the error of a tier displays itself is a
  parameter. A source is the next error of the chain that a caller walks to find the cause.
\<close>

text \<open>\<open>Display\<close> of \<open>usize\<close>.\<close>

fun show_usize :: "nat \<Rightarrow> string" where
  "show_usize n = (if n < 10 then [char_of (48 + n)] else show_usize (n div 10) @ [char_of (48 + n mod 10)])"

declare show_usize.simps [simp del]

definition show_failure :: "'x tier_failure \<Rightarrow> string" where
  "show_failure f = ''tier '' @ show_usize (failure_tier f) @ '' ('' @ failure_name f @ '') failed''"

fun show_router_error :: "'x router_error \<Rightarrow> string" where
  "show_router_error (Tier_Failed f) = show_failure f"
| "show_router_error (Inconclusive fs) =
     ''read inconclusive: no hit and '' @ show_usize (length fs) @ '' tier(s) failed''"
| "show_router_error (Partial fs) =
     ''operation partially failed on '' @ show_usize (length fs) @
     '' tier(s); cross-tier state may be inconsistent''"
| "show_router_error Read_Only = ''write rejected: the router has no writable tier''"

fun show_codec_error :: "('e \<Rightarrow> string) \<Rightarrow> ('b \<Rightarrow> string) \<Rightarrow> ('e, 'b) codec_error \<Rightarrow> string" where
  "show_codec_error show_e show_b (Codec_Backend e) = ''backend error: '' @ show_e e"
| "show_codec_error show_e show_b (Codec b) = ''codec error: '' @ show_b b"

fun show_verify_error :: "('e \<Rightarrow> string) \<Rightarrow> ('b \<Rightarrow> string) \<Rightarrow> ('e, 'b) verify_error \<Rightarrow> string" where
  "show_verify_error show_e show_b (Verify_Backend e) = ''backend error: '' @ show_e e"
| "show_verify_error show_e show_b (Corrupt b) = ''verification rejected value: '' @ show_b b"

text \<open>The dash of the message is three bytes.\<close>

fun show_store_error :: "('k, 'v, 'x) store_error \<Rightarrow> string" where
  "show_store_error (Store_Router e) = show_router_error e"
| "show_store_error (Evicted es) =
     ''write displaced '' @ show_usize (length es) @ '' entr'' @ (if length es = 1 then ''y'' else ''ies'') @
     '' off the bottom tier '' @ map char_of [0xE2, 0x80, 0x94 :: nat] @ '' data loss for a store''"

text \<open>Every source in these errors is one of the following.\<close>

datatype ('x, 'e, 'b) source_error =
    Boxed 'b
  | Inner 'e
  | Failure "'x tier_failure"
  | Router "'x router_error"

definition failure_cause :: "'x tier_failure \<Rightarrow> ('x, 'e, 'x) source_error option" where
  "failure_cause f = Some (Boxed (failure_source f))"

fun router_error_source :: "'x router_error \<Rightarrow> ('x, 'e, 'b) source_error option" where
  "router_error_source (Tier_Failed f) = Some (Failure f)"
| "router_error_source (Inconclusive fs) = map_option Failure (if fs = [] then None else Some (hd fs))"
| "router_error_source (Partial fs) = map_option Failure (if fs = [] then None else Some (hd fs))"
| "router_error_source Read_Only = None"

fun codec_error_source :: "('e, 'b) codec_error \<Rightarrow> ('x, 'e, 'b) source_error option" where
  "codec_error_source (Codec_Backend e) = Some (Inner e)"
| "codec_error_source (Codec b) = Some (Boxed b)"

fun verify_error_source :: "('e, 'b) verify_error \<Rightarrow> ('x, 'e, 'b) source_error option" where
  "verify_error_source (Verify_Backend e) = Some (Inner e)"
| "verify_error_source (Corrupt b) = Some (Boxed b)"

fun store_error_source :: "('k, 'v, 'x) store_error \<Rightarrow> ('x, 'e, 'b) source_error option" where
  "store_error_source (Store_Router e) = Some (Router e)"
| "store_error_source (Evicted es) = None"

text \<open>A router error has a source exactly when it lists a failure, which is the first one listed.\<close>

lemma router_error_source_first:
  "router_error_source e = (case error_failures e of [] \<Rightarrow> None | f # fs \<Rightarrow> Some (Failure f))"
  by (cases e) (auto split: list.splits)

end
