(* ===== verification/Router_Errors.thy ===== *)
theory Router_Errors
  imports Error_Display Router_Get Router_Frame
begin

text \<open>
  The errors of the router, over any tiers whatsoever: an error lists the failures that caused it,
  each of an existing tier, in the order of the tiers and each tier once, and its source is the
  first of them; only a write to a router without a writable tier has no cause.
\<close>

definition error_caused :: "nat \<Rightarrow> 'x router_error \<Rightarrow> bool" where
  "error_caused n e \<longleftrightarrow>
     router_error_source e = (Some (Failure (hd (error_failures e))) :: ('x, unit, unit) source_error option) \<and>
     sorted_wrt (<) (map failure_tier (error_failures e)) \<and> list_all (\<lambda>f. failure_tier f < n) (error_failures e)"

text \<open>Failures collected so far, and the tiers that are still to be asked.\<close>

definition tracked :: "nat \<Rightarrow> nat list \<Rightarrow> 'x tier_failure list \<Rightarrow> bool" where
  "tracked n is fs \<longleftrightarrow> sorted_wrt (<) (map failure_tier fs @ is) \<and> (\<forall>i \<in> failure_tier ` set fs \<union> set is. i < n)"

lemma tracked_start [simp]: "tracked n [0..<n] []"
  by (simp add: tracked_def)

lemma tracked_skip: "tracked n (i # is) fs \<Longrightarrow> tracked n is fs"
  by (auto simp: tracked_def sorted_wrt_append)

lemma tracked_stop: "tracked n is fs \<Longrightarrow> tracked n [] fs"
  by (auto simp: tracked_def sorted_wrt_append)

lemma failure_tier_failure [simp]: "failure_tier (failure ts i x) = i"
  by (simp add: failure_def)

lemma tracked_fail: "tracked n (i # is) fs \<Longrightarrow> failure_tier f = i \<Longrightarrow> tracked n is (fs @ [f])"
  by (auto simp: tracked_def sorted_wrt_append)

lemma caused_one:
  fixes f :: "'x tier_failure" and fs :: "'x tier_failure list"
  shows "tracked n (i # is) fs \<Longrightarrow> failure_tier f = i \<Longrightarrow> error_caused n (Tier_Failed f)"
  by (simp add: tracked_def error_caused_def)

lemma caused_list:
  assumes "tracked n [] fs" "fs \<noteq> []"
  shows "error_caused n (Inconclusive fs)" "error_caused n (Partial fs)"
  using assms by (auto simp: tracked_def error_caused_def list_all_iff)

lemma scan_tracked:
  assumes "tracked n is fs" "scan_tiers m ask is fs ts = (sc, ts')" "scan_result g a sc = Err e"
  shows "error_caused n e"
  using assms
proof (induction "is" arbitrary: fs ts)
  case (Cons i "is")
  note t = tracked_skip [OF Cons.prems(1)] tracked_fail [OF Cons.prems(1)] caused_one [OF Cons.prems(1)]
  obtain x ts1 where c: "call i ask ts = (x, ts1)" by fastforce
  show ?case
  proof (cases x)
    case (Inl y)
    then show ?thesis using Cons.prems(2,3) t c Cons.IH [OF t(2) [of "failure (bump i Errors 1 ts1) i y"]]
      by (cases m) (auto simp: Let_def)
  next
    case (Inr v)
    then show ?thesis using Cons.prems(2,3) c Cons.IH [OF t(1)] by (cases v) auto
  qed
qed (auto intro: caused_list split: if_splits)

lemma resolve_conclusive:
  "resolve i zs sts = (sts', ms) \<Longrightarrow> Status_Inconclusive \<notin> set sts \<Longrightarrow> Status_Inconclusive \<notin> set sts'"
proof (induction i zs sts arbitrary: sts' ms rule: resolve.induct)
  case (2 i j v zs sts)
  then show ?case using set_update_subset_insert [of sts j "Status_Hit i v"] by auto
qed (auto split: prod.splits)

lemma read_loop_tracked:
  assumes "tracked n is fs" "read_loop p ks is sts un fs ts = (a, ts')" "Status_Inconclusive \<notin> set sts"
  shows "case a of Ok (sts', un', fs') \<Rightarrow> tracked n [] fs' \<and> Status_Inconclusive \<notin> set sts' | Err e \<Rightarrow> error_caused n e"
  using assms
proof (induction "is" arbitrary: fs ts sts un)
  case (Cons i "is")
  note t = tracked_skip [OF Cons.prems(1)] tracked_fail [OF Cons.prems(1)] caused_one [OF Cons.prems(1)]
    tracked_stop [OF Cons.prems(1)]
  show ?case
  proof (cases "un = []")
    case True
    then show ?thesis using Cons.prems t by auto
  next
    case False
    obtain x ts1 where c: "call i (\<lambda>t s. t_get_many t s (map ((!) ks) un)) ts = (x, ts1)" by fastforce
    show ?thesis
    proof (cases x)
      case (Inl e)
      then show ?thesis using Cons.prems False c t Cons.IH [OF t(2) [of "failure (bump i Errors 1 ts1) i e"]]
        by (cases "rp_on_error (pol_read p)") (auto simp: Let_def)
    next
      case (Inr found)
      obtain sts1 ms where r: "resolve i (zip un found) sts = (sts1, ms)" by fastforce
      show ?thesis
        using Cons.prems(2) False c Inr r Cons.IH [OF t(1) _ resolve_conclusive [OF r Cons.prems(3)]]
        by (simp add: Let_def)
    qed
  qed
qed auto

lemma through_tracked:
  assumes "sorted_wrt (>) is" "\<forall>i \<in> set is. i < n" "through_loop p wr m is ev ts = (Err e, ts')"
  shows "error_caused n e"
  using assms
proof (induction "is" arbitrary: ev ts)
  case (Cons i "is")
  have "failure_tier f = i \<Longrightarrow> error_caused n (Tier_Failed f)" for f :: "'a tier_failure"
    using Cons.prems(2) by (simp add: error_caused_def)
  with Cons.prems show ?case
    by (auto simp: Let_def split: prod.splits sum.splits if_splits on_write_error.splits intro: Cons.IH)
qed simp

lemma invalidate_tracked:
  "tracked n is fs \<Longrightarrow> tracked n [] (fst (invalidate_loop del m is fs ts))"
proof (induction "is" arbitrary: fs ts)
  case (Cons i "is")
  note t = tracked_skip [OF Cons.prems] tracked_fail [OF Cons.prems]
  show ?case using Cons.IH t by (auto simp: Let_def split: prod.split sum.split)
qed simp

lemma delete_tracked:
  "tracked n is fs \<Longrightarrow> tracked n [] (snd (fst (delete_loop k is b fs ts)))"
proof (induction "is" arbitrary: b fs ts)
  case (Cons i "is")
  note t = tracked_skip [OF Cons.prems] tracked_fail [OF Cons.prems]
  show ?case using Cons.IH t by (auto simp: Let_def split: prod.split sum.split)
qed simp

lemma remove_tracked:
  "tracked n is fs \<Longrightarrow> tracked n [] (del_failures (fst (remove_loop ks is bs fs ts)))"
proof (induction "is" arbitrary: bs fs ts)
  case (Cons i "is")
  note t = tracked_skip [OF Cons.prems] tracked_fail [OF Cons.prems]
  show ?case using Cons.IH t by (auto simp: Let_def split: prod.split sum.split)
qed simp

section \<open>The operations\<close>

fun answer_caused :: "('s, 'k, 'v, 'x) router \<Rightarrow> ('a, 'x router_error) result \<Rightarrow> bool" where
  "answer_caused r (Ok x) = True"
| "answer_caused r (Err e) = error_caused (length (rt_tiers r)) e"

text \<open>A write succeeds only when some tier is writable, and is rejected as read-only when none is.\<close>

fun write_caused :: "('s, 'k, 'v, 'x) router \<Rightarrow> ('a, 'x router_error) result \<Rightarrow> bool" where
  "write_caused r (Ok x) = list_ex writable (rt_tiers r)"
| "write_caused r (Err e) =
     (if list_ex writable (rt_tiers r) then error_caused (length (rt_tiers r)) e else e = Read_Only)"

lemma answer_causedI: "(\<And>e. a = Err e \<Longrightarrow> error_caused (length (rt_tiers r)) e) \<Longrightarrow> answer_caused r a"
  by (cases a) simp_all

lemma router_get_caused: "answer_caused r (fst (the (router_get r k)))"
  by (rule answer_causedI)
     (auto simp: router_get_eq get_reference_def Let_def split_def dest: scan_tracked [OF tracked_start prod.collapse [symmetric]])

lemma router_exists_caused: "answer_caused r (fst (the (router_exists r k)))"
  by (rule answer_causedI)
     (auto simp: router_exists_eq exists_reference_def Let_def split_def dest: scan_tracked [OF tracked_start prod.collapse [symmetric]])

lemma read_many_caused:
  "case fst (router_read_many r ks) of
     Err e \<Rightarrow> error_caused (length (rt_tiers r)) e
   | Ok rep \<Rightarrow> tracked (length (rt_tiers r)) [] (rep_failures rep) \<and>
       (Status_Inconclusive \<in> set (rep_statuses rep) \<longrightarrow> rep_failures rep \<noteq> [])"
proof -
  obtain a ts where l: "read_loop (rt_policy r) ks [0..<length (rt_tiers r)] (replicate (length ks) Status_Miss)
      [0..<length ks] [] (rt_tiers r) = (a, ts)" by fastforce
  have "Status_Inconclusive \<notin> set (replicate (length ks) Status_Miss)" by simp
  from read_loop_tracked [OF tracked_start l this] l show ?thesis
    by (auto simp: router_read_many_def Let_def split: sum.splits prod.splits)
qed

lemma list_ex_inconclusive:
  "list_ex (\<lambda>st. case st of Status_Inconclusive \<Rightarrow> True | _ \<Rightarrow> False) sts \<longleftrightarrow> Status_Inconclusive \<in> set sts"
  by (induction sts) (auto split: key_status.split)

lemma router_get_many_caused: "answer_caused r (fst (router_get_many r ks))"
  using read_many_caused [of r ks] caused_list(1)
  by (auto simp: router_get_many_def list_ex_inconclusive split: prod.splits sum.splits)

lemma router_delete_caused: "answer_caused r (fst (router_delete r k))"
  using delete_tracked [OF tracked_start, of "length (rt_tiers r)" k False "rt_tiers r"] caused_list(2)
  by (auto simp: router_delete_def Let_def split_def)

lemma router_delete_many_caused: "answer_caused r (fst (router_delete_many r ks))"
  using remove_tracked [OF tracked_start, of "length (rt_tiers r)" ks "replicate (length ks) False" "rt_tiers r"] caused_list(2)
  by (auto simp: router_delete_many_def router_remove_many_def delete_complete_def Let_def split_def split: prod.splits)

lemma through_caused: "write_caused r (fst (write_through p wr m (rt_tiers r)))"
proof -
  have "sorted_wrt (>) (rev [0..<length (rt_tiers r)])" by (simp add: sorted_wrt_rev)
  then have "through_loop p wr m (rev [0..<length (rt_tiers r)]) [] (rt_tiers r) = (Err e, ts) \<Longrightarrow>
      error_caused (length (rt_tiers r)) e" for e ts
    by (rule through_tracked) simp_all
  then show ?thesis
    by (cases "through_loop p wr m (rev [0..<length (rt_tiers r)]) [] (rt_tiers r)";
        cases "fst (through_loop p wr m (rev [0..<length (rt_tiers r)]) [] (rt_tiers r))")
       (auto simp: write_through_def)
qed

lemma around_caused:
  fixes r :: "('s, 'k, 'v, 'x) router"
  shows "write_caused r (fst (write_around wr del m (rt_tiers r)))"
proof (cases "rposition_writable (rt_tiers r)")
  case None
  then have "\<not> list_ex writable (rt_tiers r)" by (simp add: rposition_writable_None)
  then show ?thesis by (simp add: write_around_def None)
next
  case (Some b)
  let ?n = "length (rt_tiers r)"
  have b: "b < ?n" and w: "list_ex writable (rt_tiers r)"
    using Some rposition_writable_Some [OF Some] rposition_writable_None [of "rt_tiers r"] by auto
  have one: "failure_tier f = b \<Longrightarrow> error_caused ?n (Tier_Failed f)" for f :: "'x tier_failure"
    using b caused_one [of ?n b "[]" "[]" f] by (simp add: tracked_def)
  have "tracked b [] fs \<Longrightarrow> tracked ?n [] fs" for fs :: "'x tier_failure list" using b by (auto simp: tracked_def)
  then have more: "fs \<noteq> [] \<Longrightarrow> invalidate_loop del m [0..<b] [] ts = (fs, ts') \<Longrightarrow> error_caused ?n (Partial fs)"
    for fs and ts ts' :: "('s, 'k, 'v, 'x) slots"
    using invalidate_tracked [OF tracked_start, of b del m ts] by (auto intro: caused_list)
  show ?thesis using w one more by (auto simp: write_around_def Some Let_def split: prod.split sum.split)
qed

text \<open>
  C6. Every error has a cause, whatever the tiers answer. Over any tiers, reliable or not, lawful or
  not, an error of a read or a delete lists at least one failure; the failures are of existing tiers,
  each tier once and from the top down, and the source of the error is the first of them. A write
  succeeds only over a writable tier, is rejected as read-only exactly when there is none, and its
  other errors have a cause in the same sense. So an inconclusive read or a partial delete is never
  reported without a tier that failed.
\<close>

theorem router_errors_have_causes:
  "answer_caused r (fst (the (router_get r k))) \<and> answer_caused r (fst (the (router_exists r k))) \<and>
   answer_caused r (fst (router_read_many r ks)) \<and> answer_caused r (fst (router_get_many r ks)) \<and>
   answer_caused r (fst (router_delete r k)) \<and> answer_caused r (fst (router_delete_many r ks)) \<and>
   write_caused r (fst (router_put r k v)) \<and> write_caused r (fst (router_put_many r es))"
proof (intro conjI)
  show "answer_caused r (fst (router_read_many r ks))"
    by (rule answer_causedI) (use read_many_caused [of r ks] in simp)
  show "write_caused r (fst (router_put r k v))" "write_caused r (fst (router_put_many r es))"
    using through_caused around_caused
    by (auto simp: router_put_def router_put_many_def Let_def split_def split: write_mode.split)
qed (rule router_get_caused router_exists_caused router_get_many_caused router_delete_caused router_delete_many_caused)+

end
