(* ===== verification/Router_Aborts.thy ===== *)
theory Router_Aborts
  imports Router_Examples Codec_Tier Tier_Sum
begin

text \<open>
  Aborted writes. A write-through runs bottom-up; under a fail-fast policy the first tier that
  rejects it ends the call with its error, and what the tiers below have displaced by then is in no
  answer. Shown for any hierarchy: what a write to the lower tiers alone returns as displaced, the
  aborted write drops.
\<close>

section \<open>Lower tiers alone\<close>










section \<open>What is lost\<close>


section \<open>A cache of small values over a full tier\<close>









end
