(* ===== verification/Hot_Warm_Cold.thy ===== *)
theory Hot_Warm_Cold
  imports Rollover_Demo Memory_History
begin

text \<open>
  The program of \<open>tierstore/examples/hot_warm_cold.rs\<close>: a \<open>TieredCache\<close> over a memory tier of two
  entries, a disk tier and a mock of a remote database. The lines it prints are its result; \<open>None\<close> is
  a failed \<open>expect\<close>. The futures of these tiers are ready when they are polled first, so \<open>block_on\<close>
  is their value. Shown: the hierarchy implements the specification of the rollover demo with slots
  that everything fits in, and what exactly the program prints.
\<close>

section \<open>The mock remote database\<close>

record remote_db =
  rd_inner :: "(string, u8 list) memory_tier"
  rd_fetches :: u64

definition db_new :: remote_db where
  "db_new = \<lparr>rd_inner = memory_unbounded, rd_fetches = 0\<rparr>"

definition db_fetches :: "remote_db \<Rightarrow> u64" where
  "db_fetches r = rd_fetches r"

definition on_db :: "('a \<times> (string, u8 list) memory_tier) \<Rightarrow> remote_db \<Rightarrow> 'a \<times> remote_db" where
  "on_db p r = apsnd (\<lambda>m. r\<lparr>rd_inner := m\<rparr>) p"

definition db_get :: "remote_db \<Rightarrow> string \<Rightarrow> (u8 list option, 'e) result \<times> remote_db" where
  "db_get r k = (let r1 = r\<lparr>rd_fetches := rd_fetches r + 1\<rparr> in on_db (memory_get (rd_inner r1) k) r1)"

definition db_exists :: "remote_db \<Rightarrow> string \<Rightarrow> (bool, 'e) result \<times> remote_db" where
  "db_exists r k = on_db (memory_exists (rd_inner r) k) r"

definition db_put :: "remote_db \<Rightarrow> string \<Rightarrow> u8 list \<Rightarrow> ((string, u8 list) displaced, 'e) result \<times> remote_db" where
  "db_put r k v = on_db (memory_put (rd_inner r) k v) r"

definition db_delete :: "remote_db \<Rightarrow> string \<Rightarrow> (bool, 'e) result \<times> remote_db" where
  "db_delete r k = on_db (memory_delete (rd_inner r) k) r"

definition db_ops :: "(remote_db, string, u8 list, 'e) tier_ops" where
  "db_ops =
     \<lparr>t_name = (\<lambda>_. ''remote-db''), t_get = db_get, t_exists = db_exists, t_get_many = get_many_default db_get,
      t_put = db_put, t_delete = db_delete, t_put_many = put_many_default db_put,
      t_delete_many = delete_many_default db_delete\<rparr>"

section \<open>The program\<close>

type_synonym walk_state = "(string, u8 list) memory_tier + disk + remote_db"

type_synonym walk = "(walk_state, string, u8 list, io_error) tiered_cache"

definition walk_hot :: "(walk_state, string, u8 list, io_error) tier_ops" where
  "walk_hot = left_ops memory_ops"

definition walk_warm :: "(walk_state, string, u8 list, io_error) tier_ops" where
  "walk_warm = right_ops (left_ops (disk_ops_on id))"

definition walk_cold :: "(walk_state, string, u8 list, io_error) tier_ops" where
  "walk_cold = right_ops (right_ops db_ops)"

definition walk_cache :: "(string, u8 list) memory_tier \<Rightarrow> disk \<Rightarrow> remote_db \<Rightarrow> walk" where
  "walk_cache hot warm cold =
     the (cache_build 1
       (cache_builder_tier id walk_cold (Inr (Inr cold))
         (cache_builder_tier id walk_warm (Inr (Inl warm))
           (cache_builder_tier id walk_hot (Inl hot) cache_builder_new))))"

text \<open>The handles \<open>hot\<close>, \<open>warm\<close> and \<open>cold\<close> share their tier with the cache.\<close>

definition tier_of :: "nat \<Rightarrow> walk \<Rightarrow> walk_state" where
  "tier_of i c = slot_state (rt_tiers (tc_router c) ! i)"

definition set_tier_of :: "nat \<Rightarrow> walk_state \<Rightarrow> walk \<Rightarrow> walk" where
  "set_tier_of i s c =
     c\<lparr>tc_router := (tc_router c)\<lparr>rt_tiers := (rt_tiers (tc_router c))
        [i := (rt_tiers (tc_router c) ! i)\<lparr>slot_state := s\<rparr>]\<rparr>\<rparr>"

definition handle_get ::
  "(walk_state, string, u8 list, io_error) tier_ops \<Rightarrow> nat \<Rightarrow> string \<Rightarrow> walk \<Rightarrow>
   (u8 list option, io_error) result \<times> walk"
where
  "handle_get t i k c = apsnd (\<lambda>s. set_tier_of i s c) (t_get t (tier_of i c) k)"

definition walk_fetches :: "walk \<Rightarrow> u64" where
  "walk_fetches c = db_fetches (projr (projr (tier_of 2 c)))"

text \<open>
  The lines that are printed: the layout with the root of the disk tier, a call with the fetches of
  the remote database after it, and where \<open>ada\<close> is.
\<close>

datatype walk_line = Layout string | Fetched string u64 | Rolled bool bool

definition expect :: "('a, 'e) result \<times> 's \<Rightarrow> ('a \<times> 's) option" where
  "expect p = (case p of (Ok x, s) \<Rightarrow> Some (x, s) | (Err _, _) \<Rightarrow> None)"

definition walk_get :: "walk \<Rightarrow> string \<Rightarrow> (bool \<times> walk) option" where
  "walk_get c k = do { (v, c) \<leftarrow> expect (cache_get c k); Some (v \<noteq> None, c) }"

fun walk_seed :: "string list \<Rightarrow> remote_db \<Rightarrow> remote_db option" where
  "walk_seed [] r = Some r"
| "walk_seed (name # names) r =
     do { (_, r) \<leftarrow> expect (db_put r name (demo_record name) :: (_, unit) result \<times> _); walk_seed names r }"

text \<open>
  \<open>warm\<close> is the outcome of opening the disk tier after the root was removed, or not (the result of
  \<open>remove_dir_all\<close> is ignored).
\<close>

definition walk_main :: "string \<Rightarrow> (disk, io_error) result \<Rightarrow> walk_line list option" where
  "walk_main root warm =
     do {
       (warm, _) \<leftarrow> expect (warm, ());
       cold \<leftarrow> walk_seed [''ada'', ''grace'', ''barbara''] db_new;
       let c = walk_cache (memory_bounded 2) warm cold;
       (_, c) \<leftarrow> walk_get c ''ada'';
       let first = Fetched ''get(ada)'' (walk_fetches c);
       (_, c) \<leftarrow> walk_get c ''ada'';
       let second = Fetched ''get(ada)'' (walk_fetches c);
       (_, c) \<leftarrow> walk_get c ''grace'';
       (_, c) \<leftarrow> walk_get c ''barbara'';
       let third = Fetched ''get(grace), get(barbara)'' (walk_fetches c);
       (ada_in_hot, c) \<leftarrow> expect (handle_get walk_hot 0 ''ada'' c);
       (ada_on_disk, c) \<leftarrow> expect (handle_get walk_warm 1 ''ada'' c);
       (_, c) \<leftarrow> walk_get c ''ada'';
       Some [Layout root, first, second, third, Rolled (ada_in_hot \<noteq> None) (ada_on_disk \<noteq> None),
             Fetched ''get(ada)'' (walk_fetches c)]
     }"

section \<open>A bounded memory tier is a bounded queue\<close>

definition plain :: "('k, 'v) entry_queue \<Rightarrow> ('k \<times> 'v) list" where
  "plain q = map (\<lambda>(k, v, w). (k, v)) q"

text \<open>A first-in-first-out memory tier of at most \<open>n\<close> entries with room for \<open>b\<close> more stamps.\<close>

definition fifo_memory :: "nat \<Rightarrow> nat \<Rightarrow> ('k, 'v) memory_tier \<Rightarrow> ('k \<times> 'v) list \<Rightarrow> bool" where
  "fifo_memory b n t es \<longleftrightarrow>
     roomy b t \<and> mt_max_entries t = Some n \<and> mt_bytes t = None \<and> mt_eviction t = Fifo \<and> mem_inv (mt_inner t) \<and>
     \<not> mem_over (mt_inner t) (tier_limits t) \<and> plain (live_queue (mt_inner t)) = es"

lemma plain_simps [simp]:
  "fst ` set (plain q) = fst ` set q" "length (plain q) = length q" "q_displaced q = plain q"
  "map_of (plain q) k = q_value q k" "plain (p @ q) = plain p @ plain q"
  by (auto simp: plain_def q_displaced_def q_value_def image_image case_prod_beta) 
     (induction q, auto simp: q_value_def)

lemma fifo_memory_new:
  assumes "b < 2 ^ 64"
  shows "fifo_memory b n (memory_bounded n) []"
proof -
  have "mt_inner (memory_bounded n :: ('k, 'v) memory_tier) = mem_empty" by (simp add: memory_bounded_def memory_unbounded_def)
  moreover have "\<not> mem_over (mem_empty :: ('k, 'v) inner) \<lparr>lim_entries = Some n, lim_bytes = None\<rparr>"
    by (simp add: mem_over_def mem_empty_def hm_len_def fcard_fempty)
  ultimately show ?thesis
    using assms mem_wf_empty mem_inv_empty
    by (simp add: fifo_memory_def roomy_def tier_limits_def memory_bounded_def memory_unbounded_def plain_def)
       (simp add: mem_empty_def)
qed

lemma fifo_memory_read:
  assumes "fifo_memory b n t es"
  shows "memory_get_many t [k] = (Ok [map_of es k], t)" "memory_get t k = (Ok (map_of es k), t)"
    "distinct (map fst es)" "length es \<le> n"
proof -
  have wf: "mem_wf (mt_inner t)" and ev: "mt_eviction t = Fifo" and es: "es = plain (live_queue (mt_inner t))"
    using assms by (auto simp: fifo_memory_def roomy_def)
  have f: "mem_fetch (mt_inner t) k Fifo = (map_of es k, mt_inner t)"
    using mem_fetch_res [of "mt_inner t" k Fifo] q_value_live [OF wf] es by (simp add: mem_fetch_def Let_def)
  then show "memory_get_many t [k] = (Ok [map_of es k], t)" "memory_get t k = (Ok (map_of es k), t)"
    using ev by (simp_all add: memory_get_many_def memory_get_def)
  have "map fst es = map fst (live_order (mt_inner t))"
    by (simp add: es plain_def live_queue_def queue_entry_def case_prod_beta)
  then show "distinct (map fst es)" using wf live_keys_distinct [of "mt_inner t"] by (simp add: mem_wf_def)
  show "length es \<le> n"
    using assms live_queue_length [OF wf] by (auto simp: fifo_memory_def tier_limits_def mem_over_def)
qed

lemma q_evict_count:
  "lim = \<lparr>lim_entries = Some n, lim_bytes = None\<rparr> \<Longrightarrow> q_evict lim q = (take (length q - n) q, drop (length q - n) q)"
  by (induction q) (auto simp: q_over_def Suc_diff_le not_less split: nat_diff_split)

lemma plain_replace:
  "plain (map (\<lambda>e. if fst e = k then (k, v, w) else e) q) = map (\<lambda>(j, u). (j, if j = k then v else u)) (plain q)"
  by (induction q) (auto simp: plain_def)

lemma fifo_put_evict:
  assumes "length q \<le> n" "0 < n" "lim = \<lparr>lim_entries = Some n, lim_bytes = None\<rparr>"
  shows "fifo_put n k v (plain q) = map_prod plain plain (q_evict lim (q_put Fifo q k v 0))"
proof (cases "k \<in> fst ` set q")
  case True
  then have "q_put Fifo q k v 0 = map (\<lambda>e. if fst e = k then (k, v, 0) else e) q" by (simp add: q_put_def)
  with True assms(1) plain_replace [of k v 0 q] show ?thesis
    by (simp add: fifo_put_def q_evict_count [OF assms(3)]) (simp add: plain_def)
next
  case False
  then have "filter (\<lambda>e. fst e \<noteq> k) q = q" by (auto simp: filter_id_conv)
  then have put: "q_put Fifo q k v 0 = q @ [(k, v, 0)]" using False by (simp add: q_put_def q_drop_def)
  have keys: "k \<notin> fst ` set (plain q)" using False by (simp only: plain_simps) simp
  show ?thesis
    using keys put assms(1,2)
    by (cases "length q < n")
       (simp_all only: fifo_put_def q_evict_count [OF assms(3)] if_False plain_simps, simp_all add: plain_def take_map drop_map)
qed

lemma fifo_memory_put:
  assumes "fifo_memory (Suc b) n t es" "0 < n" "fifo_put n k v es = (d, es')"
  obtains t' where "memory_put t k v = (Ok d, t')" "memory_put_many t [(k, v)] = (Ok d, t')" "fifo_memory b n t' es'"
proof -
  let ?q = "live_queue (mt_inner t)" and ?lim = "\<lparr>lim_entries = Some n, lim_bytes = None\<rparr>"
  have c: "roomy (Suc b) t" "mt_eviction t = Fifo" "es = plain ?q" "mem_inv (mt_inner t)" "\<not> mem_over (mt_inner t) (tier_limits t)"
    using assms(1) by (auto simp: fifo_memory_def)
  have lim: "tier_limits t = ?lim" and wt: "weight_of t = (\<lambda>k v. 0)" "weight_cap t = 0"
    using assms(1) by (auto simp: fifo_memory_def tier_limits_def weight_of_def weight_cap_def fun_eq_iff)
  have room: "weight_cap t + weight_of t j u \<le> usize_max" for j u by (simp add: wt)
  let ?t = "snd (memory_step t (Cmd_Put k v))"
  let ?x = "mem_insert (mt_inner t) k v (weight_of t k v) (tier_limits t) (mt_eviction t)"
  have put: "memory_put t k v = (Ok (fst ?x), ?t)" by (simp add: memory_put_def split_def Let_def)
  have many: "memory_put_many t [(k, v)] = (Ok (fst ?x), ?t)"
    by (simp add: memory_put_many_def memory_put_def split_def Let_def)
  have "map_prod plain plain (q_evict ?lim (q_put Fifo ?q k v 0)) = (d, es')"
    using fifo_put_evict [of ?q n ?lim k v] fifo_memory_read(4) [OF assms(1)] assms(2,3) c(3) by simp
  then have ans: "fst ?x = d" "plain (live_queue (mt_inner ?t)) = es'"
    using step_refines [OF c(1) room, of "Cmd_Put k v"]
    by (simp_all add: lim wt c(2) memory_put_def split_def Let_def prod_eq_iff)
  have cfg: "same_config t ?t" by (rule step_same_config) (simp add: same_config_def)
  have "mt_max_entries ?t = mt_max_entries t" using cfg by (metis same_config_def set_inner_simps(3))
  then have "fifo_memory b n ?t es'"
    using roomy_step [OF c(1) room c(4,5), of "Cmd_Put k v"] step_within [OF c(4,5), of "Cmd_Put k v"] ans(2)
      same_config_simps [OF cfg] assms(1)
    unfolding fifo_memory_def by metis
  with put many ans(1) that show thesis by metis
qed

section \<open>The hierarchy implements the specification\<close>

definition walk_tiers ::
  "(string, u8 list) memory_tier \<Rightarrow> disk \<Rightarrow> remote_db \<Rightarrow> counters \<Rightarrow> counters \<Rightarrow> counters \<Rightarrow>
   (walk_state, string, u8 list, io_error) slots"
where
  "walk_tiers m w r c0 c1 c2 =
     [\<lparr>slot_ops = adapter id walk_hot, slot_state = Inl m, writable = True, slot_counters = c0\<rparr>,
      \<lparr>slot_ops = adapter id walk_warm, slot_state = Inr (Inl w), writable = True, slot_counters = c1\<rparr>,
      \<lparr>slot_ops = adapter id walk_cold, slot_state = Inr (Inr r), writable = True, slot_counters = c2\<rparr>]"

lemma walk_cache_eq:
  "walk_cache m w r =
     \<lparr>tc_router = \<lparr>rt_tiers = walk_tiers m w r counters_default counters_default counters_default,
                   rt_policy = cache_default_policy\<rparr>, tc_gates = sf_new 1, tc_single_flight = True\<rparr>"
  by (simp add: walk_cache_def cache_build_def cache_builder_tier_def cache_builder_new_def builder_build_def
      builder_tier_def builder_policy_def builder_new_def walk_tiers_def)

lemma walk_shape [simp]:
  "length (walk_tiers m w r c0 c1 c2) = 3" "writable (walk_tiers m w r c0 c1 c2 ! 0)"
  "bump 0 c x (walk_tiers m w r c0 c1 c2) = walk_tiers m w r (counter_add c (of_nat x) c0) c1 c2"
  "bump (Suc 0) c x (walk_tiers m w r c0 c1 c2) = walk_tiers m w r c0 (counter_add c (of_nat x) c1) c2"
  "bump (Suc (Suc 0)) c x (walk_tiers m w r c0 c1 c2) = walk_tiers m w r c0 c1 (counter_add c (of_nat x) c2)"
  by (simp_all add: walk_tiers_def bump_def numeral_2_eq_2)

definition walk_parts :: "nat \<Rightarrow> nat \<Rightarrow> (string, u8 list) memory_tier \<Rightarrow> disk \<Rightarrow> remote_db \<Rightarrow> rollover \<Rightarrow> bool" where
  "walk_parts b n m w r a \<longleftrightarrow>
     fifo_memory b n m (ro_hot a) \<and> [] \<notin> fst ` set (ro_hot a) \<and> dk_faults w = [] \<and> disk_contents w = ro_warm a \<and>
     mt_eviction (rd_inner r) = Fifo \<and> memory_con (rd_inner r) = ro_cold a \<and> rd_fetches r = ro_fetches a"

lemma db_get_fifo:
  "mt_eviction (rd_inner r) = Fifo \<Longrightarrow>
   db_get r k = (Ok (memory_con (rd_inner r) k), r\<lparr>rd_fetches := rd_fetches r + 1\<rparr>)"
  by (simp add: db_get_def on_db_def memory_get_def memory_con_def Let_def mem_fetch_def split_def mem_con_def)

lemma walk_reads:
  assumes "walk_parts b n m w r a" "k \<noteq> []"
  shows "call 0 (\<lambda>t s. t_get_many t s [k]) (walk_tiers m w r c0 c1 c2) = (Ok [map_of (ro_hot a) k], walk_tiers m w r c0 c1 c2)"
    "call (Suc 0) (\<lambda>t s. t_get_many t s [k]) (walk_tiers m w r c0 c1 c2) = (Ok [ro_warm a k], walk_tiers m w r c0 c1 c2)"
    "call (Suc (Suc 0)) (\<lambda>t s. t_get_many t s [k]) (walk_tiers m w r c0 c1 c2) =
      (Ok [ro_cold a k], walk_tiers m w (r\<lparr>rd_fetches := rd_fetches r + 1\<rparr>) c0 c1 c2)"
proof -
  have "memory_get_many m [k] = (Ok [map_of (ro_hot a) k] :: (_, io_error) result, m)"
    using assms(1) by (intro fifo_memory_read(1) [of b n]) (simp add: walk_parts_def)
  with assms warm_reads [of w k]
  show "call 0 (\<lambda>t s. t_get_many t s [k]) (walk_tiers m w r c0 c1 c2) = (Ok [map_of (ro_hot a) k], walk_tiers m w r c0 c1 c2)"
    "call (Suc 0) (\<lambda>t s. t_get_many t s [k]) (walk_tiers m w r c0 c1 c2) = (Ok [ro_warm a k], walk_tiers m w r c0 c1 c2)"
    "call (Suc (Suc 0)) (\<lambda>t s. t_get_many t s [k]) (walk_tiers m w r c0 c1 c2) =
      (Ok [ro_cold a k], walk_tiers m w (r\<lparr>rd_fetches := rd_fetches r + 1\<rparr>) c0 c1 c2)"
    by (simp_all add: call_def walk_tiers_def walk_hot_def walk_warm_def walk_cold_def walk_parts_def numeral_2_eq_2
      db_ops_def db_get_fifo Let_def)
qed

lemma walk_fill:
  assumes rel: "walk_parts (Suc b) n m w r a" and "0 < n" "k \<noteq> []" "HEADER + length (as_bytes k) + length v \<le> sz"
  obtains m' w' c0' c1' where
    "fill_one cache_default_policy (\<lambda>t s. t_put_many t s [(k, v)]) (Suc 0) 0 (walk_tiers m w r c0 c1 c2) =
       walk_tiers m' w' r c0' c1' c2" "walk_parts b n m' w' r (ro_fill n sz k v a)"
proof -
  have p: "fifo_memory (Suc b) n m (ro_hot a)" "[] \<notin> fst ` set (ro_hot a)" "dk_faults w = []"
    using rel by (simp_all add: walk_parts_def)
  obtain d es where f: "fifo_put n k v (ro_hot a) = (d, es)" by fastforce
  obtain m' where m': "memory_put_many m [(k, v)] = (Ok d :: (_, io_error) result, m')" "fifo_memory b n m' es"
    by (rule fifo_memory_put [OF p(1) assms(2) f])
  have fill: "ro_fill n sz k v a = a\<lparr>ro_hot := es, ro_warm := ro_warm a ++ pend d\<rparr>"
    using assms(4) f by (simp add: ro_fill_def)
  have keys: "[] \<notin> fst ` set es" using fifo_put_keys [OF f] p(2) assms(3) by auto
  let ?c0 = "counter_add Puts 1 c0"
  have call: "call 0 (\<lambda>t s. t_put_many t s [(k, v)]) (walk_tiers m w r c0 c1 c2) = (Ok d, walk_tiers m' w r c0 c1 c2)"
    using m'(1) by (simp add: walk_tiers_def call_def walk_hot_def)
  consider "d = []" | j u where "d = [(j, u)]" "j \<noteq> []" using fifo_put_short [OF f] p(2) by force
  then show thesis
  proof cases
    case 1
    have "walk_parts b n m' w r (ro_fill n sz k v a)" using rel m'(2) keys fill 1 by (simp add: walk_parts_def)
    with call 1 show thesis by (intro that [of m' w ?c0 c1]) (simp_all add: fill_one_def)
  next
    case (2 j u)
    obtain w' where w': "t_put (disk_ops_on id) w j u = (Ok [], w')" "dk_faults w' = []"
        "disk_contents w' = (disk_contents w)(j \<mapsto> u)"
      by (rule warm_put [OF p(3) 2(2)])
    have "demote 0 d (walk_tiers m' w r ?c0 c1 c2) = ([], walk_tiers m' w' r ?c0 (counter_add Puts 1 c1) c2)"
      using 2 w'(1) by (simp add: demote_def upt_rec walk_tiers_def call_def bump_def walk_warm_def)
    moreover have "walk_parts b n m' w' r (ro_fill n sz k v a)" using rel m'(2) keys fill 2 w' by (simp add: walk_parts_def)
    ultimately show thesis using call 2
      by (intro that [of m' w' ?c0 "counter_add Puts 1 c1"]) (simp_all add: fill_one_def Let_def)
  qed
qed

lemma walk_parts_mono: "walk_parts (Suc b) n m w r a \<Longrightarrow> walk_parts b n m w r a"
  by (simp add: walk_parts_def fifo_memory_def roomy_def)

lemma walk_read_one:
  assumes rel: "walk_parts (Suc b) n m w r a" and ok: "0 < n" "k \<noteq> []"
    and fits: "\<And>v. ro_warm a k = Some v \<or> ro_cold a k = Some v \<Longrightarrow> HEADER + length (as_bytes k) + length v \<le> sz"
  shows "\<exists>x m' w' r' c0' c1' c2'.
    router_read_one \<lparr>rt_tiers = walk_tiers m w r c0 c1 c2, rt_policy = cache_default_policy\<rparr> k =
      (Ok x, \<lparr>rt_tiers = walk_tiers m' w' r' c0' c1' c2', rt_policy = cache_default_policy\<rparr>) \<and>
    cache_get_answer (Ok x) = Ok (fst (ro_get n sz k a)) \<and> walk_parts b n m' w' r' (snd (ro_get n sz k a))"
proof -
  note reads = walk_reads [OF rel ok(2)]
  note defs = router_read_one_def router_read_many_def promote_batch_def ro_get_def reads Let_def
  have fill: "\<exists>m' w' c0' c1'. fill_one cache_default_policy (\<lambda>t s. t_put_many t s [(k, v)]) (Suc 0) 0
      (walk_tiers m w r'' d0 d1 d2) = walk_tiers m' w' r'' c0' c1' d2 \<and> walk_parts b n m' w' r'' (ro_fill n sz k v a')"
    if "walk_parts (Suc b) n m w r'' a'" "HEADER + length (as_bytes k) + length v \<le> sz" for v r'' a' d0 d1 d2
    using walk_fill [OF that(1) ok that(2)] by metis
  note keep = walk_parts_mono [OF rel]
  let ?r = "r\<lparr>rd_fetches := rd_fetches r + 1\<rparr>" and ?a = "a\<lparr>ro_fetches := ro_fetches a + 1\<rparr>"
  have rel': "walk_parts (Suc b) n m w ?r ?a" using rel by (simp add: walk_parts_def)
  consider v where "map_of (ro_hot a) k = Some v"
    | v where "map_of (ro_hot a) k = None" "ro_warm a k = Some v"
    | v where "map_of (ro_hot a) k = None" "ro_warm a k = None" "ro_cold a k = Some v"
    | "map_of (ro_hot a) k = None" "ro_warm a k = None" "ro_cold a k = None" by fastforce
  then show ?thesis
  proof cases
    case 1
    then show ?thesis using keep by (simp add: defs) blast
  next
    case (2 v)
    then show ?thesis using fill [OF rel fits, of v] by (simp add: defs) blast
  next
    case (3 v)
    then show ?thesis using fill [OF rel' fits, of v] by (simp add: defs) blast
  next
    case 4
    then show ?thesis using walk_parts_mono [OF rel'] by (simp add: defs) blast
  qed
qed

definition walk_rel :: "nat \<Rightarrow> nat \<Rightarrow> walk \<Rightarrow> rollover \<Rightarrow> bool" where
  "walk_rel b n c a \<longleftrightarrow>
     gates_idle (tc_gates c) \<and> tc_single_flight c \<and>
     (\<exists>m w r c0 c1 c2. tc_router c = \<lparr>rt_tiers = walk_tiers m w r c0 c1 c2, rt_policy = cache_default_policy\<rparr> \<and>
        walk_parts b n m w r a)"

lemma walk_relI:
  assumes "gates_idle (tc_gates c)" "tc_single_flight c" "walk_parts b n m w r a"
    and "tc_router c = \<lparr>rt_tiers = walk_tiers m w r c0 c1 c2, rt_policy = cache_default_policy\<rparr>"
  shows "walk_rel b n c a"
  using assms unfolding walk_rel_def by blast

lemma walk_get_rel:
  assumes "walk_rel (Suc b) n c a" "0 < n" "k \<noteq> []"
    and "\<And>v. ro_warm a k = Some v \<or> ro_cold a k = Some v \<Longrightarrow> HEADER + length (as_bytes k) + length v \<le> sz"
  obtains c' where "cache_get c k = (Ok (fst (ro_get n sz k a)), c')" "walk_rel b n c' (snd (ro_get n sz k a))"
proof -
  obtain m w r c0 c1 c2 where t: "tc_router c = \<lparr>rt_tiers = walk_tiers m w r c0 c1 c2, rt_policy = cache_default_policy\<rparr>"
      "walk_parts (Suc b) n m w r a" "gates_idle (tc_gates c)" "tc_single_flight c"
    using assms(1) unfolding walk_rel_def by blast
  obtain g where g: "gates_idle g" "cache_get c k = (cache_get_answer (fst (router_read_one (tc_router c) k)),
      c\<lparr>tc_router := snd (router_read_one (tc_router c) k), tc_gates := g\<rparr>)"
    by (rule cache_get_alone [OF t(3,4)])
  obtain x m' w' r' c0' c1' c2' where x: "router_read_one (tc_router c) k =
      (Ok x, \<lparr>rt_tiers = walk_tiers m' w' r' c0' c1' c2', rt_policy = cache_default_policy\<rparr>)"
      "cache_get_answer (Ok x) = Ok (fst (ro_get n sz k a))" "walk_parts b n m' w' r' (snd (ro_get n sz k a))"
    using walk_read_one [OF t(2) assms(2,3,4), of c0 c1 c2] t(1) by metis
  show thesis
    by (rule that [of "c\<lparr>tc_router := snd (router_read_one (tc_router c) k), tc_gates := g\<rparr>"])
       (use g x t(4) in \<open>auto intro: walk_relI\<close>)
qed

section \<open>What the program prints\<close>

lemma walk_get_demo:
  assumes "walk_rel (Suc b) 2 c (demo_state hot warm cold f)" "k \<noteq> []" "length k \<le> 100" "k \<in> set hot \<union> set warm \<union> set cold"
  obtains c' where "walk_get c k = Some (True, c')"
    "walk_rel b 2 c' (if k \<in> set hot then demo_state hot warm cold f
       else demo_push k hot warm cold (if k \<in> set warm then f else f + 1))"
proof (rule walk_get_rel [OF assms(1) _ assms(2), of 256])
  fix v assume "ro_warm (demo_state hot warm cold f) k = Some v \<or> ro_cold (demo_state hot warm cold f) k = Some v"
  then have "v = demo_record k" by (auto simp: demo_state_def split: if_splits)
  then show "HEADER + length (as_bytes k) + length v \<le> 256" using assms(3) by (simp add: HEADER_def)
next
  fix c' assume "cache_get c k = (Ok (fst (ro_get 2 256 k (demo_state hot warm cold f))), c')"
    "walk_rel b 2 c' (snd (ro_get 2 256 k (demo_state hot warm cold f)))"
  then show thesis using that demo_get [OF assms(3,4), of f] by (simp add: walk_get_def expect_def)
qed simp

lemma walk_handles:
  assumes "walk_rel b 2 c (demo_state hot warm cold f)" "k \<noteq> []"
  shows "walk_fetches c = f"
    "expect (handle_get walk_hot 0 k c) = Some (if k \<in> set hot then Some (demo_record k) else None, c)"
    "expect (handle_get walk_warm 1 k c) = Some (if k \<in> set warm then Some (demo_record k) else None, c)"
proof -
  obtain m w r c0 c1 c2 where t: "tc_router c = \<lparr>rt_tiers = walk_tiers m w r c0 c1 c2, rt_policy = cache_default_policy\<rparr>"
      "walk_parts b 2 m w r (demo_state hot warm cold f)"
    using assms(1) unfolding walk_rel_def by blast
  then have p: "fifo_memory b 2 m (demo_entries hot)" "dk_faults w = []" "disk_contents w = map_of (demo_entries warm)"
      "rd_fetches r = f" by (simp_all add: walk_parts_def demo_state_def)
  have same: "set_tier_of 0 (Inl m) c = c" "set_tier_of 1 (Inr (Inl w)) c = c"
    by (rule tiered_cache.equality; use t(1) in \<open>simp add: set_tier_of_def walk_tiers_def\<close>)+
  show "walk_fetches c = f" using t(1) p(4) by (simp add: walk_fetches_def db_fetches_def tier_of_def walk_tiers_def)
  have "memory_get m k = (Ok (map_of (demo_entries hot) k) :: (_, io_error) result, m)" by (rule fifo_memory_read(2) [OF p(1)])
  then show "expect (handle_get walk_hot 0 k c) = Some (if k \<in> set hot then Some (demo_record k) else None, c)"
    using t(1) same(1) by (simp add: handle_get_def tier_of_def walk_tiers_def walk_hot_def expect_def)
  have "disk_get w k = (Ok (map_of (demo_entries warm) k), w)" using sound_get [OF p(2) assms(2)] p(3) by simp
  then show "expect (handle_get walk_warm 1 k c) = Some (if k \<in> set warm then Some (demo_record k) else None, c)"
    using t(1) same(2) by (simp add: handle_get_def tier_of_def walk_tiers_def walk_warm_def disk_ops_on_def expect_def)
qed

text \<open>Filling the database, which has no bound.\<close>

lemma db_put_free:
  assumes "tier_limits (rd_inner r) = \<lparr>lim_entries = None, lim_bytes = None\<rparr>"
  obtains m where "db_put r k v = (Ok [], r\<lparr>rd_inner := set_inner (rd_inner r) m\<rparr>)"
    "memory_con (set_inner (rd_inner r) m) = (memory_con (rd_inner r))(k \<mapsto> v)"
proof -
  let ?x = "mem_insert (mt_inner (rd_inner r)) k v (weight_of (rd_inner r) k v) (tier_limits (rd_inner r)) (mt_eviction (rd_inner r))"
  have "\<not> mem_over s (tier_limits (rd_inner r))" for s :: "(string, u8 list) inner" by (simp add: assms mem_over_def)
  then have x: "fst ?x = []" by (simp add: mem_insert_def Let_def split_def evict_over_stop)
  show thesis
  proof (rule that [of "snd ?x"])
    show "db_put r k v = (Ok [], r\<lparr>rd_inner := set_inner (rd_inner r) (snd ?x)\<rparr>)"
      using x by (simp add: db_put_def on_db_def memory_put_def split_def Let_def)
    show "memory_con (set_inner (rd_inner r) (snd ?x)) = (memory_con (rd_inner r))(k \<mapsto> v)"
      using mem_insert_con [of "mt_inner (rd_inner r)" k v "weight_of (rd_inner r) k v" "tier_limits (rd_inner r)"
          "mt_eviction (rd_inner r)"] x by (simp add: memory_con_def)
  qed
qed

lemma walk_seed_con:
  assumes "tier_limits (rd_inner r) = \<lparr>lim_entries = None, lim_bytes = None\<rparr>"
  shows "\<exists>m. walk_seed names r = Some (r\<lparr>rd_inner := set_inner (rd_inner r) m\<rparr>) \<and>
    memory_con (set_inner (rd_inner r) m) = memory_con (rd_inner r) ++ map_of (demo_entries (rev names))"
  using assms
proof (induction names arbitrary: r)
  case Nil
  show ?case by (rule exI [of _ "mt_inner (rd_inner r)"]) (simp add: demo_entries_def)
next
  case (Cons name names)
  obtain m where m: "db_put r name (demo_record name) = (Ok [] :: (_, unit) result, r\<lparr>rd_inner := set_inner (rd_inner r) m\<rparr>)"
      "memory_con (set_inner (rd_inner r) m) = (memory_con (rd_inner r))(name \<mapsto> demo_record name)"
    by (rule db_put_free [OF Cons.prems])
  let ?r = "r\<lparr>rd_inner := set_inner (rd_inner r) m\<rparr>"
  obtain m' where m': "walk_seed names ?r = Some (?r\<lparr>rd_inner := set_inner (rd_inner ?r) m'\<rparr>)"
      "memory_con (set_inner (rd_inner ?r) m') = memory_con (rd_inner ?r) ++ map_of (demo_entries (rev names))"
    using Cons.IH [of ?r] Cons.prems by (auto simp del: map_of_demo)
  show ?case
    by (rule exI [of _ m']) (use m m' in \<open>auto simp: expect_def map_add_def fun_eq_iff\<close>)
qed

lemma walk_start:
  obtains r where "walk_seed [''ada'', ''grace'', ''barbara''] db_new = Some r"
    "\<And>w. dk_faults w = [] \<Longrightarrow> disk_contents w = Map.empty \<Longrightarrow>
      walk_rel 5 2 (walk_cache (memory_bounded 2) w r) (demo_state [] [] [''barbara'', ''grace'', ''ada''] 0)"
proof -
  let ?names = "[''ada'', ''grace'', ''barbara'']" and ?u = "memory_unbounded :: (string, u8 list) memory_tier"
  have "memory_con ?u = Map.empty" by (simp add: memory_con_def memory_unbounded_def mem_con_def mem_empty_def)
  moreover have lim: "tier_limits (rd_inner db_new) = \<lparr>lim_entries = None, lim_bytes = None\<rparr>"
    by (simp add: db_new_def tier_limits_def memory_unbounded_def)
  ultimately obtain m where m: "walk_seed ?names db_new = Some (db_new\<lparr>rd_inner := set_inner ?u m\<rparr>)"
      "memory_con (set_inner ?u m) = map_of (demo_entries (rev ?names))"
    using walk_seed_con [OF lim, of ?names] by (auto simp: db_new_def)
  show thesis
  proof (rule that [OF m(1)])
    fix w assume "dk_faults w = []" "disk_contents w = Map.empty"
    then have "walk_parts 5 2 (memory_bounded 2) w (db_new\<lparr>rd_inner := set_inner ?u m\<rparr>) (demo_state [] [] (rev ?names) 0)"
      using m(2) fifo_memory_new [of 5 2]
      by (simp add: walk_parts_def demo_state_def) (simp add: demo_entries_def db_new_def memory_unbounded_def)
    then show "walk_rel 5 2 (walk_cache (memory_bounded 2) w (db_new\<lparr>rd_inner := set_inner ?u m\<rparr>))
        (demo_state [] [] [''barbara'', ''grace'', ''ada''] 0)"
      by (intro walk_relI) (auto simp: walk_cache_eq gates_idle_def sf_new_def)
  qed
qed

text \<open>
  The example prints what its comments say: when the disk tier opens on an empty root without
  faults, the first read of a key costs one fetch of the remote database, a repeated read none; the
  third key pushes the first out of memory onto the disk, and reading it again costs no fetch.
\<close>

theorem hot_warm_cold_prints:
  assumes "dk_faults w = []" "disk_contents w = Map.empty"
  shows "walk_main root (Ok w) =
    Some [Layout root, Fetched ''get(ada)'' 1, Fetched ''get(ada)'' 1, Fetched ''get(grace), get(barbara)'' 3,
          Rolled False True, Fetched ''get(ada)'' 3]"
proof -
  let ?zs = "[''barbara'', ''grace'', ''ada'']"
  obtain r where r: "walk_seed [''ada'', ''grace'', ''barbara''] db_new = Some r"
      "walk_rel 5 2 (walk_cache (memory_bounded 2) w r) (demo_state [] [] ?zs 0)"
    using assms by (rule_tac walk_start) blast
  let ?c = "walk_cache (memory_bounded 2) w r"
  obtain c1 where c1: "walk_get ?c ''ada'' = Some (True, c1)" "walk_rel 4 2 c1 (demo_state [''ada''] [] ?zs 1)"
    by (rule walk_get_demo [of 4 ?c "[]" "[]" ?zs 0 "''ada''"]) (use r(2) in \<open>simp_all add: demo_push_def\<close>)
  obtain c2 where c2: "walk_get c1 ''ada'' = Some (True, c2)" "walk_rel 3 2 c2 (demo_state [''ada''] [] ?zs 1)"
    by (rule walk_get_demo [of 3 c1 "[''ada'']" "[]" ?zs 1 "''ada''"]) (use c1(2) in \<open>simp_all add: demo_push_def\<close>)
  obtain c3 where c3: "walk_get c2 ''grace'' = Some (True, c3)" "walk_rel 2 2 c3 (demo_state [''ada'', ''grace''] [] ?zs 2)"
    by (rule walk_get_demo [of 2 c2 "[''ada'']" "[]" ?zs 1 "''grace''"]) (use c2(2) in \<open>simp_all add: demo_push_def\<close>)
  obtain c4 where c4: "walk_get c3 ''barbara'' = Some (True, c4)"
      "walk_rel 1 2 c4 (demo_state [''grace'', ''barbara''] [''ada''] ?zs 3)"
    by (rule walk_get_demo [of 1 c3 "[''ada'', ''grace'']" "[]" ?zs 2 "''barbara''"])
       (use c3(2) in \<open>simp_all add: demo_push_simps\<close>)
  obtain c5 where c5: "walk_get c4 ''ada'' = Some (True, c5)"
      "walk_rel 0 2 c5 (demo_state [''barbara'', ''ada''] [''grace'', ''ada''] ?zs 3)"
    by (rule walk_get_demo [of 0 c4 "[''grace'', ''barbara'']" "[''ada'']" ?zs 3 "''ada''"])
       (use c4(2) in \<open>simp_all add: demo_push_def\<close>)
  show ?thesis
    using walk_handles(1) [OF c1(2), of "''ada''"] walk_handles(1) [OF c2(2), of "''ada''"]
      walk_handles [OF c4(2), of "''ada''"] walk_handles(1) [OF c5(2), of "''ada''"]
    by (simp add: walk_main_def expect_def [of "(Ok w, ())"] r(1) c1(1) c2(1) c3(1) c4(1) c5(1) del: walk_seed.simps)
qed

theorem hot_warm_cold_prints_witness:
  "walk_main ''/tmp/x'' (Ok blank_disk) =
    Some [Layout ''/tmp/x'', Fetched ''get(ada)'' 1, Fetched ''get(ada)'' 1, Fetched ''get(grace), get(barbara)'' 3,
          Rolled False True, Fetched ''get(ada)'' 3]"
  by (rule hot_warm_cold_prints) simp_all

end
