(* ===== verification/Spec2Isabelle.thy ===== *)
theory Spec2Isabelle
  imports Memory_History Verified_Tier Codec_Tier Limited_Tier Tiered_Store Tiered_Cache Disk_Tier Mmap_Contract Slot_Tier
    Remote_Store Offload_Tier Arc_Tier Moka_Tier Disk_Race Mmap_Linear Rollover_Demo Router_Errors Router_Aborts Hot_Warm_Cold
begin

text \<open>
  Verification of tierstore, a library of tiered key/value storage.

  \<^bold>\<open>The program.\<close> A \<^emph>\<open>tier\<close> is a key/value backend behind the capability traits of
  \<open>tierstore-core/src/tier.rs\<close>. A tier may be bounded: what a put pushes out is not dropped but
  returned to the caller. A \<^emph>\<open>router\<close> (\<open>tierstore/src/router.rs\<close>) stacks tiers, the topmost the
  fastest, reads downwards, promotes hits, writes through or around, and demotes what an upper tier
  displaces into the tiers below it. Which tier is probed, filled or given up on is decided by a
  pure state machine without input and output, \<open>ReadFlow\<close> (\<open>tierstore-core/src/read.rs\<close>), from the
  \<open>Policy\<close> (\<open>policy.rs\<close>). Two facades preset the policy: \<open>TieredStore\<close> (\<open>store.rs\<close>) turns evicted
  entries into an error, \<open>TieredCache\<close> (\<open>cache.rs\<close>) reads through, fills misses from a loader and
  coalesces the fills of one key behind the gates of \<open>single_flight.rs\<close>. Backends are \<open>MemoryTier\<close>
  (\<open>memory.rs\<close>), \<open>DiskTier\<close> (\<open>disk.rs\<close>), \<open>MmapDiskTier\<close> (\<open>tierstore-mmap\<close>), \<open>MokaTier\<close> (\<open>tierstore-moka\<close>)
  and the two of the rollover demo; middleware tiers wrap another tier: \<open>VerifiedTier\<close>, \<open>CodecTier\<close>,
  \<open>LimitedTier\<close>, \<open>OffloadTier\<close>, and \<open>Arc\<close>.

  \<^bold>\<open>Interfaces.\<close> \<open>Tier_Traits\<close> has the traits as a record of functions on a state (\<open>tier_ops\<close>) and their
  contract as a chain of locales: \<open>single_laws\<close> (single-key operations, which may fail), \<open>tier_laws\<close>
  (batches too), \<open>default_batch\<close> (a tier that inherits the default batch loops; a sublocale shows that
  this is enough for \<open>tier_laws\<close>), \<open>reliable_tiers\<close> and \<open>reliable_default\<close> (operations that do not fail);
  \<open>absorbing_tiers\<close> (\<open>Router_Absorb\<close>) and \<open>lasting_tiers\<close> (\<open>Router_Keeps\<close>) are tiers that never displace.
  Routers, stores and middleware are proved against these locales, backends are their
  interpretations, and routers, stores and wrapped tiers are interpretations again, so hierarchies
  nest. \<open>Tier_Wrapping\<close> proves once what every forwarding wrapper needs. \<open>Wait_Queue\<close> is the locale of
  wakers that the gates and the semaphore share. \<open>genuine_tiers\<close> (\<open>Codec_Tier\<close>) are tiers that never
  make up an entry.

  \<^bold>\<open>The core.\<close>

  \<^item> \<open>Tier_Prelude\<close>: results, machine integers, hash maps, displaced entries and layered maps.
  \<^item> \<open>Policy\<close>: \<open>policy.rs\<close>. \<open>Errors_Reports\<close>: \<open>error.rs\<close> and \<open>report.rs\<close>. \<open>Error_Display\<close>: what the
    errors of the library display and which source they name.
  \<^item> \<open>Read_Flow\<close>: \<open>read.rs\<close>. \<open>on_get\<close> and \<open>on_promote\<close> are partial functions whose \<open>None\<close> is the panic of
    the source; the driver loop of the module's documentation is \<open>drive\<close>. Shown: no reachable state
    panics, the loop ends, and its outcome is the one a left-to-right scan of the tiers gives.
  \<^item> \<open>Memory_Core\<close>, \<open>Memory_Order\<close>, \<open>Memory_Tier\<close>, \<open>Memory_History\<close>: \<open>memory.rs\<close>. \<open>Inner\<close> with its
    invariant, the refinement to a plain queue of entries in eviction order, the trait methods with
    their interpretations, and whole histories: bounds, and equality with the queue for FIFO and LRU.
    \<open>Memory_Examples\<close> has the concrete tiers of the examples.
  \<^item> \<open>Router\<close>: the definitions of \<open>router.rs\<close>. \<open>Router_Get\<close>: the read loops end and agree with a scan.
    \<open>Router_Frame\<close>: which tiers an operation can touch, whatever the tiers do. \<open>Router_View\<close>: what a
    hierarchy serves (the layered contents of its tiers) and how demotion keeps it.
    \<open>Router_Writes\<close>, \<open>Router_Reads\<close>, \<open>Router_Batch\<close>: the operations over tiers that keep the contract.
    \<open>Router_Compose\<close>: a router over reliable tiers is a reliable tier. \<open>Router_Absorb\<close>, \<open>Router_Keeps\<close>:
    over a bottom tier that never displaces, nothing is evicted and no key is forgotten.
    \<open>Router_Errors\<close>: whatever the tiers answer, every error names the failed tiers that caused it.
    \<open>Router_Examples\<close>: concrete hierarchies. Against the documentation's claim that eviction is never
    silent: a run of a read there, and in \<open>Router_Aborts\<close> what every aborted write-through loses.
  \<^item> \<open>Tiered_Store\<close>: \<open>store.rs\<close>, and the refinement of a store to a map.
  \<^item> \<open>Single_Flight\<close>: \<open>single_flight.rs\<close> as a step relation over its critical sections: mutual exclusion
    per key and progress. \<open>Tiered_Cache\<close>: \<open>cache.rs\<close>; \<open>lookup\<close> and \<open>get_or_load\<close> are programs
    of many tasks over those gates: one loader per key at a time, one fill per miss.

  \<^bold>\<open>Middleware.\<close>

  \<^item> \<open>Verified_Tier\<close>, \<open>Codec_Tier\<close>: \<open>verified.rs\<close>, \<open>codec.rs\<close>, over an arbitrary inner tier.
  \<^item> \<open>Limited_Tier\<close>: \<open>limited.rs\<close>, the semaphore as a step relation, and the trait methods.
  \<^item> \<open>Offload_Pool\<close>, \<open>Offload_Cells\<close>, \<open>Offload_Order\<close>, \<open>Offload_Tier\<close>: \<open>offload.rs\<close>. The pool, its channel,
    workers, oneshot cells and futures as a step relation. A job is a program of actions on the inner
    tier, and the actions of jobs on different workers interleave. Jobs start in order, as many at a
    time as there are threads, every job runs once, every caller gets its own outcome, no call hangs,
    and dropping the tier waits for the queued jobs; with one thread the jobs run one after the
    other, with more they need not. Then the trait methods, for one caller at a time.
  \<^item> \<open>Arc_Tier\<close>: the optional capability traits, and the forwarding impls of \<open>Arc\<close> over a heap.
    \<open>Tier_Sum\<close>: tiers of different types in one router.

  \<^bold>\<open>Backends.\<close>

  \<^item> \<open>Hex_Names\<close>, \<open>Disk_Tier\<close>: \<open>disk.rs\<close> over a file system whose calls fail on a schedule: atomic puts,
    exact names, listing, ranged reads. \<open>Disk_Race\<close>: the same calls of many tasks, system call by
    system call over inodes: linearizable, unless two puts of one key are under way at once.
  \<^item> \<open>Mmap_Inner\<close>, \<open>Mmap_Tier\<close>, \<open>Mmap_Contract\<close>: \<open>tierstore-mmap/src/tier.rs\<close>: the index with its tickets,
    opening with the directory scan, every operation; exact accounting, lossless eviction, the budget.
    \<open>Mmap_Race\<close>, \<open>Mmap_Linear\<close>: the same calls of many tasks over inodes, the lock and the index:
    consistent and within the budget, linearizable when the calls on a key are kept apart, and two
    races that break it when they are not.
  \<^item> \<open>Moka_Tier\<close>: \<open>tierstore-moka/src/tier.rs\<close> over a table of the third-party cache's functions.
  \<^item> \<open>Slot_Record\<close>, \<open>Slot_Mmap\<close>, \<open>Slot_Queue\<close>, \<open>Slot_File\<close>, \<open>Slot_Tier\<close>: \<open>rollover-demo/src/slot_mmap.rs\<close>, the
    byte layout of its records, opening, the operations, and the refinement to a bounded queue.
    \<open>Remote_Store\<close>: \<open>rollover-demo/src/remote.rs\<close>.
  \<^item> \<open>Rollover_Stack\<close>, \<open>Rollover_Runs\<close>, \<open>Rollover_Demo\<close>: the hierarchy of the rollover demo, a cache over
    the slot store, a disk and the remote store, with its specification: a bounded queue above two
    maps. Shown: any sequence of calls is answered as specified, and as one map answers it as long
    as every value put fits a slot (one that does not leaves the older value above it); and the
    program itself, \<open>rollover-demo/src/main.rs\<close>, passes its assertions.
  \<^item> \<open>Hot_Warm_Cold\<close>: \<open>tierstore/examples/hot_warm_cold.rs\<close>, a cache over a memory tier of two entries, a
    disk and a mock of a remote database: it implements the same specification, and what it prints.

  \<^bold>\<open>How the model corresponds to the code.\<close> A method on \<open>&self\<close> with interior mutability is a
  function from a state to an answer and a new state. \<open>Result\<close> is a sum, \<open>Err\<close> its left part; a
  panic is the \<open>None\<close> of an outer option. An operation whose body waits for nothing but its inner
  tier is modelled as its result. Where tasks share state and wait (gates, semaphore, cache, thread
  pool, files, mappings), the model is a step relation: a critical section or a system call is one
  step, tasks are numbered, a waker is the task that it wakes, futures may be polled spuriously and dropped
  wherever they wait. A call of the router is one step of the cache. A job of the pool takes as many
  steps as it has actions, and it is assumed to end.
  \<open>usize\<close> is \<open>nat\<close> where the code adds list lengths, with saturation and wrapping written out where it
  is used (\<open>saturating_add\<close>, \<open>usize_sub\<close>); \<open>u64\<close> stamps and counters and all bytes are words.
  \<open>HashMap\<close> is a finite map; nothing depends on its iteration order. A \<open>String\<close> is the list of its
  UTF-8 bytes as characters; the key types of the disk and the slot tier are the strings that are not
  empty and the strings that are valid UTF-8 (\<open>file_key\<close>, \<open>rust_string\<close>). System calls may fail on a
  schedule that is part of the state. All tiers of one router share a state type, so a mixed
  hierarchy takes a sum of the states (\<open>Tier_Sum\<close>). The conversion of a tier's error into a boxed
  error is a parameter.

  \<^bold>\<open>Loops.\<close> No fuel is used. Loops over ranges are structural recursions over the list of indices;
  eviction loops end because they shorten a queue; the loops over \<open>ReadFlow\<close> and the loop that drives
  a future are partial functions. The former are shown to return for every hierarchy
  (\<open>router_get_eq\<close>, \<open>router_exists_eq\<close>), the latter iff its future is ever ready. Progress of the step
  relations is by measures.

  \<^bold>\<open>Hypotheses.\<close> The statements on routers over arbitrary tiers take the tier contract as a
  hypothesis (\<open>tier_laws\<close>, \<open>reliable_tiers\<close> or \<open>lasting_tiers\<close>), which the interpretations establish for
  the tiers of the program. The refinement of the memory tier to a queue assumes fewer than \<open>2 ^ 64\<close>
  stamps and a total weight below \<open>usize::MAX\<close>; the bounds do not. A codec is assumed to decode what
  it encoded with injective keys. The third-party cache of \<open>Moka_Tier\<close> is assumed to keep its
  documentation (\<open>moka_documented\<close>).

  \<^bold>\<open>Not modelled.\<close> \<open>Debug\<close> formatting, lock poisoning (the code continues with the data of a
  poisoned lock), the re-exports of the crate roots, what the demo prints, and the
  polling executor of the two programs (\<open>block_on\<close>; every future it is given is ready at once). Of the tier of
  memory-mapped files, only \<open>get\<close>, \<open>put\<close> and \<open>delete\<close> are part of the concurrent model.
\<close>

end
